(* ===== verification/Rust_Prelude.thy ===== *)
theory Rust_Prelude
  imports Main "HOL-Library.Multiset" "HOL-Library.Code_Target_Nat" "HOL-Library.Product_Lexorder" "HOL-Library.Sublist"
begin

text \<open>
  The vocabulary every component theory shares: the fixed-width arithmetic of the Rust
  sources (saturating, checked and wrapping operations on unsigned integers), the
  \<^verbatim>\<open>std::time::Duration\<close> values the gateway computes with, the in-place list operations of
  \<^verbatim>\<open>Vec\<close> (first-match update, \<^verbatim>\<open>position\<close>, \<^verbatim>\<open>swap_remove\<close>), the byte-string functions
  of \<^verbatim>\<open>std::str\<close>, and the generic lemmas about them.

  Unsigned integers are natural numbers; where the width matters the operation that the
  source uses is written out with its bound.  A duration is its number of nanoseconds, at
  most \<open>duration_max\<close>, the value of \<^verbatim>\<open>Duration::MAX\<close>.  Byte strings and UTF-8 strings are
  lists of characters, one character per byte.
\<close>

named_theorems rust_arith \<open>unfolding of the fixed-width operations\<close>

section \<open>Fixed-width unsigned integers\<close>

definition u8_max :: nat where
  [rust_arith]: "u8_max = 255"

definition u32_max :: nat where
  [rust_arith]: "u32_max = 4294967295"

definition u64_max :: nat where
  [rust_arith]: "u64_max = 18446744073709551615"

definition u128_max :: nat where
  [rust_arith]: "u128_max = 340282366920938463463374607431768211455"

definition saturating_add :: "nat \<Rightarrow> nat \<Rightarrow> nat \<Rightarrow> nat" where
  [rust_arith]: "saturating_add m a b = min m (a + b)"

definition checked_add :: "nat \<Rightarrow> nat \<Rightarrow> nat \<Rightarrow> nat option" where
  [rust_arith]: "checked_add m a b = (if a + b \<le> m then Some (a + b) else None)"

definition checked_sub :: "nat \<Rightarrow> nat \<Rightarrow> nat option" where
  [rust_arith]: "checked_sub a b = (if b \<le> a then Some (a - b) else None)"

definition wrapping_add :: "nat \<Rightarrow> nat \<Rightarrow> nat \<Rightarrow> nat" where
  [rust_arith]: "wrapping_add m a b = (a + b) mod Suc m"

text \<open>Subtraction of naturals stops at zero, which is Rust's \<^verbatim>\<open>saturating_sub\<close>.\<close>

abbreviation saturating_sub :: "nat \<Rightarrow> nat \<Rightarrow> nat" where
  "saturating_sub a b \<equiv> a - b"

section \<open>Durations\<close>

type_synonym duration = nat

definition duration_max :: duration where
  [rust_arith]: "duration_max = 18446744073709551615999999999"

definition from_secs :: "nat \<Rightarrow> duration" where
  [rust_arith]: "from_secs s = s * 1000000000"

definition from_millis :: "nat \<Rightarrow> duration" where
  [rust_arith]: "from_millis s = s * 1000000"

abbreviation dur_add :: "duration \<Rightarrow> duration \<Rightarrow> duration" where
  "dur_add \<equiv> saturating_add duration_max"

section \<open>In-place list operations\<close>

text \<open>\<^verbatim>\<open>iter_mut().find(p)\<close> followed by a mutation of the element found.\<close>

fun update_first :: "('a \<Rightarrow> bool) \<Rightarrow> ('a \<Rightarrow> 'a) \<Rightarrow> 'a list \<Rightarrow> 'a list" where
  "update_first p f [] = []"
| "update_first p f (x # xs) = (if p x then f x # xs else x # update_first p f xs)"

fun position :: "('a \<Rightarrow> bool) \<Rightarrow> 'a list \<Rightarrow> nat option" where
  "position p [] = None"
| "position p (x # xs) = (if p x then Some 0 else map_option Suc (position p xs))"

text \<open>\<^verbatim>\<open>Vec::swap_remove\<close>: the last element takes the place of the removed one.\<close>

definition swap_remove :: "nat \<Rightarrow> 'a list \<Rightarrow> 'a list" where
  "swap_remove i xs = butlast (xs[i := last xs])"

definition remove_at :: "nat \<Rightarrow> 'a list \<Rightarrow> 'a list" where
  "remove_at i xs = take i xs @ drop (Suc i) xs"

text \<open>\<^verbatim>\<open>Iterator::min_by_key\<close>: the first element with the least key.\<close>

fun min_by_key :: "('a \<Rightarrow> 'k::linorder) \<Rightarrow> 'a list \<Rightarrow> 'a option" where
  "min_by_key k [] = None"
| "min_by_key k (x # xs) =
     (case min_by_key k xs of None \<Rightarrow> Some x | Some y \<Rightarrow> Some (if k y < k x then y else x))"

definition min_opt :: "'k::linorder list \<Rightarrow> 'k option" where
  "min_opt xs = min_by_key id xs"

definition max_opt :: "'k::linorder list \<Rightarrow> 'k option" where
  "max_opt xs = (if xs = [] then None else Some (foldl max (hd xs) (tl xs)))"

section \<open>Byte strings\<close>

definition byte_of :: "char \<Rightarrow> nat" where
  "byte_of c = of_char c"

definition is_ascii_digit :: "char \<Rightarrow> bool" where
  "is_ascii_digit c = (48 \<le> byte_of c \<and> byte_of c \<le> 57)"

definition is_ascii_alphabetic :: "char \<Rightarrow> bool" where
  "is_ascii_alphabetic c =
     ((65 \<le> byte_of c \<and> byte_of c \<le> 90) \<or> (97 \<le> byte_of c \<and> byte_of c \<le> 122))"

definition is_ascii_alphanumeric :: "char \<Rightarrow> bool" where
  "is_ascii_alphanumeric c = (is_ascii_alphabetic c \<or> is_ascii_digit c)"

definition to_ascii_lowercase :: "string \<Rightarrow> string" where
  "to_ascii_lowercase s =
     map (\<lambda>c. if 65 \<le> byte_of c \<and> byte_of c \<le> 90 then char_of (byte_of c + 32) else c) s"

definition eq_ignore_ascii_case :: "string \<Rightarrow> string \<Rightarrow> bool" where
  "eq_ignore_ascii_case a b = (to_ascii_lowercase a = to_ascii_lowercase b)"

text \<open>
  \<^verbatim>\<open>str::trim\<close> on ASCII text: header values read through \<^verbatim>\<open>to_str\<close> are visible ASCII, space
  and tab, so the other Unicode white space never occurs in them.
\<close>

definition is_space :: "char \<Rightarrow> bool" where
  "is_space c = (byte_of c = 32 \<or> (9 \<le> byte_of c \<and> byte_of c \<le> 13))"

definition trim :: "string \<Rightarrow> string" where
  "trim s = rev (dropWhile is_space (rev (dropWhile is_space s)))"

text \<open>\<^verbatim>\<open>str::split(c)\<close>: always at least one piece.\<close>

fun split_on :: "char \<Rightarrow> string \<Rightarrow> string list" where
  "split_on c [] = [[]]"
| "split_on c (x # xs) =
     (if x = c then [] # split_on c xs
      else (case split_on c xs of [] \<Rightarrow> [[x]] | p # ps \<Rightarrow> (x # p) # ps))"

definition split_once :: "char \<Rightarrow> string \<Rightarrow> (string \<times> string) option" where
  "split_once c s =
     (case position (\<lambda>x. x = c) s of None \<Rightarrow> None | Some i \<Rightarrow> Some (take i s, drop (Suc i) s))"

definition digits_value :: "string \<Rightarrow> nat" where
  "digits_value s = foldl (\<lambda>n c. n * 10 + (byte_of c - 48)) 0 s"

text \<open>\<^verbatim>\<open>str::parse::<u64>\<close>: an optional plus sign, then digits, within the width.\<close>

definition parse_u64 :: "string \<Rightarrow> nat option" where
  "parse_u64 s =
     (let d = (case s of c # cs \<Rightarrow> if c = CHR ''+'' then cs else s | [] \<Rightarrow> [])
      in if d \<noteq> [] \<and> list_all is_ascii_digit d \<and> digits_value d \<le> u64_max
         then Some (digits_value d) else None)"

text \<open>\<^verbatim>\<open>to_string\<close> of an unsigned integer.\<close>

fun decimal :: "nat \<Rightarrow> string" where
  "decimal n = (if n < 10 then [char_of (48 + n)] else decimal (n div 10) @ [char_of (48 + n mod 10)])"

declare decimal.simps [simp del]

text \<open>\<^verbatim>\<open>str::from_utf8\<close> succeeds: the well-formed byte sequences of UTF-8.\<close>

definition utf8_cont :: "nat \<Rightarrow> nat \<Rightarrow> char \<Rightarrow> bool" where
  "utf8_cont lo hi c = (lo \<le> byte_of c \<and> byte_of c \<le> hi)"

fun valid_utf8 :: "string \<Rightarrow> bool" where
  "valid_utf8 [] = True"
| "valid_utf8 (a # r) =
     (let x = byte_of a in
      if x < 128 then valid_utf8 r
      else case r of [] \<Rightarrow> False
      | b # r2 \<Rightarrow>
          if 194 \<le> x \<and> x \<le> 223 then utf8_cont 128 191 b \<and> valid_utf8 r2
          else case r2 of [] \<Rightarrow> False
          | c # r3 \<Rightarrow>
              if 224 \<le> x \<and> x \<le> 239 then
                utf8_cont (if x = 224 then 160 else 128) (if x = 237 then 159 else 191) b
                \<and> utf8_cont 128 191 c \<and> valid_utf8 r3
              else case r3 of [] \<Rightarrow> False
              | d # r4 \<Rightarrow>
                  240 \<le> x \<and> x \<le> 244
                  \<and> utf8_cont (if x = 240 then 144 else 128) (if x = 244 then 143 else 191) b
                  \<and> utf8_cont 128 191 c \<and> utf8_cont 128 191 d \<and> valid_utf8 r4)"

section \<open>Lemmas\<close>

lemma saturating_add_le [simp]: "saturating_add m a b \<le> m"
  by (simp add: saturating_add_def)

lemma saturating_add_exact [simp]: "a + b \<le> m \<Longrightarrow> saturating_add m a b = a + b"
  by (simp add: saturating_add_def)

lemma saturating_add_ge: "a \<le> m \<Longrightarrow> a \<le> saturating_add m a b"
  by (simp add: saturating_add_def)

lemma saturating_add_mono: "a \<le> a' \<Longrightarrow> b \<le> b' \<Longrightarrow> saturating_add m a b \<le> saturating_add m a' b'"
  by (auto simp: saturating_add_def)

lemma wrapping_add_le [simp]: "wrapping_add m a b \<le> m"
  using mod_less_divisor [of "Suc m" "a + b"] by (simp add: wrapping_add_def del: mod_less_divisor)

lemma wrapping_add_1_neq: "0 < m \<Longrightarrow> a \<le> m \<Longrightarrow> wrapping_add m a 1 \<noteq> a"
proof (cases "a = m")
  case False
  assume "a \<le> m" with False have "Suc a < Suc m" by simp
  then show ?thesis by (simp add: wrapping_add_def)
qed (simp add: wrapping_add_def)

lemma length_update_first [simp]: "length (update_first p f xs) = length xs"
  by (induction xs) auto

lemma map_update_first: "(\<And>x. g (f x) = g x) \<Longrightarrow> map g (update_first p f xs) = map g xs"
  by (induction xs) auto

lemma set_update_first: "y \<in> set (update_first p f xs) \<Longrightarrow> y \<in> set xs \<or> (\<exists>x\<in>set xs. p x \<and> y = f x)"
  by (induction xs) (auto split: if_splits)

lemma update_first_find:
  "List.find p xs = Some x \<Longrightarrow>
     \<exists>ys zs. xs = ys @ x # zs \<and> p x \<and> (\<forall>y\<in>set ys. \<not> p y) \<and> update_first p f xs = ys @ f x # zs"
proof (induction xs)
  case (Cons a xs)
  show ?case
  proof (cases "p a")
    case True
    with Cons.prems have "a # xs = [] @ x # xs \<and> p x \<and> update_first p f (a # xs) = [] @ f x # xs" by simp
    then show ?thesis by (metis empty_iff empty_set)
  next
    case False
    with Cons obtain ys zs where "xs = ys @ x # zs \<and> p x \<and> (\<forall>y\<in>set ys. \<not> p y) \<and>
      update_first p f xs = ys @ f x # zs" by auto
    with False have "a # xs = (a # ys) @ x # zs \<and> p x \<and> (\<forall>y\<in>set (a # ys). \<not> p y) \<and>
      update_first p f (a # xs) = (a # ys) @ f x # zs" by auto
    then show ?thesis by blast
  qed
qed simp

lemma position_Some:
  "position p xs = Some i \<Longrightarrow> i < length xs \<and> p (xs ! i) \<and> (\<forall>j<i. \<not> p (xs ! j))"
proof (induction xs arbitrary: i)
  case (Cons a xs)
  show ?case
  proof (cases "p a")
    case False
    with Cons.prems obtain k where k: "position p xs = Some k" "i = Suc k" by auto
    with Cons.IH [of k] False show ?thesis by (auto simp: less_Suc_eq_0_disj)
  qed (use Cons.prems in auto)
qed simp

lemma position_None: "position p xs = None \<longleftrightarrow> (\<forall>x\<in>set xs. \<not> p x)"
  by (induction xs) auto

lemma mset_swap_remove: "i < length xs \<Longrightarrow> mset (swap_remove i xs) = mset xs - {#xs ! i#}"
proof (cases xs rule: rev_cases)
  case (snoc ys y)
  assume i: "i < length xs"
  show ?thesis
  proof (cases "i = length ys")
    case False
    with i snoc have i': "i < length ys" by simp
    then have "swap_remove i xs = ys[i := y]"
      using snoc by (simp add: swap_remove_def list_update_append)
    with i' snoc show ?thesis by (simp add: mset_update nth_append diff_union_swap)
  qed (simp add: snoc swap_remove_def)
qed simp

lemma mset_remove_at: "i < length xs \<Longrightarrow> mset (remove_at i xs) = mset xs - {#xs ! i#}"
proof -
  assume "i < length xs"
  then have "mset xs = mset (take i xs @ xs ! i # drop (Suc i) xs)" by (simp add: id_take_nth_drop [symmetric])
  then show ?thesis by (simp add: remove_at_def)
qed

lemma length_remove_at: "i < length xs \<Longrightarrow> length (remove_at i xs) = length xs - 1"
  by (simp add: remove_at_def)

lemma set_remove_at: "set (remove_at i xs) \<subseteq> set xs"
  by (auto simp: remove_at_def dest: in_set_takeD in_set_dropD)

lemma min_by_key_None [simp]: "min_by_key k xs = None \<longleftrightarrow> xs = []"
  by (cases xs) (auto split: option.splits)

lemma min_by_key_in: "min_by_key k xs = Some x \<Longrightarrow> x \<in> set xs"
  by (induction xs arbitrary: x) (auto split: option.splits if_splits)

lemma min_by_key_le: "min_by_key k xs = Some x \<Longrightarrow> y \<in> set xs \<Longrightarrow> k x \<le> k y"
proof (induction xs arbitrary: x y)
  case (Cons a xs)
  show ?case
  proof (cases "min_by_key k xs")
    case None
    with Cons.prems show ?thesis by simp
  next
    case (Some z)
    from Cons.IH [OF Some] have le: "w \<in> set xs \<Longrightarrow> k z \<le> k w" for w by blast
    from Cons.prems Some have "x = (if k z < k a then z else a)" by simp
    with Cons.prems(2) le show ?thesis by (fastforce simp: not_less)
  qed
qed simp

lemma min_opt_None [simp]: "min_opt xs = None \<longleftrightarrow> xs = []"
  by (simp add: min_opt_def)

lemma min_opt_in: "min_opt xs = Some x \<Longrightarrow> x \<in> set xs"
  unfolding min_opt_def by (rule min_by_key_in)

lemma min_opt_le: "min_opt xs = Some x \<Longrightarrow> y \<in> set xs \<Longrightarrow> x \<le> y"
  unfolding min_opt_def by (drule (1) min_by_key_le) simp

lemma length_filter_mono: "(\<And>x. x \<in> set xs \<Longrightarrow> P x \<Longrightarrow> Q x) \<Longrightarrow> length (filter P xs) \<le> length (filter Q xs)"
  by (induction xs) (auto simp: le_SucI)

lemma filter_filter_imp: "(\<And>x. x \<in> set xs \<Longrightarrow> P x \<Longrightarrow> Q x) \<Longrightarrow> filter P (filter Q xs) = filter P xs"
  by (auto intro!: filter_cong)

lemma set_map_filter_id [simp]: "u \<in> set (List.map_filter id xs) \<longleftrightarrow> Some u \<in> set xs"
  by (induction xs) (auto simp: List.map_filter_simps split: option.splits)

lemma map_filter_set: "y \<in> set (List.map_filter f xs) \<longleftrightarrow> (\<exists>x\<in>set xs. f x = Some y)"
  by (force simp: List.map_filter_def)

lemma sum_list_bounded: "(\<And>x. x \<in> set xs \<Longrightarrow> f x \<le> m) \<Longrightarrow> (\<Sum>x\<leftarrow>xs. f x) \<le> length xs * (m::nat)"
  by (induction xs) (auto simp: add_mono)

lemma subseq_set: "subseq xs ys \<Longrightarrow> set xs \<subseteq> set ys"
  by (induction rule: list_emb.induct) auto

lemma subseq_sorted_wrt: "subseq xs ys \<Longrightarrow> sorted_wrt P ys \<Longrightarrow> sorted_wrt P xs"
  by (induction rule: list_emb.induct) (auto dest: subseq_set)

lemma distinct_conv_sorted: "distinct xs \<longleftrightarrow> sorted_wrt (\<noteq>) xs"
  by (induction xs) auto

text \<open>An element of a list with what is left of it and right of it.\<close>

lemma nth_decomp:
  assumes "n < length xs"
  obtains A B where "xs = A @ xs ! n # B" "set xs = insert (xs ! n) (set (A @ B))" "remove_at n xs = A @ B"
    "\<And>y. xs[n := y] = A @ y # B"
proof -
  let ?A = "take n xs" and ?B = "drop (Suc n) xs"
  have xs: "xs = ?A @ xs ! n # ?B" by (rule id_take_nth_drop [OF assms])
  moreover have "set xs = insert (xs ! n) (set (?A @ ?B))" by (subst xs) simp
  ultimately show thesis by (rule that) (simp_all add: remove_at_def upd_conv_take_nth_drop [OF assms])
qed

lemma split_on_nonempty [simp]: "split_on c s \<noteq> []"
  by (cases s) (auto split: list.splits)

section \<open>Systems of guarded steps\<close>

text \<open>
  A component whose operations all keep an invariant: \<open>step s x\<close> is the state after operation
  \<open>x\<close>, \<open>ok\<close> says that the arguments of the operation are well-typed machine values.  Every
  component with operations of its own interprets this locale.
\<close>

locale guarded_system =
  fixes step :: "'s \<Rightarrow> 'x \<Rightarrow> 's"
    and ok :: "'x \<Rightarrow> bool"
    and inv :: "'s \<Rightarrow> bool"
  assumes step_inv: "inv s \<Longrightarrow> ok x \<Longrightarrow> inv (step s x)"
begin

lemma run_inv: "inv s \<Longrightarrow> list_all ok xs \<Longrightarrow> inv (foldl step s xs)"
  by (induction xs arbitrary: s) (auto intro: step_inv)

lemma run_prefix_inv: "inv s \<Longrightarrow> list_all ok (xs @ ys) \<Longrightarrow> inv (foldl step s xs)"
  by (auto intro: run_inv)

end

section \<open>Owners of a resource that is checked before it is taken\<close>

text \<open>
  The interface between the admission queue and the ledger it owns.  A check may normalise the
  state (expired debits are dropped) but never changes what another check at the same time
  answers, and taking what a check granted succeeds.  The client may therefore look at any
  number of candidates first and take one of the granted ones afterwards.
\<close>

locale checked_owner =
  fixes inv :: "'s \<Rightarrow> bool"
    and chk :: "'s \<Rightarrow> 't \<Rightarrow> 'c \<Rightarrow> ('e + unit) \<times> 's"
    and adm :: "'s \<Rightarrow> 't \<Rightarrow> 'c \<Rightarrow> 'd \<times> 's"
    and granted :: "'d \<Rightarrow> bool"
  assumes chk_inv: "inv s \<Longrightarrow> inv (snd (chk s t c))"
    and chk_stable: "chk (snd (chk s t c)) t c' = chk s t c'"
    and adm_stable: "adm (snd (chk s t c)) t c' = adm s t c'"
    and adm_granted: "inv s \<Longrightarrow> fst (chk s t c) = Inr () \<Longrightarrow> granted (fst (adm s t c))"
begin

lemma looks_inv: "inv s \<Longrightarrow> inv (foldl (\<lambda>s c. snd (chk s t c)) s cs)"
  by (induction cs arbitrary: s) (auto simp: chk_inv)

lemma looks_stable: "chk (foldl (\<lambda>s c. snd (chk s t c)) s cs) t c = chk s t c"
  by (induction cs arbitrary: s) (auto simp: chk_stable)

lemma looks_adm: "adm (foldl (\<lambda>s c. snd (chk s t c)) s cs) t c = adm s t c"
  by (induction cs arbitrary: s) (auto simp: adm_stable)

lemma looked_granted:
  "inv s \<Longrightarrow> fst (chk s t c) = Inr () \<Longrightarrow> granted (fst (adm (foldl (\<lambda>s c. snd (chk s t c)) s cs) t c))"
  by (simp add: looks_adm adm_granted)

end

end
