(* ===== verification/Gateway_Config.thy ===== *)
theory Gateway_Config
  imports Rust_Prelude
begin

text \<open>
  The configuration data of \<^verbatim>\<open>config.rs\<close>, the estimators of \<^verbatim>\<open>input_estimate.rs\<close> and the
  validation of \<^verbatim>\<open>config/validate.rs\<close>, which turns the decoded TOML document (the \<open>_input\<close>
  records) into a \<open>config\<close> or the first error in the order of the source.

  Code of other crates is the record \<open>config_libs\<close>: the URL parser (a parsed URL is the record
  of the components the sources read), the parser of socket addresses, the two tokenizers, and
  whether the executable was built with them.
\<close>

section \<open>Data\<close>

text \<open>\<^verbatim>\<open>Limit::Known\<close> carries a \<^verbatim>\<open>NonZeroU64\<close>: see \<open>limit_ok\<close>.\<close>

datatype limit = Known nat | Unknown | Unlimited

fun limit_ok :: "limit \<Rightarrow> bool" where
  "limit_ok (Known n) = (0 < n \<and> n \<le> u64_max)"
| "limit_ok _ = True"

datatype auth = Forward | Env string string | AuthNone

datatype accounting = Reserved | Actual

datatype cancel_policy = Drain | Close

datatype http_method = Get | Post

datatype endpoint = ChatCompletions | Responses | Messages | CountTokens | Models

fun endpoint_method :: "endpoint \<Rightarrow> http_method" where
  "endpoint_method Models = Get"
| "endpoint_method _ = Post"

fun endpoint_path :: "endpoint \<Rightarrow> string" where
  "endpoint_path ChatCompletions = ''chat/completions''"
| "endpoint_path Responses = ''responses''"
| "endpoint_path Messages = ''messages''"
| "endpoint_path CountTokens = ''messages/count_tokens''"
| "endpoint_path Models = ''models''"

record quota =
  quota_rpm :: limit
  quota_tpm :: limit

datatype input_estimator = Utf8Bytes | Cl100kBase | O200kBase

record url =
  url_scheme :: string
  url_host :: "string option"
  url_username :: string
  url_password :: "string option"
  url_path :: string
  url_query :: "string option"
  url_fragment :: "string option"
  url_text :: string

datatype ip_addr = V4 nat nat nat nat | V6 "nat list"

record config_libs =
  cl_parse_url :: "string \<Rightarrow> url option"
  cl_parse_socket_addr :: "string \<Rightarrow> (ip_addr \<times> nat) option"
  cl_bpe :: bool
  cl_cl100k_count :: "string \<Rightarrow> nat"
  cl_o200k_count :: "string \<Rightarrow> nat"

record model =
  model_id :: string
  model_max_output_tokens :: "nat option"
  model_input_estimator :: input_estimator
  model_input_token_overhead :: nat

record root =
  root_id :: string
  root_endpoints :: "endpoint list"
  root_models :: "string list"

record upstream =
  up_api_base :: url
  up_auth :: auth
  up_proxy :: "url option"
  up_ca_bundle :: "string option"

record cache_config =
  cc_ttl_secs :: nat
  cc_max_history :: nat

definition cache_is_valid :: "cache_config \<Rightarrow> bool" where
  "cache_is_valid c =
     (1 \<le> cc_ttl_secs c \<and> cc_ttl_secs c \<le> 3600 \<and> 1 \<le> cc_max_history c \<and> cc_max_history c \<le> 64)"

record config =
  cfg_listen :: "ip_addr \<times> nat"
  cfg_concurrency :: nat
  cfg_startup_hold_secs :: nat
  cfg_cache :: "cache_config option"
  cfg_cancel_policy :: cancel_policy
  cfg_accounting :: accounting
  cfg_retry_transient_429 :: bool
  cfg_upstream :: upstream
  cfg_quota :: quota
  cfg_models :: "model list"
  cfg_roots :: "root list"

datatype config_error =
    ConfigIo string
  | ConfigParse "(nat \<times> nat) option"
  | Validation string

section \<open>Estimators\<close>

fun estimator_name :: "input_estimator \<Rightarrow> string" where
  "estimator_name Utf8Bytes = ''utf8_bytes''"
| "estimator_name Cl100kBase = ''cl100k_base''"
| "estimator_name O200kBase = ''o200k_base''"

fun default_overhead :: "input_estimator \<Rightarrow> nat" where
  "default_overhead Utf8Bytes = 0"
| "default_overhead _ = 32"

definition is_available :: "config_libs \<Rightarrow> input_estimator \<Rightarrow> bool" where
  "is_available L e = (e = Utf8Bytes \<or> cl_bpe L)"

fun estimate :: "config_libs \<Rightarrow> input_estimator \<Rightarrow> string \<Rightarrow> nat \<Rightarrow> nat option" where
  "estimate L Utf8Bytes json overhead =
     (if overhead \<noteq> 0 then None
      else if length json \<le> u64_max then checked_add u64_max (length json) overhead else None)"
| "estimate L Cl100kBase json overhead =
     (if \<not> cl_bpe L then None
      else let n = cl_cl100k_count L json in if n \<le> u64_max then checked_add u64_max n overhead else None)"
| "estimate L O200kBase json overhead =
     (if \<not> cl_bpe L then None
      else let n = cl_o200k_count L json in if n \<le> u64_max then checked_add u64_max n overhead else None)"

section \<open>Input records\<close>

record auth_input =
  ai_mode :: string
  ai_header :: "string option"
  ai_name :: "string option"

record upstream_input =
  ui_api_base :: string
  ui_auth :: auth_input
  ui_proxy :: "string option"
  ui_ca_bundle :: "string option"

record limit_input =
  li_kind :: string
  li_value :: "nat option"

record model_input =
  mi_id :: string
  mi_max_output_tokens :: "nat option"
  mi_input_estimator :: input_estimator
  mi_input_token_overhead :: "nat option"

record root_input =
  ri_id :: string
  ri_endpoints :: "string list"
  ri_models :: "string list"

record config_input =
  ci_listen :: "string option"
  ci_concurrency :: "nat option"
  ci_startup_hold_secs :: "nat option"
  ci_cache :: "cache_config option"
  ci_cancel_policy :: "string option"
  ci_accounting :: "string option"
  ci_retry_transient_429 :: "bool option"
  ci_upstream :: upstream_input
  ci_rpm :: limit_input
  ci_tpm :: limit_input
  ci_models :: "model_input list"
  ci_roots :: "root_input list"

text \<open>The machine ranges of the decoded numbers.\<close>

definition input_ok :: "config_input \<Rightarrow> bool" where
  "input_ok i =
     (pred_option (\<lambda>n. n \<le> u8_max) (ci_concurrency i)
      \<and> pred_option (\<lambda>n. n \<le> u64_max) (li_value (ci_rpm i))
      \<and> pred_option (\<lambda>n. n \<le> u64_max) (li_value (ci_tpm i)))"

section \<open>Validation\<close>

type_synonym 'a checked = "config_error + 'a"

definition invalid :: "string \<Rightarrow> 'a checked" where
  "invalid message = Inl (Validation message)"

text \<open>The question mark operator of Rust.\<close>

definition and_then :: "'e + 'a \<Rightarrow> ('a \<Rightarrow> 'e + 'b) \<Rightarrow> 'e + 'b" where
  "and_then r f = (case r of Inl e \<Rightarrow> Inl e | Inr x \<Rightarrow> f x)"

definition MAX_ROOTS :: nat where
  "MAX_ROOTS = 16"

definition MAX_ROOT_ID_BYTES :: nat where
  "MAX_ROOT_ID_BYTES = 64"

definition unwrap_or :: "'a option \<Rightarrow> 'a \<Rightarrow> 'a" where
  "unwrap_or x d = (case x of None \<Rightarrow> d | Some y \<Rightarrow> y)"

definition validate_cancel_policy :: "string \<Rightarrow> cancel_policy checked" where
  "validate_cancel_policy v =
     (if v = ''drain'' then Inr Drain else if v = ''close'' then Inr Close
      else invalid ''cancel_policy must be drain or close'')"

fun is_loopback :: "ip_addr \<Rightarrow> bool" where
  "is_loopback (V4 a b c d) = (a = 127)"
| "is_loopback (V6 gs) = (gs = [0, 0, 0, 0, 0, 0, 0, 1])"

definition validate_listen :: "config_libs \<Rightarrow> string \<Rightarrow> (ip_addr \<times> nat) checked" where
  "validate_listen L v =
     (case cl_parse_socket_addr L v of
        None \<Rightarrow> invalid ''listen must be a numeric IP address and port''
      | Some (ip, port) \<Rightarrow>
          if \<not> is_loopback ip then invalid ''listen must use a loopback IP address'' else Inr (ip, port))"

definition validate_accounting :: "string \<Rightarrow> accounting checked" where
  "validate_accounting v =
     (if v = ''reserved'' then Inr Reserved else if v = ''actual'' then Inr Actual
      else invalid ''accounting must be reserved or actual'')"

definition required_nonempty :: "string \<Rightarrow> string option \<Rightarrow> string checked" where
  "required_nonempty field v =
     (case v of
        None \<Rightarrow> invalid (field @ '' is required'')
      | Some s \<Rightarrow> if s = [] then invalid (field @ '' must not be empty'') else Inr s)"

definition is_http_token :: "string \<Rightarrow> bool" where
  "is_http_token v =
     (v \<noteq> [] \<and> list_all (\<lambda>c. is_ascii_alphanumeric c \<or>
        byte_of c \<in> {33, 35, 36, 37, 38, 39, 42, 43, 45, 46, 94, 95, 96, 124, 126}) v)"

definition is_env_name :: "string \<Rightarrow> bool" where
  "is_env_name v =
     (case v of [] \<Rightarrow> False
      | c # cs \<Rightarrow> (is_ascii_alphabetic c \<or> c = CHR ''_'')
          \<and> list_all (\<lambda>c. is_ascii_alphanumeric c \<or> c = CHR ''_'') cs)"

definition is_transport_reserved_header :: "string \<Rightarrow> bool" where
  "is_transport_reserved_header v =
     (to_ascii_lowercase v \<in> set [''host'', ''content-length'', ''connection'', ''keep-alive'',
        ''proxy-authenticate'', ''proxy-authorization'', ''te'', ''trailer'', ''transfer-encoding'',
        ''upgrade'', ''x-llmgw-token'', ''x-llmgw-control-token''])"

definition reject_auth_fields :: "string \<Rightarrow> auth_input \<Rightarrow> unit checked" where
  "reject_auth_fields mode i =
     (if ai_header i \<noteq> None \<or> ai_name i \<noteq> None
      then invalid (''upstream.auth mode '' @ [CHR 0x22] @ mode @ [CHR 0x22] @ '' must not define header or name'')
      else Inr ())"

definition validate_auth :: "auth_input \<Rightarrow> auth checked" where
  "validate_auth i =
     (if ai_mode i = ''forward'' then and_then (reject_auth_fields ''forward'' i) (\<lambda>_. Inr Forward)
      else if ai_mode i = ''none'' then and_then (reject_auth_fields ''none'' i) (\<lambda>_. Inr AuthNone)
      else if ai_mode i = ''env'' then
        and_then (required_nonempty ''upstream.auth.header'' (ai_header i)) (\<lambda>header.
          if \<not> is_http_token header then invalid ''upstream.auth.header must be a valid HTTP header name''
          else if is_transport_reserved_header header
          then invalid ''upstream.auth.header is reserved by HTTP transport''
          else and_then (required_nonempty ''upstream.auth.name'' (ai_name i)) (\<lambda>name.
            if \<not> is_env_name name then invalid ''upstream.auth.name must be a valid environment variable name''
            else Inr (Env header name)))
      else invalid ''upstream.auth.mode must be forward, env, or none'')"

definition raw_query_component :: "string \<Rightarrow> string option" where
  "raw_query_component v =
     map_option (\<lambda>(_, query). case split_once (CHR ''#'') query of None \<Rightarrow> query | Some (q, _) \<Rightarrow> q)
       (split_once (CHR ''?'') v)"

definition validate_proxy :: "config_libs \<Rightarrow> string \<Rightarrow> url checked" where
  "validate_proxy L raw =
     (case cl_parse_url L raw of
        None \<Rightarrow> invalid ''upstream.proxy must be a valid absolute URL''
      | Some u \<Rightarrow>
          if url_scheme u \<notin> {''http'', ''https''} \<or> url_host u = None \<or> url_username u \<noteq> []
             \<or> url_password u \<noteq> None \<or> url_query u \<noteq> None \<or> url_fragment u \<noteq> None
          then invalid ''upstream.proxy must be an http(s) URL with a host and no credentials, query, or fragment''
          else Inr u)"

definition validate_upstream :: "config_libs \<Rightarrow> upstream_input \<Rightarrow> upstream checked" where
  "validate_upstream L i =
     (let raw_query = raw_query_component (ui_api_base i) in
      case cl_parse_url L (ui_api_base i) of
        None \<Rightarrow> invalid ''upstream.api_base must be a valid absolute URL''
      | Some u \<Rightarrow>
          if url_scheme u \<notin> {''http'', ''https''} then invalid ''upstream.api_base must use http or https''
          else if url_host u = None then invalid ''upstream.api_base URL must include a host''
          else if url_username u \<noteq> [] \<or> url_password u \<noteq> None
          then invalid ''upstream.api_base must not contain credentials or userinfo''
          else if url_fragment u \<noteq> None then invalid ''upstream.api_base must not contain a fragment''
          else if raw_query = Some [] \<or> url_query u \<noteq> raw_query
          then invalid ''upstream.api_base query must be nonempty and already use lossless URL encoding''
          else and_then (validate_auth (ui_auth i)) (\<lambda>a.
            and_then (case ui_proxy i of None \<Rightarrow> Inr None
                      | Some p \<Rightarrow> and_then (validate_proxy L p) (\<lambda>u. Inr (Some u))) (\<lambda>p.
              Inr \<lparr>up_api_base = u, up_auth = a, up_proxy = p, up_ca_bundle = ui_ca_bundle i\<rparr>)))"

definition validate_limit :: "string \<Rightarrow> limit_input \<Rightarrow> limit checked" where
  "validate_limit field i =
     (if li_kind i = ''known'' then
        (case li_value i of
           None \<Rightarrow> invalid (field @ '' kind known requires value'')
         | Some n \<Rightarrow> if n = 0 then invalid (field @ '' known value must be nonzero'') else Inr (Known n))
      else if li_kind i = ''unknown'' then
        (if li_value i \<noteq> None then invalid (field @ '' kind unknown must not define value'') else Inr Unknown)
      else if li_kind i = ''unlimited'' then
        (if li_value i \<noteq> None then invalid (field @ '' kind unlimited must not define value'') else Inr Unlimited)
      else invalid (field @ ''.kind must be known, unknown, or unlimited''))"

text \<open>One iteration of \<^verbatim>\<open>validate_models\<close>; the accumulator is the models so far.\<close>

definition validate_model :: "config_libs \<Rightarrow> model list \<Rightarrow> model_input \<Rightarrow> model list checked" where
  "validate_model L models i =
     (if mi_id i = [] then invalid ''model id must not be empty''
      else if mi_id i \<in> set (map model_id models) then invalid ''model ids must be unique''
      else if \<not> is_available L (mi_input_estimator i)
      then invalid (''input estimator '' @ estimator_name (mi_input_estimator i)
             @ '' requires an executable built with --features bpe'')
      else if mi_max_output_tokens i = Some 0
      then invalid ''model max_output_tokens must be nonzero when set''
      else
        let overhead = unwrap_or (mi_input_token_overhead i) (default_overhead (mi_input_estimator i)) in
        if mi_input_estimator i = Utf8Bytes \<and> overhead \<noteq> 0
        then invalid ''utf8_bytes requires input_token_overhead = 0''
        else Inr (models @ [\<lparr>model_id = mi_id i, model_max_output_tokens = mi_max_output_tokens i,
               model_input_estimator = mi_input_estimator i, model_input_token_overhead = overhead\<rparr>]))"

definition validate_models :: "config_libs \<Rightarrow> model_input list \<Rightarrow> model list checked" where
  "validate_models L inputs = foldl (\<lambda>acc i. and_then acc (\<lambda>models. validate_model L models i)) (Inr []) inputs"

definition validate_root_id :: "string \<Rightarrow> unit checked" where
  "validate_root_id i =
     (let starts_safely = (case i of [] \<Rightarrow> False | c # _ \<Rightarrow> is_ascii_alphanumeric c);
          rest_is_safe = list_all (\<lambda>c. is_ascii_alphanumeric c \<or> c = CHR ''-'' \<or> c = CHR ''_'') (tl i)
      in if \<not> starts_safely \<or> \<not> rest_is_safe \<or> MAX_ROOT_ID_BYTES < length i
         then invalid (''root id must be 1-64 ASCII bytes, start with a letter or digit, and contain only letters, digits, ''
                @ [CHR 0x27, CHR ''-'', CHR 0x27] @ '' or '' @ [CHR 0x27, CHR ''_'', CHR 0x27])
         else Inr ())"

definition validate_endpoint :: "string \<Rightarrow> endpoint checked" where
  "validate_endpoint v =
     (if v = ''chat/completions'' then Inr ChatCompletions
      else if v = ''responses'' then Inr Responses
      else if v = ''messages'' then Inr Messages
      else if v = ''messages/count_tokens'' then Inr CountTokens
      else if v = ''models'' then Inr Models
      else invalid ''unsupported endpoint'')"

fun collect_endpoints :: "string list \<Rightarrow> endpoint list checked" where
  "collect_endpoints [] = Inr []"
| "collect_endpoints (v # vs) =
     and_then (validate_endpoint v) (\<lambda>e. and_then (collect_endpoints vs) (\<lambda>es. Inr (e # es)))"

definition validate_root :: "model list \<Rightarrow> root list \<Rightarrow> root_input \<Rightarrow> root list checked" where
  "validate_root models roots i =
     and_then (validate_root_id (ri_id i)) (\<lambda>_.
       if ri_id i \<in> set (map root_id roots) then invalid ''duplicate root id''
       else if ri_endpoints i = [] then invalid ''each root must enable at least one endpoint''
       else if ri_models i = [] then invalid ''each root must enable at least one model''
       else if \<not> list_all (\<lambda>m. m \<in> set (map model_id models)) (ri_models i)
       then invalid ''root references an unknown model''
       else and_then (collect_endpoints (ri_endpoints i)) (\<lambda>es.
         Inr (roots @ [\<lparr>root_id = ri_id i, root_endpoints = es, root_models = ri_models i\<rparr>])))"

definition validate_roots :: "root_input list \<Rightarrow> model list \<Rightarrow> root list checked" where
  "validate_roots inputs models =
     (if MAX_ROOTS < length inputs then invalid ''configuration supports at most 16 roots''
      else foldl (\<lambda>acc i. and_then acc (\<lambda>roots. validate_root models roots i)) (Inr []) inputs)"

definition validate :: "config_libs \<Rightarrow> config_input \<Rightarrow> config checked" where
  "validate L i =
     and_then (validate_listen L (unwrap_or (ci_listen i) ''127.0.0.1:4141'')) (\<lambda>listen.
     let concurrency = unwrap_or (ci_concurrency i) 1 in
     if \<not> (1 \<le> concurrency \<and> concurrency \<le> 16) then invalid ''concurrency must be between 1 and 16''
     else
       let hold = unwrap_or (ci_startup_hold_secs i) 60 in
       if 3600 < hold then invalid ''startup_hold_secs must be between 0 and 3600''
       else if (case ci_cache i of None \<Rightarrow> False | Some c \<Rightarrow> \<not> cache_is_valid c)
       then invalid ''cache ttl_secs must be 1..3600 and max_history must be 1..64''
       else
         and_then (validate_cancel_policy (unwrap_or (ci_cancel_policy i) ''drain'')) (\<lambda>cancel.
         and_then (validate_accounting (unwrap_or (ci_accounting i) ''actual'')) (\<lambda>acc.
         and_then (validate_upstream L (ci_upstream i)) (\<lambda>up.
         and_then (validate_limit ''quota.rpm'' (ci_rpm i)) (\<lambda>rpm.
         and_then (validate_limit ''quota.tpm'' (ci_tpm i)) (\<lambda>tpm.
         and_then (validate_models L (ci_models i)) (\<lambda>models.
         and_then (validate_roots (ci_roots i) models) (\<lambda>roots.
           Inr \<lparr>cfg_listen = listen, cfg_concurrency = concurrency, cfg_startup_hold_secs = hold,
             cfg_cache = ci_cache i, cfg_cancel_policy = cancel, cfg_accounting = acc,
             cfg_retry_transient_429 = unwrap_or (ci_retry_transient_429 i) False,
             cfg_upstream = up, cfg_quota = \<lparr>quota_rpm = rpm, quota_tpm = tpm\<rparr>,
             cfg_models = models, cfg_roots = roots\<rparr>))))))))"

text \<open>\<^verbatim>\<open>registered_root_ids\<close>, which \<^verbatim>\<open>Admission::new\<close> asserts.\<close>

fun check_root_ids :: "string list \<Rightarrow> root list \<Rightarrow> unit checked" where
  "check_root_ids ids [] = Inr ()"
| "check_root_ids ids (r # rs) =
     and_then (validate_root_id (root_id r)) (\<lambda>_.
       if root_id r \<in> set ids then invalid ''duplicate root id'' else check_root_ids (root_id r # ids) rs)"

definition registered_root_ids :: "root list \<Rightarrow> unit checked" where
  "registered_root_ids roots =
     (if MAX_ROOTS < length roots then invalid ''configuration supports at most 16 roots''
      else check_root_ids [] roots)"

section \<open>What a validated configuration satisfies\<close>

lemma and_then_Inr [simp]: "and_then r f = Inr y \<longleftrightarrow> (\<exists>x. r = Inr x \<and> f x = Inr y)"
  by (cases r) (auto simp: and_then_def)

lemma and_then_simps [simp]: "and_then (Inl e) f = Inl e" "and_then (Inr x) f = f x"
  by (simp_all add: and_then_def)

lemma invalid_not_Inr [simp]: "invalid m \<noteq> Inr x"
  by (simp add: invalid_def)

definition config_ok :: "config \<Rightarrow> bool" where
  "config_ok c =
     (is_loopback (fst (cfg_listen c))
      \<and> 1 \<le> cfg_concurrency c \<and> cfg_concurrency c \<le> 16 \<and> cfg_startup_hold_secs c \<le> 3600
      \<and> pred_option cache_is_valid (cfg_cache c)
      \<and> limit_ok (quota_rpm (cfg_quota c)) \<and> limit_ok (quota_tpm (cfg_quota c))
      \<and> distinct (map model_id (cfg_models c))
      \<and> list_all (\<lambda>m. model_id m \<noteq> [] \<and> model_max_output_tokens m \<noteq> Some 0
            \<and> (model_input_estimator m = Utf8Bytes \<longrightarrow> model_input_token_overhead m = 0)) (cfg_models c)
      \<and> length (cfg_roots c) \<le> MAX_ROOTS \<and> distinct (map root_id (cfg_roots c))
      \<and> list_all (\<lambda>r. validate_root_id (root_id r) = Inr () \<and> root_endpoints r \<noteq> [] \<and> root_models r \<noteq> []
            \<and> set (root_models r) \<subseteq> set (map model_id (cfg_models c))) (cfg_roots c))"

lemma validate_limit_ok:
  "validate_limit f i = Inr l \<Longrightarrow> pred_option (\<lambda>n. n \<le> u64_max) (li_value i) \<Longrightarrow> limit_ok l"
  by (auto simp: validate_limit_def split: if_splits option.splits)

lemma foldl_and_then_Inl: "foldl (\<lambda>acc i. and_then acc (\<lambda>x. f x i)) (Inl e) is = Inl e"
  by (induction "is") auto

lemma foldl_and_then_inv:
  assumes "foldl (\<lambda>acc i. and_then acc (\<lambda>x. f x i)) (Inr a) is = Inr b" "P a 0"
    "\<And>x i y n. P x n \<Longrightarrow> f x i = Inr y \<Longrightarrow> P y (Suc n)"
  shows "P b (length is)"
proof -
  have "P b (n + length is)" if "foldl (\<lambda>acc i. and_then acc (\<lambda>x. f x i)) (Inr a) is = Inr b" "P a n" for a n
    using that
  proof (induction "is" arbitrary: a n)
    case (Cons i "is")
    then obtain y where y: "f a i = Inr y" "foldl (\<lambda>acc i. and_then acc (\<lambda>x. f x i)) (Inr y) is = Inr b"
      by (cases "f a i") (auto simp: foldl_and_then_Inl)
    from Cons.IH [OF y(2) assms(3) [OF Cons.prems(2) y(1)]] show ?case by simp
  qed simp
  from this [OF assms(1,2)] show ?thesis by simp
qed

definition models_ok :: "model list \<Rightarrow> bool" where
  "models_ok ms =
     (distinct (map model_id ms) \<and>
      list_all (\<lambda>m. model_id m \<noteq> [] \<and> model_max_output_tokens m \<noteq> Some 0
            \<and> (model_input_estimator m = Utf8Bytes \<longrightarrow> model_input_token_overhead m = 0)) ms)"

lemma validate_models_ok:
  assumes "validate_models L is = Inr ms"
  shows "models_ok ms"
proof -
  have "models_ok y" if "models_ok x" "validate_model L x i = Inr y" for x i y
    using that by (auto simp: validate_model_def models_ok_def Let_def split: if_splits)
  note step = this
  show ?thesis
    using assms [unfolded validate_models_def]
    by (rule foldl_and_then_inv [where P = "\<lambda>ms _. models_ok ms"]) (simp add: models_ok_def, rule step)
qed

definition roots_ok :: "model list \<Rightarrow> root list \<Rightarrow> bool" where
  "roots_ok ms rs =
     (distinct (map root_id rs) \<and>
      list_all (\<lambda>r. validate_root_id (root_id r) = Inr () \<and> root_endpoints r \<noteq> [] \<and> root_models r \<noteq> []
            \<and> set (root_models r) \<subseteq> set (map model_id ms)) rs)"

lemma collect_endpoints_empty [simp]: "collect_endpoints vs = Inr [] \<longleftrightarrow> vs = []"
  by (cases vs) auto

lemma validate_roots_ok:
  assumes "validate_roots is ms = Inr rs"
  shows "roots_ok ms rs \<and> length rs \<le> MAX_ROOTS"
proof -
  have step: "roots_ok ms y \<and> length y = Suc n"
    if "roots_ok ms x \<and> length x = n" "validate_root ms x i = Inr y" for x i y n
    using that by (auto simp: validate_root_def roots_ok_def list_all_iff split: if_splits)
  from assms have "\<not> MAX_ROOTS < length is"
    "foldl (\<lambda>acc i. and_then acc (\<lambda>x. validate_root ms x i)) (Inr []) is = Inr rs"
    by (auto simp: validate_roots_def split: if_splits)
  note f = this
  have "roots_ok ms rs \<and> length rs = length is"
    using f(2) by (rule foldl_and_then_inv [where P = "\<lambda>rs n. roots_ok ms rs \<and> length rs = n"])
      (simp add: roots_ok_def, rule step)
  with f(1) show ?thesis by simp
qed

lemma validated_ok:
  assumes "validate L i = Inr c" "input_ok i"
  shows "config_ok c"
proof -
  from assms(1) have "models_ok (cfg_models c)" "roots_ok (cfg_models c) (cfg_roots c) \<and> length (cfg_roots c) \<le> MAX_ROOTS"
    by (auto simp: validate_def Let_def split: if_splits dest: validate_models_ok validate_roots_ok)
  moreover from assms have "limit_ok (quota_rpm (cfg_quota c))" "limit_ok (quota_tpm (cfg_quota c))"
    by (auto simp: validate_def Let_def input_ok_def split: if_splits intro: validate_limit_ok)
  moreover from assms(1) have "is_loopback (fst (cfg_listen c))"
    "1 \<le> cfg_concurrency c \<and> cfg_concurrency c \<le> 16 \<and> cfg_startup_hold_secs c \<le> 3600"
    "pred_option cache_is_valid (cfg_cache c)"
    by (auto simp: validate_def Let_def validate_listen_def split: if_splits option.splits)
  ultimately show ?thesis by (simp add: config_ok_def models_ok_def roots_ok_def)
qed

lemma check_root_ids_ok:
  "list_all (\<lambda>r. validate_root_id (root_id r) = Inr ()) rs \<Longrightarrow> distinct (map root_id rs) \<Longrightarrow>
   set ids \<inter> set (map root_id rs) = {} \<Longrightarrow> check_root_ids ids rs = Inr ()"
  by (induction ids rs rule: check_root_ids.induct) auto

lemma config_ok_registered: "config_ok c \<Longrightarrow> registered_root_ids (cfg_roots c) = Inr ()"
  by (auto simp: config_ok_def registered_root_ids_def list_all_iff intro!: check_root_ids_ok)


text \<open>A small configuration document for the witnesses.\<close>

definition demo_config_libs :: config_libs where
  "demo_config_libs =
     \<lparr>cl_parse_url = (\<lambda>s. Some \<lparr>url_scheme = ''https'', url_host = Some ''h'', url_username = [],
        url_password = None, url_path = ''/v1'', url_query = None, url_fragment = None, url_text = s\<rparr>),
      cl_parse_socket_addr = (\<lambda>_. Some (V4 127 0 0 1, 4141)), cl_bpe = False,
      cl_cl100k_count = length, cl_o200k_count = length\<rparr>"

definition demo_input :: config_input where
  "demo_input =
     \<lparr>ci_listen = None, ci_concurrency = Some 4, ci_startup_hold_secs = Some 0, ci_cache = None,
      ci_cancel_policy = None, ci_accounting = None, ci_retry_transient_429 = None,
      ci_upstream = \<lparr>ui_api_base = ''https://h/v1'',
        ui_auth = \<lparr>ai_mode = ''forward'', ai_header = None, ai_name = None\<rparr>, ui_proxy = None, ui_ca_bundle = None\<rparr>,
      ci_rpm = \<lparr>li_kind = ''known'', li_value = Some 2\<rparr>, ci_tpm = \<lparr>li_kind = ''unknown'', li_value = None\<rparr>,
      ci_models = [\<lparr>mi_id = ''m'', mi_max_output_tokens = None, mi_input_estimator = Utf8Bytes,
        mi_input_token_overhead = None\<rparr>],
      ci_roots = [\<lparr>ri_id = ''a-1'', ri_endpoints = [''messages'', ''models''], ri_models = [''m'']\<rparr>,
        \<lparr>ri_id = ''b'', ri_endpoints = [''responses''], ri_models = [''m'']\<rparr>]\<rparr>"

definition demo_config :: config where
  "demo_config = projr (validate demo_config_libs demo_input)"

lemma demo_config: "validate demo_config_libs demo_input = Inr demo_config"
proof -
  have "isl (validate demo_config_libs demo_input) = False" by code_simp
  then show ?thesis by (cases "validate demo_config_libs demo_input") (simp_all add: demo_config_def)
qed


end
