(* ===== verification/Ledger.thy ===== *)
theory Ledger
  imports Gateway_Config
begin

text \<open>
  The rolling quota ledger of \<^verbatim>\<open>admission/quota.rs\<close>: reservations with their request and
  token debits, expiring one window after the wire attempt started.  The state is the record
  \<open>ledger\<close>; every method of the source is a function that returns the new ledger with its
  result, in the order of the file.  The lemmas establish the ledger invariant
  (distinct identities, bounded concurrency, bounded memory, the request-rate bound on live
  debits) for every operation, that a granted check is never refused by the admission that
  follows it, that the reported wake-up time misses no change of the decision, and that the
  128-bit token sums cannot overflow.
\<close>

section \<open>Data\<close>

definition WINDOW :: duration where
  "WINDOW = from_secs 60"

definition MAX_ENTRIES :: nat where
  "MAX_ENTRIES = 8192"

datatype request_cost =
    Metadata
  | UnmeteredGeneration
  | Estimated nat nat
  | ExactFixture nat

definition is_generation :: "request_cost \<Rightarrow> bool" where
  "is_generation c = (c \<noteq> Metadata)"

fun cost_tokens :: "request_cost \<Rightarrow> nat" where
  "cost_tokens Metadata = 0"
| "cost_tokens UnmeteredGeneration = 0"
| "cost_tokens (Estimated input_tokens output_tokens) = input_tokens + output_tokens"
| "cost_tokens (ExactFixture n) = n"

text \<open>The token fields of a cost are \<^verbatim>\<open>u64\<close>.\<close>

fun cost_ok :: "request_cost \<Rightarrow> bool" where
  "cost_ok (Estimated i o') = (i \<le> u64_max \<and> o' \<le> u64_max)"
| "cost_ok (ExactFixture n) = (n \<le> u64_max)"
| "cost_ok _ = True"

type_synonym reservation_id = nat

datatype decision =
    Admitted reservation_id
  | Wait "duration option"
  | DecisionEstimateExceedsBudget

record reservation_diagnostics =
  rd_samples :: nat
  rd_unknown :: nat
  rd_reserved_tokens :: nat
  rd_observed_tokens :: nat
  rd_excess_tokens :: nat
  rd_shortfall_tokens :: nat

record snapshot =
  sn_rpm_debited :: nat
  sn_tpm_debited :: nat
  sn_tpm_held :: nat
  sn_active :: nat
  sn_retained :: nat
  sn_cleanups :: nat
  sn_starts :: nat
  sn_reservation :: reservation_diagnostics

record entry =
  entry_id :: reservation_id
  entry_active :: bool
  entry_started :: bool
  entry_metadata :: bool
  entry_tokens :: nat
  entry_rpm_until :: "duration option"
  entry_tpm_until :: "duration option"

record ledger =
  ledger_quota :: quota
  ledger_accounting :: accounting
  ledger_concurrency :: nat
  ledger_ready_at :: duration
  ledger_now :: duration
  ledger_next :: nat
  ledger_entries :: "entry list"
  ledger_cleanups :: nat
  ledger_starts :: nat
  ledger_reservation :: reservation_diagnostics

fun known :: "limit \<Rightarrow> nat option" where
  "known (Known n) = Some n"
| "known _ = None"

definition live :: "duration option \<Rightarrow> duration \<Rightarrow> bool" where
  "live until now = (case until of None \<Rightarrow> False | Some u \<Rightarrow> now < u)"

definition diagnostics_default :: reservation_diagnostics where
  "diagnostics_default = \<lparr>rd_samples = 0, rd_unknown = 0, rd_reserved_tokens = 0,
     rd_observed_tokens = 0, rd_excess_tokens = 0, rd_shortfall_tokens = 0\<rparr>"

section \<open>Operations\<close>

definition is_active_generation :: "ledger \<Rightarrow> reservation_id \<Rightarrow> bool" where
  "is_active_generation l i =
     list_ex (\<lambda>e. entry_id e = i \<and> entry_active e \<and> \<not> entry_metadata e) (ledger_entries l)"

text \<open>\<^verbatim>\<open>Ledger::new\<close>; \<open>None\<close> is the failed assertion on the concurrency.\<close>

definition ledger_new ::
  "quota \<Rightarrow> accounting \<Rightarrow> nat \<Rightarrow> duration \<Rightarrow> duration \<Rightarrow> ledger option" where
  "ledger_new q acc concurrency now startup_hold =
     (if 1 \<le> concurrency \<and> concurrency \<le> 16 then
        Some \<lparr>ledger_quota = q, ledger_accounting = acc, ledger_concurrency = concurrency,
          ledger_ready_at =
            (if known (quota_rpm q) \<noteq> None \<or> known (quota_tpm q) \<noteq> None
             then dur_add now startup_hold else now),
          ledger_now = now, ledger_next = 0, ledger_entries = [], ledger_cleanups = 0,
          ledger_starts = 0, ledger_reservation = diagnostics_default\<rparr>
      else None)"

definition entry_retained :: "duration \<Rightarrow> entry \<Rightarrow> bool" where
  "entry_retained now e =
     (entry_active e \<or> live (entry_rpm_until e) now \<or> live (entry_tpm_until e) now)"

definition advance :: "ledger \<Rightarrow> duration \<Rightarrow> ledger" where
  "advance l now =
     (let now' = max (ledger_now l) now
      in l\<lparr>ledger_now := now', ledger_entries := filter (entry_retained now') (ledger_entries l)\<rparr>)"

text \<open>One iteration of the summing loop of \<^verbatim>\<open>Ledger::snapshot\<close>.\<close>

definition snapshot_entry :: "duration \<Rightarrow> snapshot \<Rightarrow> entry \<Rightarrow> snapshot" where
  "snapshot_entry now s e =
     (let s1 = s\<lparr>sn_active := sn_active s + of_bool (entry_active e)\<rparr>;
          s2 = s1\<lparr>sn_rpm_debited := sn_rpm_debited s1 + of_bool (live (entry_rpm_until e) now)\<rparr>;
          s3 = (if live (entry_tpm_until e) now
                then s2\<lparr>sn_tpm_debited := sn_tpm_debited s2 + entry_tokens e\<rparr> else s2)
      in if \<not> entry_started e then s3\<lparr>sn_tpm_held := sn_tpm_held s3 + entry_tokens e\<rparr> else s3)"

definition ledger_snapshot :: "ledger \<Rightarrow> duration \<Rightarrow> snapshot \<times> ledger" where
  "ledger_snapshot l now =
     (let l' = advance l now
      in (foldl (snapshot_entry (ledger_now l'))
            \<lparr>sn_rpm_debited = 0, sn_tpm_debited = 0, sn_tpm_held = 0, sn_active = 0,
             sn_retained = length (ledger_entries l'), sn_cleanups = ledger_cleanups l',
             sn_starts = ledger_starts l', sn_reservation = ledger_reservation l'\<rparr>
            (ledger_entries l'),
          l'))"

definition startup_hold :: "ledger \<Rightarrow> duration \<Rightarrow> duration" where
  "startup_hold l now = saturating_sub (ledger_ready_at l) (max now (ledger_now l))"

definition total_fits :: "ledger \<Rightarrow> request_cost \<Rightarrow> bool" where
  "total_fits l cost =
     (case known (quota_tpm (ledger_quota l)) of None \<Rightarrow> True | Some limit \<Rightarrow> cost_tokens cost \<le> limit)"

definition held_rpm :: "ledger \<Rightarrow> nat" where
  "held_rpm l = length (filter (\<lambda>e. \<not> entry_started e) (ledger_entries l))"

definition check :: "ledger \<Rightarrow> duration \<Rightarrow> request_cost \<Rightarrow> (string + unit) \<times> ledger" where
  "check l0 now cost =
     (let (s, l) = ledger_snapshot l0 now in
      (if \<not> total_fits l cost then Inl ''estimate_exceeds_budget''
       else if ledger_now l < ledger_ready_at l then Inl ''startup_hold''
       else if ledger_concurrency l \<le> sn_active s then Inl ''concurrency''
       else if (case known (quota_rpm (ledger_quota l)) of None \<Rightarrow> False
                | Some limit \<Rightarrow> limit \<le> sn_rpm_debited s + held_rpm l) then Inl ''rpm''
       else if (case known (quota_tpm (ledger_quota l)) of None \<Rightarrow> False
                | Some limit \<Rightarrow> limit < sn_tpm_debited s + sn_tpm_held s + cost_tokens cost) then Inl ''tpm''
       else if MAX_ENTRIES \<le> length (ledger_entries l) then Inl ''ledger_capacity''
       else if ledger_next l = u64_max then Inl ''identity_exhausted''
       else Inr (),
       l))"

definition expiries :: "ledger \<Rightarrow> duration list" where
  "expiries l = List.map_filter id
     (concat (map (\<lambda>e. [entry_rpm_until e, entry_tpm_until e]) (ledger_entries l)))"

definition next_wake :: "ledger \<Rightarrow> duration option" where
  "next_wake l =
     (if ledger_now l < ledger_ready_at l then Some (ledger_ready_at l)
      else min_opt (filter (\<lambda>at. ledger_now l < at) (expiries l)))"

text \<open>
  \<^verbatim>\<open>Ledger::can_backfill\<close> (the experimental policy): the loop over the entries returns early,
  here \<open>None\<close>, at an entry whose future recharge is not bounded.
\<close>

definition backfill_entry ::
  "bool \<Rightarrow> duration \<Rightarrow> (nat \<times> nat) option \<Rightarrow> entry \<Rightarrow> (nat \<times> nat) option" where
  "backfill_entry tpm_known at acc e =
     (case acc of None \<Rightarrow> None
      | Some (rpm_at, tpm_at) \<Rightarrow>
          if tpm_known \<and> entry_active e \<and> \<not> entry_metadata e \<and>
             (if entry_started e then \<not> live (entry_tpm_until e) at else entry_tokens e = 0)
          then None
          else Some (rpm_at + of_bool (\<not> entry_started e \<or> live (entry_rpm_until e) at),
                     if \<not> entry_started e \<or> live (entry_tpm_until e) at
                     then tpm_at + entry_tokens e else tpm_at))"

definition can_backfill ::
  "ledger \<Rightarrow> duration \<Rightarrow> request_cost \<Rightarrow> duration \<Rightarrow> request_cost \<Rightarrow> bool \<times> ledger" where
  "can_backfill l0 now head deadline candidate =
     (if ledger_accounting l0 \<noteq> Reserved then (False, l0) else
      case check l0 now candidate of
        (Inl _, l) \<Rightarrow> (False, l)
      | (Inr _, l) \<Rightarrow>
          (case next_wake l of None \<Rightarrow> (False, l)
           | Some at \<Rightarrow>
               if deadline \<le> at \<or> dur_add (ledger_now l) WINDOW \<le> at
                  \<or> ledger_concurrency l < length (filter entry_active (ledger_entries l)) + 2
                  \<or> MAX_ENTRIES < length (ledger_entries l) + 2
                  \<or> checked_add u64_max (ledger_next l) 2 = None
               then (False, l)
               else
                 let tpm = known (quota_tpm (ledger_quota l)) in
                 if tpm \<noteq> None \<and> cost_tokens candidate = 0 \<and> candidate \<noteq> Metadata then (False, l)
                 else
                   (case foldl (backfill_entry (tpm \<noteq> None) at) (Some (0, 0)) (ledger_entries l) of
                      None \<Rightarrow> (False, l)
                    | Some (rpm_at, tpm_at) \<Rightarrow>
                        ((case known (quota_rpm (ledger_quota l)) of None \<Rightarrow> True
                          | Some limit \<Rightarrow> rpm_at + 2 \<le> limit)
                         \<and> (case tpm of None \<Rightarrow> True
                            | Some limit \<Rightarrow> tpm_at + cost_tokens head + cost_tokens candidate \<le> limit),
                         l))))"

definition admit :: "ledger \<Rightarrow> duration \<Rightarrow> request_cost \<Rightarrow> decision \<times> ledger" where
  "admit l0 now cost =
     (case check l0 now cost of
        (Inl r, l) \<Rightarrow>
          (if r = ''estimate_exceeds_budget'' then (DecisionEstimateExceedsBudget, l)
           else if r = ''concurrency'' \<or> r = ''identity_exhausted'' then (Wait None, l)
           else (Wait (next_wake l), l))
      | (Inr _, l) \<Rightarrow>
          (case checked_add u64_max (ledger_next l) 1 of
             None \<Rightarrow> (Wait None, l)
           | Some nxt \<Rightarrow>
               (Admitted nxt,
                l\<lparr>ledger_next := nxt,
                  ledger_entries := ledger_entries l @
                    [\<lparr>entry_id = nxt, entry_active = True, entry_started = False,
                      entry_metadata = (cost = Metadata),
                      entry_tokens = (if known (quota_tpm (ledger_quota l)) \<noteq> None
                                      then cost_tokens cost else 0),
                      entry_rpm_until = None, entry_tpm_until = None\<rparr>]\<rparr>)))"

definition start_entry :: "quota \<Rightarrow> duration \<Rightarrow> entry \<Rightarrow> entry" where
  "start_entry q until e =
     e\<lparr>entry_started := True,
       entry_rpm_until := map_option (\<lambda>_. until) (known (quota_rpm q)),
       entry_tpm_until := (if 0 < entry_tokens e then map_option (\<lambda>_. until) (known (quota_tpm q)) else None)\<rparr>"

definition unstarted_match :: "reservation_id \<Rightarrow> entry \<Rightarrow> bool" where
  "unstarted_match i e = (entry_id e = i \<and> entry_active e \<and> \<not> entry_started e)"

definition started_match :: "reservation_id \<Rightarrow> entry \<Rightarrow> bool" where
  "started_match i e = (entry_id e = i \<and> entry_active e \<and> entry_started e)"

definition start :: "ledger \<Rightarrow> duration \<Rightarrow> reservation_id \<Rightarrow> bool \<times> ledger" where
  "start l0 now i =
     (let l = advance l0 now in
      case List.find (unstarted_match i) (ledger_entries l) of
        None \<Rightarrow> (False, l)
      | Some _ \<Rightarrow>
          (True,
           l\<lparr>ledger_entries := update_first (unstarted_match i)
                (start_entry (ledger_quota l) (dur_add (ledger_now l) WINDOW)) (ledger_entries l),
             ledger_starts := saturating_add u64_max (ledger_starts l) 1\<rparr>))"

definition ledger_cancel :: "ledger \<Rightarrow> duration \<Rightarrow> reservation_id \<Rightarrow> bool \<times> ledger" where
  "ledger_cancel l0 now i =
     (let l = advance l0 now in
      case position (unstarted_match i) (ledger_entries l) of
        None \<Rightarrow> (False, l)
      | Some index \<Rightarrow>
          (True,
           l\<lparr>ledger_entries := swap_remove index (ledger_entries l),
             ledger_cleanups := saturating_add u64_max (ledger_cleanups l) 1\<rparr>))"

text \<open>The entry part and the diagnostics part of \<^verbatim>\<open>Ledger::finish\<close>.\<close>

definition settle_entry ::
  "accounting \<Rightarrow> limit \<Rightarrow> duration \<Rightarrow> nat option \<Rightarrow> entry \<Rightarrow> entry" where
  "settle_entry acc tpm now usage e =
     (let e1 = e\<lparr>entry_active := False\<rparr> in
      if \<not> entry_metadata e \<and> known tpm \<noteq> None then
        (case usage of
           None \<Rightarrow> e1
         | Some u \<Rightarrow>
             if live (entry_tpm_until e) now then
               (if acc = Actual then e1\<lparr>entry_tokens := u\<rparr> else e1)
             else if 0 < u then
               e1\<lparr>entry_tokens := u, entry_tpm_until := Some (dur_add now WINDOW)\<rparr>
             else e1)
      else e1)"

definition record_usage ::
  "limit \<Rightarrow> nat option \<Rightarrow> entry \<Rightarrow> reservation_diagnostics \<Rightarrow> reservation_diagnostics" where
  "record_usage tpm usage e d =
     (if \<not> entry_metadata e \<and> known tpm \<noteq> None then
        (case usage of
           Some u \<Rightarrow>
             d\<lparr>rd_samples := saturating_add u64_max (rd_samples d) 1,
               rd_reserved_tokens := saturating_add u128_max (rd_reserved_tokens d) (entry_tokens e),
               rd_observed_tokens := saturating_add u128_max (rd_observed_tokens d) u,
               rd_excess_tokens :=
                 saturating_add u128_max (rd_excess_tokens d) (saturating_sub (entry_tokens e) u),
               rd_shortfall_tokens :=
                 saturating_add u128_max (rd_shortfall_tokens d) (saturating_sub u (entry_tokens e))\<rparr>
         | None \<Rightarrow> d\<lparr>rd_unknown := saturating_add u64_max (rd_unknown d) 1\<rparr>)
      else d)"

definition finish :: "ledger \<Rightarrow> duration \<Rightarrow> reservation_id \<Rightarrow> nat option \<Rightarrow> bool \<times> ledger" where
  "finish l0 now i usage =
     (let l = advance l0 now in
      case List.find (started_match i) (ledger_entries l) of
        None \<Rightarrow> (False, l)
      | Some e \<Rightarrow>
          (True,
           advance
             (l\<lparr>ledger_entries := update_first (started_match i)
                  (settle_entry (ledger_accounting l) (quota_tpm (ledger_quota l)) (ledger_now l) usage)
                  (ledger_entries l),
                ledger_reservation :=
                  record_usage (quota_tpm (ledger_quota l)) usage e (ledger_reservation l),
                ledger_cleanups := saturating_add u64_max (ledger_cleanups l) 1\<rparr>) now))"

section \<open>Specification vocabulary\<close>

definition active_count :: "ledger \<Rightarrow> nat" where
  "active_count l = length (filter entry_active (ledger_entries l))"

definition rpm_debited :: "ledger \<Rightarrow> nat" where
  "rpm_debited l = length (filter (\<lambda>e. live (entry_rpm_until e) (ledger_now l)) (ledger_entries l))"

definition tpm_debited :: "ledger \<Rightarrow> nat" where
  "tpm_debited l =
     (\<Sum>e\<leftarrow>ledger_entries l. if live (entry_tpm_until e) (ledger_now l) then entry_tokens e else 0)"

definition tpm_held :: "ledger \<Rightarrow> nat" where
  "tpm_held l = (\<Sum>e\<leftarrow>ledger_entries l. if \<not> entry_started e then entry_tokens e else 0)"

definition within_limit :: "limit \<Rightarrow> nat \<Rightarrow> bool" where
  "within_limit lim n = (case known lim of None \<Rightarrow> True | Some m \<Rightarrow> n \<le> m)"

text \<open>
  A well-formed entry: an unstarted reservation is active and carries no debit; a started one
  carries a request debit exactly when the request rate is known; token counts are sums of at
  most two 64-bit values.
\<close>

definition entry_inv :: "quota \<Rightarrow> nat \<Rightarrow> entry \<Rightarrow> bool" where
  "entry_inv q nxt e =
     (1 \<le> entry_id e \<and> entry_id e \<le> nxt
      \<and> (if entry_started e
         then (entry_rpm_until e = None) = (known (quota_rpm q) = None)
         else entry_active e \<and> entry_rpm_until e = None \<and> entry_tpm_until e = None)
      \<and> entry_tokens e \<le> 2 * u64_max
      \<and> (known (quota_tpm q) = None \<longrightarrow> entry_tpm_until e = None))"

definition ledger_inv :: "ledger \<Rightarrow> bool" where
  "ledger_inv l =
     (limit_ok (quota_rpm (ledger_quota l)) \<and> limit_ok (quota_tpm (ledger_quota l))
      \<and> 1 \<le> ledger_concurrency l \<and> ledger_concurrency l \<le> 16
      \<and> ledger_next l \<le> u64_max
      \<and> distinct (map entry_id (ledger_entries l))
      \<and> list_all (entry_inv (ledger_quota l) (ledger_next l)) (ledger_entries l)
      \<and> length (ledger_entries l) \<le> MAX_ENTRIES
      \<and> active_count l \<le> ledger_concurrency l
      \<and> within_limit (quota_rpm (ledger_quota l)) (rpm_debited l + held_rpm l))"

section \<open>Sums and snapshots\<close>

lemma live_simps [simp]: "live None t = False" "live (Some u) t = (t < u)"
  by (simp_all add: live_def)

lemma live_antimono: "live u t' \<Longrightarrow> t \<le> t' \<Longrightarrow> live u t"
  by (cases u) auto

lemma within_limit_mono: "within_limit lim n \<Longrightarrow> m \<le> n \<Longrightarrow> within_limit lim m"
  by (auto simp: within_limit_def split: option.splits)

lemma foldl_snapshot_entry:
  "foldl (snapshot_entry now) s es =
     s\<lparr>sn_rpm_debited := sn_rpm_debited s + length (filter (\<lambda>e. live (entry_rpm_until e) now) es),
       sn_tpm_debited := sn_tpm_debited s + (\<Sum>e\<leftarrow>es. if live (entry_tpm_until e) now then entry_tokens e else 0),
       sn_tpm_held := sn_tpm_held s + (\<Sum>e\<leftarrow>es. if \<not> entry_started e then entry_tokens e else 0),
       sn_active := sn_active s + length (filter entry_active es)\<rparr>"
  by (induction es arbitrary: s) (simp_all add: snapshot_entry_def Let_def)

lemma ledger_snapshot_eq:
  "ledger_snapshot l now =
     (let l' = advance l now in
      (\<lparr>sn_rpm_debited = rpm_debited l', sn_tpm_debited = tpm_debited l', sn_tpm_held = tpm_held l',
        sn_active = active_count l', sn_retained = length (ledger_entries l'),
        sn_cleanups = ledger_cleanups l', sn_starts = ledger_starts l',
        sn_reservation = ledger_reservation l'\<rparr>, l'))"
  by (simp add: ledger_snapshot_def foldl_snapshot_entry Let_def rpm_debited_def tpm_debited_def
      tpm_held_def active_count_def)

text \<open>\<open>check\<close> with the loop replaced by the sums it computes.\<close>

lemma check_eq:
  "check l0 now cost =
     (let l = advance l0 now in
      (if \<not> total_fits l cost then Inl ''estimate_exceeds_budget''
       else if ledger_now l < ledger_ready_at l then Inl ''startup_hold''
       else if ledger_concurrency l \<le> active_count l then Inl ''concurrency''
       else if \<not> within_limit (quota_rpm (ledger_quota l)) (rpm_debited l + held_rpm l + 1) then Inl ''rpm''
       else if \<not> within_limit (quota_tpm (ledger_quota l)) (tpm_debited l + tpm_held l + cost_tokens cost) then Inl ''tpm''
       else if MAX_ENTRIES \<le> length (ledger_entries l) then Inl ''ledger_capacity''
       else if ledger_next l = u64_max then Inl ''identity_exhausted''
       else Inr (), l))"
  by (auto simp: check_def ledger_snapshot_eq Let_def within_limit_def split: option.splits)

lemma check_state [simp]: "snd (check l now cost) = advance l now"
  by (simp add: check_eq Let_def)

lemma check_Inr:
  "fst (check l0 now cost) = Inr () \<longleftrightarrow>
     (let l = advance l0 now in
      total_fits l cost \<and> ledger_ready_at l \<le> ledger_now l \<and> active_count l < ledger_concurrency l
      \<and> within_limit (quota_rpm (ledger_quota l)) (rpm_debited l + held_rpm l + 1)
      \<and> within_limit (quota_tpm (ledger_quota l)) (tpm_debited l + tpm_held l + cost_tokens cost)
      \<and> length (ledger_entries l) < MAX_ENTRIES \<and> ledger_next l \<noteq> u64_max)"
  by (auto simp: check_eq Let_def)

section \<open>Expiry\<close>

lemma advance_fields [simp]:
  "ledger_quota (advance l t) = ledger_quota l" "ledger_accounting (advance l t) = ledger_accounting l"
  "ledger_concurrency (advance l t) = ledger_concurrency l" "ledger_ready_at (advance l t) = ledger_ready_at l"
  "ledger_now (advance l t) = max (ledger_now l) t" "ledger_next (advance l t) = ledger_next l"
  "ledger_cleanups (advance l t) = ledger_cleanups l" "ledger_starts (advance l t) = ledger_starts l"
  "ledger_reservation (advance l t) = ledger_reservation l"
  by (simp_all add: advance_def Let_def)

lemma advance_entries: "ledger_entries (advance l t) =
    filter (entry_retained (max (ledger_now l) t)) (ledger_entries l)"
  by (simp add: advance_def Let_def)

lemma entry_retained_antimono: "entry_retained t' e \<Longrightarrow> t \<le> t' \<Longrightarrow> entry_retained t e"
  by (auto simp: entry_retained_def dest: live_antimono)

lemma advance_advance [simp]: "advance (advance l s) t = advance l (max s t)"
proof -
  have "filter (entry_retained (max (max (ledger_now l) s) t)) (filter (entry_retained (max (ledger_now l) s)) xs)
      = filter (entry_retained (max (ledger_now l) (max s t))) xs" for xs
    by (auto simp: max.assoc intro!: filter_cong elim: entry_retained_antimono)
  then show ?thesis by (simp add: advance_def Let_def max.assoc)
qed

lemma active_count_advance [simp]: "active_count (advance l t) = active_count l"
  by (auto simp: active_count_def advance_entries entry_retained_def intro!: arg_cong [where f = length] filter_cong)

lemma held_advance_filter:
  "list_all (entry_inv q n) es \<Longrightarrow>
     filter (\<lambda>e. \<not> entry_started e) (filter (entry_retained t) es) = filter (\<lambda>e. \<not> entry_started e) es"
  by (auto simp: entry_inv_def entry_retained_def list_all_iff intro!: filter_cong)

lemma held_rpm_advance: "ledger_inv l \<Longrightarrow> held_rpm (advance l t) = held_rpm l"
  unfolding held_rpm_def advance_entries ledger_inv_def
  by (auto dest: held_advance_filter [of _ _ _ "max (ledger_now l) t"])

lemma rpm_debited_advance_eq:
  "rpm_debited (advance l t) =
     length (filter (\<lambda>e. live (entry_rpm_until e) (max (ledger_now l) t)) (ledger_entries l))"
  unfolding rpm_debited_def advance_entries advance_fields
  by (subst filter_filter_imp) (simp_all add: entry_retained_def)

lemma rpm_debited_advance: "rpm_debited (advance l t) \<le> rpm_debited l"
proof -
  have "length (filter (\<lambda>e. live (entry_rpm_until e) (max (ledger_now l) t)) (ledger_entries l)) \<le> rpm_debited l"
    unfolding rpm_debited_def by (rule length_filter_mono) (erule live_antimono, simp)
  then show ?thesis by (simp add: rpm_debited_advance_eq)
qed

lemma advance_inv: "ledger_inv l \<Longrightarrow> ledger_inv (advance l t)"
proof -
  assume inv: "ledger_inv l"
  have "distinct (map entry_id (filter P xs))" if "distinct (map entry_id xs)" for P and xs :: "entry list"
    using that by (rule distinct_map_filter)
  moreover have "within_limit (quota_rpm (ledger_quota l)) (rpm_debited (advance l t) + held_rpm (advance l t))"
    using inv rpm_debited_advance [of l t] held_rpm_advance [OF inv, of t]
    by (auto simp: ledger_inv_def elim: within_limit_mono)
  ultimately show ?thesis using inv
    by (auto simp: ledger_inv_def advance_entries list_all_iff intro: order.trans [OF length_filter_le])
qed

section \<open>The invariant is kept by every operation\<close>

lemma ledger_new_inv:
  "ledger_new q acc c now hold = Some l \<Longrightarrow> limit_ok (quota_rpm q) \<Longrightarrow> limit_ok (quota_tpm q) \<Longrightarrow> ledger_inv l"
  by (auto simp: ledger_new_def ledger_inv_def active_count_def rpm_debited_def held_rpm_def
      within_limit_def split: if_splits option.splits)

lemma cost_tokens_bound: "cost_ok c \<Longrightarrow> cost_tokens c \<le> 2 * u64_max"
  by (cases c) auto

lemma entry_inv_mono: "entry_inv q n e \<Longrightarrow> n \<le> m \<Longrightarrow> entry_inv q m e"
  by (auto simp: entry_inv_def)

lemma admit_Admitted:
  assumes "admit l0 now cost = (Admitted i, l')"
  obtains l where "l = advance l0 now" "fst (check l0 now cost) = Inr ()"
    "i = ledger_next l + 1" "ledger_next l < u64_max"
    "l' = l\<lparr>ledger_next := i, ledger_entries := ledger_entries l @
        [\<lparr>entry_id = i, entry_active = True, entry_started = False, entry_metadata = (cost = Metadata),
          entry_tokens = (if known (quota_tpm (ledger_quota l)) \<noteq> None then cost_tokens cost else 0),
          entry_rpm_until = None, entry_tpm_until = None\<rparr>]\<rparr>"
proof -
  obtain r l where c: "check l0 now cost = (r, l)" by (cases "check l0 now cost")
  then have l: "l = advance l0 now" using check_state [of l0 now cost] by simp
  from assms c have r: "r = Inr ()" by (cases r) (auto simp: admit_def split: if_splits)
  with assms c have "checked_add u64_max (ledger_next l) 1 \<noteq> None"
    by (auto simp: admit_def split: option.splits)
  with assms c r have *: "i = ledger_next l + 1" "ledger_next l < u64_max"
    "l' = l\<lparr>ledger_next := i, ledger_entries := ledger_entries l @
        [\<lparr>entry_id = i, entry_active = True, entry_started = False, entry_metadata = (cost = Metadata),
          entry_tokens = (if known (quota_tpm (ledger_quota l)) \<noteq> None then cost_tokens cost else 0),
          entry_rpm_until = None, entry_tpm_until = None\<rparr>]\<rparr>"
    by (auto simp: admit_def checked_add_def split: if_splits)
  show thesis by (rule that [OF l _ *]) (simp add: c r)
qed

lemma admit_not_Admitted:
  assumes "admit l0 now cost = (d, l')" "\<And>i. d \<noteq> Admitted i"
  shows "l' = advance l0 now"
proof -
  obtain r l where c: "check l0 now cost = (r, l)" by (cases "check l0 now cost")
  then have "l = advance l0 now" using check_state [of l0 now cost] by simp
  moreover from assms c have "l' = l"
    by (cases r) (simp_all add: admit_def split: if_splits option.splits, auto)
  ultimately show ?thesis by simp
qed

lemma append_entry_inv:
  assumes "ledger_inv l" "active_count l < ledger_concurrency l"
    "within_limit (quota_rpm (ledger_quota l)) (rpm_debited l + held_rpm l + 1)"
    "length (ledger_entries l) < MAX_ENTRIES" "ledger_next l < u64_max"
    "entry_inv (ledger_quota l) (ledger_next l + 1) e" "entry_id e = ledger_next l + 1"
    "\<not> entry_started e"
  shows "ledger_inv (l\<lparr>ledger_next := ledger_next l + 1, ledger_entries := ledger_entries l @ [e]\<rparr>)"
proof -
  from assms have fresh: "entry_id e \<notin> entry_id ` set (ledger_entries l)"
    by (auto simp: ledger_inv_def list_all_iff entry_inv_def)
  from assms(6,8) have "entry_active e" "entry_rpm_until e = None" by (auto simp: entry_inv_def)
  with fresh assms show ?thesis
    by (auto simp: ledger_inv_def active_count_def rpm_debited_def held_rpm_def list_all_iff
        intro: entry_inv_mono)
qed

lemma admit_inv: "ledger_inv l0 \<Longrightarrow> cost_ok cost \<Longrightarrow> ledger_inv (snd (admit l0 now cost))"
proof -
  assume inv: "ledger_inv l0" and cost: "cost_ok cost"
  obtain d l' where a: "admit l0 now cost = (d, l')" by (cases "admit l0 now cost")
  show ?thesis
  proof (cases d)
    case (Admitted i)
    with a obtain l where l: "l = advance l0 now" "fst (check l0 now cost) = Inr ()"
      "i = ledger_next l + 1" "ledger_next l < u64_max"
      "l' = l\<lparr>ledger_next := i, ledger_entries := ledger_entries l @
        [\<lparr>entry_id = i, entry_active = True, entry_started = False, entry_metadata = (cost = Metadata),
          entry_tokens = (if known (quota_tpm (ledger_quota l)) \<noteq> None then cost_tokens cost else 0),
          entry_rpm_until = None, entry_tpm_until = None\<rparr>]\<rparr>"
      by (auto elim: admit_Admitted)
    from l(2) have "active_count l < ledger_concurrency l"
      "within_limit (quota_rpm (ledger_quota l)) (rpm_debited l + held_rpm l + 1)"
      "length (ledger_entries l) < MAX_ENTRIES"
      by (simp_all add: check_Inr Let_def l(1))
    with append_entry_inv [of l] l advance_inv [OF inv, of now] cost_tokens_bound [OF cost] a show ?thesis
      by (simp add: entry_inv_def)
  qed (use a admit_not_Admitted [OF a] advance_inv [OF inv] in auto)
qed

lemma entry_unique:
  "ledger_inv l \<Longrightarrow> entry_id e' = entry_id e \<Longrightarrow> e' \<in> set (ledger_entries l) \<Longrightarrow> e \<in> set (ledger_entries l) \<Longrightarrow> e' = e"
  by (auto simp: ledger_inv_def distinct_map dest: inj_onD)

text \<open>Replacing one entry in place.\<close>

lemma replace_entry_inv:
  assumes "ledger_inv l" "ledger_entries l = ys @ x # zs"
    "entry_inv (ledger_quota l) (ledger_next l) x'" "entry_id x' = entry_id x"
    "entry_active x' \<longrightarrow> entry_active x"
    "of_bool (live (entry_rpm_until x') (ledger_now l)) + of_bool (\<not> entry_started x')
      \<le> of_bool (live (entry_rpm_until x) (ledger_now l)) + (of_bool (\<not> entry_started x) :: nat)"
  shows "ledger_inv (l\<lparr>ledger_entries := ys @ x' # zs\<rparr>)"
proof -
  let ?l' = "l\<lparr>ledger_entries := ys @ x' # zs\<rparr>"
  have "active_count ?l' \<le> active_count l"
    using assms(2,5) by (simp add: active_count_def)
  moreover have "rpm_debited ?l' + held_rpm ?l' \<le> rpm_debited l + held_rpm l"
    using assms(2,6) by (auto simp: rpm_debited_def held_rpm_def of_bool_def split: if_splits)
  ultimately show ?thesis using assms
    by (auto simp: ledger_inv_def elim: within_limit_mono)
qed

lemma ledger_inv_counters [simp]:
  "ledger_inv (l\<lparr>ledger_starts := a\<rparr>) = ledger_inv l"
  "ledger_inv (l\<lparr>ledger_cleanups := a\<rparr>) = ledger_inv l"
  "ledger_inv (l\<lparr>ledger_reservation := r\<rparr>) = ledger_inv l"
  by (simp_all add: ledger_inv_def active_count_def rpm_debited_def held_rpm_def)

lemma start_True:
  assumes "start l0 now i = (True, l')"
  obtains l ys e zs where "l = advance l0 now" "ledger_entries l = ys @ e # zs" "unstarted_match i e"
    "l' = l\<lparr>ledger_entries := ys @ start_entry (ledger_quota l) (dur_add (ledger_now l) WINDOW) e # zs,
            ledger_starts := saturating_add u64_max (ledger_starts l) 1\<rparr>"
proof -
  let ?l = "advance l0 now"
  from assms obtain e where f: "List.find (unstarted_match i) (ledger_entries ?l) = Some e"
    by (auto simp: start_def Let_def split: option.splits)
  from update_first_find [OF this, of "start_entry (ledger_quota ?l) (dur_add (ledger_now ?l) WINDOW)"] f assms
  show thesis by (auto simp: start_def Let_def intro: that)
qed

lemma start_False: "start l0 now i = (False, l') \<Longrightarrow> l' = advance l0 now"
  by (auto simp: start_def Let_def split: option.splits)

lemma start_inv: "ledger_inv l0 \<Longrightarrow> ledger_inv (snd (start l0 now i))"
proof -
  assume inv: "ledger_inv l0"
  obtain b l' where s: "start l0 now i = (b, l')" by (cases "start l0 now i")
  show ?thesis
  proof (cases b)
    case True
    with s obtain l ys e zs where l: "l = advance l0 now" "ledger_entries l = ys @ e # zs"
      "unstarted_match i e"
      "l' = l\<lparr>ledger_entries := ys @ start_entry (ledger_quota l) (dur_add (ledger_now l) WINDOW) e # zs,
            ledger_starts := saturating_add u64_max (ledger_starts l) 1\<rparr>"
      by (auto elim: start_True)
    from l(1) inv have inv': "ledger_inv l" by (simp add: advance_inv)
    with l(2) have "entry_inv (ledger_quota l) (ledger_next l) e" by (simp add: ledger_inv_def)
    with l(3) replace_entry_inv [OF inv' l(2), of "start_entry (ledger_quota l) (dur_add (ledger_now l) WINDOW) e"]
    show ?thesis using s l(4)
      by (auto simp: entry_inv_def start_entry_def unstarted_match_def split: if_splits)
  next
    case False
    with s inv show ?thesis by (auto dest: start_False simp: advance_inv)
  qed
qed

lemma cancel_True:
  assumes "ledger_cancel l0 now i = (True, l')"
  obtains l k where "l = advance l0 now" "k < length (ledger_entries l)"
    "unstarted_match i (ledger_entries l ! k)"
    "l' = l\<lparr>ledger_entries := swap_remove k (ledger_entries l),
            ledger_cleanups := saturating_add u64_max (ledger_cleanups l) 1\<rparr>"
  using assms by (auto simp: ledger_cancel_def Let_def split: option.splits dest!: position_Some intro: that)

lemma cancel_False: "ledger_cancel l0 now i = (False, l') \<Longrightarrow> l' = advance l0 now"
  by (auto simp: ledger_cancel_def Let_def split: option.splits)

text \<open>The counts of the invariant depend on the entries as a multiset only.\<close>

lemma length_filter_mset: "length (filter P xs) = size (filter_mset P (mset xs))"
  by (metis mset_filter size_mset)

lemma remove_entry_inv:
  assumes "ledger_inv l" "mset es = mset (ledger_entries l) - {#e#}" "e \<in> set (ledger_entries l)"
  shows "ledger_inv (l\<lparr>ledger_entries := es\<rparr>)"
proof -
  let ?l' = "l\<lparr>ledger_entries := es\<rparr>"
  from assms(2,3) have ms: "mset (ledger_entries l) = mset (e # es)" by simp
  then have "mset (map entry_id (ledger_entries l)) = mset (map entry_id (e # es))"
    by (metis mset_map)
  then have d: "distinct (map entry_id (ledger_entries l)) = distinct (map entry_id (e # es))"
    by (rule mset_eq_imp_distinct_iff)
  from ms have st: "set (ledger_entries l) = set (e # es)" by (rule mset_eq_setD)
  from ms have len: "length (ledger_entries l) = Suc (length es)" by (metis length_Cons size_mset)
  have le: "length (filter P es) \<le> length (filter P (ledger_entries l))" for P
    by (simp add: length_filter_mset ms)
  have "active_count ?l' \<le> active_count l" "rpm_debited ?l' + held_rpm ?l' \<le> rpm_debited l + held_rpm l"
    using le by (auto simp: active_count_def rpm_debited_def held_rpm_def intro: add_mono)
  with assms(1) d st len show ?thesis
    by (auto simp: ledger_inv_def list_all_iff elim: within_limit_mono)
qed

lemma cancel_inv: "ledger_inv l0 \<Longrightarrow> ledger_inv (snd (ledger_cancel l0 now i))"
proof -
  assume inv: "ledger_inv l0"
  obtain b l' where s: "ledger_cancel l0 now i = (b, l')" by (cases "ledger_cancel l0 now i")
  show ?thesis
  proof (cases b)
    case True
    with s obtain l k where l: "l = advance l0 now" "k < length (ledger_entries l)"
      "l' = l\<lparr>ledger_entries := swap_remove k (ledger_entries l),
            ledger_cleanups := saturating_add u64_max (ledger_cleanups l) 1\<rparr>"
      by (auto elim: cancel_True)
    then have "ledger_inv (l\<lparr>ledger_entries := swap_remove k (ledger_entries l)\<rparr>)"
      using remove_entry_inv [OF _ mset_swap_remove [OF l(2)]] advance_inv [OF inv] by simp
    with s l(3) show ?thesis by simp
  next
    case False
    with s inv show ?thesis by (auto dest: cancel_False simp: advance_inv)
  qed
qed

lemma finish_True:
  assumes "finish l0 now i usage = (True, l')"
  obtains l ys e zs where "l = advance l0 now" "ledger_entries l = ys @ e # zs" "started_match i e"
    "l' = advance (l\<lparr>ledger_entries := ys @ settle_entry (ledger_accounting l)
              (quota_tpm (ledger_quota l)) (ledger_now l) usage e # zs,
            ledger_reservation := record_usage (quota_tpm (ledger_quota l)) usage e (ledger_reservation l),
            ledger_cleanups := saturating_add u64_max (ledger_cleanups l) 1\<rparr>) now"
proof -
  let ?l = "advance l0 now"
  from assms obtain e where f: "List.find (started_match i) (ledger_entries ?l) = Some e"
    by (auto simp: finish_def Let_def split: option.splits)
  from update_first_find [OF this, of "settle_entry (ledger_accounting ?l)
              (quota_tpm (ledger_quota ?l)) (ledger_now ?l) usage"] f assms
  show thesis by (auto simp: finish_def Let_def intro: that)
qed

lemma finish_False: "finish l0 now i usage = (False, l') \<Longrightarrow> l' = advance l0 now"
  by (auto simp: finish_def Let_def split: option.splits)

lemma settle_entry_simps [simp]:
  "entry_id (settle_entry acc tpm now usage e) = entry_id e"
  "entry_active (settle_entry acc tpm now usage e) = False"
  "entry_started (settle_entry acc tpm now usage e) = entry_started e"
  "entry_metadata (settle_entry acc tpm now usage e) = entry_metadata e"
  "entry_rpm_until (settle_entry acc tpm now usage e) = entry_rpm_until e"
  by (simp_all add: settle_entry_def Let_def split: option.splits)

lemma settle_entry_inv:
  "entry_inv q n e \<Longrightarrow> entry_started e \<Longrightarrow> pred_option (\<lambda>u. u \<le> u64_max) usage \<Longrightarrow>
     entry_inv q n (settle_entry acc (quota_tpm q) now usage e)"
  by (auto simp: entry_inv_def) (auto simp: settle_entry_def Let_def split: option.splits if_splits)

lemma finish_inv:
  assumes inv: "ledger_inv l0" and u: "pred_option (\<lambda>u. u \<le> u64_max) usage"
  shows "ledger_inv (snd (finish l0 now i usage))"
proof -
  obtain b l' where s: "finish l0 now i usage = (b, l')" by (cases "finish l0 now i usage")
  show ?thesis
  proof (cases b)
    case True
    with s obtain l ys e zs where l: "l = advance l0 now" "ledger_entries l = ys @ e # zs"
      "started_match i e"
      "l' = advance (l\<lparr>ledger_entries := ys @ settle_entry (ledger_accounting l)
              (quota_tpm (ledger_quota l)) (ledger_now l) usage e # zs,
            ledger_reservation := record_usage (quota_tpm (ledger_quota l)) usage e (ledger_reservation l),
            ledger_cleanups := saturating_add u64_max (ledger_cleanups l) 1\<rparr>) now"
      by (auto elim: finish_True)
    from l(1) inv have inv': "ledger_inv l" by (simp add: advance_inv)
    with l(2) have "entry_inv (ledger_quota l) (ledger_next l) e" by (simp add: ledger_inv_def)
    with l(3) u have "entry_inv (ledger_quota l) (ledger_next l)
        (settle_entry (ledger_accounting l) (quota_tpm (ledger_quota l)) (ledger_now l) usage e)"
      by (simp add: settle_entry_inv started_match_def)
    from replace_entry_inv [OF inv' l(2) this] l(4) s show ?thesis
      by (simp add: advance_inv)
  next
    case False
    with s inv show ?thesis by (auto dest: finish_False simp: advance_inv)
  qed
qed

lemma can_backfill_state:
  "snd (can_backfill l0 now head deadline cand) \<in> {l0, advance l0 now}"
proof -
  obtain r l where c: "check l0 now cand = (r, l)" by (cases "check l0 now cand")
  then have "l = advance l0 now" using check_state [of l0 now cand] by simp
  with c show ?thesis
    by (cases r) (simp_all add: can_backfill_def Let_def split: option.split prod.split)
qed

lemmas ledger_op_inv = advance_inv admit_inv start_inv cancel_inv finish_inv

section \<open>Admission follows a granted check\<close>

lemma checked_admit:
  "fst (check l now cost) = Inr () \<Longrightarrow> ledger_inv l \<Longrightarrow> \<exists>i l'. admit l now cost = (Admitted i, l')"
proof -
  assume c: "fst (check l now cost) = Inr ()" and inv: "ledger_inv l"
  then have "check l now cost = (Inr (), advance l now)"
    by (metis check_state prod.collapse)
  moreover from c inv have "ledger_next l < u64_max"
    by (auto simp: check_Inr Let_def ledger_inv_def)
  ultimately show ?thesis by (auto simp: admit_def checked_add_def)
qed

lemma admitted_checked: "admit l now cost = (Admitted i, l') \<Longrightarrow> fst (check l now cost) = Inr ()"
  by (erule admit_Admitted)

lemma check_advance [simp]: "check (advance l now) now c = check l now c"
  by (simp add: check_eq)

lemma admit_advance [simp]: "admit (advance l now) now c = admit l now c"
  by (simp add: admit_def)

fun admitted :: "decision \<Rightarrow> bool" where
  "admitted (Admitted _) = True"
| "admitted _ = False"

interpretation ledger_owner: checked_owner ledger_inv check admit admitted
proof
  show "admitted (fst (admit s t c))" if "ledger_inv s" "fst (check s t c) = Inr ()" for s t c
    using checked_admit [OF that(2,1)] by auto
qed (simp_all add: advance_inv)

text \<open>The state right after an admission: the debits and holds respect every limit.\<close>

lemma admitted_sums:
  assumes "admit l0 now cost = (Admitted i, l')"
  shows "active_count l' = active_count (advance l0 now) + 1"
    "rpm_debited l' = rpm_debited (advance l0 now)"
    "held_rpm l' = held_rpm (advance l0 now) + 1"
    "tpm_debited l' = tpm_debited (advance l0 now)"
    "tpm_held l' = tpm_held (advance l0 now) +
       (if known (quota_tpm (ledger_quota l0)) \<noteq> None then cost_tokens cost else 0)"
    "ledger_quota l' = ledger_quota l0" "ledger_concurrency l' = ledger_concurrency l0"
    "ledger_now l' = max (ledger_now l0) now" "ledger_ready_at l' = ledger_ready_at l0"
  using assms by (auto elim!: admit_Admitted simp: active_count_def rpm_debited_def held_rpm_def
      tpm_debited_def tpm_held_def)

section \<open>Wake-up times\<close>

lemma set_expiries:
  "u \<in> set (expiries l) \<longleftrightarrow>
     (\<exists>e\<in>set (ledger_entries l). entry_rpm_until e = Some u \<or> entry_tpm_until e = Some u)"
  by (auto simp: expiries_def eq_commute [of "Some u"])

lemma next_wake_le:
  assumes "next_wake l = Some w" "e \<in> set (ledger_entries l)" "ledger_ready_at l \<le> ledger_now l"
    "entry_rpm_until e = Some u \<or> entry_tpm_until e = Some u" "ledger_now l < u"
  shows "w \<le> u"
proof -
  from assms(2,4,5) have "u \<in> set (filter (\<lambda>at. ledger_now l < at) (expiries l))"
    by (auto simp: set_expiries)
  with assms(1,3) show ?thesis by (auto simp: next_wake_def intro: min_opt_le)
qed

lemma next_wake_None:
  assumes "next_wake l = None" "e \<in> set (ledger_entries l)"
    "entry_rpm_until e = Some u \<or> entry_tpm_until e = Some u"
  shows "u \<le> ledger_now l"
proof -
  from assms(2,3) have "u \<in> set (expiries l)" by (auto simp: set_expiries)
  with assms(1) show ?thesis
    by (auto simp: next_wake_def filter_empty_conv not_less split: if_splits)
qed

lemma next_wake_future: "next_wake l = Some w \<Longrightarrow> ledger_now l < w"
  by (auto simp: next_wake_def split: if_splits dest!: min_opt_in)

text \<open>No debit changes its status strictly before the wake-up time.\<close>

lemma live_until_wake:
  assumes "\<And>w. next_wake l = Some w \<Longrightarrow> t < w" "ledger_ready_at l \<le> ledger_now l"
    "e \<in> set (ledger_entries l)" "ledger_now l \<le> t"
  shows "live (entry_rpm_until e) t = live (entry_rpm_until e) (ledger_now l)"
    "live (entry_tpm_until e) t = live (entry_tpm_until e) (ledger_now l)"
proof -
  have "live u t = live u (ledger_now l)" if "u = entry_rpm_until e \<or> u = entry_tpm_until e" for u
  proof (cases u)
    case (Some v)
    with that have v: "entry_rpm_until e = Some v \<or> entry_tpm_until e = Some v" by auto
    show ?thesis
    proof (cases "next_wake l")
      case None
      with next_wake_None [OF None assms(3) v] assms(4) Some show ?thesis by simp
    next
      case (Some w)
      with assms(1) have "t < w" by simp
      with next_wake_le [OF Some assms(3,2) v] assms(4) \<open>u = Some v\<close> show ?thesis by (auto simp: not_less)
    qed
  qed simp
  then show "live (entry_rpm_until e) t = live (entry_rpm_until e) (ledger_now l)"
    "live (entry_tpm_until e) t = live (entry_tpm_until e) (ledger_now l)" by auto
qed

lemma advance_until_wake:
  assumes "\<And>w. next_wake l = Some w \<Longrightarrow> t < w" "ledger_ready_at l \<le> ledger_now l"
    "ledger_now l \<le> t"
  shows "ledger_entries (advance l t) = ledger_entries (advance l (ledger_now l))"
    "rpm_debited (advance l t) = rpm_debited (advance l (ledger_now l))"
    "tpm_debited (advance l t) = tpm_debited (advance l (ledger_now l))"
proof -
  note lv = live_until_wake [OF assms(1,2) _ assms(3)]
  show es: "ledger_entries (advance l t) = ledger_entries (advance l (ledger_now l))"
    using assms(3) lv by (auto simp: advance_entries entry_retained_def max_def intro!: filter_cong)
  show "rpm_debited (advance l t) = rpm_debited (advance l (ledger_now l))"
    using assms(3) lv by (auto simp: rpm_debited_advance_eq max_def intro!: arg_cong [where f = length] filter_cong)
  have "set (ledger_entries (advance l (ledger_now l))) \<subseteq> set (ledger_entries l)"
    by (auto simp: advance_entries)
  with lv assms(3) show "tpm_debited (advance l t) = tpm_debited (advance l (ledger_now l))"
    unfolding tpm_debited_def es
    by (auto simp: max_def intro!: arg_cong [where f = sum_list] map_cong)
qed

lemma check_until_wake:
  assumes "ledger_now l \<le> t" "\<And>w. next_wake l = Some w \<Longrightarrow> t < w"
  shows "fst (check l t cost) = fst (check l (ledger_now l) cost)"
proof (cases "ledger_now l < ledger_ready_at l")
  case True
  with assms show ?thesis
    by (simp add: check_eq Let_def total_fits_def next_wake_def max_def split: option.splits)
next
  case False
  then have "ledger_ready_at l \<le> ledger_now l" by simp
  note adv = advance_until_wake [OF assms(2) this assms(1)]
  from assms(1) False show ?thesis
    by (simp add: check_eq Let_def adv held_rpm_def tpm_held_def total_fits_def)
qed

text \<open>
  C22: the wake-up time \<open>next_wake\<close> misses no opportunity.  Until that time (or for ever, when
  there is none) a quota check with nothing else happening gives the same answer, so a waiter
  that sleeps until \<open>next_wake\<close> never oversleeps a moment at which it would be admitted.
\<close>

theorem next_wake_misses_nothing:
  assumes "ledger_now l \<le> t" "\<And>w. next_wake l = Some w \<Longrightarrow> t < w"
  shows "fst (check l t cost) = fst (check l (ledger_now l) cost)"
  using assms by (rule check_until_wake)

theorem next_wake_misses_nothing_witness:
  "let l = foldl (\<lambda>l f. f l) (the (ledger_new \<lparr>quota_rpm = Known 1, quota_tpm = Unknown\<rparr> Actual 4 0 0))
         [\<lambda>l. snd (admit l 0 Metadata), \<lambda>l. snd (start l 0 1), \<lambda>l. snd (finish l 5 1 None)]
   in next_wake l = Some WINDOW \<and> fst (check l 77 Metadata) = fst (check l (ledger_now l) Metadata)"
proof -
  define l where "l = foldl (\<lambda>l f. f l) (the (ledger_new \<lparr>quota_rpm = Known 1, quota_tpm = Unknown\<rparr> Actual 4 0 0))
         [\<lambda>l. snd (admit l 0 Metadata), \<lambda>l. snd (start l 0 1), \<lambda>l. snd (finish l 5 1 None)]"
  have w: "next_wake l = Some WINDOW" unfolding l_def by code_simp
  have "ledger_now l \<le> 77" unfolding l_def by code_simp
  moreover have "77 < WINDOW" by code_simp
  ultimately have "fst (check l 77 Metadata) = fst (check l (ledger_now l) Metadata)"
    using w by (intro next_wake_misses_nothing) simp_all
  with w show ?thesis by (simp add: l_def Let_def)
qed

section \<open>Token sums and settlement\<close>

lemma tpm_debited_advance_eq:
  "tpm_debited (advance l t) =
     (\<Sum>e\<leftarrow>ledger_entries l. if live (entry_tpm_until e) (max (ledger_now l) t) then entry_tokens e else 0)"
proof -
  have "(\<Sum>e\<leftarrow>filter (entry_retained s) es. if live (entry_tpm_until e) s then entry_tokens e else 0) =
    (\<Sum>e\<leftarrow>es. if live (entry_tpm_until e) s then entry_tokens e else 0)" for s es
    by (induction es) (auto simp: entry_retained_def)
  then show ?thesis by (simp add: tpm_debited_def advance_entries)
qed

lemma token_sums_bounded:
  assumes "ledger_inv l"
  shows "tpm_debited l + tpm_held l \<le> 2 * (MAX_ENTRIES * (2 * u64_max))"
proof -
  have "tpm_debited l \<le> length (ledger_entries l) * (2 * u64_max)"
    "tpm_held l \<le> length (ledger_entries l) * (2 * u64_max)"
    unfolding tpm_debited_def tpm_held_def using assms
    by (auto simp: ledger_inv_def list_all_iff entry_inv_def intro!: sum_list_bounded)
  moreover have "length (ledger_entries l) * (2 * u64_max) \<le> MAX_ENTRIES * (2 * u64_max)"
    using assms by (auto simp: ledger_inv_def intro: mult_right_mono)
  ultimately show ?thesis by linarith
qed

text \<open>
  The 128-bit arithmetic of the token budget cannot overflow.  In a well-formed ledger the
  sum that \<open>check\<close> compares with the limit, live debits plus holds plus the candidate's cost,
  stays below \<open>u128_max\<close>, so modelling it without wrap-around is faithful.
\<close>

theorem token_sum_no_overflow:
  assumes "ledger_inv l" "cost_ok cost"
  shows "tpm_debited l + tpm_held l + cost_tokens cost \<le> u128_max"
  using token_sums_bounded [OF assms(1)] cost_tokens_bound [OF assms(2)]
  by (simp add: MAX_ENTRIES_def u64_max_def u128_max_def)

theorem token_sum_no_overflow_witness:
  "\<exists>l. ledger_new \<lparr>quota_rpm = Known 5, quota_tpm = Known u64_max\<rparr> Reserved 16 0 0 = Some l \<and>
     tpm_debited l + tpm_held l + cost_tokens (Estimated u64_max u64_max) \<le> u128_max"
proof -
  let ?q = "\<lparr>quota_rpm = Known 5, quota_tpm = Known u64_max\<rparr>"
  obtain l where l: "ledger_new ?q Reserved 16 0 0 = Some l" by (simp add: ledger_new_def)
  then have "ledger_inv l" by (rule ledger_new_inv) (simp_all add: u64_max_def)
  from token_sum_no_overflow [OF this, of "Estimated u64_max u64_max"] l show ?thesis by simp
qed

lemma settle_entry_charge:
  "\<not> entry_metadata e \<Longrightarrow> known tpm \<noteq> None \<Longrightarrow> now < duration_max \<Longrightarrow>
   (if live (entry_tpm_until (settle_entry acc tpm now (Some u) e)) now
    then entry_tokens (settle_entry acc tpm now (Some u) e) else 0) =
   (if live (entry_tpm_until e) now \<and> acc = Reserved then entry_tokens e else u)"
  by (cases acc) (auto simp: settle_entry_def Let_def saturating_add_def WINDOW_def from_secs_def)

text \<open>
  C23: settlement at the end of a generation.  When a started, metered reservation finishes with
  a reported usage, the live token debit changes by exactly this rule: an unexpired debit is
  replaced by the usage under actual accounting and kept unchanged under reserved accounting; an
  expired one is charged with the usage in a fresh window.  In particular reserved accounting
  never gives tokens back.
\<close>

theorem finish_settlement:
  assumes "finish l0 now i (Some u) = (True, l')" "l = advance l0 now" "ledger_inv l0"
    "e \<in> set (ledger_entries l)" "started_match i e" "\<not> entry_metadata e"
    "known (quota_tpm (ledger_quota l0)) \<noteq> None" "ledger_now l < duration_max"
  shows "tpm_debited l' + (if live (entry_tpm_until e) (ledger_now l) then entry_tokens e else 0) =
         tpm_debited l + (if live (entry_tpm_until e) (ledger_now l) \<and> ledger_accounting l = Reserved
                          then entry_tokens e else u)"
proof -
  from assms(1) obtain ys e' zs where l: "ledger_entries l = ys @ e' # zs" "started_match i e'"
    "l' = advance (l\<lparr>ledger_entries := ys @ settle_entry (ledger_accounting l)
              (quota_tpm (ledger_quota l)) (ledger_now l) (Some u) e' # zs,
            ledger_reservation := record_usage (quota_tpm (ledger_quota l)) (Some u) e' (ledger_reservation l),
            ledger_cleanups := saturating_add u64_max (ledger_cleanups l) 1\<rparr>) now"
    by (auto elim!: finish_True simp: assms(2))
  from advance_inv [OF assms(3), of now] assms(2,4,5) l(1,2) have [simp]: "e' = e"
    by (intro entry_unique [of l]) (simp_all add: started_match_def)
  define c :: "entry \<Rightarrow> nat"
    where "c = (\<lambda>x. if live (entry_tpm_until x) (ledger_now l) then entry_tokens x else 0)"
  define e'' where "e'' = settle_entry (ledger_accounting l) (quota_tpm (ledger_quota l)) (ledger_now l) (Some u) e"
  have "max (ledger_now l) now = ledger_now l" by (simp add: assms(2))
  then have "tpm_debited l' = sum_list (map c ys) + c e'' + sum_list (map c zs)"
    unfolding l(3) tpm_debited_advance_eq by (simp add: c_def e''_def)
  moreover have "tpm_debited l = sum_list (map c ys) + c e + sum_list (map c zs)"
    by (simp add: tpm_debited_def l(1) c_def)
  moreover have "c e'' = (if live (entry_tpm_until e) (ledger_now l) \<and> ledger_accounting l = Reserved
                          then entry_tokens e else u)"
    unfolding c_def e''_def using assms(6-8) by (intro settle_entry_charge) (simp_all add: assms(2))
  ultimately show ?thesis by (simp add: c_def)
qed

theorem finish_settlement_witness:
  "let l0 = foldl (\<lambda>l f. f l) (the (ledger_new \<lparr>quota_rpm = Unknown, quota_tpm = Known 100\<rparr> Actual 4 0 0))
         [\<lambda>l. snd (admit l 0 (ExactFixture 70)), \<lambda>l. snd (start l 0 1)]
   in tpm_debited l0 = 70 \<and> tpm_debited (snd (finish l0 9 1 (Some 25))) + 70 = 70 + 25"
proof -
  let ?n = "the (ledger_new \<lparr>quota_rpm = Unknown, quota_tpm = Known 100\<rparr> Actual 4 0 0)"
  define l0 where "l0 = foldl (\<lambda>l f. f l) ?n
         [\<lambda>l. snd (admit l 0 (ExactFixture 70)), \<lambda>l. snd (start l 0 1)]"
  define e where "e = hd (ledger_entries (advance l0 9))"
  have "ledger_inv ?n" 
    by (rule ledger_new_inv [of "\<lparr>quota_rpm = Unknown, quota_tpm = Known 100\<rparr>" Actual 4 0 0])
      (simp_all add: ledger_new_def u64_max_def)
  then have inv: "ledger_inv l0" unfolding l0_def by (simp add: start_inv admit_inv u64_max_def)
  have f: "finish l0 9 1 (Some 25) = (True, snd (finish l0 9 1 (Some 25)))"
    by (rule prod_eqI) (unfold l0_def, code_simp, simp)
  have e: "e \<in> set (ledger_entries (advance l0 9))" "started_match 1 e" "\<not> entry_metadata e"
    "known (quota_tpm (ledger_quota l0)) \<noteq> None" "ledger_now (advance l0 9) < duration_max"
    unfolding e_def l0_def by code_simp+
  have v: "live (entry_tpm_until e) (ledger_now (advance l0 9))" "entry_tokens e = 70"
    "ledger_accounting (advance l0 9) \<noteq> Reserved" "tpm_debited (advance l0 9) = 70" "tpm_debited l0 = 70"
    unfolding e_def l0_def by code_simp+
  from finish_settlement [OF f refl inv e] v show ?thesis by (simp add: l0_def Let_def)
qed

end
