(* ===== verification/Ledger_Window.thy ===== *)
theory Ledger_Window
  imports Ledger
begin

text \<open>
  The ledger as a system of operations, and its contract: however the gateway interleaves
  snapshots, checks, admissions, starts, cancellations and completions, the request rate holds
  over every sliding window of one minute, and concurrency and memory stay bounded.  The
  abstract state is the log of start times; \<open>window_rel\<close> relates it to the concrete entries.
\<close>

section \<open>Operations as steps\<close>

datatype ledger_op =
    OpSnapshot duration
  | OpCheck duration request_cost
  | OpBackfill duration request_cost duration request_cost
  | OpAdmit duration request_cost
  | OpStart duration reservation_id
  | OpCancel duration reservation_id
  | OpFinish duration reservation_id "nat option"

fun op_time :: "ledger_op \<Rightarrow> duration" where
  "op_time (OpSnapshot t) = t"
| "op_time (OpCheck t _) = t"
| "op_time (OpBackfill t _ _ _) = t"
| "op_time (OpAdmit t _) = t"
| "op_time (OpStart t _) = t"
| "op_time (OpCancel t _) = t"
| "op_time (OpFinish t _ _) = t"

text \<open>Arguments are machine values, and the clock stays a window below its maximum.\<close>

fun op_values_ok :: "ledger_op \<Rightarrow> bool" where
  "op_values_ok (OpAdmit _ c) = cost_ok c"
| "op_values_ok (OpFinish _ _ u) = pred_option (\<lambda>n. n \<le> u64_max) u"
| "op_values_ok _ = True"

definition op_ok :: "ledger_op \<Rightarrow> bool" where
  "op_ok x = (op_values_ok x \<and> op_time x + WINDOW \<le> duration_max)"

fun ledger_step :: "ledger \<Rightarrow> ledger_op \<Rightarrow> ledger" where
  "ledger_step l (OpSnapshot t) = snd (ledger_snapshot l t)"
| "ledger_step l (OpCheck t c) = snd (check l t c)"
| "ledger_step l (OpBackfill t h d c) = snd (can_backfill l t h d c)"
| "ledger_step l (OpAdmit t c) = snd (admit l t c)"
| "ledger_step l (OpStart t i) = snd (start l t i)"
| "ledger_step l (OpCancel t i) = snd (ledger_cancel l t i)"
| "ledger_step l (OpFinish t i u) = snd (finish l t i u)"

text \<open>The start times an operation adds to the log: one for a granted start.\<close>

fun started_at :: "ledger \<Rightarrow> ledger_op \<Rightarrow> duration list" where
  "started_at l (OpStart t i) = (if fst (start l t i) then [max (ledger_now l) t] else [])"
| "started_at l _ = []"

fun start_log :: "ledger \<Rightarrow> ledger_op list \<Rightarrow> duration list" where
  "start_log l [] = []"
| "start_log l (x # xs) = started_at l x @ start_log (ledger_step l x) xs"

definition window_count :: "duration list \<Rightarrow> duration \<Rightarrow> nat" where
  "window_count log t = length (filter (\<lambda>s. t \<le> s \<and> s < t + WINDOW) log)"

section \<open>Live request debits\<close>

lemma WINDOW_pos: "0 < WINDOW"
  by (simp add: WINDOW_def from_secs_def)

definition live_untils :: "ledger \<Rightarrow> duration list" where
  "live_untils l = filter (\<lambda>u. ledger_now l < u) (List.map_filter entry_rpm_until (ledger_entries l))"

lemma length_live_untils: "length (live_untils l) = rpm_debited l"
proof -
  have "length (filter (\<lambda>u. t < u) (List.map_filter entry_rpm_until es)) =
    length (filter (\<lambda>e. live (entry_rpm_until e) t) es)" for t es
    by (induction es) (auto simp: List.map_filter_simps live_def split: option.splits)
  then show ?thesis by (simp add: live_untils_def rpm_debited_def)
qed

lemma live_untils_advance: "live_untils (advance l t) = filter (\<lambda>u. max (ledger_now l) t < u) (live_untils l)"
proof -
  have "filter (\<lambda>u. s < u) (List.map_filter entry_rpm_until (filter (entry_retained s) es)) =
    filter (\<lambda>u. s < u) (List.map_filter entry_rpm_until es)" for s es
    by (induction es) (auto simp: List.map_filter_simps entry_retained_def live_def split: option.splits)
  note drop = this
  show ?thesis unfolding live_untils_def advance_entries advance_fields drop
    by (auto intro!: filter_cong)
qed

lemma mset_live_untils:
  "mset (live_untils l) = filter_mset (\<lambda>u. ledger_now l < u) (mset (List.map_filter entry_rpm_until (ledger_entries l)))"
  by (simp add: live_untils_def)

lemma map_filter_append: "List.map_filter f (xs @ ys) = List.map_filter f xs @ List.map_filter f ys"
  by (simp add: List.map_filter_def)

lemma mset_map_filter: "mset (List.map_filter f xs) = image_mset (the \<circ> f) (filter_mset (\<lambda>x. f x \<noteq> None) (mset xs))"
  by (induction xs) (auto simp: List.map_filter_simps split: option.splits)

section \<open>The log and the entries agree\<close>

text \<open>
  Every start of the last window has its live debit, one for one, and nothing before now was
  started in the future; no window of the log exceeds the limit.
\<close>

definition window_rel :: "nat \<Rightarrow> ledger \<Rightarrow> duration list \<Rightarrow> bool" where
  "window_rel n l log =
     (ledger_inv l \<and> known (quota_rpm (ledger_quota l)) = Some n \<and> ledger_now l + WINDOW \<le> duration_max
      \<and> (\<forall>s\<in>set log. s \<le> ledger_now l)
      \<and> mset (live_untils l) = mset (filter (\<lambda>u. ledger_now l < u) (map (\<lambda>s. s + WINDOW) log))
      \<and> (\<forall>t. window_count log t \<le> n))"

lemma window_rel_advance:
  assumes "window_rel n l log" "t + WINDOW \<le> duration_max"
  shows "window_rel n (advance l t) log"
proof -
  have "mset (live_untils (advance l t)) =
    filter_mset (\<lambda>u. max (ledger_now l) t < u) (mset (live_untils l))"
    by (simp add: live_untils_advance)
  also have "\<dots> = filter_mset (\<lambda>u. max (ledger_now l) t < u) (mset (map (\<lambda>s. s + WINDOW) log))"
    using assms(1) unfolding window_rel_def
    by (auto simp: filter_filter_mset intro!: filter_mset_cong)
  finally show ?thesis using assms
    by (fastforce simp: window_rel_def advance_inv)
qed

text \<open>Entries may change as long as the invariant and the live request debits do not.\<close>

lemma window_rel_same_debits:
  assumes "window_rel n l log" "ledger_inv l'" "ledger_quota l' = ledger_quota l"
    "ledger_now l' = ledger_now l" "mset (live_untils l') = mset (live_untils l)"
  shows "window_rel n l' log"
  using assms by (simp add: window_rel_def)

lemma window_rel_admit:
  assumes rel: "window_rel n l log" and ok: "cost_ok c" "t + WINDOW \<le> duration_max"
  shows "window_rel n (snd (admit l t c)) log"
proof -
  obtain d l' where a: "admit l t c = (d, l')" by (cases "admit l t c")
  from rel ok(1) have inv: "ledger_inv l'" using admit_inv [of l c t] a by (simp add: window_rel_def)
  note adv = window_rel_advance [OF rel ok(2)]
  show ?thesis
  proof (cases d)
    case (Admitted i)
    with a have "ledger_quota l' = ledger_quota (advance l t)" "ledger_now l' = ledger_now (advance l t)"
      "mset (live_untils l') = mset (live_untils (advance l t))"
      by (auto elim!: admit_Admitted simp: live_untils_def map_filter_append List.map_filter_simps)
    with window_rel_same_debits [OF adv inv] a show ?thesis by simp
  qed (use a adv admit_not_Admitted [OF a] in auto)
qed

lemma window_rel_cancel:
  assumes rel: "window_rel n l log" and ok: "t + WINDOW \<le> duration_max"
  shows "window_rel n (snd (ledger_cancel l t i)) log"
proof -
  obtain b l' where a: "ledger_cancel l t i = (b, l')" by (cases "ledger_cancel l t i")
  from rel have inv: "ledger_inv l'" using cancel_inv [of l t i] a by (simp add: window_rel_def)
  note adv = window_rel_advance [OF rel ok]
  show ?thesis
  proof (cases b)
    case True
    with a obtain la k where l: "la = advance l t" "k < length (ledger_entries la)"
      "unstarted_match i (ledger_entries la ! k)"
      "l' = la\<lparr>ledger_entries := swap_remove k (ledger_entries la),
            ledger_cleanups := saturating_add u64_max (ledger_cleanups la) 1\<rparr>"
      by (auto elim: cancel_True)
    let ?e = "ledger_entries la ! k"
    from adv l(1-3) have none: "entry_rpm_until ?e = None"
      by (auto simp: window_rel_def ledger_inv_def list_all_iff entry_inv_def unstarted_match_def)
    have ms: "mset (ledger_entries la) = add_mset ?e (mset (ledger_entries l'))"
      using l(2,4) by (simp add: mset_swap_remove)
    have "mset (live_untils l') = mset (live_untils la)"
      unfolding mset_live_untils mset_map_filter ms using l(4) none by simp
    with window_rel_same_debits [OF adv inv] a l(1,4) show ?thesis by simp
  qed (use a adv cancel_False in auto)
qed

lemma window_rel_finish:
  assumes rel: "window_rel n l log" and ok: "t + WINDOW \<le> duration_max" "pred_option (\<lambda>n. n \<le> u64_max) u"
  shows "window_rel n (snd (finish l t i u)) log"
proof -
  obtain b l' where a: "finish l t i u = (b, l')" by (cases "finish l t i u")
  from rel ok(2) have inv: "ledger_inv l'" using finish_inv [of l u t i] a by (simp add: window_rel_def)
  note adv = window_rel_advance [OF rel ok(1)]
  show ?thesis
  proof (cases b)
    case True
    with a obtain la ys e zs where l: "la = advance l t" "ledger_entries la = ys @ e # zs"
      "l' = advance (la\<lparr>ledger_entries := ys @ settle_entry (ledger_accounting la)
              (quota_tpm (ledger_quota la)) (ledger_now la) u e # zs,
            ledger_reservation := record_usage (quota_tpm (ledger_quota la)) u e (ledger_reservation la),
            ledger_cleanups := saturating_add u64_max (ledger_cleanups la) 1\<rparr>) t"
      by (auto elim: finish_True)
    have now: "max (ledger_now la) t = ledger_now la" by (simp add: l(1))
    have "live_untils l' = live_untils la"
      unfolding l(3) live_untils_advance
      by (simp add: live_untils_def l(2) map_filter_append List.map_filter_simps now)
    with window_rel_same_debits [OF adv inv] a l(1,3) show ?thesis by (simp add: now)
  qed (use a adv finish_False in auto)
qed

lemma window_count_snoc: "window_count (log @ [s]) t = window_count log t + of_bool (t \<le> s \<and> s < t + WINDOW)"
  by (simp add: window_count_def)

lemma window_count_live:
  assumes "\<forall>x\<in>set log. x \<le> s" "t \<le> s" "s < t + WINDOW"
  shows "window_count log t \<le> length (filter (\<lambda>u. s < u) (map (\<lambda>x. x + WINDOW) log))"
proof -
  have "length (filter (\<lambda>u. s < u) (map (\<lambda>x. x + WINDOW) log)) = length (filter (\<lambda>x. s < x + WINDOW) log)"
    by (simp add: filter_map comp_def)
  moreover have "window_count log t \<le> length (filter (\<lambda>x. s < x + WINDOW) log)"
    unfolding window_count_def using assms by (intro length_filter_mono) auto
  ultimately show ?thesis by simp
qed

lemma window_rel_start:
  assumes rel: "window_rel n l log" and ok: "t + WINDOW \<le> duration_max"
  shows "window_rel n (snd (start l t i)) (log @ started_at l (OpStart t i))"
proof -
  obtain b l' where a: "start l t i = (b, l')" by (cases "start l t i")
  from rel have inv: "ledger_inv l'" using start_inv [of l t i] a by (simp add: window_rel_def)
  note adv = window_rel_advance [OF rel ok]
  show ?thesis
  proof (cases b)
    case True
    with a obtain la ys e zs where l: "la = advance l t" "ledger_entries la = ys @ e # zs"
      "unstarted_match i e"
      "l' = la\<lparr>ledger_entries := ys @ start_entry (ledger_quota la) (dur_add (ledger_now la) WINDOW) e # zs,
            ledger_starts := saturating_add u64_max (ledger_starts la) 1\<rparr>"
      by (auto elim: start_True)
    let ?s = "ledger_now la" let ?log = "log @ [?s]"
    from adv l(1) have rel': "window_rel n la log" by simp
    from rel' l(2,3) have none: "entry_rpm_until e = None"
      by (auto simp: window_rel_def ledger_inv_def entry_inv_def unstarted_match_def)
    from rel' have exact: "dur_add ?s WINDOW = ?s + WINDOW" and kn: "known (quota_rpm (ledger_quota la)) = Some n"
      by (simp_all add: window_rel_def)
    have "mset (live_untils l') = add_mset (?s + WINDOW) (mset (live_untils la))"
      using none kn by (simp add: live_untils_def l(2,4) map_filter_append List.map_filter_simps start_entry_def
          exact WINDOW_pos)
    also have "\<dots> = mset (filter (\<lambda>u. ?s < u) (map (\<lambda>x. x + WINDOW) ?log))"
      using rel' by (simp add: window_rel_def WINDOW_pos)
    finally have ms: "mset (live_untils l') = mset (filter (\<lambda>u. ?s < u) (map (\<lambda>x. x + WINDOW) ?log))" .
    have le: "\<forall>x\<in>set ?log. x \<le> ?s" using rel' by (auto simp: window_rel_def)
    have "window_count ?log t' \<le> n" for t'
    proof (cases "t' \<le> ?s \<and> ?s < t' + WINDOW")
      case True
      then have "window_count ?log t' \<le> length (filter (\<lambda>u. ?s < u) (map (\<lambda>x. x + WINDOW) ?log))"
        by (intro window_count_live [OF le]) simp_all
      also have "\<dots> = rpm_debited l'"
        using arg_cong [OF ms, of size] unfolding size_mset length_live_untils by simp
      also have "\<dots> \<le> n"
        using inv kn l(4) by (simp add: ledger_inv_def within_limit_def)
      finally show ?thesis .
    next
      case False
      with rel' show ?thesis by (auto simp: window_count_snoc window_rel_def)
    qed
    with ms le inv kn rel' l(1,4) a True show ?thesis by (simp add: window_rel_def)
  qed (use a adv start_False in auto)
qed

lemma window_rel_step:
  assumes rel: "window_rel n l log" and ok: "op_ok x"
  shows "window_rel n (ledger_step l x) (log @ started_at l x)"
proof (cases x)
  case (OpBackfill t h d c)
  then show ?thesis
    using can_backfill_state [of l t h d c] rel ok window_rel_advance [OF rel, of t]
    by (auto simp: op_ok_def)
next
  case (OpStart t i)
  then show ?thesis using window_rel_start [OF rel] ok by (simp add: op_ok_def)
qed (use rel ok in \<open>auto simp: op_ok_def ledger_snapshot_eq Let_def
      intro: window_rel_advance window_rel_admit window_rel_cancel window_rel_finish\<close>)

lemma window_rel_run:
  "window_rel n l log \<Longrightarrow> list_all op_ok xs \<Longrightarrow> window_rel n (foldl ledger_step l xs) (log @ start_log l xs)"
proof (induction xs arbitrary: l log)
  case (Cons x xs)
  then show ?case using window_rel_step [of n l log x] by simp (metis append_assoc)
qed simp

lemma window_rel_new:
  "ledger_new q acc c now hold = Some l \<Longrightarrow> limit_ok (quota_rpm q) \<Longrightarrow> limit_ok (quota_tpm q) \<Longrightarrow>
   quota_rpm q = Known n \<Longrightarrow> now + WINDOW \<le> duration_max \<Longrightarrow> window_rel n l []"
  using ledger_new_inv [of q acc c now hold l]
  by (auto simp: window_rel_def ledger_new_def live_untils_def window_count_def List.map_filter_simps split: if_splits)

lemma ledger_step_inv: "ledger_inv l \<Longrightarrow> op_ok x \<Longrightarrow> ledger_inv (ledger_step l x)"
  using can_backfill_state [of l]
  by (cases x) (auto simp: op_ok_def ledger_snapshot_eq Let_def intro: ledger_op_inv dest: spec, metis advance_inv)

interpretation ledger_sys: guarded_system ledger_step op_ok ledger_inv
  by unfold_locales (rule ledger_step_inv)

section \<open>The contract of the ledger\<close>

text \<open>
  C10: the request rate holds over every sliding window.  From a fresh ledger with a known
  request limit \<open>n\<close>, whatever sequence of operations follows, at most \<open>n\<close> wire attempts start
  within any half-open interval of one minute.
\<close>

theorem rpm_sliding_window:
  assumes "ledger_new q acc c now hold = Some l" "limit_ok (quota_rpm q)" "limit_ok (quota_tpm q)"
    "quota_rpm q = Known n" "now + WINDOW \<le> duration_max" "list_all op_ok xs"
  shows "window_count (start_log l xs) t \<le> n"
  using window_rel_run [OF window_rel_new [OF assms(1-5)] assms(6)] by (simp add: window_rel_def)

theorem rpm_sliding_window_witness:
  "\<exists>l. ledger_new \<lparr>quota_rpm = Known 1, quota_tpm = Unknown\<rparr> Actual 4 0 0 = Some l \<and>
     start_log l [OpAdmit 0 Metadata, OpStart 0 1, OpAdmit 1 Metadata, OpFinish 2 1 None,
       OpAdmit WINDOW Metadata, OpStart WINDOW 2] = [0, WINDOW] \<and>
     window_count [0, WINDOW] 0 \<le> 1"
proof -
  let ?q = "\<lparr>quota_rpm = Known 1, quota_tpm = Unknown\<rparr>"
  let ?xs = "[OpAdmit 0 Metadata, OpStart 0 1, OpAdmit 1 Metadata, OpFinish 2 1 None,
       OpAdmit WINDOW Metadata, OpStart WINDOW 2]"
  obtain l where l: "ledger_new ?q Actual 4 0 0 = Some l" by (simp add: ledger_new_def)
  have log: "start_log (the (ledger_new ?q Actual 4 0 0)) ?xs = [0, WINDOW]" by code_simp
  have "window_count (start_log l ?xs) 0 \<le> 1"
    by (rule rpm_sliding_window [OF l]) (simp_all add: op_ok_def WINDOW_def rust_arith)
  with l log show ?thesis by auto
qed

text \<open>
  C21: in every state the ledger can reach, at most the configured number of reservations is
  active, at most \<open>MAX_ENTRIES\<close> entries are retained, identities are distinct and the live
  request debits plus the requests held for a start stay within the request limit.
\<close>

theorem ledger_reachable_bounds:
  assumes "ledger_new q acc c now hold = Some l0" "limit_ok (quota_rpm q)" "limit_ok (quota_tpm q)"
    "list_all op_ok xs" "l = foldl ledger_step l0 xs"
  shows "active_count l \<le> ledger_concurrency l \<and> ledger_concurrency l \<le> 16
    \<and> length (ledger_entries l) \<le> MAX_ENTRIES \<and> distinct (map entry_id (ledger_entries l))
    \<and> within_limit (quota_rpm (ledger_quota l)) (rpm_debited l + held_rpm l)"
  using ledger_sys.run_inv [OF ledger_new_inv [OF assms(1-3)] assms(4)]
  by (simp add: assms(5) ledger_inv_def)

theorem ledger_reachable_bounds_witness:
  "\<exists>l. l = foldl ledger_step (the (ledger_new \<lparr>quota_rpm = Known 5, quota_tpm = Known 100\<rparr> Reserved 2 0 0))
         [OpAdmit 0 (ExactFixture 70), OpStart 0 1, OpAdmit 1 (Estimated 10 20)] \<and>
       length (ledger_entries l) = 2 \<and> active_count l \<le> ledger_concurrency l"
proof -
  let ?q = "\<lparr>quota_rpm = Known 5, quota_tpm = Known 100\<rparr>"
  let ?xs = "[OpAdmit 0 (ExactFixture 70), OpStart 0 1, OpAdmit 1 (Estimated 10 20)]"
  obtain l0 where l0: "ledger_new ?q Reserved 2 0 0 = Some l0" by (simp add: ledger_new_def)
  have "active_count (foldl ledger_step l0 ?xs) \<le> ledger_concurrency (foldl ledger_step l0 ?xs)"
    by (rule ledger_reachable_bounds [OF l0 _ _ _ refl, THEN conjunct1])
      (simp_all add: op_ok_def WINDOW_def rust_arith)
  moreover have "length (ledger_entries (foldl ledger_step (the (ledger_new ?q Reserved 2 0 0)) ?xs)) = 2"
    by code_simp
  ultimately show ?thesis using l0 by auto
qed

end
