(* ===== verification/Json_Value.thy ===== *)
theory Json_Value
  imports Rust_Prelude
begin

text \<open>
  JSON documents as the gateway sees them.  The parser itself is \<^verbatim>\<open>serde_json\<close>, a parameter of
  the definitions that parse; its result is a document whose object members are kept in order
  with their duplicates, so that both the last-value-wins view of \<^verbatim>\<open>serde_json::Value\<close>
  (\<open>jget\<close>) and the duplicate-rejecting decoders of the sources can be expressed.
\<close>

datatype json =
    JNull
  | JBool bool
  | JPos nat
  | JNeg int
  | JFloat string
  | JStr string
  | JArr "json list"
  | JObj "(string \<times> json) list"

definition is_some_and :: "('a \<Rightarrow> bool) \<Rightarrow> 'a option \<Rightarrow> bool" where
  "is_some_and p x = (case x of None \<Rightarrow> False | Some y \<Rightarrow> p y)"

definition is_none_or :: "('a \<Rightarrow> bool) \<Rightarrow> 'a option \<Rightarrow> bool" where
  "is_none_or p x = (case x of None \<Rightarrow> True | Some y \<Rightarrow> p y)"

fun as_str :: "json \<Rightarrow> string option" where
  "as_str (JStr s) = Some s"
| "as_str _ = None"

fun as_u64 :: "json \<Rightarrow> nat option" where
  "as_u64 (JPos n) = Some n"
| "as_u64 _ = None"

fun as_bool :: "json \<Rightarrow> bool option" where
  "as_bool (JBool b) = Some b"
| "as_bool _ = None"

fun as_array :: "json \<Rightarrow> json list option" where
  "as_array (JArr xs) = Some xs"
| "as_array _ = None"

fun as_object :: "json \<Rightarrow> (string \<times> json) list option" where
  "as_object (JObj ms) = Some ms"
| "as_object _ = None"

definition is_null :: "json \<Rightarrow> bool" where
  "is_null v = (v = JNull)"

definition is_string :: "json \<Rightarrow> bool" where
  "is_string v = (as_str v \<noteq> None)"

definition is_array :: "json \<Rightarrow> bool" where
  "is_array v = (as_array v \<noteq> None)"

definition is_boolean :: "json \<Rightarrow> bool" where
  "is_boolean v = (as_bool v \<noteq> None)"

definition is_object :: "json \<Rightarrow> bool" where
  "is_object v = (as_object v \<noteq> None)"

text \<open>\<^verbatim>\<open>Value::get\<close> with a string key: the last of several members with the same key.\<close>

fun jget :: "string \<Rightarrow> json \<Rightarrow> json option" where
  "jget k (JObj ms) = map_of (rev ms) k"
| "jget k _ = None"

definition get_str :: "string \<Rightarrow> json \<Rightarrow> string option" where
  "get_str k v = Option.bind (jget k v) as_str"

definition get_array :: "string \<Rightarrow> json \<Rightarrow> json list option" where
  "get_array k v = Option.bind (jget k v) as_array"

definition get_u64 :: "string \<Rightarrow> json \<Rightarrow> nat option" where
  "get_u64 k v = Option.bind (jget k v) as_u64"

text \<open>\<^verbatim>\<open>Value::pointer\<close> with member names only; none of the names the sources use is an index.\<close>

fun pointer :: "string list \<Rightarrow> json \<Rightarrow> json option" where
  "pointer [] v = Some v"
| "pointer (k # ks) v = Option.bind (jget k v) (pointer ks)"

definition pointer_str :: "string list \<Rightarrow> json \<Rightarrow> string option" where
  "pointer_str ks v = Option.bind (pointer ks v) as_str"

text \<open>\<^verbatim>\<open>value["key"]\<close>: null when there is no such member.\<close>

definition jindex :: "string \<Rightarrow> json \<Rightarrow> json" where
  "jindex k v = (case jget k v of None \<Rightarrow> JNull | Some x \<Rightarrow> x)"

text \<open>Numbers of a parsed document fit their machine type.\<close>

fun json_ok :: "json \<Rightarrow> bool" where
  "json_ok (JPos n) = (n \<le> u64_max)"
| "json_ok (JArr xs) = list_all json_ok xs"
| "json_ok (JObj ms) = list_all (\<lambda>(_, v). json_ok v) ms"
| "json_ok _ = True"

lemma is_some_and_simps [simp]:
  "is_some_and p None = False" "is_some_and p (Some x) = p x"
  by (simp_all add: is_some_and_def)

lemma is_none_or_simps [simp]:
  "is_none_or p None = True" "is_none_or p (Some x) = p x"
  by (simp_all add: is_none_or_def)

lemma is_some_and_iff: "is_some_and p x \<longleftrightarrow> (\<exists>y. x = Some y \<and> p y)"
  by (cases x) simp_all

lemma jget_ok: "json_ok v \<Longrightarrow> jget k v = Some x \<Longrightarrow> json_ok x"
  by (cases v) (auto simp: list_all_iff dest!: map_of_SomeD)

lemma get_u64_ok: "json_ok v \<Longrightarrow> get_u64 k v = Some n \<Longrightarrow> n \<le> u64_max"
proof -
  assume "json_ok v" "get_u64 k v = Some n"
  then obtain x where "jget k v = Some x" "as_u64 x = Some n" "json_ok x"
    by (auto simp: get_u64_def bind_eq_Some_conv intro: jget_ok)
  then show ?thesis by (cases x) simp_all
qed

end
