(* ===== verification/Response_Shape.thy ===== *)
theory Response_Shape
  imports Json_Value Gateway_Config
begin

text \<open>
  The shape checks of \<^verbatim>\<open>cache.rs\<close> that decide which requests and responses may enter the exact
  cache, and the state machine \<^verbatim>\<open>StreamCompletion\<close> that decides, next to the usage observers,
  whether a streamed response was complete.  The cache storage itself is in \<open>Exact_Cache\<close>.
\<close>

section \<open>Shapes\<close>

definition only :: "json \<Rightarrow> string list \<Rightarrow> bool" where
  "only v names = is_some_and (\<lambda>ms. list_all (\<lambda>(k, _). k \<in> set names) ms) (as_object v)"

definition text_content :: "json \<Rightarrow> string list \<Rightarrow> bool" where
  "text_content v block_types =
     (is_string v \<or>
      is_some_and (\<lambda>blocks. blocks \<noteq> [] \<and>
        list_all (\<lambda>b. only b [''type'', ''text''] \<and>
          is_some_and (\<lambda>k. k \<in> set block_types) (get_str ''type'' b) \<and>
          is_some_and is_string (jget ''text'' b)) blocks) (as_array v))"

definition messages_shape :: "json \<Rightarrow> nat \<Rightarrow> string list \<Rightarrow> bool" where
  "messages_shape v max_history types =
     is_some_and (\<lambda>ms. ms \<noteq> [] \<and> length ms \<le> max_history \<and>
       list_all (\<lambda>m. only m [''role'', ''content'', ''type''] \<and>
         is_none_or (\<lambda>k. k = JStr ''message'') (jget ''type'' m) \<and>
         is_some_and (\<lambda>r. r \<in> set [''system'', ''developer'', ''user'', ''assistant'']) (get_str ''role'' m) \<and>
         is_some_and (\<lambda>c. text_content c types) (jget ''content'' m)) ms) (as_array v)"

fun eligible_fields :: "endpoint \<Rightarrow> string list option" where
  "eligible_fields ChatCompletions =
     Some [''model'', ''messages'', ''temperature'', ''top_p'', ''max_tokens'',
       ''max_completion_tokens'', ''stream'', ''stream_options'', ''stop'', ''seed'',
       ''frequency_penalty'', ''presence_penalty'', ''response_format'', ''n'']"
| "eligible_fields Messages =
     Some [''model'', ''messages'', ''system'', ''temperature'', ''top_p'', ''top_k'',
       ''max_tokens'', ''stream'', ''stop_sequences'']"
| "eligible_fields Responses =
     Some [''model'', ''input'', ''instructions'', ''temperature'', ''top_p'',
       ''max_output_tokens'', ''stream'', ''store'', ''text'']"
| "eligible_fields _ = None"

definition cache_eligible :: "endpoint \<Rightarrow> json \<Rightarrow> nat \<Rightarrow> bool" where
  "cache_eligible endpoint v max_history =
     (case eligible_fields endpoint of
        None \<Rightarrow> False
      | Some names \<Rightarrow>
          if \<not> only v names \<or> is_some_and (\<lambda>s. \<not> is_boolean s) (jget ''stream'' v) then False
          else if is_some_and (\<lambda>opts. \<not> only opts [''include_usage''] \<or>
                    is_some_and (\<lambda>u. \<not> is_boolean u) (jget ''include_usage'' opts)) (jget ''stream_options'' v)
          then False
          else (case endpoint of
             ChatCompletions \<Rightarrow>
               is_none_or (\<lambda>n. as_u64 n = Some 1) (jget ''n'' v) \<and>
               is_some_and (\<lambda>m. messages_shape m max_history [''text'']) (jget ''messages'' v)
           | Messages \<Rightarrow>
               is_none_or (\<lambda>s. text_content s [''text'']) (jget ''system'' v) \<and>
               is_some_and (\<lambda>m. messages_shape m max_history [''text'']) (jget ''messages'' v)
           | Responses \<Rightarrow>
               Option.bind (jget ''store'' v) as_bool = Some False \<and>
               is_none_or is_string (jget ''instructions'' v) \<and>
               is_some_and (\<lambda>i. is_string i \<or> messages_shape i max_history [''input_text'', ''output_text''])
                 (jget ''input'' v)
           | _ \<Rightarrow> False))"

datatype bypass =
    RequestCacheControl | Size | EndpointBypass | UnsupportedShape | ToolsState | History

definition REQUEST_BYTES :: nat where
  "REQUEST_BYTES = 32 * 1024"

text \<open>Whether an input item carries tool state.\<close>

definition tool_item :: "json \<Rightarrow> bool" where
  "tool_item item =
     (get_str ''role'' item \<in> {Some ''tool'', Some ''function''}
      \<or> list_ex (\<lambda>f. jget f item \<noteq> None) [''tool_calls'', ''function_call'', ''tool_call_id'']
      \<or> get_str ''type'' item \<in>
          {Some ''function_call'', Some ''function_call_output'', Some ''tool_use'', Some ''tool_result''}
      \<or> is_some_and (list_ex (\<lambda>b. get_str ''type'' b \<in> {Some ''tool_use'', Some ''tool_result''}))
          (get_array ''content'' item))"

text \<open>
  \<^verbatim>\<open>bypass_reason\<close>; \<open>from_slice\<close> is \<^verbatim>\<open>serde_json::from_slice\<close>, \<open>None\<close> an error.
\<close>

definition bypass_reason ::
  "(string \<Rightarrow> json option) \<Rightarrow> endpoint \<Rightarrow> string \<Rightarrow> nat \<Rightarrow> bool \<Rightarrow> bypass option" where
  "bypass_reason from_slice endpoint body max_history forbids_reuse =
     (if forbids_reuse then Some RequestCacheControl
      else if REQUEST_BYTES < length body then Some Size
      else if endpoint \<in> {Models, CountTokens} then Some EndpointBypass
      else case from_slice body of
        None \<Rightarrow> Some UnsupportedShape
      | Some v \<Rightarrow>
          let inp = jget (if endpoint = Responses then ''input'' else ''messages'') v;
              items = Option.bind inp as_array
          in if list_ex (\<lambda>f. jget f v \<noteq> None)
                  [''tools'', ''tool_choice'', ''functions'', ''function_call'', ''parallel_tool_calls'',
                   ''previous_response_id'', ''conversation'']
                \<or> (endpoint = Responses \<and> Option.bind (jget ''store'' v) as_bool \<noteq> Some False)
                \<or> is_some_and (list_ex tool_item) items
             then Some ToolsState
             else if is_some_and (\<lambda>xs. max_history < length xs) items then Some History
             else if \<not> cache_eligible endpoint v max_history then Some UnsupportedShape
             else None)"

definition response_text_block :: "json \<Rightarrow> bool" where
  "response_text_block b =
     (only b [''type'', ''text'', ''annotations'', ''logprobs'']
      \<and> jget ''type'' b = Some (JStr ''output_text'')
      \<and> is_some_and is_string (jget ''text'' b)
      \<and> is_none_or (\<lambda>a. as_array a = Some []) (jget ''annotations'' b)
      \<and> is_none_or is_array (jget ''logprobs'' b))"

definition response_message :: "json \<Rightarrow> bool \<Rightarrow> bool" where
  "response_message item complete =
     (jget ''type'' item = Some (JStr ''message'')
      \<and> jget ''role'' item = Some (JStr ''assistant'')
      \<and> is_some_and (\<lambda>s. s = ''completed'' \<or> (\<not> complete \<and> s = ''in_progress'')) (get_str ''status'' item)
      \<and> is_some_and (\<lambda>bs. (\<not> complete \<or> bs \<noteq> []) \<and> list_all response_text_block bs) (get_array ''content'' item))"

definition complete_response :: "json \<Rightarrow> bool" where
  "complete_response v =
     (jget ''status'' v = Some (JStr ''completed'')
      \<and> is_none_or is_null (jget ''error'' v)
      \<and> is_none_or is_null (jget ''incomplete_details'' v)
      \<and> is_some_and (\<lambda>xs. xs \<noteq> [] \<and> list_all (\<lambda>i. response_message i True) xs) (get_array ''output'' v))"

definition has_error :: "json \<Rightarrow> bool" where
  "has_error v = is_some_and (\<lambda>e. \<not> is_null e) (jget ''error'' v)"

definition complete_chat_message :: "json \<Rightarrow> bool" where
  "complete_chat_message m =
     (only m [''role'', ''content'', ''refusal'', ''annotations'']
      \<and> is_none_or is_null (jget ''refusal'' m)
      \<and> is_none_or (\<lambda>a. as_array a = Some []) (jget ''annotations'' m)
      \<and> jget ''role'' m = Some (JStr ''assistant'')
      \<and> is_some_and is_string (jget ''content'' m))"

definition complete_json :: "endpoint \<Rightarrow> json \<Rightarrow> bool" where
  "complete_json endpoint v =
     (if has_error v then False
      else case endpoint of
        ChatCompletions \<Rightarrow>
          is_some_and (\<lambda>cs. length cs = 1 \<and>
            jget ''finish_reason'' (cs ! 0) = Some (JStr ''stop'') \<and>
            is_some_and complete_chat_message (jget ''message'' (cs ! 0))) (get_array ''choices'' v)
      | Messages \<Rightarrow>
          jget ''type'' v = Some (JStr ''message'') \<and> jget ''role'' v = Some (JStr ''assistant'') \<and>
          is_some_and (\<lambda>r. r \<in> set [''end_turn'', ''stop_sequence'']) (get_str ''stop_reason'' v) \<and>
          is_some_and (\<lambda>c. text_content c [''text'']) (jget ''content'' v)
      | Responses \<Rightarrow> complete_response v
      | _ \<Rightarrow> False)"

section \<open>Completion of a stream\<close>

record stream_completion =
  sc_endpoint :: endpoint
  sc_invalid :: bool
  sc_stopped :: bool
  sc_terminal :: bool
  sc_text :: bool
  sc_message_started :: bool
  sc_open_block :: bool
  sc_block_index :: nat

definition sc_new :: "endpoint \<Rightarrow> stream_completion" where
  "sc_new endpoint =
     \<lparr>sc_endpoint = endpoint, sc_invalid = False, sc_stopped = False, sc_terminal = False,
      sc_text = False, sc_message_started = False, sc_open_block = False, sc_block_index = 0\<rparr>"

definition sc_invalidate :: "stream_completion \<Rightarrow> stream_completion" where
  "sc_invalidate s = s\<lparr>sc_invalid := True\<rparr>"

text \<open>\<^verbatim>\<open>self.invalid |= b\<close>\<close>

definition sc_flag :: "bool \<Rightarrow> stream_completion \<Rightarrow> stream_completion" where
  "sc_flag b s = s\<lparr>sc_invalid := sc_invalid s \<or> b\<rparr>"

definition sc_done :: "stream_completion \<Rightarrow> stream_completion" where
  "sc_done s = (sc_flag (sc_terminal s) s)\<lparr>sc_terminal := True\<rparr>"

definition sc_complete :: "stream_completion \<Rightarrow> bool" where
  "sc_complete s = (\<not> sc_invalid s \<and> sc_stopped s \<and> sc_terminal s \<and> sc_text s)"

definition bad_chat_delta :: "json \<Rightarrow> bool" where
  "bad_chat_delta delta =
     (\<not> only delta [''role'', ''content'', ''refusal'', ''annotations'']
      \<or> is_some_and (\<lambda>a. as_array a \<noteq> Some []) (jget ''annotations'' delta)
      \<or> is_some_and (\<lambda>r. \<not> is_null r) (jget ''refusal'' delta)
      \<or> is_some_and (\<lambda>r. r \<noteq> JStr ''assistant'') (jget ''role'' delta)
      \<or> is_some_and (\<lambda>c. \<not> is_null c \<and> \<not> is_string c) (jget ''content'' delta))"

definition sc_observe_chat :: "json \<Rightarrow> stream_completion \<Rightarrow> stream_completion" where
  "sc_observe_chat v s =
     (case get_array ''choices'' v of
        None \<Rightarrow> sc_invalidate s
      | Some choices \<Rightarrow>
          if choices = [] then s
          else if length choices \<noteq> 1 \<or> sc_stopped s then sc_invalidate s
          else
            let choice = choices ! 0;
                s1 = sc_flag (is_some_and (\<lambda>i. as_u64 i \<noteq> Some 0) (jget ''index'' choice)) s
            in case jget ''delta'' choice of
                 None \<Rightarrow> sc_invalidate s1
               | Some delta \<Rightarrow>
                   let s2 = sc_flag (bad_chat_delta delta) s1;
                       s3 = s2\<lparr>sc_text := sc_text s2 \<or> is_some_and is_string (jget ''content'' delta)\<rparr>
                   in case jget ''finish_reason'' choice of
                        None \<Rightarrow> s3
                      | Some reason \<Rightarrow>
                          if is_null reason then s3
                          else let stopped = (reason = JStr ''stop'')
                               in sc_flag (\<not> stopped) (s3\<lparr>sc_stopped := stopped\<rparr>))"

definition wrong_index :: "json \<Rightarrow> stream_completion \<Rightarrow> bool" where
  "wrong_index v s = (get_u64 ''index'' v \<noteq> Some (sc_block_index s))"

definition text_block_start :: "json \<Rightarrow> bool" where
  "text_block_start b =
     (only b [''type'', ''text''] \<and> jget ''type'' b = Some (JStr ''text'')
      \<and> is_some_and is_string (jget ''text'' b))"

definition text_block_delta :: "json \<Rightarrow> bool" where
  "text_block_delta b =
     (only b [''type'', ''text''] \<and> jget ''type'' b = Some (JStr ''text_delta'')
      \<and> is_some_and is_string (jget ''text'' b))"

definition message_kind :: "string option \<Rightarrow> json \<Rightarrow> string option" where
  "message_kind event v = (case get_str ''type'' v of None \<Rightarrow> event | Some k \<Rightarrow> Some k)"

definition sc_observe_messages :: "string option \<Rightarrow> json \<Rightarrow> stream_completion \<Rightarrow> stream_completion" where
  "sc_observe_messages event v s0 =
     (let kind = message_kind event v;
          s = sc_flag (sc_stopped s0 \<and> kind \<noteq> Some ''message_stop'') s0
      in if kind = Some ''message_start'' then
           sc_flag (\<not> is_some_and (\<lambda>m. jget ''role'' m = Some (JStr ''assistant'')
                       \<and> get_array ''content'' m = Some []) (jget ''message'' v))
             ((sc_flag (sc_message_started s) s)\<lparr>sc_message_started := True\<rparr>)
         else if kind = Some ''content_block_start'' then
           let s1 = (sc_flag (\<not> sc_message_started s \<or> sc_open_block s \<or> wrong_index v s) s)\<lparr>sc_open_block := True\<rparr>;
               valid = is_some_and text_block_start (jget ''content_block'' v)
           in sc_flag (\<not> valid) (s1\<lparr>sc_text := sc_text s1 \<or> valid\<rparr>)
         else if kind = Some ''content_block_delta'' then
           let s1 = sc_flag (\<not> sc_message_started s \<or> \<not> sc_open_block s \<or> wrong_index v s) s;
               valid = is_some_and text_block_delta (jget ''delta'' v)
           in sc_flag (\<not> valid) (s1\<lparr>sc_text := sc_text s1 \<or> valid\<rparr>)
         else if kind = Some ''message_delta'' then
           let s1 = sc_flag (\<not> sc_message_started s \<or> sc_open_block s) s;
               stopped = is_some_and (\<lambda>r. r \<in> set [''end_turn'', ''stop_sequence''])
                 (pointer_str [''delta'', ''stop_reason''] v)
           in sc_flag (\<not> stopped) (s1\<lparr>sc_stopped := stopped\<rparr>)
         else if kind = Some ''message_stop'' then
           (sc_flag (\<not> sc_message_started s \<or> \<not> sc_stopped s \<or> sc_open_block s) s)\<lparr>sc_terminal := True\<rparr>
         else if kind = Some ''content_block_stop'' then
           let s1 = sc_flag (\<not> sc_message_started s \<or> \<not> sc_open_block s \<or> wrong_index v s) s
           in s1\<lparr>sc_open_block := False, sc_block_index := saturating_add u64_max (sc_block_index s1) 1\<rparr>
         else if kind = Some ''ping'' then s
         else sc_invalidate s)"

definition response_in_progress :: "json \<Rightarrow> bool" where
  "response_in_progress r =
     (is_some_and (\<lambda>s. s \<in> set [''queued'', ''in_progress'']) (get_str ''status'' r)
      \<and> is_none_or is_null (jget ''error'' r)
      \<and> is_none_or is_null (jget ''incomplete_details'' r)
      \<and> is_some_and (list_all (\<lambda>i. response_message i False)) (get_array ''output'' r))"

definition sc_observe_responses :: "json \<Rightarrow> stream_completion \<Rightarrow> stream_completion" where
  "sc_observe_responses v s =
     (let kind = get_str ''type'' v in
      if kind = Some ''response.completed'' then
        (let stopped = is_some_and complete_response (jget ''response'' v)
         in s\<lparr>sc_stopped := stopped, sc_text := sc_text s \<or> stopped, sc_terminal := True\<rparr>)
      else if kind = Some ''response.output_text.delta'' then
        sc_flag (\<not> is_some_and is_string (jget ''delta'' v) \<or> \<not> is_none_or is_array (jget ''logprobs'' v)) s
      else if kind = Some ''response.output_text.done'' then
        sc_flag (\<not> is_some_and is_string (jget ''text'' v) \<or> \<not> is_none_or is_array (jget ''logprobs'' v)) s
      else if kind = Some ''response.output_item.added'' then
        sc_flag (\<not> is_some_and (\<lambda>i. response_message i False) (jget ''item'' v)) s
      else if kind = Some ''response.output_item.done'' then
        sc_flag (\<not> is_some_and (\<lambda>i. response_message i True) (jget ''item'' v)) s
      else if kind \<in> {Some ''response.content_part.added'', Some ''response.content_part.done''} then
        sc_flag (\<not> is_some_and response_text_block (jget ''part'' v)) s
      else if kind \<in> {Some ''response.created'', Some ''response.in_progress''} then
        sc_flag (\<not> is_some_and response_in_progress (jget ''response'' v)) s
      else sc_invalidate s)"

definition sc_observe :: "string option \<Rightarrow> json \<Rightarrow> stream_completion \<Rightarrow> stream_completion" where
  "sc_observe event v s =
     (if sc_terminal s \<or> has_error v then sc_invalidate s
      else case sc_endpoint s of
        ChatCompletions \<Rightarrow> sc_observe_chat v s
      | Messages \<Rightarrow> sc_observe_messages event v s
      | Responses \<Rightarrow> sc_observe_responses v s
      | _ \<Rightarrow> sc_invalidate s)"

end
