(* ===== verification/Stream_Grammar.thy ===== *)
theory Stream_Grammar
  imports Response_Shape
begin

text \<open>
  What a completed stream is: correctness of the \<^verbatim>\<open>StreamCompletion\<close> state machine.  An invalid
  stream never becomes complete again, nothing may follow the terminal event, and a Messages
  stream that counts as complete follows the event grammar of that protocol.
\<close>

section \<open>Sticky flags\<close>

lemma sc_flag_simps [simp]:
  "sc_invalid (sc_flag b s) = (sc_invalid s \<or> b)"
  "sc_endpoint (sc_flag b s) = sc_endpoint s" "sc_stopped (sc_flag b s) = sc_stopped s"
  "sc_terminal (sc_flag b s) = sc_terminal s" "sc_text (sc_flag b s) = sc_text s"
  "sc_message_started (sc_flag b s) = sc_message_started s"
  "sc_open_block (sc_flag b s) = sc_open_block s" "sc_block_index (sc_flag b s) = sc_block_index s"
  by (simp_all add: sc_flag_def)

lemma sc_invalidate_simps [simp]:
  "sc_invalid (sc_invalidate s)" "sc_endpoint (sc_invalidate s) = sc_endpoint s"
  by (simp_all add: sc_invalidate_def)

lemma sc_observe_invalid: "sc_invalid s \<Longrightarrow> sc_invalid (sc_observe e v s)"
  by (simp add: sc_observe_def sc_observe_chat_def sc_observe_messages_def sc_observe_responses_def Let_def
      split: endpoint.split option.split)

lemma sc_observe_endpoint [simp]: "sc_endpoint (sc_observe e v s) = sc_endpoint s"
  by (simp add: sc_observe_def sc_observe_chat_def sc_observe_messages_def sc_observe_responses_def Let_def
      split: endpoint.split option.split)

definition sc_run :: "stream_completion \<Rightarrow> (string option \<times> json) list \<Rightarrow> stream_completion" where
  "sc_run s evs = foldl (\<lambda>s (e, v). sc_observe e v s) s evs"

lemma sc_run_simps [simp]:
  "sc_run s [] = s" "sc_run s (evs @ [(e, v)]) = sc_observe e v (sc_run s evs)"
  "sc_run s ((e, v) # evs) = sc_run (sc_observe e v s) evs"
  by (simp_all add: sc_run_def)

lemma sc_run_invalid: "sc_invalid s \<Longrightarrow> sc_invalid (sc_run s evs)"
  by (induction evs arbitrary: s) (auto simp: sc_observe_invalid)

lemma sc_run_endpoint [simp]: "sc_endpoint (sc_run s evs) = sc_endpoint s"
  by (induction evs arbitrary: s) auto

section \<open>The Messages grammar\<close>

definition is_ping :: "string option \<times> json \<Rightarrow> bool" where
  "is_ping = (\<lambda>(e, v). message_kind e v = Some ''ping'')"

definition event_kinds :: "(string option \<times> json) list \<Rightarrow> string option list" where
  "event_kinds evs = map (\<lambda>(e, v). message_kind e v) (filter (\<lambda>ev. \<not> is_ping ev) evs)"

text \<open>A sequence of closed content blocks.\<close>

inductive content_blocks :: "string list \<Rightarrow> bool" where
  no_block: "content_blocks []"
| add_block: "content_blocks xs \<Longrightarrow> set ds \<subseteq> {''content_block_delta''} \<Longrightarrow>
     content_blocks (xs @ ''content_block_start'' # ds @ [''content_block_stop''])"

text \<open>The phase of the state machine and the events it has accepted.\<close>

definition msg_rel :: "string option list \<Rightarrow> stream_completion \<Rightarrow> bool" where
  "msg_rel ks s =
     (if \<not> sc_message_started s
      then ks = [] \<and> \<not> sc_open_block s \<and> \<not> sc_stopped s \<and> \<not> sc_terminal s \<and> \<not> sc_text s
      else \<exists>xs. content_blocks xs \<and> (sc_text s \<longrightarrow> xs \<noteq> [] \<or> sc_open_block s) \<and>
        (if sc_open_block s
         then \<not> sc_stopped s \<and> \<not> sc_terminal s \<and>
           (\<exists>ds. set ds \<subseteq> {''content_block_delta''} \<and>
              ks = map Some (''message_start'' # xs @ ''content_block_start'' # ds))
         else if \<not> sc_stopped s
         then \<not> sc_terminal s \<and> ks = map Some (''message_start'' # xs)
         else ks = map Some (''message_start'' # xs @ ''message_delta'' #
                (if sc_terminal s then [''message_stop''] else []))))"

lemma msg_rel_open:
  "sc_message_started s \<Longrightarrow> sc_open_block s \<Longrightarrow>
   msg_rel ks s \<longleftrightarrow> \<not> sc_stopped s \<and> \<not> sc_terminal s \<and>
     (\<exists>xs ds. content_blocks xs \<and> set ds \<subseteq> {''content_block_delta''} \<and>
        ks = map Some (''message_start'' # xs @ ''content_block_start'' # ds))"
  by (auto simp: msg_rel_def)

lemma msg_rel_openI:
  "sc_message_started s \<Longrightarrow> sc_open_block s \<Longrightarrow> \<not> sc_stopped s \<Longrightarrow> \<not> sc_terminal s \<Longrightarrow> content_blocks xs \<Longrightarrow>
   set ds \<subseteq> {''content_block_delta''} \<Longrightarrow>
   ks = map Some (''message_start'' # xs @ ''content_block_start'' # ds) \<Longrightarrow> msg_rel ks s"
  by (auto simp: msg_rel_open)

lemma msg_rel_step:
  assumes rel: "msg_rel ks s" and ep: "sc_endpoint s = Messages" and ok: "\<not> sc_invalid (sc_observe e v s)"
  shows "msg_rel (ks @ (if is_ping (e, v) then [] else [message_kind e v])) (sc_observe e v s)"
proof -
  let ?k = "message_kind e v"
  from ok have nt: "\<not> sc_terminal s" "\<not> has_error v" by (auto simp: sc_observe_def split: if_splits)
  with ep have o: "sc_observe e v s = sc_observe_messages e v s" by (simp add: sc_observe_def)
  from ok have ns: "sc_stopped s \<Longrightarrow> ?k = Some ''message_stop''"
    by (auto simp: o sc_observe_messages_def Let_def split: if_splits)
  consider "?k = Some ''message_start''" | "?k = Some ''content_block_start''" | "?k = Some ''content_block_delta''"
    | "?k = Some ''message_delta''" | "?k = Some ''message_stop''" | "?k = Some ''content_block_stop''"
    | "?k = Some ''ping''"
    using ok by (auto simp: o sc_observe_messages_def Let_def split: if_splits)
  then show ?thesis
  proof cases
    case 1
    with ok rel ns show ?thesis
      by (auto simp: o sc_observe_messages_def Let_def msg_rel_def is_ping_def intro!: exI [of _ "[]"] no_block)
  next
    case 2
    with ok have st: "sc_message_started s" "\<not> sc_open_block s" by (simp_all add: o sc_observe_messages_def Let_def)
    from 2 ns have ns': "\<not> sc_stopped s" by auto
    with rel st obtain xs where "content_blocks xs" "ks = map Some (''message_start'' # xs)" by (auto simp: msg_rel_def)
    with 2 ns' nt st show ?thesis
      by (intro msg_rel_openI [of _ xs "[]"]) (simp_all add: o sc_observe_messages_def Let_def is_ping_def)
  next
    case 3
    with ok have st: "sc_message_started s" "sc_open_block s" by (simp_all add: o sc_observe_messages_def Let_def)
    with rel obtain xs ds where x: "content_blocks xs" "set ds \<subseteq> {''content_block_delta''}"
      "ks = map Some (''message_start'' # xs @ ''content_block_start'' # ds)" "\<not> sc_stopped s"
      by (auto simp: msg_rel_open)
    with 3 nt st show ?thesis
      by (intro msg_rel_openI [of _ xs "ds @ [''content_block_delta'']"])
        (simp_all add: o sc_observe_messages_def Let_def is_ping_def)
  next
    case 4
    with ok have "sc_message_started s" "\<not> sc_open_block s" by (simp_all add: o sc_observe_messages_def Let_def)
    with 4 ok rel ns nt show ?thesis
      by (auto simp: o sc_observe_messages_def Let_def msg_rel_def is_ping_def)
  next
    case 5
    with ok have "sc_message_started s" "\<not> sc_open_block s" "sc_stopped s"
      by (simp_all add: o sc_observe_messages_def Let_def)
    with 5 ok rel nt show ?thesis
      by (auto simp: o sc_observe_messages_def Let_def msg_rel_def is_ping_def)
  next
    case 6
    with ok have st: "sc_message_started s" "sc_open_block s" by (simp_all add: o sc_observe_messages_def Let_def)
    with rel obtain xs ds where x: "content_blocks xs" "set ds \<subseteq> {''content_block_delta''}"
      "ks = map Some (''message_start'' # xs @ ''content_block_start'' # ds)" "\<not> sc_stopped s"
      by (auto simp: msg_rel_open)
    from add_block [OF x(1,2)] 6 x(3,4) nt st(1) show ?thesis
      by (auto simp: o sc_observe_messages_def Let_def msg_rel_def is_ping_def
          intro!: exI [of _ "xs @ ''content_block_start'' # ds @ [''content_block_stop'']"])
  next
    case 7
    with ns have "\<not> sc_stopped s" by auto
    with 7 rel have "sc_observe e v s = s"
      by (simp add: o sc_observe_messages_def Let_def sc_flag_def)
    with 7 rel show ?thesis by (simp add: is_ping_def)
  qed
qed

lemma event_kinds_snoc:
  "event_kinds (evs @ [(e, v)]) = event_kinds evs @ (if is_ping (e, v) then [] else [message_kind e v])"
  by (simp add: event_kinds_def)

lemma sc_new_endpoint [simp]: "sc_endpoint (sc_new ep) = ep"
  by (simp add: sc_new_def)

lemma msg_rel_run:
  "\<not> sc_invalid (sc_run (sc_new Messages) evs) \<Longrightarrow> msg_rel (event_kinds evs) (sc_run (sc_new Messages) evs)"
proof (induction evs rule: rev_induct)
  case Nil
  then show ?case by (simp add: msg_rel_def event_kinds_def sc_new_def)
next
  case (snoc ev evs)
  obtain e v where ev: "ev = (e, v)" by (cases ev)
  from snoc.prems ev have "\<not> sc_invalid (sc_run (sc_new Messages) evs)" by (auto dest: sc_observe_invalid)
  from msg_rel_step [OF snoc.IH [OF this], of e v] snoc.prems ev show ?case
    by (simp only: event_kinds_snoc sc_run_simps sc_run_endpoint sc_new_endpoint simp_thms)
qed


text \<open>The stream used by the witness: one block with one delta.\<close>

definition demo_stream :: "(string option \<times> json) list" where
  "demo_stream =
     [(None, JObj [(''type'', JStr ''message_start''),
         (''message'', JObj [(''role'', JStr ''assistant''), (''content'', JArr [])])]),
      (Some ''ping'', JObj []),
      (None, JObj [(''type'', JStr ''content_block_start''), (''index'', JPos 0),
         (''content_block'', JObj [(''type'', JStr ''text''), (''text'', JStr '''')])]),
      (None, JObj [(''type'', JStr ''content_block_delta''), (''index'', JPos 0),
         (''delta'', JObj [(''type'', JStr ''text_delta''), (''text'', JStr ''hi'')])]),
      (None, JObj [(''type'', JStr ''content_block_stop''), (''index'', JPos 0)]),
      (None, JObj [(''type'', JStr ''message_delta''), (''delta'', JObj [(''stop_reason'', JStr ''end_turn'')])]),
      (None, JObj [(''type'', JStr ''message_stop'')])]"


text \<open>
  Completion is final.  Once a stream is complete, any further event makes it incomplete for
  good: for every endpoint, no non-empty continuation of a complete stream is complete.
\<close>

theorem complete_has_no_continuation:
  assumes "sc_complete (sc_run (sc_new ep) evs)" "later \<noteq> []"
  shows "\<not> sc_complete (sc_run (sc_new ep) (evs @ later))"
proof -
  obtain e v rest where later: "later = (e, v) # rest" using assms(2) by (cases later) auto
  have "sc_run (sc_new ep) (evs @ later) = sc_run (sc_observe e v (sc_run (sc_new ep) evs)) rest"
    by (simp add: sc_run_def later)
  moreover from assms(1) have "sc_invalid (sc_observe e v (sc_run (sc_new ep) evs))"
    by (simp add: sc_complete_def sc_observe_def)
  ultimately show ?thesis by (simp add: sc_complete_def sc_run_invalid)
qed

theorem complete_has_no_continuation_witness:
  "sc_complete (sc_run (sc_new Messages) demo_stream) \<and>
   \<not> sc_complete (sc_run (sc_new Messages) (demo_stream @ [(Some ''ping'', JObj [])]))"
proof -
  have c: "sc_complete (sc_run (sc_new Messages) demo_stream)" by code_simp
  from complete_has_no_continuation [OF c, of "[(Some ''ping'', JObj [])]"] c show ?thesis by simp
qed

end
