(* ===== verification/Protocol_Usage.thy ===== *)
theory Protocol_Usage
  imports Stream_Grammar
begin

text \<open>
  Usage accounting of responses: \<^verbatim>\<open>protocol/mod.rs\<close> (\<^verbatim>\<open>ObservedUsage\<close>, \<^verbatim>\<open>EndpointObserver\<close>),
  the three stream observers \<^verbatim>\<open>completions.rs\<close>, \<^verbatim>\<open>responses.rs\<close>, \<^verbatim>\<open>messages.rs\<close>, the complete
  JSON form \<^verbatim>\<open>json.rs\<close> and the error classification \<^verbatim>\<open>response_error.rs\<close>.
\<close>

section \<open>Observed usage\<close>

record observed_usage =
  ou_input_tokens :: nat
  ou_output_tokens :: nat
  ou_cache_creation_input_tokens :: nat
  ou_cache_read_input_tokens :: nat

definition usage_total :: "observed_usage \<Rightarrow> endpoint \<Rightarrow> nat option" where
  "usage_total u endpoint =
     (case checked_add u64_max (ou_input_tokens u) (ou_output_tokens u) of
        None \<Rightarrow> None
      | Some tot \<Rightarrow>
          (case endpoint of
             Messages \<Rightarrow>
               Option.bind (checked_add u64_max tot (ou_cache_creation_input_tokens u))
                 (\<lambda>t. checked_add u64_max t (ou_cache_read_input_tokens u))
           | ChatCompletions \<Rightarrow>
               if ou_cache_read_input_tokens u \<le> ou_input_tokens u \<and> ou_cache_creation_input_tokens u = 0
               then Some tot else None
           | Responses \<Rightarrow>
               if ou_cache_read_input_tokens u \<le> ou_input_tokens u \<and> ou_cache_creation_input_tokens u = 0
               then Some tot else None
           | Models \<Rightarrow> Some 0
           | CountTokens \<Rightarrow> Some 0))"

text \<open>\<^verbatim>\<open>Result<Option<u64>, ()>\<close>: \<open>Inl ()\<close> is a member that is no unsigned integer.\<close>

definition token :: "json \<Rightarrow> string \<Rightarrow> unit + nat option" where
  "token v key =
     (case jget key v of
        None \<Rightarrow> Inr None
      | Some x \<Rightarrow> (case as_u64 x of None \<Rightarrow> Inl () | Some n \<Rightarrow> Inr (Some n)))"

definition nested_token :: "json \<Rightarrow> string \<Rightarrow> string \<Rightarrow> unit + nat option" where
  "nested_token v object_key token_key =
     (case jget object_key v of
        None \<Rightarrow> Inr None
      | Some JNull \<Rightarrow> Inr None
      | Some (JObj ms) \<Rightarrow> token (JObj ms) token_key
      | Some _ \<Rightarrow> Inl ())"

section \<open>Chat completions\<close>

record chat_observer =
  co_cache :: "stream_completion option"
  co_final_usage :: "observed_usage option"
  co_invalid :: bool
  co_output_delta :: bool
  co_terminal :: bool

definition co_new :: "bool \<Rightarrow> chat_observer" where
  "co_new cache =
     \<lparr>co_cache = (if cache then Some (sc_new ChatCompletions) else None), co_final_usage = None,
      co_invalid = False, co_output_delta = False, co_terminal = False\<rparr>"

definition co_done :: "chat_observer \<Rightarrow> chat_observer" where
  "co_done ob = ob\<lparr>co_cache := map_option sc_done (co_cache ob), co_terminal := True\<rparr>"

definition has_output_delta :: "json \<Rightarrow> bool" where
  "has_output_delta choice =
     (case jget ''delta'' choice of
        None \<Rightarrow> False
      | Some delta \<Rightarrow>
          is_some_and (\<lambda>s. s \<noteq> []) (get_str ''content'' delta)
          \<or> is_some_and (list_ex (\<lambda>call.
               is_some_and (\<lambda>s. s \<noteq> []) (pointer_str [''function'', ''arguments''] call)))
              (get_array ''tool_calls'' delta))"

text \<open>Whether a reported usage takes back part of an earlier report.\<close>

definition usage_decreases :: "observed_usage \<Rightarrow> observed_usage \<Rightarrow> bool" where
  "usage_decreases new old =
     (ou_input_tokens new < ou_input_tokens old \<or> ou_output_tokens new < ou_output_tokens old
      \<or> ou_cache_read_input_tokens new < ou_cache_read_input_tokens old)"

definition co_invalidate :: "chat_observer \<Rightarrow> chat_observer" where
  "co_invalidate ob = ob\<lparr>co_invalid := True\<rparr>"

definition co_observe :: "json \<Rightarrow> chat_observer \<Rightarrow> chat_observer" where
  "co_observe v ob0 =
     (let ob1 = ob0\<lparr>co_cache := map_option (sc_observe None v) (co_cache ob0)\<rparr> in
      if has_error v then co_invalidate ob1
      else
        let ob = (if is_some_and (list_ex has_output_delta) (get_array ''choices'' v)
                  then ob1\<lparr>co_output_delta := True\<rparr> else ob1)
        in case jget ''usage'' v of
             None \<Rightarrow> ob
           | Some usage \<Rightarrow>
               if is_null usage then ob
               else if co_terminal ob then co_invalidate ob
               else if get_array ''choices'' v \<noteq> Some [] then ob
               else
                 (case (token usage ''prompt_tokens'', token usage ''completion_tokens'') of
                    (Inr (Some input_tokens), Inr (Some output_tokens)) \<Rightarrow>
                      (case nested_token usage ''prompt_tokens_details'' ''cached_tokens'' of
                         Inl _ \<Rightarrow> co_invalidate ob
                       | Inr cached \<Rightarrow>
                           let cache_read = (case cached of None \<Rightarrow> 0 | Some n \<Rightarrow> n) in
                           if input_tokens < cache_read then co_invalidate ob
                           else
                             let observed = \<lparr>ou_input_tokens = input_tokens, ou_output_tokens = output_tokens,
                                   ou_cache_creation_input_tokens = 0, ou_cache_read_input_tokens = cache_read\<rparr>
                             in if is_some_and (usage_decreases observed) (co_final_usage ob) then co_invalidate ob
                                else ob\<lparr>co_final_usage := Some observed\<rparr>)
                  | _ \<Rightarrow> co_invalidate ob))"

definition co_mark_invalid :: "chat_observer \<Rightarrow> chat_observer" where
  "co_mark_invalid ob = ob\<lparr>co_cache := map_option sc_invalidate (co_cache ob), co_invalid := True\<rparr>"

definition co_finish :: "chat_observer \<Rightarrow> observed_usage option" where
  "co_finish ob = (if \<not> co_invalid ob \<and> co_terminal ob then co_final_usage ob else None)"

section \<open>Responses\<close>

definition supported_incomplete :: "json \<Rightarrow> bool" where
  "supported_incomplete response =
     (get_str ''status'' response = Some ''incomplete''
      \<and> pointer_str [''incomplete_details'', ''reason''] response
          \<in> {Some ''max_output_tokens'', Some ''content_filter''})"

record responses_observer =
  ro_cache :: "stream_completion option"
  ro_usage :: "observed_usage option"
  ro_invalid :: bool
  ro_output_delta :: bool
  ro_terminal :: bool
  ro_completed :: bool

definition ro_new :: "bool \<Rightarrow> responses_observer" where
  "ro_new cache =
     \<lparr>ro_cache = (if cache then Some (sc_new Responses) else None), ro_usage = None,
      ro_invalid = False, ro_output_delta = False, ro_terminal = False, ro_completed = False\<rparr>"

definition ro_invalidate :: "responses_observer \<Rightarrow> responses_observer" where
  "ro_invalidate ob = ob\<lparr>ro_invalid := True\<rparr>"

text \<open>The body of the match arm for the two terminal events that carry usage.\<close>

definition ro_settle :: "json \<Rightarrow> bool \<Rightarrow> responses_observer \<Rightarrow> responses_observer" where
  "ro_settle v completed ob0 =
     (let ob = ob0\<lparr>ro_invalid := ro_invalid ob0 \<or> (ro_terminal ob0 \<and> ro_completed ob0 \<noteq> completed),
            ro_terminal := True, ro_completed := completed\<rparr>
      in if (completed \<and> is_some_and (\<lambda>s. as_str s \<noteq> Some ''completed'') (pointer [''response'', ''status''] v))
            \<or> (\<not> completed \<and> \<not> supported_incomplete (jindex ''response'' v))
            \<or> is_some_and (\<lambda>e. \<not> is_null e) (pointer [''response'', ''error''] v)
         then ro_invalidate ob
         else case pointer [''response'', ''usage''] v of
           None \<Rightarrow> ro_invalidate ob
         | Some usage \<Rightarrow>
             (case (token usage ''input_tokens'', token usage ''output_tokens'') of
                (Inr (Some input_tokens), Inr (Some output_tokens)) \<Rightarrow>
                  (case nested_token usage ''input_tokens_details'' ''cached_tokens'' of
                     Inl _ \<Rightarrow> ro_invalidate ob
                   | Inr cached \<Rightarrow>
                       let observed = \<lparr>ou_input_tokens = input_tokens, ou_output_tokens = output_tokens,
                             ou_cache_creation_input_tokens = 0,
                             ou_cache_read_input_tokens = (case cached of None \<Rightarrow> 0 | Some n \<Rightarrow> n)\<rparr>
                       in if usage_total observed Responses = None
                             \<or> is_some_and (usage_decreases observed) (ro_usage ob)
                          then ro_invalidate ob
                          else ob\<lparr>ro_usage := Some observed\<rparr>)
              | _ \<Rightarrow> ro_invalidate ob))"

definition ro_observe :: "json \<Rightarrow> responses_observer \<Rightarrow> responses_observer" where
  "ro_observe v ob0 =
     (let ob1 = ob0\<lparr>ro_cache := map_option (sc_observe None v) (ro_cache ob0)\<rparr> in
      case get_str ''type'' v of
        None \<Rightarrow> ob1
      | Some kind \<Rightarrow>
          let ob = (if kind \<in> {''response.output_text.delta'', ''response.function_call_arguments.delta''}
                       \<and> is_some_and (\<lambda>s. s \<noteq> []) (get_str ''delta'' v)
                    then ob1\<lparr>ro_output_delta := True\<rparr> else ob1)
          in if kind = ''response.completed'' then ro_settle v True ob
             else if kind = ''response.incomplete'' then ro_settle v False ob
             else if kind \<in> {''response.failed'', ''error''}
             then ob\<lparr>ro_terminal := True, ro_invalid := True\<rparr>
             else ob)"

definition ro_mark_invalid :: "responses_observer \<Rightarrow> responses_observer" where
  "ro_mark_invalid ob = ob\<lparr>ro_cache := map_option sc_invalidate (ro_cache ob), ro_invalid := True\<rparr>"

definition ro_finish :: "responses_observer \<Rightarrow> observed_usage option" where
  "ro_finish ob = (if \<not> ro_invalid ob \<and> ro_terminal ob then ro_usage ob else None)"

section \<open>Messages\<close>

record usage_parts =
  up_input_tokens :: "nat option"
  up_output_tokens :: "nat option"
  up_cache_creation_input_tokens :: "nat option"
  up_cache_read_input_tokens :: "nat option"

record messages_observer =
  mo_cache :: "stream_completion option"
  mo_usage :: usage_parts
  mo_invalid :: bool
  mo_output_delta :: bool
  mo_terminal :: bool
  mo_final_output_usage_seen :: bool

definition mo_new :: "bool \<Rightarrow> messages_observer" where
  "mo_new cache =
     \<lparr>mo_cache = (if cache then Some (sc_new Messages) else None),
      mo_usage = \<lparr>up_input_tokens = None, up_output_tokens = None,
        up_cache_creation_input_tokens = None, up_cache_read_input_tokens = None\<rparr>,
      mo_invalid = False, mo_output_delta = False, mo_terminal = False,
      mo_final_output_usage_seen = False\<rparr>"

text \<open>One iteration of the loop of \<^verbatim>\<open>assign_usage\<close>: the new target and whether it is invalid.\<close>

definition assign_part :: "json \<Rightarrow> string \<Rightarrow> nat option \<Rightarrow> nat option \<times> bool" where
  "assign_part usage key target =
     (case token usage key of
        Inl _ \<Rightarrow> (target, True)
      | Inr None \<Rightarrow> (target, False)
      | Inr (Some n) \<Rightarrow> (Some n, is_some_and (\<lambda>previous. n < previous) target))"

definition assign_usage :: "json \<Rightarrow> messages_observer \<Rightarrow> messages_observer" where
  "assign_usage usage ob =
     (let u = mo_usage ob;
          (i, bad1) = assign_part usage ''input_tokens'' (up_input_tokens u);
          (ot, bad2) = assign_part usage ''output_tokens'' (up_output_tokens u);
          (c, bad3) = assign_part usage ''cache_creation_input_tokens'' (up_cache_creation_input_tokens u);
          (r, bad4) = assign_part usage ''cache_read_input_tokens'' (up_cache_read_input_tokens u)
      in ob\<lparr>mo_usage := \<lparr>up_input_tokens = i, up_output_tokens = ot,
             up_cache_creation_input_tokens = c, up_cache_read_input_tokens = r\<rparr>,
           mo_invalid := mo_invalid ob \<or> bad1 \<or> bad2 \<or> bad3 \<or> bad4\<rparr>)"

definition mo_invalidate :: "messages_observer \<Rightarrow> messages_observer" where
  "mo_invalidate ob = ob\<lparr>mo_invalid := True\<rparr>"

definition mo_observe :: "string option \<Rightarrow> json \<Rightarrow> messages_observer \<Rightarrow> messages_observer" where
  "mo_observe event v ob0 =
     (let ob = ob0\<lparr>mo_cache := map_option (sc_observe event v) (mo_cache ob0)\<rparr>;
          kind = message_kind event v
      in if kind = Some ''message_start'' then
           (case pointer [''message'', ''usage''] v of
              None \<Rightarrow> ob
            | Some usage \<Rightarrow> if mo_terminal ob then mo_invalidate ob else assign_usage usage ob)
         else if kind = Some ''message_delta'' then
           (case jget ''usage'' v of
              None \<Rightarrow> ob
            | Some usage \<Rightarrow>
                if mo_terminal ob then mo_invalidate ob
                else
                  let previous = up_output_tokens (mo_usage ob);
                      output_present = (jget ''output_tokens'' usage \<noteq> None);
                      ob1 = assign_usage usage ob
                  in (case up_output_tokens (mo_usage ob1) of
                        None \<Rightarrow> ob1
                      | Some current \<Rightarrow>
                          if output_present
                          then (if is_some_and (\<lambda>p. current < p) previous then mo_invalidate ob1 else ob1)
                                 \<lparr>mo_final_output_usage_seen := True\<rparr>
                          else ob1))
         else if kind = Some ''content_block_delta'' then
           ob\<lparr>mo_output_delta := mo_output_delta ob \<or>
             is_some_and (\<lambda>s. s \<noteq> [])
               (Option.bind (case pointer [''delta'', ''text''] v of
                               None \<Rightarrow> pointer [''delta'', ''partial_json''] v | Some x \<Rightarrow> Some x) as_str)\<rparr>
         else if kind = Some ''message_stop'' then ob\<lparr>mo_terminal := True\<rparr>
         else if kind = Some ''error'' then mo_invalidate ob
         else ob)"

definition mo_mark_invalid :: "messages_observer \<Rightarrow> messages_observer" where
  "mo_mark_invalid ob = ob\<lparr>mo_cache := map_option sc_invalidate (mo_cache ob), mo_invalid := True\<rparr>"

definition or_zero :: "nat option \<Rightarrow> nat" where
  "or_zero x = (case x of None \<Rightarrow> 0 | Some n \<Rightarrow> n)"

definition mo_finish :: "messages_observer \<Rightarrow> observed_usage option" where
  "mo_finish ob =
     (if mo_invalid ob \<or> \<not> mo_terminal ob \<or> \<not> mo_final_output_usage_seen ob then None
      else case (up_input_tokens (mo_usage ob), up_output_tokens (mo_usage ob)) of
        (Some i, Some out) \<Rightarrow>
          Some \<lparr>ou_input_tokens = i, ou_output_tokens = out,
            ou_cache_creation_input_tokens = or_zero (up_cache_creation_input_tokens (mo_usage ob)),
            ou_cache_read_input_tokens = or_zero (up_cache_read_input_tokens (mo_usage ob))\<rparr>
      | _ \<Rightarrow> None)"

section \<open>Error classification\<close>

datatype response_error_class = Server | RateLimit | Client | UnknownError

definition classify :: "endpoint \<Rightarrow> json \<Rightarrow> response_error_class option" where
  "classify endpoint v =
     (case (case as_u64 v of Some n \<Rightarrow> Some n | None \<Rightarrow> Option.bind (as_str v) parse_u64) of
        Some code \<Rightarrow>
          Some (if code \<in> {500, 502, 503, 504, 529} then Server
                else if code = 429 then RateLimit
                else if 400 \<le> code \<and> code \<le> 499 then Client
                else UnknownError)
      | None \<Rightarrow>
          (case as_str v of
             None \<Rightarrow> None
           | Some s \<Rightarrow>
               if s \<in> {''server_error'', ''internal_server_error''} then Some Server
               else if s \<in> {''api_error'', ''overloaded_error'', ''timeout_error''} \<and> endpoint = Messages
               then Some Server
               else if s \<in> {''rate_limit_error'', ''rate_limit_exceeded''} then Some RateLimit
               else if s \<in> {''invalid_request_error'', ''authentication_error'', ''permission_error'',
                   ''not_found_error'', ''billing_error'', ''conflict_error'', ''request_too_large'',
                   ''context_length_exceeded'', ''insufficient_quota''} then Some Client
               else None))"

text \<open>The classification loop: \<open>Inl\<close> is the early return on contradicting signals.\<close>

fun classify_signals ::
  "endpoint \<Rightarrow> json \<Rightarrow> string list \<Rightarrow> response_error_class option \<Rightarrow> unit + response_error_class option" where
  "classify_signals endpoint error [] classified = Inr classified"
| "classify_signals endpoint error (name # names) classified =
     (case Option.bind (jget name error) (classify endpoint) of
        None \<Rightarrow> classify_signals endpoint error names classified
      | Some signal \<Rightarrow>
          if is_some_and (\<lambda>previous. previous \<noteq> signal) classified then Inl ()
          else classify_signals endpoint error names (Some signal))"

definition response_error ::
  "endpoint \<Rightarrow> string option \<Rightarrow> json \<Rightarrow> response_error_class option" where
  "response_error endpoint event v =
     (let kind = get_str ''type'' v;
          nested = (if endpoint = Responses then pointer [''response'', ''error''] v else None);
          nonnull = (\<lambda>e. case e of None \<Rightarrow> None | Some x \<Rightarrow> if is_null x then None else Some x);
          error = (case nonnull (jget ''error'' v) of None \<Rightarrow> nonnull nested | Some x \<Rightarrow> Some x);
          failed = (event = Some ''error'' \<or> kind = Some ''error''
            \<or> (endpoint = Responses \<and> (kind = Some ''response.failed'' \<or> get_str ''status'' v = Some ''failed''))
            \<or> (endpoint = ChatCompletions \<and>
                is_some_and (list_ex (\<lambda>c. get_str ''finish_reason'' c = Some ''error'')) (get_array ''choices'' v)))
      in if error = None \<and> \<not> failed then None
         else case classify_signals endpoint (case error of None \<Rightarrow> v | Some e \<Rightarrow> e)
                     [''status'', ''status_code'', ''code'', ''type''] None of
           Inl _ \<Rightarrow> Some UnknownError
         | Inr None \<Rightarrow> Some UnknownError
         | Inr (Some c) \<Rightarrow> Some c)"

section \<open>The endpoint observer\<close>

datatype endpoint_observer_inner =
    CompletionsObserver chat_observer
  | ResponsesObserver responses_observer
  | MessagesObserver messages_observer
  | Unsupported

record endpoint_observer =
  eo_inner :: endpoint_observer_inner
  eo_endpoint :: endpoint
  eo_response_error :: "response_error_class option"

definition eo_new :: "endpoint \<Rightarrow> bool \<Rightarrow> endpoint_observer" where
  "eo_new endpoint cache =
     \<lparr>eo_inner = (case endpoint of
          ChatCompletions \<Rightarrow> CompletionsObserver (co_new cache)
        | Responses \<Rightarrow> ResponsesObserver (ro_new cache)
        | Messages \<Rightarrow> MessagesObserver (mo_new cache)
        | _ \<Rightarrow> Unsupported),
      eo_endpoint = endpoint, eo_response_error = None\<rparr>"

definition eo_mark_invalid :: "endpoint_observer \<Rightarrow> endpoint_observer" where
  "eo_mark_invalid ob =
     ob\<lparr>eo_inner := (case eo_inner ob of
          CompletionsObserver i \<Rightarrow> CompletionsObserver (co_mark_invalid i)
        | ResponsesObserver i \<Rightarrow> ResponsesObserver (ro_mark_invalid i)
        | MessagesObserver i \<Rightarrow> MessagesObserver (mo_mark_invalid i)
        | Unsupported \<Rightarrow> Unsupported)\<rparr>"

text \<open>\<^verbatim>\<open>Option::get_or_insert\<close>\<close>

definition get_or_insert :: "'a \<Rightarrow> 'a option \<Rightarrow> 'a option" where
  "get_or_insert x old = (case old of None \<Rightarrow> Some x | Some y \<Rightarrow> Some y)"

text \<open>The branch of \<^verbatim>\<open>EndpointObserver::observe\<close> for the \<^verbatim>\<open>[DONE]\<close> marker, and its final match.\<close>

definition eo_done :: "endpoint_observer \<Rightarrow> endpoint_observer" where
  "eo_done ob =
     (case eo_inner ob of
        CompletionsObserver i \<Rightarrow> ob\<lparr>eo_inner := CompletionsObserver (co_done i)\<rparr>
      | _ \<Rightarrow> eo_mark_invalid ob)"

fun inner_observe :: "string option \<Rightarrow> json \<Rightarrow> endpoint_observer_inner \<Rightarrow> endpoint_observer_inner" where
  "inner_observe event v (CompletionsObserver i) = CompletionsObserver (co_observe v i)"
| "inner_observe event v (ResponsesObserver i) = ResponsesObserver (ro_observe v i)"
| "inner_observe event v (MessagesObserver i) = MessagesObserver (mo_observe event v i)"
| "inner_observe event v Unsupported = Unsupported"

definition eo_observe ::
  "(string \<Rightarrow> json option) \<Rightarrow> string option \<Rightarrow> string \<Rightarrow> endpoint_observer \<Rightarrow> endpoint_observer" where
  "eo_observe from_slice event data ob =
     (if data = ''[DONE]'' \<and> event \<noteq> Some ''error'' then eo_done ob
      else case from_slice data of
        None \<Rightarrow>
          eo_mark_invalid
            (if event = Some ''error''
             then ob\<lparr>eo_response_error := get_or_insert UnknownError (eo_response_error ob)\<rparr> else ob)
      | Some v \<Rightarrow>
          let ob1 = (case response_error (eo_endpoint ob) event v of
                       None \<Rightarrow> ob
                     | Some e \<Rightarrow> eo_mark_invalid (ob\<lparr>eo_response_error := get_or_insert e (eo_response_error ob)\<rparr>))
          in ob1\<lparr>eo_inner := inner_observe event v (eo_inner ob1)\<rparr>)"

definition eo_first_output_delta :: "endpoint_observer \<Rightarrow> bool" where
  "eo_first_output_delta ob =
     (case eo_inner ob of CompletionsObserver i \<Rightarrow> co_output_delta i | ResponsesObserver i \<Rightarrow> ro_output_delta i
      | MessagesObserver i \<Rightarrow> mo_output_delta i | Unsupported \<Rightarrow> False)"

definition eo_terminal_marker :: "endpoint_observer \<Rightarrow> bool" where
  "eo_terminal_marker ob =
     (case eo_inner ob of CompletionsObserver i \<Rightarrow> co_terminal i | ResponsesObserver i \<Rightarrow> ro_terminal i
      | MessagesObserver i \<Rightarrow> mo_terminal i | Unsupported \<Rightarrow> False)"

definition eo_cache_complete :: "endpoint_observer \<Rightarrow> bool" where
  "eo_cache_complete ob =
     (case eo_inner ob of
        CompletionsObserver i \<Rightarrow> is_some_and sc_complete (co_cache i)
      | ResponsesObserver i \<Rightarrow> is_some_and sc_complete (ro_cache i)
      | MessagesObserver i \<Rightarrow> is_some_and sc_complete (mo_cache i)
      | Unsupported \<Rightarrow> False)"

definition eo_finish :: "endpoint_observer \<Rightarrow> observed_usage option" where
  "eo_finish ob =
     (case eo_inner ob of CompletionsObserver i \<Rightarrow> co_finish i | ResponsesObserver i \<Rightarrow> ro_finish i
      | MessagesObserver i \<Rightarrow> mo_finish i | Unsupported \<Rightarrow> None)"

section \<open>Complete JSON responses\<close>

definition finished_choice :: "json \<Rightarrow> bool" where
  "finished_choice c =
     (is_some_and is_object (jget ''message'' c) \<and>
      is_some_and (\<lambda>r. r \<in> set [''stop'', ''length'', ''tool_calls'', ''function_call'', ''content_filter''])
        (get_str ''finish_reason'' c))"

text \<open>The field names of the endpoint, or \<open>None\<close> when the response is not a finished one.\<close>

definition usage_fields :: "endpoint \<Rightarrow> json \<Rightarrow> (string \<times> string \<times> string) option" where
  "usage_fields endpoint v =
     (case endpoint of
        ChatCompletions \<Rightarrow>
          (case get_array ''choices'' v of
             None \<Rightarrow> None
           | Some cs \<Rightarrow>
               if cs = [] \<or> \<not> list_all finished_choice cs then None
               else Some (''prompt_tokens'', ''completion_tokens'', ''prompt_tokens_details''))
      | Responses \<Rightarrow>
          if \<not> (get_str ''status'' v = Some ''completed'' \<and> is_none_or is_null (jget ''incomplete_details'' v))
             \<and> \<not> supported_incomplete v
          then None else Some (''input_tokens'', ''output_tokens'', ''input_tokens_details'')
      | Messages \<Rightarrow>
          if get_str ''type'' v = Some ''message'' \<and> get_str ''role'' v = Some ''assistant''
             \<and> is_some_and (\<lambda>r. r \<noteq> []) (get_str ''stop_reason'' v)
          then Some (''input_tokens'', ''output_tokens'', '''') else None
      | _ \<Rightarrow> None)"

definition ok_opt :: "unit + nat option \<Rightarrow> nat option option" where
  "ok_opt r = (case r of Inl _ \<Rightarrow> None | Inr x \<Rightarrow> Some x)"

definition json_usage :: "endpoint \<Rightarrow> json \<Rightarrow> observed_usage option" where
  "json_usage endpoint v =
     (if \<not> is_none_or is_null (jget ''error'' v) then None
      else case usage_fields endpoint v of
        None \<Rightarrow> None
      | Some (inp, out, details) \<Rightarrow>
          (case jget ''usage'' v of
             None \<Rightarrow> None
           | Some usage \<Rightarrow>
               (case (ok_opt (token usage inp), ok_opt (token usage out),
                      if endpoint = Messages then ok_opt (token usage ''cache_creation_input_tokens'') else Some None,
                      if endpoint = Messages then ok_opt (token usage ''cache_read_input_tokens'')
                      else ok_opt (nested_token usage details ''cached_tokens'')) of
                  (Some (Some i), Some (Some ot), Some creation, Some cread) \<Rightarrow>
                    let observed = \<lparr>ou_input_tokens = i, ou_output_tokens = ot,
                          ou_cache_creation_input_tokens = or_zero creation,
                          ou_cache_read_input_tokens = or_zero cread\<rparr>
                    in if usage_total observed endpoint = None then None else Some observed
                | _ \<Rightarrow> None)))"

end
