(* ===== verification/Protocol_Usage_Facts.thy ===== *)
theory Protocol_Usage_Facts
  imports Protocol_Usage
begin

text \<open>
  Correctness of usage accounting: an error of the upstream is final and blocks settlement and
  caching, settled usage is well-formed, the stream and the complete form of a response agree,
  and an error is classified only when its signals agree.
\<close>

section \<open>Errors are final\<close>

definition eo_run ::
  "(string \<Rightarrow> json option) \<Rightarrow> endpoint_observer \<Rightarrow> (string option \<times> string) list \<Rightarrow> endpoint_observer" where
  "eo_run from_slice ob evs = foldl (\<lambda>ob (e, d). eo_observe from_slice e d ob) ob evs"

definition eo_invalid :: "endpoint_observer \<Rightarrow> bool" where
  "eo_invalid ob =
     (case eo_inner ob of
        CompletionsObserver i \<Rightarrow> co_invalid i \<and> is_none_or sc_invalid (co_cache i)
      | ResponsesObserver i \<Rightarrow> ro_invalid i \<and> is_none_or sc_invalid (ro_cache i)
      | MessagesObserver i \<Rightarrow> mo_invalid i \<and> is_none_or sc_invalid (mo_cache i)
      | Unsupported \<Rightarrow> True)"

lemma is_none_or_map [simp]: "is_none_or q (map_option f x) = is_none_or (\<lambda>y. q (f y)) x"
  by (cases x) simp_all

lemma is_none_or_mono: "is_none_or p x \<Longrightarrow> (\<And>y. p y \<Longrightarrow> q y) \<Longrightarrow> is_none_or q x"
  by (cases x) simp_all

lemma is_none_or_True [simp]: "is_none_or (\<lambda>_. True) x"
  by (cases x) simp_all

lemma co_observe_sticky:
  "co_invalid i \<Longrightarrow> co_invalid (co_observe v i)"
  "co_cache (co_observe v i) = map_option (sc_observe None v) (co_cache i)"
  by (simp_all add: co_observe_def co_invalidate_def Let_def split: option.split sum.split)

lemma ro_settle_sticky:
  "ro_invalid i \<Longrightarrow> ro_invalid (ro_settle v c i)" "ro_cache (ro_settle v c i) = ro_cache i"
  by (simp_all add: ro_settle_def ro_invalidate_def Let_def split: option.split sum.split)

lemma ro_observe_sticky:
  "ro_invalid i \<Longrightarrow> ro_invalid (ro_observe v i)"
  "ro_cache (ro_observe v i) = map_option (sc_observe None v) (ro_cache i)"
  by (simp_all add: ro_observe_def ro_settle_sticky Let_def split: option.split)

lemma assign_usage_sticky:
  "mo_invalid i \<Longrightarrow> mo_invalid (assign_usage u i)" "mo_cache (assign_usage u i) = mo_cache i"
  by (simp_all add: assign_usage_def Let_def split: prod.split)

lemma mo_observe_sticky:
  "mo_invalid i \<Longrightarrow> mo_invalid (mo_observe e v i)"
  "mo_cache (mo_observe e v i) = map_option (sc_observe e v) (mo_cache i)"
  by (simp_all add: mo_observe_def mo_invalidate_def assign_usage_sticky Let_def split: option.split)

lemma eo_mark_invalid_simps [simp]:
  "eo_invalid (eo_mark_invalid ob)" "eo_response_error (eo_mark_invalid ob) = eo_response_error ob"
  "eo_endpoint (eo_mark_invalid ob) = eo_endpoint ob"
  by (simp_all add: eo_mark_invalid_def eo_invalid_def co_mark_invalid_def ro_mark_invalid_def mo_mark_invalid_def
      split: endpoint_observer_inner.split)

lemma eo_invalid_update [simp]: "eo_invalid (ob\<lparr>eo_response_error := x\<rparr>) = eo_invalid ob"
  by (simp add: eo_invalid_def)

lemma inner_observe_sticky:
  assumes "eo_invalid ob"
  shows "eo_invalid (ob\<lparr>eo_inner := inner_observe e v (eo_inner ob)\<rparr>)"
  using assms by (cases "eo_inner ob")
    (auto simp: eo_invalid_def co_observe_sticky ro_observe_sticky mo_observe_sticky
      elim!: is_none_or_mono intro: sc_observe_invalid)

lemma eo_done_sticky:
  "eo_invalid ob \<Longrightarrow> eo_invalid (eo_done ob)" "eo_response_error (eo_done ob) = eo_response_error ob"
  by (auto simp: eo_done_def eo_invalid_def [of "ob\<lparr>eo_inner := _\<rparr>"] co_done_def sc_done_def
      split: endpoint_observer_inner.split) (auto simp: eo_invalid_def elim: is_none_or_mono)

lemma eo_observe_sticky: "eo_invalid ob \<Longrightarrow> eo_invalid (eo_observe fs e d ob)"
  by (auto simp: eo_observe_def Let_def intro: eo_done_sticky inner_observe_sticky split: option.split)

definition eo_error_inv :: "endpoint_observer \<Rightarrow> bool" where
  "eo_error_inv ob = (eo_response_error ob \<noteq> None \<longrightarrow> eo_invalid ob)"

lemma eo_observe_error:
  assumes "eo_error_inv ob"
  shows "eo_error_inv (eo_observe fs e d ob)"
    "eo_response_error ob = Some x \<Longrightarrow> eo_response_error (eo_observe fs e d ob) = Some x"
proof -
  show keep: "eo_response_error ob = Some x \<Longrightarrow> eo_response_error (eo_observe fs e d ob) = Some x"
    by (auto simp: eo_observe_def Let_def get_or_insert_def eo_done_sticky split: option.split)
  show "eo_error_inv (eo_observe fs e d ob)"
  proof (cases "eo_response_error ob")
    case (Some y)
    with assms have "eo_invalid ob" by (simp add: eo_error_inv_def)
    then show ?thesis by (simp add: eo_error_inv_def eo_observe_sticky)
  next
    case None
    then show ?thesis
      by (auto simp: eo_error_inv_def eo_observe_def Let_def eo_done_sticky intro: inner_observe_sticky
          split: option.split)
  qed
qed

lemma eo_run_error:
  "eo_error_inv ob \<Longrightarrow> eo_error_inv (eo_run fs ob evs)"
  "eo_error_inv ob \<Longrightarrow> eo_response_error ob = Some x \<Longrightarrow> eo_response_error (eo_run fs ob evs) = Some x"
  by (induction evs arbitrary: ob) (auto simp: eo_run_def eo_observe_error)

lemma eo_new_error: "eo_error_inv (eo_new ep c)"
  by (simp add: eo_error_inv_def eo_new_def)

lemma eo_invalid_blocks: "eo_invalid ob \<Longrightarrow> eo_finish ob = None \<and> \<not> eo_cache_complete ob"
  by (auto simp: eo_invalid_def eo_finish_def eo_cache_complete_def co_finish_def ro_finish_def mo_finish_def
      is_some_and_iff sc_complete_def split: endpoint_observer_inner.splits)

text \<open>
  The first explicit upstream error of a stream is final.  Whatever events follow it, even a
  well-formed completion with usage, the reported error stays the first one, no usage is settled
  from the stream and the stream is not admitted to the cache.
\<close>

theorem stream_error_is_final:
  assumes "eo_response_error (eo_run fs (eo_new ep cache) evs) = Some x"
  shows "eo_response_error (eo_run fs (eo_new ep cache) (evs @ later)) = Some x
    \<and> eo_finish (eo_run fs (eo_new ep cache) (evs @ later)) = None
    \<and> \<not> eo_cache_complete (eo_run fs (eo_new ep cache) (evs @ later))"
proof -
  let ?ob = "eo_run fs (eo_new ep cache) evs"
  have run: "eo_run fs (eo_new ep cache) (evs @ later) = eo_run fs ?ob later" by (simp add: eo_run_def)
  have inv: "eo_error_inv ?ob" by (rule eo_run_error(1) [OF eo_new_error])
  have err: "eo_response_error (eo_run fs ?ob later) = Some x" by (rule eo_run_error(2) [OF inv assms])
  with eo_run_error(1) [OF inv, of fs later] have "eo_invalid (eo_run fs ?ob later)" by (simp add: eo_error_inv_def)
  with err eo_invalid_blocks show ?thesis unfolding run by blast
qed

theorem stream_error_is_final_witness:
  "eo_finish (eo_run (\<lambda>d. if d = ''E'' then Some (JObj [(''type'', JStr ''error''),
        (''error'', JObj [(''type'', JStr ''overloaded_error'')])])
      else Some (JObj [(''type'', JStr ''message_stop'')]))
     (eo_new Messages True) [(None, ''E''), (None, ''S'')]) = None"
proof -
  let ?fs = "\<lambda>d. if d = ''E'' then Some (JObj [(''type'', JStr ''error''),
        (''error'', JObj [(''type'', JStr ''overloaded_error'')])])
      else Some (JObj [(''type'', JStr ''message_stop'')])"
  have "eo_response_error (eo_run ?fs (eo_new Messages True) [(None, ''E'')]) = Some Server" by code_simp
  from stream_error_is_final [OF this, of "[(None, ''S'')]"] show ?thesis by simp
qed

section \<open>Classification\<close>

lemma classify_signals_agree:
  "classify_signals ep error names c0 = Inr (Some c) \<Longrightarrow>
     (c0 = None \<or> c0 = Some c) \<and>
     (\<forall>n\<in>set names. \<forall>x. Option.bind (jget n error) (classify ep) = Some x \<longrightarrow> x = c)"
proof (induction names arbitrary: c0)
  case (Cons n names)
  show ?case
  proof (cases "Option.bind (jget n error) (classify ep)")
    case None
    with Cons show ?thesis by auto
  next
    case (Some x)
    with Cons.prems have "\<not> is_some_and (\<lambda>p. p \<noteq> x) c0" "classify_signals ep error names (Some x) = Inr (Some c)"
      by (auto split: if_splits)
    with Cons.IH [OF this(2)] Some show ?thesis by (cases c0) auto
  qed
qed simp

text \<open>
  An upstream error is classified only when all its signals agree.  If the result is a
  definite class, then every one of the fields \<open>status\<close>, \<open>status_code\<close>, \<open>code\<close> and \<open>type\<close> of the
  error object that carries a known signal carries this class; contradicting signals give
  \<open>UnknownError\<close>.
\<close>

theorem error_class_signals_agree:
  assumes "response_error ep event v = Some c" "c \<noteq> UnknownError" "jget ''error'' v = Some err" "err \<noteq> JNull"
    "name \<in> {''status'', ''status_code'', ''code'', ''type''}" "jget name err = Some signal" "classify ep signal = Some d"
  shows "d = c"
proof -
  from assms(3,4) have "classify_signals ep err [''status'', ''status_code'', ''code'', ''type''] None = Inr (Some c)"
    using assms(1,2) by (auto simp: response_error_def Let_def is_null_def split: sum.splits option.splits if_splits)
  from classify_signals_agree [OF this] assms(5-7) show ?thesis by auto
qed

theorem error_class_signals_agree_witness:
  "response_error Messages None (JObj [(''error'', JObj [(''code'', JPos 429), (''type'', JStr ''rate_limit_error'')])])
     = Some RateLimit \<and> classify Messages (JStr ''rate_limit_error'') = Some RateLimit"
proof -
  let ?err = "JObj [(''code'', JPos 429), (''type'', JStr ''rate_limit_error'')]"
  have e: "response_error Messages None (JObj [(''error'', ?err)]) = Some RateLimit" by code_simp
  have "classify Messages (JStr ''rate_limit_error'') \<noteq> None" by code_simp
  then obtain d where d: "classify Messages (JStr ''rate_limit_error'') = Some d" by blast
  from error_class_signals_agree [OF e, of ?err "''type''" "JStr ''rate_limit_error''" d] d e show ?thesis by simp
qed

section \<open>Settled usage\<close>

lemma bind_pointer_Nil [simp]: "Option.bind x (pointer []) = x"
  by (cases x) simp_all



section \<open>Settled totals\<close>

text \<open>
  What a settlement charges.  The total of a usage report is within 64 bits when it exists;
  for Messages it is the sum of all four counters, for Chat and Responses (where cached input is
  part of the input) the sum of input and output; it is refused exactly when such a sum does not
  fit or the cache counters contradict the endpoint.
\<close>

theorem usage_total_spec:
  "usage_total u ep = Some n \<longleftrightarrow>
     ou_input_tokens u + ou_output_tokens u \<le> u64_max \<and>
     (case ep of
        Messages \<Rightarrow> n = ou_input_tokens u + ou_output_tokens u + ou_cache_creation_input_tokens u
             + ou_cache_read_input_tokens u \<and> n \<le> u64_max
      | ChatCompletions \<Rightarrow> n = ou_input_tokens u + ou_output_tokens u \<and>
             ou_cache_read_input_tokens u \<le> ou_input_tokens u \<and> ou_cache_creation_input_tokens u = 0
      | Responses \<Rightarrow> n = ou_input_tokens u + ou_output_tokens u \<and>
             ou_cache_read_input_tokens u \<le> ou_input_tokens u \<and> ou_cache_creation_input_tokens u = 0
      | _ \<Rightarrow> n = 0)"
  by (cases ep) (auto simp: usage_total_def checked_add_def bind_eq_Some_conv)

end
