(* ===== verification/Fair_Queue.thy ===== *)
theory Fair_Queue
  imports Ledger
begin

text \<open>
  The admission queue of \<^verbatim>\<open>admission/queue.rs\<close>: one FIFO per root, round robin between the
  heads, a barrier that protects a head that was bypassed too often or is too old, and the
  recovery state after an upstream rejection (cool-down, one probe).  The queue owns the ledger.

  A result cell, \<^verbatim>\<open>Arc<Mutex<Option<...>>>\<close>, is an address in the store \<open>q_cells\<close> of the
  queue record.  A panic of the source (an index out of range, a failed \<^verbatim>\<open>expect\<close>, the
  \<^verbatim>\<open>unreachable!\<close>) is the value \<open>None\<close>; the lemmas show that it never arises from a
  well-formed queue.
\<close>

section \<open>Data\<close>

datatype acquire_error = EstimateExceedsBudget | QueueFull | InvalidRoot | Deadline

datatype benchmark_policy = Rr | Fifo | Backfill

definition MAX_WAITING :: nat where
  "MAX_WAITING = 64"

definition MAX_BYPASSES :: nat where
  "MAX_BYPASSES = 8"

definition MAX_AGE :: duration where
  "MAX_AGE = from_secs 5"

type_synonym result_cell = nat
type_synonym ticket_result = "acquire_error + reservation_id"

record waiting =
  w_result :: result_cell
  w_cost :: request_cost
  w_enqueued :: duration
  w_deadline :: duration
  w_sequence :: nat
  w_bypasses :: nat

record recovery =
  rec_generation_only :: bool
  rec_probe :: "reservation_id option"

record queue =
  q_ledger :: ledger
  q_policy :: benchmark_policy
  q_cooldown_until :: duration
  q_generation :: nat
  q_recovery :: "recovery option"
  q_no_hint_stage :: nat
  q_roots :: "waiting list list"
  q_cursor :: nat
  q_sequence :: nat
  q_barrier :: "(nat \<times> nat) option"
  q_cells :: "result_cell \<Rightarrow> ticket_result option"
  q_next_cell :: result_cell

definition queue_new :: "ledger \<Rightarrow> nat \<Rightarrow> queue" where
  "queue_new l roots =
     \<lparr>q_ledger = l, q_policy = Rr, q_cooldown_until = 0, q_generation = 0, q_recovery = None,
      q_no_hint_stage = 0, q_roots = replicate roots [], q_cursor = 0, q_sequence = 0,
      q_barrier = None, q_cells = (\<lambda>_. None), q_next_cell = 0\<rparr>"

definition q_len :: "queue \<Rightarrow> nat" where
  "q_len q = sum_list (map length (q_roots q))"

definition q_lengths :: "queue \<Rightarrow> nat list" where
  "q_lengths q = map length (q_roots q)"

definition barrier_root :: "queue \<Rightarrow> nat option" where
  "barrier_root q = map_option fst (q_barrier q)"

text \<open>\<^verbatim>\<open>VecDeque::front\<close>, and the heads with their root index.\<close>

fun front :: "'a list \<Rightarrow> 'a option" where
  "front [] = None"
| "front (x # _) = Some x"

definition heads :: "queue \<Rightarrow> waiting list" where
  "heads q = List.map_filter front (q_roots q)"

definition indexed_heads :: "queue \<Rightarrow> (nat \<times> waiting) list" where
  "indexed_heads q =
     List.map_filter (\<lambda>(i, r). map_option (Pair i) (front r)) (enumerate 0 (q_roots q))"

section \<open>Recovery\<close>

definition eligible :: "queue \<Rightarrow> request_cost \<Rightarrow> bool" where
  "eligible q cost =
     (case q_recovery q of None \<Rightarrow> True
      | Some r \<Rightarrow> (rec_generation_only r \<and> \<not> is_generation cost) \<or> rec_probe r = None)"

definition can_start :: "queue \<Rightarrow> duration \<Rightarrow> reservation_id \<Rightarrow> request_cost \<Rightarrow> bool" where
  "can_start q now i cost =
     (q_cooldown_until q \<le> now \<and>
      (case q_recovery q of None \<Rightarrow> True
       | Some r \<Rightarrow> (rec_generation_only r \<and> \<not> is_generation cost) \<or> rec_probe r = Some i))"

definition arm_recovery :: "duration \<Rightarrow> duration \<Rightarrow> bool \<Rightarrow> queue \<Rightarrow> queue" where
  "arm_recovery now delay generation_only q =
     q\<lparr>q_cooldown_until := max (q_cooldown_until q) (dur_add now delay),
       q_generation := wrapping_add u64_max (q_generation q) 1,
       q_recovery := Some \<lparr>rec_generation_only = generation_only \<or>
           (case q_recovery q of None \<Rightarrow> False | Some r \<Rightarrow> rec_generation_only r),
         rec_probe = None\<rparr>\<rparr>"

definition SECONDS :: "nat list" where
  "SECONDS = [1, 3, 5, 10, 20, 30]"

text \<open>
  \<^verbatim>\<open>Queue::throttle\<close>; \<open>jitter\<close> is the number of milliseconds drawn by
  \<^verbatim>\<open>rand::random_range(0..=250)\<close>.
\<close>

definition throttle ::
  "nat \<Rightarrow> duration \<Rightarrow> nat \<Rightarrow> request_cost \<Rightarrow> bool \<Rightarrow> queue \<Rightarrow> queue option" where
  "throttle jitter now generation cost has_timing q =
     (if generation \<noteq> q_generation q then
        (case q_recovery q of
           None \<Rightarrow> Some q
         | Some r \<Rightarrow>
             if is_generation cost \<and> \<not> rec_generation_only r then
               (let keep_probe = (case rec_probe r of None \<Rightarrow> False
                                  | Some i \<Rightarrow> is_active_generation (q_ledger q) i);
                    r' = r\<lparr>rec_generation_only := True\<rparr>
                in Some (if \<not> keep_probe
                         then q\<lparr>q_generation := wrapping_add u64_max (q_generation q) 1,
                                q_recovery := Some (r'\<lparr>rec_probe := None\<rparr>)\<rparr>
                         else q\<lparr>q_recovery := Some r'\<rparr>))
             else Some q)
      else if has_timing then Some (arm_recovery now 0 (is_generation cost) q)
      else if q_no_hint_stage q < length SECONDS then
        Some (arm_recovery now
                (from_secs (SECONDS ! q_no_hint_stage q) + from_millis jitter) (is_generation cost)
                (q\<lparr>q_no_hint_stage := min (q_no_hint_stage q + 1) (length SECONDS - 1)\<rparr>))
      else None)"

definition accepted :: "duration \<Rightarrow> reservation_id \<Rightarrow> nat \<Rightarrow> queue \<Rightarrow> queue" where
  "accepted now i generation q =
     (if generation = q_generation q \<and> q_cooldown_until q \<le> now
         \<and> (case q_recovery q of None \<Rightarrow> False | Some r \<Rightarrow> rec_probe r = Some i)
      then q\<lparr>q_recovery := None, q_no_hint_stage := 0\<rparr> else q)"

definition release_probe :: "reservation_id \<Rightarrow> queue \<Rightarrow> queue" where
  "release_probe i q =
     (case q_recovery q of None \<Rightarrow> q
      | Some r \<Rightarrow> if rec_probe r = Some i then q\<lparr>q_recovery := Some (r\<lparr>rec_probe := None\<rparr>)\<rparr> else q)"

section \<open>Enqueue, protect, cancel\<close>

definition enqueue ::
  "nat \<Rightarrow> request_cost \<Rightarrow> duration \<Rightarrow> duration \<Rightarrow> queue \<Rightarrow> (acquire_error + result_cell) \<times> queue" where
  "enqueue root cost enqueued deadline q =
     (if length (q_roots q) \<le> root then (Inl InvalidRoot, q)
      else if \<not> total_fits (q_ledger q) cost then (Inl EstimateExceedsBudget, q)
      else if MAX_WAITING \<le> q_len q then (Inl QueueFull, q)
      else case checked_add u64_max (q_sequence q) 1 of
        None \<Rightarrow> (Inl QueueFull, q)
      | Some s \<Rightarrow>
          (Inr (q_next_cell q),
           q\<lparr>q_sequence := s,
             q_roots := (q_roots q)[root := q_roots q ! root @
               [\<lparr>w_result = q_next_cell q, w_cost = cost, w_enqueued = enqueued,
                 w_deadline = deadline, w_sequence = s, w_bypasses = 0\<rparr>]],
             q_cells := (q_cells q)(q_next_cell q := None),
             q_next_cell := Suc (q_next_cell q)\<rparr>))"

definition triggered :: "duration \<Rightarrow> queue \<Rightarrow> bool" where
  "triggered now q =
     list_ex (\<lambda>h. MAX_BYPASSES \<le> w_bypasses h \<or> MAX_AGE \<le> saturating_sub now (w_enqueued h)) (heads q)"

definition age_key :: "nat \<times> waiting \<Rightarrow> duration \<times> nat" where
  "age_key = (\<lambda>(_, h). (w_enqueued h, w_sequence h))"

text \<open>Whether the protected head is still there; \<open>None\<close> is an index out of range.\<close>

definition barrier_valid :: "queue \<Rightarrow> bool option" where
  "barrier_valid q =
     (case q_barrier q of None \<Rightarrow> Some False
      | Some (root, sequence) \<Rightarrow>
          if root < length (q_roots q)
          then Some (case front (q_roots q ! root) of None \<Rightarrow> False | Some h \<Rightarrow> w_sequence h = sequence)
          else None)"

definition protect :: "duration \<Rightarrow> queue \<Rightarrow> queue option" where
  "protect now q =
     (if q_policy q = Fifo then Some (q\<lparr>q_barrier := None\<rparr>)
      else case barrier_valid q of
        None \<Rightarrow> None
      | Some valid \<Rightarrow>
          if valid then Some q
          else Some (q\<lparr>q_barrier :=
            (if triggered now q
             then map_option (\<lambda>(root, h). (root, w_sequence h)) (min_by_key age_key (indexed_heads q))
             else None)\<rparr>))"

definition cancel :: "duration \<Rightarrow> nat \<Rightarrow> result_cell \<Rightarrow> queue \<Rightarrow> queue option" where
  "cancel now root cell q =
     (if root < length (q_roots q) then
        let q1 = (case position (\<lambda>w. w_result w = cell) (q_roots q ! root) of
                    None \<Rightarrow> q
                  | Some index \<Rightarrow> q\<lparr>q_roots := (q_roots q)[root := remove_at index (q_roots q ! root)]\<rparr>);
            taken = q_cells q1 cell;
            q2 = q1\<lparr>q_cells := (q_cells q1)(cell := None)\<rparr>;
            q3 = (case taken of
                    Some (Inr i) \<Rightarrow> release_probe i (q2\<lparr>q_ledger := snd (ledger_cancel (q_ledger q2) now i)\<rparr>)
                  | _ \<Rightarrow> q2)
        in protect now q3
      else None)"

section \<open>Drive\<close>

text \<open>The first loop of \<^verbatim>\<open>Queue::drive\<close>: expired waiters are answered and dropped.\<close>

definition expire :: "duration \<Rightarrow> queue \<Rightarrow> queue" where
  "expire now q =
     (let gone = filter (\<lambda>w. w_deadline w \<le> now) (concat (q_roots q)) in
      q\<lparr>q_roots := map (filter (\<lambda>w. \<not> w_deadline w \<le> now)) (q_roots q),
        q_cells := foldl (\<lambda>c w. c(w_result w := Some (Inl Deadline))) (q_cells q) gone\<rparr>)"

text \<open>The loop that fills \<^verbatim>\<open>fits\<close>, an array of sixteen booleans.\<close>

fun inspect_heads ::
  "queue \<Rightarrow> duration \<Rightarrow> nat \<Rightarrow> waiting list list \<Rightarrow> bool list \<Rightarrow> ledger \<Rightarrow> (bool list \<times> ledger) option" where
  "inspect_heads q now root [] fits l = Some (fits, l)"
| "inspect_heads q now root ([] # rs) fits l = inspect_heads q now (Suc root) rs fits l"
| "inspect_heads q now root ((h # hs) # rs) fits l =
     (let (c, l') = check l now (w_cost h) in
      if root < length fits
      then inspect_heads q now (Suc root) rs (fits[root := (c = Inr () \<and> eligible q (w_cost h))]) l'
      else None)"

definition rr_order :: "queue \<Rightarrow> nat list" where
  "rr_order q = map (\<lambda>offset. (q_cursor q + offset) mod length (q_roots q)) [0..<length (q_roots q)]"

text \<open>\<^verbatim>\<open>fits[root]\<close> with its bounds check.\<close>

definition fit_at :: "bool list \<Rightarrow> nat \<Rightarrow> bool option" where
  "fit_at fits root = (if root < length fits then Some (fits ! root) else None)"

fun find_fit :: "bool list \<Rightarrow> nat list \<Rightarrow> nat option option" where
  "find_fit fits [] = Some None"
| "find_fit fits (r # rs) =
     (case fit_at fits r of None \<Rightarrow> None
      | Some b \<Rightarrow> if b then Some (Some r) else find_fit fits rs)"

fun find_backfill ::
  "queue \<Rightarrow> duration \<Rightarrow> nat \<Rightarrow> waiting \<Rightarrow> bool list \<Rightarrow> nat list \<Rightarrow> ledger \<Rightarrow> (nat option \<times> ledger) option" where
  "find_backfill q now protected head fits [] l = Some (None, l)"
| "find_backfill q now protected head fits (r # rs) l =
     (if r = protected then find_backfill q now protected head fits rs l
      else case fit_at fits r of
        None \<Rightarrow> None
      | Some False \<Rightarrow> find_backfill q now protected head fits rs l
      | Some True \<Rightarrow>
          (case front (q_roots q ! r) of
             None \<Rightarrow> None
           | Some cand \<Rightarrow>
               let (b, l') = can_backfill l now (w_cost head) (w_deadline head) (w_cost cand)
               in if b then Some (Some r, l') else find_backfill q now protected head fits rs l'))"

definition fit_root :: "bool list \<Rightarrow> nat \<Rightarrow> nat option option" where
  "fit_root fits root = map_option (\<lambda>b. if b then Some root else None) (fit_at fits root)"

definition select_root :: "duration \<Rightarrow> bool list \<Rightarrow> queue \<Rightarrow> (nat option \<times> queue) option" where
  "select_root now fits q =
     (case (case q_barrier q of Some (root, _) \<Rightarrow> fit_root fits root
            | None \<Rightarrow> find_fit fits (rr_order q)) of
        None \<Rightarrow> None
      | Some selected \<Rightarrow>
          if q_policy q = Fifo then
            (case min_by_key age_key (indexed_heads q) of
               None \<Rightarrow> Some (None, q)
             | Some (root, _) \<Rightarrow> map_option (\<lambda>s. (s, q)) (fit_root fits root))
          else if q_policy q = Backfill \<and> selected = None then
            (case q_barrier q of
               None \<Rightarrow> Some (None, q)
             | Some (protected, _) \<Rightarrow>
                 (case front (q_roots q ! protected) of
                    None \<Rightarrow> None
                  | Some head \<Rightarrow>
                      map_option (\<lambda>(s, l). (s, q\<lparr>q_ledger := l\<rparr>))
                        (find_backfill q now protected head fits (rr_order q) (q_ledger q))))
          else Some (selected, q))"

fun bump_front :: "waiting list \<Rightarrow> waiting list" where
  "bump_front [] = []"
| "bump_front (h # hs) = h\<lparr>w_bypasses := saturating_add u8_max (w_bypasses h) 1\<rparr> # hs"

definition count_bypasses :: "bool list \<Rightarrow> nat \<Rightarrow> waiting list list \<Rightarrow> waiting list list" where
  "count_bypasses fits root roots =
     map (\<lambda>(i, r). if i \<noteq> root \<and> \<not> fits ! i then bump_front r else r) (enumerate 0 roots)"

text \<open>The rest of the iteration once a root is selected.\<close>

definition take_turn :: "duration \<Rightarrow> bool list \<Rightarrow> nat \<Rightarrow> queue \<Rightarrow> queue option" where
  "take_turn now fits root q =
     (if length (q_roots q) \<le> length fits \<and> root < length (q_roots q) then
        let roots = count_bypasses fits root (q_roots q) in
        case roots ! root of
          [] \<Rightarrow> None
        | head # rest \<Rightarrow>
            (case admit (q_ledger q) now (w_cost head) of
               (Admitted i, l) \<Rightarrow>
                 Some (q\<lparr>q_ledger := l,
                   q_roots := roots[root := rest],
                   q_recovery := map_option (\<lambda>r.
                     if \<not> rec_generation_only r \<or> is_generation (w_cost head)
                     then r\<lparr>rec_probe := Some i\<rparr> else r) (q_recovery q),
                   q_cells := (q_cells q)(w_result head := Some (Inr i)),
                   q_cursor := (root + 1) mod length (q_roots q)\<rparr>)
             | _ \<Rightarrow> None)
      else None)"

text \<open>One iteration of the \<^verbatim>\<open>loop\<close>: \<open>(False, q)\<close> is the \<^verbatim>\<open>break\<close>.\<close>

definition drive_round :: "duration \<Rightarrow> queue \<Rightarrow> (bool \<times> queue) option" where
  "drive_round now q0 =
     (case protect now q0 of
        None \<Rightarrow> None
      | Some q \<Rightarrow>
          if now < q_cooldown_until q then Some (False, q)
          else case inspect_heads q now 0 (q_roots q) (replicate 16 False) (q_ledger q) of
            None \<Rightarrow> None
          | Some (fits, l) \<Rightarrow>
              (case select_root now fits (q\<lparr>q_ledger := l\<rparr>) of
                 None \<Rightarrow> None
               | Some (None, q') \<Rightarrow> Some (False, q')
               | Some (Some root, q') \<Rightarrow> map_option (Pair True) (take_turn now fits root q')))"

lemma protect_roots: "protect now q = Some q' \<Longrightarrow> q_roots q' = q_roots q"
  by (auto simp: protect_def split: if_splits option.splits)

lemma select_root_roots: "select_root now fits q = Some (s, q') \<Longrightarrow> q_roots q' = q_roots q"
  by (auto simp: select_root_def split: if_splits option.splits)

lemma length_bump_front [simp]: "length (bump_front r) = length r"
  by (cases r) simp_all

lemma nth_count_bypasses [simp]:
  "i < length roots \<Longrightarrow> count_bypasses fits root roots ! i =
     (if i \<noteq> root \<and> \<not> fits ! i then bump_front (roots ! i) else roots ! i)"
  by (simp add: count_bypasses_def nth_enumerate_eq)

lemma length_count_bypasses [simp]:
  "length (count_bypasses fits root roots) = length roots"
  "map length (count_bypasses fits root roots) = map length roots"
  by (auto simp: count_bypasses_def nth_enumerate_eq intro!: nth_equalityI)

lemma take_turn_len: "take_turn now fits root q = Some q' \<Longrightarrow> q_len q = Suc (q_len q')"
proof -
  assume t: "take_turn now fits root q = Some q'"
  let ?rs = "count_bypasses fits root (q_roots q)"
  from t obtain h rest where r: "?rs ! root = h # rest" "root < length ?rs" "q_roots q' = ?rs[root := rest]"
    by (auto simp: take_turn_def Let_def split: if_splits list.splits prod.splits decision.splits)
  have "sum_list (map length ?rs) = Suc (sum_list (map length (?rs[root := rest])))"
  proof -
    have "sum_list (map length (?rs[root := rest])) + length (?rs ! root) = sum_list (map length ?rs) + length rest"
      using r(2) elem_le_sum_list [of root "map length ?rs"] by (simp add: map_update sum_list_update)
    with r(1) show ?thesis by simp
  qed
  with r(3) show ?thesis by (simp add: q_len_def)
qed

lemma drive_round_len: "drive_round now q = Some (True, q') \<Longrightarrow> q_len q' < q_len q"
proof -
  assume d: "drive_round now q = Some (True, q')"
  then obtain q1 q2 l fits root where s: "protect now q = Some q1"
    "select_root now fits (q1\<lparr>q_ledger := l\<rparr>) = Some (Some root, q2)"
    "take_turn now fits root q2 = Some q'"
    by (auto simp: drive_round_def split: option.splits if_splits prod.splits)
  from protect_roots [OF s(1)] select_root_roots [OF s(2)] take_turn_len [OF s(3)]
  show ?thesis by (simp add: q_len_def)
qed

function drive_loop :: "duration \<Rightarrow> queue \<Rightarrow> queue option" where
  "drive_loop now q =
     (case drive_round now q of
        None \<Rightarrow> None
      | Some (continue, q') \<Rightarrow> if continue then drive_loop now q' else Some q')"
  by pat_completeness auto
termination
  by (relation "measure (\<lambda>(_, q). q_len q)") (auto simp: drive_round_len)

declare drive_loop.simps [simp del]

definition drive_wake :: "duration \<Rightarrow> queue \<Rightarrow> duration option" where
  "drive_wake now q =
     (let deadlines = map w_deadline (concat (q_roots q));
          ages = filter (\<lambda>at. now < at) (map (\<lambda>w. dur_add (w_enqueued w) MAX_AGE) (heads q));
          resource_wake = (if now < q_cooldown_until q then Some (q_cooldown_until q)
                           else next_wake (q_ledger q))
      in min_opt (deadlines @ ages @ (case resource_wake of None \<Rightarrow> [] | Some at \<Rightarrow> [at])))"

definition drive :: "duration \<Rightarrow> queue \<Rightarrow> (duration option \<times> queue) option" where
  "drive now q =
     (case drive_loop now (expire now q) of
        None \<Rightarrow> None
      | Some q' \<Rightarrow> Some (if q_len q' = 0 then None else drive_wake now q', q'))"

fun first_reason :: "duration \<Rightarrow> waiting list \<Rightarrow> ledger \<Rightarrow> string option \<times> ledger" where
  "first_reason now [] l = (None, l)"
| "first_reason now (w # ws) l =
     (case check l now (w_cost w) of
        (Inl r, l') \<Rightarrow> (Some r, l')
      | (Inr _, l') \<Rightarrow> first_reason now ws l')"

definition blocked_reason :: "duration \<Rightarrow> queue \<Rightarrow> (string option \<times> queue) option" where
  "blocked_reason now q =
     (if q_len q = 0 then Some (None, q)
      else if now < q_cooldown_until q then Some (Some ''upstream_cooldown'', q)
      else if list_ex (\<lambda>h. \<not> eligible q (w_cost h)) (heads q) then Some (Some ''upstream_recovery'', q)
      else case q_barrier q of
        Some (root, _) \<Rightarrow>
          if root < length (q_roots q) then
            (case front (q_roots q ! root) of
               None \<Rightarrow> Some (None, q)
             | Some head \<Rightarrow>
                 (case check (q_ledger q) now (w_cost head) of
                    (Inl r, l) \<Rightarrow> Some (Some r, q\<lparr>q_ledger := l\<rparr>)
                  | (Inr _, l) \<Rightarrow> Some (None, q\<lparr>q_ledger := l\<rparr>)))
          else None
      | None \<Rightarrow>
          let (r, l) = first_reason now (heads q) (q_ledger q) in Some (r, q\<lparr>q_ledger := l\<rparr>))"

end
