(* ===== verification/Fair_Queue_Drive.thy ===== *)
theory Fair_Queue_Drive
  imports Fair_Queue
begin

text \<open>
  Correctness of the admission queue: the invariant \<open>queue_inv\<close> that every operation keeps, that
  no operation panics on a well-formed queue, and the scheduling contract of \<open>drive\<close>.
\<close>

section \<open>Invariant\<close>

definition wait_ok :: "queue \<Rightarrow> waiting \<Rightarrow> bool" where
  "wait_ok q w =
     (w_sequence w \<le> q_sequence q \<and> w_bypasses w \<le> u8_max \<and> cost_ok (w_cost w)
      \<and> total_fits (q_ledger q) (w_cost w)
      \<and> w_result w < q_next_cell q \<and> q_cells q (w_result w) = None)"

definition queue_inv :: "queue \<Rightarrow> bool" where
  "queue_inv q =
     (ledger_inv (q_ledger q)
      \<and> length (q_roots q) \<le> 16
      \<and> q_len q \<le> MAX_WAITING \<and> (q_roots q \<noteq> [] \<longrightarrow> q_cursor q < length (q_roots q))
      \<and> q_no_hint_stage q < length SECONDS
      \<and> q_sequence q \<le> u64_max
      \<and> pred_option (\<lambda>(r, _). r < length (q_roots q)) (q_barrier q)
      \<and> list_all (\<lambda>r. sorted_wrt (<) (map w_sequence r)) (q_roots q)
      \<and> list_all (list_all (wait_ok q)) (q_roots q)
      \<and> distinct (map w_result (concat (q_roots q))))"

lemma queue_inv_new:
  "ledger_inv l \<Longrightarrow> n \<le> 16 \<Longrightarrow> queue_inv (queue_new l n)"
  by (simp add: queue_inv_def queue_new_def q_len_def SECONDS_def list_all_iff sum_list_replicate
      concat_replicate_trivial)

lemma total_fits_quota: "ledger_quota l' = ledger_quota l \<Longrightarrow> total_fits l' = total_fits l"
  by (simp add: total_fits_def fun_eq_iff)

lemma ledger_op_quota [simp]:
  "ledger_quota (snd (admit l t c)) = ledger_quota l"
  "ledger_quota (snd (start l t i)) = ledger_quota l"
  "ledger_quota (snd (ledger_cancel l t i)) = ledger_quota l"
  "ledger_quota (snd (finish l t i u)) = ledger_quota l"
proof -
  show "ledger_quota (snd (admit l t c)) = ledger_quota l"
  proof (cases "admit l t c")
    case (Pair d l')
    then show ?thesis
      by (cases d) (auto elim!: admit_Admitted dest: admit_not_Admitted)
  qed
qed (simp_all add: start_def ledger_cancel_def finish_def Let_def split: option.splits)

lemma queue_inv_ledgerD: "queue_inv q \<Longrightarrow> ledger_inv (q_ledger q)"
  by (simp add: queue_inv_def)

text \<open>Changing the ledger, the recovery, the cool-down or the policy keeps the queue part.\<close>

lemma queue_inv_ledger:
  "queue_inv q \<Longrightarrow> ledger_inv l \<Longrightarrow> ledger_quota l = ledger_quota (q_ledger q) \<Longrightarrow>
     queue_inv (q\<lparr>q_ledger := l\<rparr>)"
  using total_fits_quota [of l "q_ledger q"]
  by (simp add: queue_inv_def q_len_def wait_ok_def [abs_def])

lemma queue_inv_recovery [simp]:
  "queue_inv (q\<lparr>q_recovery := r\<rparr>) = queue_inv q"
  "queue_inv (q\<lparr>q_cooldown_until := t\<rparr>) = queue_inv q"
  "queue_inv (q\<lparr>q_generation := g\<rparr>) = queue_inv q"
  "queue_inv (q\<lparr>q_policy := p\<rparr>) = queue_inv q"
  by (simp_all add: queue_inv_def q_len_def wait_ok_def [abs_def])

lemma queue_inv_stage:
  "queue_inv q \<Longrightarrow> n < length SECONDS \<Longrightarrow> queue_inv (q\<lparr>q_no_hint_stage := n\<rparr>)"
  by (simp add: queue_inv_def q_len_def wait_ok_def [abs_def])

lemma queue_inv_barrier:
  "queue_inv q \<Longrightarrow> pred_option (\<lambda>(r, _). r < length (q_roots q)) b \<Longrightarrow> queue_inv (q\<lparr>q_barrier := b\<rparr>)"
  by (simp add: queue_inv_def q_len_def wait_ok_def [abs_def])

section \<open>Recovery operations\<close>

lemma arm_recovery_inv: "queue_inv q \<Longrightarrow> queue_inv (arm_recovery now d g q)"
  by (simp add: arm_recovery_def)

lemma throttle_total: "queue_inv q \<Longrightarrow> throttle j now g c b q \<noteq> None"
  by (auto simp: throttle_def queue_inv_def Let_def split: option.splits)

lemma throttle_inv: "queue_inv q \<Longrightarrow> throttle j now g c b q = Some q' \<Longrightarrow> queue_inv q'"
  by (auto simp: throttle_def Let_def arm_recovery_inv queue_inv_stage SECONDS_def
      split: option.splits if_splits)

lemma accepted_inv: "queue_inv q \<Longrightarrow> queue_inv (accepted now i g q)"
  by (simp add: accepted_def queue_inv_stage SECONDS_def)

lemma release_probe_inv: "queue_inv q \<Longrightarrow> queue_inv (release_probe i q)"
  by (simp add: release_probe_def split: option.splits)

section \<open>Heads and the barrier\<close>

lemma front_Some: "front r = Some h \<longleftrightarrow> (\<exists>hs. r = h # hs)"
  by (cases r) auto

lemma set_heads: "h \<in> set (heads q) \<longleftrightarrow> (\<exists>r\<in>set (q_roots q). front r = Some h)"
  by (simp add: heads_def map_filter_set)

lemma set_indexed_heads:
  "(i, h) \<in> set (indexed_heads q) \<longleftrightarrow> i < length (q_roots q) \<and> front (q_roots q ! i) = Some h"
proof -
  have "(i, h) \<in> set (indexed_heads q) \<longleftrightarrow>
    (\<exists>r. (i, r) \<in> set (enumerate 0 (q_roots q)) \<and> front r = Some h)"
    unfolding indexed_heads_def map_filter_set
    by (auto simp del: in_set_enumerate_eq) (force simp del: in_set_enumerate_eq)
  then show ?thesis by (auto simp: in_set_enumerate_eq)
qed

text \<open>After \<open>protect\<close>, a barrier points at the head it was set for.\<close>

definition barrier_ok :: "queue \<Rightarrow> bool" where
  "barrier_ok q =
     pred_option (\<lambda>(r, s). r < length (q_roots q) \<and>
       (\<exists>h. front (q_roots q ! r) = Some h \<and> w_sequence h = s)) (q_barrier q)"

lemma protect_Some:
  assumes "queue_inv q"
  obtains b where "protect now q = Some (q\<lparr>q_barrier := b\<rparr>)" "barrier_ok (q\<lparr>q_barrier := b\<rparr>)"
    "queue_inv (q\<lparr>q_barrier := b\<rparr>)"
proof -
  obtain b where p: "protect now q = Some (q\<lparr>q_barrier := b\<rparr>)" "barrier_ok (q\<lparr>q_barrier := b\<rparr>)"
  proof (cases "q_policy q = Fifo")
    case True
    then show thesis by (intro that [of None]) (simp_all add: protect_def barrier_ok_def)
  next
    case False
    from assms obtain v where v: "barrier_valid q = Some v"
      by (cases "q_barrier q") (auto simp: barrier_valid_def queue_inv_def)
    show thesis
    proof (cases v)
      case True
      with v False show thesis
        by (intro that [of "q_barrier q"])
          (auto simp: protect_def barrier_ok_def barrier_valid_def split: option.splits if_splits)
    next
      case nv: False
      let ?m = "min_by_key age_key (indexed_heads q)"
      have ok: "barrier_ok (q\<lparr>q_barrier := map_option (\<lambda>(root, h). (root, w_sequence h)) ?m\<rparr>)"
        using min_by_key_in [of age_key "indexed_heads q"]
        by (auto simp: barrier_ok_def option.pred_map pred_option_def set_indexed_heads elim!: option.set_cases)
      with v nv False show thesis
        by (intro that [of "if triggered now q then map_option (\<lambda>(root, h). (root, w_sequence h)) ?m else None"])
          (simp_all add: protect_def, simp add: barrier_ok_def)
    qed
  qed
  moreover from p(2) assms have "queue_inv (q\<lparr>q_barrier := b\<rparr>)"
    by (intro queue_inv_barrier) (auto simp: barrier_ok_def pred_option_def)
  ultimately show thesis by (rule that)
qed

section \<open>Inspecting the heads\<close>

definition head_fits :: "duration \<Rightarrow> queue \<Rightarrow> nat \<Rightarrow> bool" where
  "head_fits now q root =
     (root < length (q_roots q) \<and>
      (case front (q_roots q ! root) of None \<Rightarrow> False
       | Some h \<Rightarrow> fst (check (q_ledger q) now (w_cost h)) = Inr () \<and> eligible q (w_cost h)))"

lemma inspect_heads_Some:
  "root + length rs \<le> length fits \<Longrightarrow>
     \<exists>fits'. inspect_heads q now root rs fits l =
         Some (fits', foldl (\<lambda>l c. snd (check l now c)) l (map w_cost (List.map_filter front rs)))
       \<and> length fits' = length fits
       \<and> (\<forall>i. fits' ! i =
            (if root \<le> i \<and> i < root + length rs \<and> rs ! (i - root) \<noteq> []
             then fst (check l now (w_cost (hd (rs ! (i - root))))) = Inr ()
               \<and> eligible q (w_cost (hd (rs ! (i - root))))
             else fits ! i))"
proof (induction q now root rs fits l rule: inspect_heads.induct)
  case (1 q now root fits l)
  then show ?case by (auto simp: List.map_filter_simps)
next
  case (2 q now root rs fits l)
  then have "Suc root + length rs \<le> length fits" by simp
  from 2(1) [OF this] obtain fits' where f: "inspect_heads q now (Suc root) rs fits l =
         Some (fits', foldl (\<lambda>l c. snd (check l now c)) l (map w_cost (List.map_filter front rs)))"
      "length fits' = length fits"
      "\<And>i. fits' ! i =
            (if Suc root \<le> i \<and> i < Suc root + length rs \<and> rs ! (i - Suc root) \<noteq> []
             then fst (check l now (w_cost (hd (rs ! (i - Suc root))))) = Inr ()
               \<and> eligible q (w_cost (hd (rs ! (i - Suc root))))
             else fits ! i)" by blast
  have "([] # rs) ! (i - root) = (if i \<le> root then [] else rs ! (i - Suc root))" for i
    by (cases "i - root") (auto simp: Suc_diff_Suc intro!: arg_cong [where f = "(!) rs"])
  with f show ?case by (auto simp: List.map_filter_simps)
next
  case (3 q now root h hs rs fits l)
  obtain c l' where c: "check l now (w_cost h) = (c, l')" by (cases "check l now (w_cost h)")
  let ?fits = "fits[root := (c = Inr () \<and> eligible q (w_cost h))]"
  from c have l': "l' = advance l now" using check_state [of l now "w_cost h"] by simp
  from 3(2) have le: "root < length fits" "Suc root + length rs \<le> length ?fits" by simp_all
  from 3(1) [OF c [symmetric] refl le] obtain fits' where f: "inspect_heads q now (Suc root) rs ?fits l' =
         Some (fits', foldl (\<lambda>l c. snd (check l now c)) l' (map w_cost (List.map_filter front rs)))"
      "length fits' = length fits"
      "\<And>i. fits' ! i =
            (if Suc root \<le> i \<and> i < Suc root + length rs \<and> rs ! (i - Suc root) \<noteq> []
             then fst (check l' now (w_cost (hd (rs ! (i - Suc root))))) = Inr ()
               \<and> eligible q (w_cost (hd (rs ! (i - Suc root))))
             else ?fits ! i)" by auto
  have "((h # hs) # rs) ! (i - root) = (if i \<le> root then h # hs else rs ! (i - Suc root))" for i
    by (cases "i - root") (auto simp: Suc_diff_Suc intro!: arg_cong [where f = "(!) rs"])
  with f c l' le show ?case by (auto simp: List.map_filter_simps)
qed

lemma inspect_heads_fits:
  assumes "queue_inv q"
  obtains fits l where "inspect_heads q now 0 (q_roots q) (replicate 16 False) (q_ledger q) = Some (fits, l)"
    "length fits = 16" "\<And>i. i < 16 \<Longrightarrow> fits ! i = head_fits now q i"
    "l \<in> {q_ledger q, advance (q_ledger q) now}"
    "heads q \<noteq> [] \<Longrightarrow> l = advance (q_ledger q) now"
proof -
  let ?look = "foldl (\<lambda>l c. advance l now) (q_ledger q)"
  have look: "?look cs = (if cs = [] then q_ledger q else advance (q_ledger q) now)" for cs
    by (induction cs rule: rev_induct) simp_all
  from assms have "0 + length (q_roots q) \<le> length (replicate 16 False)" by (simp add: queue_inv_def)
  from inspect_heads_Some [OF this, of q now "q_ledger q"]
  obtain fits where f: "inspect_heads q now 0 (q_roots q) (replicate 16 False) (q_ledger q)
        = Some (fits, ?look (map w_cost (heads q)))" "length fits = 16"
      "\<And>i. fits ! i = (if i < length (q_roots q) \<and> q_roots q ! i \<noteq> []
         then fst (check (q_ledger q) now (w_cost (hd (q_roots q ! i)))) = Inr ()
           \<and> eligible q (w_cost (hd (q_roots q ! i))) else replicate 16 False ! i)"
    by (auto simp: heads_def)
  have "fits ! i = head_fits now q i" if "i < 16" for i
    using that unfolding f(3) head_fits_def by (cases "q_roots q ! i") simp_all
  then show thesis by (intro that [OF f(1,2)]) (simp_all add: look)
qed

section \<open>Selection\<close>

lemma rr_order_less: "r \<in> set (rr_order q) \<Longrightarrow> r < length (q_roots q)"
  by (cases "q_roots q") (auto simp: rr_order_def)

lemma rr_order_all:
  assumes "r < length (q_roots q)" "q_cursor q < length (q_roots q)"
  shows "r \<in> set (rr_order q)"
proof -
  let ?n = "length (q_roots q)"
  define off where "off = (r + (?n - q_cursor q)) mod ?n"
  have "(q_cursor q + off) mod ?n = (r + ?n) mod ?n"
    using assms(2) unfolding off_def by (simp add: mod_add_right_eq)
  then have "(q_cursor q + off) mod ?n = r" using assms(1) by simp
  moreover have "off < ?n" using assms unfolding off_def by (intro mod_less_divisor) auto
  ultimately show ?thesis by (force simp: rr_order_def)
qed

lemma find_fit_Some:
  "\<forall>r\<in>set rs. r < length fits \<Longrightarrow> find_fit fits rs = Some (List.find (\<lambda>r. fits ! r) rs)"
  by (induction rs) (auto simp: fit_at_def)

lemma find_backfill_total:
  "\<forall>r\<in>set rs. r < length fits \<and> (fits ! r \<longrightarrow> front (q_roots q ! r) \<noteq> None) \<Longrightarrow>
     \<exists>s l'. find_backfill q now p h fits rs l = Some (s, l') \<and> l' \<in> {l, advance l now} \<and>
       (\<forall>r. s = Some r \<longrightarrow> r \<in> set rs \<and> fits ! r)"
proof (induction rs arbitrary: l)
  case (Cons r rs)
  from Cons.IH Cons.prems have IH: "\<exists>s l'. find_backfill q now p h fits rs l = Some (s, l') \<and>
      l' \<in> {l, advance l now} \<and> (\<forall>r. s = Some r \<longrightarrow> r \<in> set rs \<and> fits ! r)" for l by simp
  show ?case
  proof (cases "r = p \<or> \<not> fits ! r")
    case True
    with Cons.prems have "find_backfill q now p h fits (r # rs) l = find_backfill q now p h fits rs l"
      by (auto simp: fit_at_def)
    with IH [of l] show ?thesis by auto
  next
    case False
    with Cons.prems obtain cand where c: "front (q_roots q ! r) = Some cand" and r: "r < length fits" by auto
    obtain b l' where b: "can_backfill l now (w_cost h) (w_deadline h) (w_cost cand) = (b, l')"
      by (cases "can_backfill l now (w_cost h) (w_deadline h) (w_cost cand)")
    then have l': "l' \<in> {l, advance l now}"
      using can_backfill_state [of l now "w_cost h" "w_deadline h" "w_cost cand"] by simp
    show ?thesis
    proof (cases b)
      case True
      with False c r b l' show ?thesis by (simp add: fit_at_def)
    next
      case nb: False
      with False c r b have "find_backfill q now p h fits (r # rs) l = find_backfill q now p h fits rs l'"
        by (simp add: fit_at_def)
      with IH [of l'] l' show ?thesis by auto
    qed
  qed
qed simp

lemma fit_root_Some: "r < length fits \<Longrightarrow> fit_root fits r = Some (if fits ! r then Some r else None)"
  by (simp add: fit_root_def fit_at_def)

lemma find_Some_in: "List.find P xs = Some x \<Longrightarrow> x \<in> set xs \<and> P x"
  by (auto simp: find_Some_iff)

text \<open>What the default policy selects.\<close>

definition rr_choice :: "bool list \<Rightarrow> queue \<Rightarrow> nat option" where
  "rr_choice fits q =
     (case q_barrier q of Some (r, _) \<Rightarrow> if fits ! r then Some r else None
      | None \<Rightarrow> List.find (\<lambda>r. fits ! r) (rr_order q))"

lemma select_root_Some:
  assumes inv: "queue_inv q" and bok: "barrier_ok q" and len: "length fits = 16"
    and nonempty: "\<And>r. r < length (q_roots q) \<Longrightarrow> fits ! r \<Longrightarrow> front (q_roots q ! r) \<noteq> None"
  shows "\<exists>s l'. select_root now fits q = Some (s, q\<lparr>q_ledger := l'\<rparr>)
    \<and> l' \<in> {q_ledger q, advance (q_ledger q) now}
    \<and> (\<forall>r. s = Some r \<longrightarrow> r < length (q_roots q) \<and> fits ! r)
    \<and> (q_policy q = Rr \<longrightarrow> s = rr_choice fits q)"
proof -
  from inv have n: "length (q_roots q) \<le> 16" by (simp add: queue_inv_def)
  have ord: "\<forall>r\<in>set (rr_order q). r < length (q_roots q)" using rr_order_less by blast
  with n len have ord16: "\<forall>r\<in>set (rr_order q). r < length fits" by auto
  have br: "r < length (q_roots q) \<and> (\<exists>h. front (q_roots q ! r) = Some h)" if "q_barrier q = Some (r, sq)" for r sq
    using bok that by (auto simp: barrier_ok_def)
  have sel: "(case q_barrier q of Some (root, _) \<Rightarrow> fit_root fits root | None \<Rightarrow> find_fit fits (rr_order q))
    = Some (rr_choice fits q)"
  proof (cases "q_barrier q")
    case None
    with ord16 show ?thesis by (simp add: rr_choice_def find_fit_Some)
  next
    case (Some b)
    obtain r sq where b: "b = (r, sq)" by (cases b)
    from br [of r sq] Some b n len show ?thesis by (simp add: rr_choice_def fit_root_Some)
  qed
  have choice: "r < length (q_roots q) \<and> fits ! r" if "rr_choice fits q = Some r" for r
    using that br ord by (auto simp: rr_choice_def dest: find_Some_in split: option.splits if_splits)
  have found: ?thesis if "select_root now fits q = Some (s, q\<lparr>q_ledger := l'\<rparr>)"
      "l' \<in> {q_ledger q, advance (q_ledger q) now}" "\<And>r. s = Some r \<Longrightarrow> r < length (q_roots q) \<and> fits ! r"
      "q_policy q = Rr \<Longrightarrow> s = rr_choice fits q" for s l'
    using that by blast
  consider (rr) "q_policy q = Rr \<or> (q_policy q = Backfill \<and> rr_choice fits q \<noteq> None)" | (fifo) "q_policy q = Fifo"
    | (filling) "q_policy q = Backfill" "rr_choice fits q = None" by (cases "q_policy q") auto
  then show ?thesis
  proof cases
    case rr
    then have "select_root now fits q = Some (rr_choice fits q, q\<lparr>q_ledger := q_ledger q\<rparr>)"
      unfolding select_root_def sel by auto
    with choice show ?thesis by blast
  next
    case fifo
    show ?thesis
    proof (cases "min_by_key age_key (indexed_heads q)")
      case None
      with fifo have "select_root now fits q = Some (None, q\<lparr>q_ledger := q_ledger q\<rparr>)"
        unfolding select_root_def sel by simp
      with fifo show ?thesis by (intro found [of None "q_ledger q"]) simp_all
    next
      case (Some x)
      obtain r h where x: "x = (r, h)" by (cases x)
      from min_by_key_in [OF Some] x have r: "r < length (q_roots q)" by (simp add: set_indexed_heads)
      with fifo Some x n len
      have "select_root now fits q = Some (if fits ! r then Some r else None, q\<lparr>q_ledger := q_ledger q\<rparr>)"
        unfolding select_root_def sel by (simp add: fit_root_Some)
      with fifo r show ?thesis by (intro found [of "if fits ! r then Some r else None" "q_ledger q"]) (auto split: if_splits)
    qed
  next
    case filling
    show ?thesis
    proof (cases "q_barrier q")
      case None
      with filling have "select_root now fits q = Some (None, q\<lparr>q_ledger := q_ledger q\<rparr>)"
        unfolding select_root_def sel by simp
      with filling show ?thesis by (intro found [of None "q_ledger q"]) simp_all
    next
      case (Some b)
      obtain p sq where b: "b = (p, sq)" by (cases b)
      from br [of p sq] Some b obtain h where h: "front (q_roots q ! p) = Some h" by auto
      from ord ord16 nonempty have "\<forall>r\<in>set (rr_order q). r < length fits \<and> (fits ! r \<longrightarrow> front (q_roots q ! r) \<noteq> None)"
        by blast
      from find_backfill_total [OF this, of now p h "q_ledger q"] obtain s l'
        where f: "find_backfill q now p h fits (rr_order q) (q_ledger q) = Some (s, l')"
          "l' \<in> {q_ledger q, advance (q_ledger q) now}" "\<forall>r. s = Some r \<longrightarrow> r \<in> set (rr_order q) \<and> fits ! r"
        by blast
      with filling Some b h have "select_root now fits q = Some (s, q\<lparr>q_ledger := l'\<rparr>)"
        unfolding select_root_def sel by simp
      with f(2,3) ord filling show ?thesis by (intro found [of s l']) auto
    qed
  qed
qed

section \<open>One round\<close>

text \<open>The queue after the head \<open>h\<close> of \<open>root\<close> was admitted as \<open>i\<close>.\<close>

definition after_turn :: "bool list \<Rightarrow> nat \<Rightarrow> waiting \<Rightarrow> waiting list \<Rightarrow> nat \<Rightarrow> ledger \<Rightarrow> queue \<Rightarrow> queue" where
  "after_turn fits root h rest i l q =
     q\<lparr>q_ledger := l,
       q_roots := (count_bypasses fits root (q_roots q))[root := rest],
       q_recovery := map_option (\<lambda>r. if \<not> rec_generation_only r \<or> is_generation (w_cost h)
                                    then r\<lparr>rec_probe := Some i\<rparr> else r) (q_recovery q),
       q_cells := (q_cells q)(w_result h := Some (Inr i)),
       q_cursor := (root + 1) mod length (q_roots q)\<rparr>"

lemma take_turn_Some:
  assumes "ledger_inv (q_ledger q)" "length (q_roots q) \<le> length fits" "root < length (q_roots q)"
    "q_roots q ! root = h # rest" "fst (check (q_ledger q) now (w_cost h)) = Inr ()"
  obtains i l where "admit (q_ledger q) now (w_cost h) = (Admitted i, l)"
    "take_turn now fits root q = Some (after_turn fits root h rest i l q)"
proof -
  from checked_admit [OF assms(5,1)] obtain i l where "admit (q_ledger q) now (w_cost h) = (Admitted i, l)"
    by blast
  with assms(2-4) show thesis
    by (intro that [of i l]) (simp_all add: take_turn_def after_turn_def Let_def)
qed

lemma eligible_cong [simp]: "eligible (q\<lparr>q_ledger := l\<rparr>) = eligible q" "eligible (q\<lparr>q_barrier := b\<rparr>) = eligible q"
  by (simp_all add: eligible_def fun_eq_iff)

lemma head_fits_advance:
  "l \<in> {q_ledger q, advance (q_ledger q) now} \<Longrightarrow> head_fits now (q\<lparr>q_ledger := l\<rparr>) = head_fits now q"
  by (auto simp: head_fits_def fun_eq_iff split: option.split)

text \<open>Every outcome of a round on a well-formed queue; there is no panic among them.\<close>

lemma drive_round_cases:
  assumes inv: "queue_inv q"
  obtains
    (cool) q1 where "protect now q = Some q1" "drive_round now q = Some (False, q1)" "now < q_cooldown_until q1"
      "queue_inv q1"
  | (stuck) q1 l where "protect now q = Some q1" "drive_round now q = Some (False, q1\<lparr>q_ledger := l\<rparr>)"
      "q_cooldown_until q1 \<le> now" "l \<in> {q_ledger q1, advance (q_ledger q1) now}"
      "heads q1 \<noteq> [] \<Longrightarrow> l = advance (q_ledger q1) now"
      "q_policy q1 = Rr \<Longrightarrow> (\<forall>r sq. q_barrier q1 = Some (r, sq) \<longrightarrow> \<not> head_fits now q1 r)
         \<and> (q_barrier q1 = None \<longrightarrow> (\<forall>r. \<not> head_fits now q1 r))"
      "queue_inv q1"
  | (turn) q1 fits root h rest i l where "protect now q = Some q1"
      "drive_round now q = Some (True, after_turn fits root h rest i l q1)"
      "q_cooldown_until q1 \<le> now" "head_fits now q1 root" "q_roots q1 ! root = h # rest"
      "length fits = 16" "\<And>r. r < 16 \<Longrightarrow> fits ! r = head_fits now q1 r"
      "admit (q_ledger q1) now (w_cost h) = (Admitted i, l)"
      "q_policy q1 = Rr \<Longrightarrow> rr_choice fits q1 = Some root"
      "queue_inv q1"
proof -
  from protect_Some [OF inv] obtain b where p: "protect now q = Some (q\<lparr>q_barrier := b\<rparr>)"
    "barrier_ok (q\<lparr>q_barrier := b\<rparr>)" "queue_inv (q\<lparr>q_barrier := b\<rparr>)" by blast
  define q1 where "q1 = q\<lparr>q_barrier := b\<rparr>"
  note p = p [folded q1_def]
  show thesis
  proof (cases "now < q_cooldown_until q1")
    case True
    with p show thesis by (intro cool [of q1]) (simp_all add: drive_round_def)
  next
    case False
    from inspect_heads_fits [OF p(3)] obtain fits l1 where f:
      "inspect_heads q1 now 0 (q_roots q1) (replicate 16 False) (q_ledger q1) = Some (fits, l1)"
      "length fits = 16" "\<And>i. i < 16 \<Longrightarrow> fits ! i = head_fits now q1 i"
      "l1 \<in> {q_ledger q1, advance (q_ledger q1) now}" "heads q1 \<noteq> [] \<Longrightarrow> l1 = advance (q_ledger q1) now" by blast
    let ?q = "q1\<lparr>q_ledger := l1\<rparr>"
    from p(3) have n16: "length (q_roots q1) \<le> 16" "ledger_inv (q_ledger q1)"
      "q_roots q1 \<noteq> [] \<Longrightarrow> q_cursor q1 < length (q_roots q1)"
      by (simp_all add: queue_inv_def)
    from f(4) p(3) n16(2) have inv1: "queue_inv ?q"
      by (intro queue_inv_ledger) (auto simp: advance_inv)
    have bok1: "barrier_ok ?q" using p(2) by (simp add: barrier_ok_def)
    have ne: "front (q_roots ?q ! r) \<noteq> None" if "r < length (q_roots ?q)" "fits ! r" for r
      using that f(3) [of r] n16(1) by (auto simp: head_fits_def split: option.splits)
    from select_root_Some [OF inv1 bok1 f(2) ne, of now] obtain s l2 where s:
      "select_root now fits ?q = Some (s, ?q\<lparr>q_ledger := l2\<rparr>)" "l2 \<in> {l1, advance l1 now}"
      "\<forall>r. s = Some r \<longrightarrow> r < length (q_roots q1) \<and> fits ! r" "q_policy q1 = Rr \<longrightarrow> s = rr_choice fits ?q"
      by auto
    have l2: "l2 \<in> {q_ledger q1, advance (q_ledger q1) now}" "heads q1 \<noteq> [] \<Longrightarrow> l2 = advance (q_ledger q1) now"
      using s(2) f(4,5) by auto
    have "rr_order ?q = rr_order q1" by (simp add: rr_order_def)
    then have rc: "rr_choice fits ?q = rr_choice fits q1" by (simp add: rr_choice_def split: option.split)
    note rd = drive_round_def [of now q, unfolded p(1) option.case f(1) prod.case s(1)]
    show thesis
    proof (cases s)
      case None
      have "(\<forall>r sq. q_barrier q1 = Some (r, sq) \<longrightarrow> \<not> head_fits now q1 r)
         \<and> (q_barrier q1 = None \<longrightarrow> (\<forall>r. \<not> head_fits now q1 r))" if "q_policy q1 = Rr"
      proof -
        from that s(4) rc None have c: "rr_choice fits q1 = None" by simp
        have "\<not> head_fits now q1 r" if "q_barrier q1 = None" for r
        proof
          assume h: "head_fits now q1 r"
          then have "r < length (q_roots q1)" by (simp add: head_fits_def)
          moreover from this have "q_cursor q1 < length (q_roots q1)" by (intro n16(3)) auto
          ultimately have "fits ! r" "r \<in> set (rr_order q1)"
            using h f(3) [of r] n16(1) by (auto intro: rr_order_all)
          with c that show False by (auto simp: rr_choice_def find_None_iff)
        qed
        moreover have "\<not> head_fits now q1 r" if "q_barrier q1 = Some (r, sq)" for r sq
          using c that f(3) [of r] n16(1) by (auto simp: rr_choice_def head_fits_def split: if_splits)
        ultimately show ?thesis by blast
      qed
      with None False rd l2 p show thesis by (intro stuck [of q1 l2]) simp_all
    next
      case (Some root)
      with s(3) n16(1) f(3) have r: "root < length (q_roots q1)" "head_fits now q1 root" by auto
      then obtain h rest where h: "q_roots q1 ! root = h # rest"
          "fst (check (q_ledger q1) now (w_cost h)) = Inr ()"
        by (auto simp: head_fits_def front_Some split: option.splits)
      let ?q2 = "q1\<lparr>q_ledger := l2\<rparr>"
      have "ledger_inv l2" "fst (check l2 now (w_cost h)) = Inr ()" "admit l2 now (w_cost h) = admit (q_ledger q1) now (w_cost h)"
        using l2(1) n16(2) h(2) by (auto simp: advance_inv)
      with take_turn_Some [of ?q2 fits root h rest now] r(1) h n16(1) f(2) obtain i l where
        "admit (q_ledger q1) now (w_cost h) = (Admitted i, l)"
        "take_turn now fits root ?q2 = Some (after_turn fits root h rest i l ?q2)" by auto
      moreover have "after_turn fits root h rest i l ?q2 = after_turn fits root h rest i l q1"
        by (simp add: after_turn_def)
      ultimately show thesis using Some False rd r h f(2,3) s(4) rc p
        by (intro turn [of q1 fits root h rest i l]) simp_all
    qed
  qed
qed

section \<open>Shrinking the queue\<close>

text \<open>A waiter up to its bypass count, the only field that changes while it waits.\<close>

definition ticket_of :: "waiting \<Rightarrow> waiting" where
  "ticket_of w = w\<lparr>w_bypasses := 0\<rparr>"

lemma ticket_of_simps [simp]:
  "w_result (ticket_of w) = w_result w" "w_cost (ticket_of w) = w_cost w"
  "w_enqueued (ticket_of w) = w_enqueued w" "w_deadline (ticket_of w) = w_deadline w"
  "w_sequence (ticket_of w) = w_sequence w"
  by (simp_all add: ticket_of_def)

lemma ticket_of_bump [simp]: "map ticket_of (bump_front r) = map ticket_of r"
  by (cases r) (simp_all add: ticket_of_def)

lemma map_ticket_of: "(\<And>w. f (ticket_of w) = f w) \<Longrightarrow> map f r = map f (map ticket_of r)"
  by simp

abbreviation shrunk :: "waiting list list \<Rightarrow> waiting list list \<Rightarrow> bool" where
  "shrunk \<equiv> list_all2 (\<lambda>r' r. subseq (map ticket_of r') (map ticket_of r))"

lemma shrunk_concat: "shrunk rs' rs \<Longrightarrow> subseq (map ticket_of (concat rs')) (map ticket_of (concat rs))"
  by (induction rule: list_all2_induct) (auto intro: list_emb_append_mono)

lemma shrunk_member:
  assumes "shrunk rs' rs" "w \<in> set (concat rs')"
  obtains w0 where "w0 \<in> set (concat rs)" "ticket_of w = ticket_of w0"
proof -
  from assms(2) have "ticket_of w \<in> set (map ticket_of (concat rs'))" by simp
  with subseq_set [OF shrunk_concat [OF assms(1)]] have "ticket_of w \<in> set (map ticket_of (concat rs))"
    by blast
  with that show thesis by auto
qed

lemma shrunk_len: "shrunk rs' rs \<Longrightarrow> sum_list (map length rs') \<le> sum_list (map length rs)"
  by (induction rule: list_all2_induct) (auto dest!: list_emb_length intro: add_mono)

lemma queue_inv_shrunk:
  assumes inv: "queue_inv q" and sh: "shrunk rs (q_roots q)"
    and w: "\<And>w. w \<in> set (concat rs) \<Longrightarrow> w_bypasses w \<le> u8_max \<and> cells (w_result w) = None"
  shows "queue_inv (q\<lparr>q_roots := rs, q_cells := cells\<rparr>)"
proof -
  note len = list_all2_lengthD [OF sh]
  have sorted: "sorted_wrt (<) (map w_sequence r)" if "r \<in> set rs" for r
  proof -
    from that obtain i where i: "i < length rs" "r = rs ! i" by (auto simp: in_set_conv_nth)
    with sh have "subseq (map ticket_of r) (map ticket_of (q_roots q ! i))" by (simp add: list_all2_conv_all_nth)
    then have "subseq (map w_sequence (map ticket_of r)) (map w_sequence (map ticket_of (q_roots q ! i)))"
      by (rule subseq_map)
    moreover have "sorted_wrt (<) (map w_sequence (q_roots q ! i))"
      using inv i len by (simp add: queue_inv_def list_all_iff)
    ultimately show ?thesis by (auto simp: comp_def intro: subseq_sorted_wrt)
  qed
  have "subseq (map w_result (map ticket_of (concat rs))) (map w_result (map ticket_of (concat (q_roots q))))"
    by (intro subseq_map shrunk_concat sh)
  with inv have dist: "distinct (map w_result (concat rs))"
    by (auto simp: queue_inv_def comp_def distinct_conv_sorted intro: subseq_sorted_wrt)
  have ok: "wait_ok (q\<lparr>q_roots := rs, q_cells := cells\<rparr>) w" if "w \<in> set (concat rs)" for w
  proof -
    from shrunk_member [OF sh that] obtain w0 where w0: "w0 \<in> set (concat (q_roots q))" "ticket_of w = ticket_of w0" .
    from w0(2) have "w_sequence w = w_sequence w0" "w_cost w = w_cost w0" "w_result w = w_result w0"
      by (metis ticket_of_simps)+
    moreover from inv w0(1) have "wait_ok q w0" by (auto simp: queue_inv_def list_all_iff)
    ultimately show ?thesis using w [OF that] by (simp add: wait_ok_def)
  qed
  from shrunk_len [OF sh] sorted dist ok inv len show ?thesis
    by (auto simp: queue_inv_def list_all_iff q_len_def)
qed

lemma cells_inj:
  assumes "queue_inv q" "w \<in> set (concat (q_roots q))" "w' \<in> set (concat (q_roots q))" "w_result w = w_result w'"
  shows "w = w'"
  using assms unfolding queue_inv_def distinct_map by (meson inj_onD)

lemma expire_cells: "foldl (\<lambda>c w. c(w_result w := v)) c ws x = (if x \<in> w_result ` set ws then v else c x)"
  by (induction ws arbitrary: c) auto

lemma expire_inv:
  assumes inv: "queue_inv q"
  shows "queue_inv (expire now q)"
proof -
  let ?rs = "map (filter (\<lambda>w. \<not> w_deadline w \<le> now)) (q_roots q)"
  have "subseq (map ticket_of (filter P r)) (map ticket_of r)" for P r
    by (intro subseq_map) simp
  then have "shrunk ?rs (q_roots q)" by (simp add: list_all2_conv_all_nth)
  moreover have "w_bypasses w \<le> u8_max \<and> q_cells (expire now q) (w_result w) = None"
    if w: "w \<in> set (concat ?rs)" for w
  proof -
    from w have w': "w \<in> set (concat (q_roots q))" "\<not> w_deadline w \<le> now" by auto
    with inv have "wait_ok q w" by (auto simp: queue_inv_def list_all_iff)
    moreover have "w_result w \<notin> w_result ` set (filter (\<lambda>w. w_deadline w \<le> now) (concat (q_roots q)))"
      using cells_inj [OF inv w'(1)] w'(2) by auto
    ultimately show ?thesis by (simp add: wait_ok_def expire_def Let_def expire_cells)
  qed
  ultimately show ?thesis using queue_inv_shrunk [OF inv, of ?rs "q_cells (expire now q)"]
    by (simp add: expire_def Let_def)
qed

lemma queue_inv_cursor: "queue_inv q \<Longrightarrow> n < length (q_roots q) \<Longrightarrow> queue_inv (q\<lparr>q_cursor := n\<rparr>)"
  by (simp add: queue_inv_def q_len_def wait_ok_def [abs_def])

lemma turn_shrunk:
  assumes "root < length roots" "roots ! root = h # rest"
  shows "shrunk ((count_bypasses fits root roots)[root := rest]) roots"
  using assms by (auto simp: list_all2_conv_all_nth nth_list_update)

lemma turn_members:
  assumes "root < length roots" "roots ! root = h # rest" "distinct (map w_result (concat roots))"
    "w \<in> set (concat ((count_bypasses fits root roots)[root := rest]))"
  shows "w_result w \<noteq> w_result h \<and> (\<exists>w0\<in>set (concat roots). ticket_of w = ticket_of w0 \<and>
           (w_bypasses w = w_bypasses w0 \<or> w_bypasses w \<le> u8_max))"
proof -
  let ?rs = "(count_bypasses fits root roots)[root := rest]"
  from assms(4) obtain r where "r \<in> set ?rs" "w \<in> set r" by auto
  then obtain i where i: "i < length roots" "w \<in> set (?rs ! i)"
    by (metis in_set_conv_nth length_list_update length_count_bypasses(1))
  have roots: "roots = take root roots @ (h # rest) # drop (Suc root) roots"
    using assms(1,2) id_take_nth_drop by metis
  show ?thesis
  proof (cases "i = root")
    case True
    with i assms have "w \<in> set rest" by simp
    with roots assms(3) have "w_result w \<noteq> w_result h" by (metis concat.simps(2) concat_append distinct.simps(2)
        distinct_append image_eqI list.simps(9) list.set_map map_append Un_iff set_append)
    moreover from \<open>w \<in> set rest\<close> assms(1,2) have "w \<in> set (concat roots)" by (metis list.set_intros(2) nth_mem set_concat UN_I)
    ultimately show ?thesis by auto
  next
    case False
    with i assms(1) obtain w0 where w0: "w0 \<in> set (roots ! i)" "ticket_of w = ticket_of w0"
      "w_bypasses w = w_bypasses w0 \<or> w_bypasses w \<le> u8_max"
      by (cases "roots ! i") (fastforce simp: ticket_of_def split: if_splits)+
    have "w0 \<in> set (concat (take root roots)) \<union> set (concat (drop (Suc root) roots))"
    proof (cases "i < root")
      case True
      with i(1) have "roots ! i \<in> set (take root roots)"
        by (auto simp: in_set_conv_nth intro!: exI [of _ i])
      with w0(1) show ?thesis by auto
    next
      case ge: False
      with False have "i \<ge> Suc root" by simp
      with w0(1) i have "roots ! i \<in> set (drop (Suc root) roots)"
        by (auto simp: in_set_conv_nth intro!: exI [of _ "i - Suc root"])
      with w0(1) show ?thesis by auto
    qed
    moreover have "distinct (map w_result (concat (take root roots @ (h # rest) # drop (Suc root) roots)))"
      using assms(3) roots by metis
    then have "w_result h \<notin> w_result ` (set (concat (take root roots)) \<union> set (concat (drop (Suc root) roots)))"
      by (simp add: image_Un)
    ultimately have "w_result w0 \<noteq> w_result h" by (metis image_eqI)
    with w0 i show ?thesis by (metis nth_mem set_concat UN_I ticket_of_simps(1))
  qed
qed

lemma after_turn_inv:
  assumes inv: "queue_inv q" and r: "root < length (q_roots q)" "q_roots q ! root = h # rest"
    and adm: "admit (q_ledger q) now (w_cost h) = (Admitted i, l)"
  shows "queue_inv (after_turn fits root h rest i l q)"
proof -
  let ?rs = "(count_bypasses fits root (q_roots q))[root := rest]"
  let ?cells = "(q_cells q)(w_result h := Some (Inr i))"
  have "h \<in> set (concat (q_roots q))" using r by (metis list.set_intros(1) nth_mem set_concat UN_I)
  with inv have h: "wait_ok q h" by (auto simp: queue_inv_def list_all_iff)
  have "w_bypasses w \<le> u8_max \<and> ?cells (w_result w) = None" if w: "w \<in> set (concat ?rs)" for w
  proof -
    from turn_members [OF r _ w] inv obtain w0 where "w_result w \<noteq> w_result h" "w0 \<in> set (concat (q_roots q))"
      "ticket_of w = ticket_of w0" "w_bypasses w = w_bypasses w0 \<or> w_bypasses w \<le> u8_max"
      by (auto simp: queue_inv_def)
    moreover from this inv have "wait_ok q w0" by (auto simp: queue_inv_def list_all_iff)
    ultimately show ?thesis by (metis fun_upd_other ticket_of_simps(1) wait_ok_def)
  qed
  from queue_inv_shrunk [OF inv turn_shrunk [OF r] this]
  have "queue_inv (q\<lparr>q_roots := ?rs, q_cells := ?cells\<rparr>)" .
  moreover have "ledger_inv l" "ledger_quota l = ledger_quota (q_ledger q)"
    using admit_inv [of "q_ledger q" "w_cost h" now] ledger_op_quota(1) [of "q_ledger q" now "w_cost h"] adm inv h
    by (simp_all add: queue_inv_def wait_ok_def)
  ultimately have "queue_inv (q\<lparr>q_roots := ?rs, q_cells := ?cells\<rparr>\<lparr>q_ledger := l\<rparr>)"
    by (intro queue_inv_ledger) simp_all
  moreover have "(root + 1) mod length (q_roots q) < length ?rs"
    using r by (simp add: mod_less_divisor [OF le_less_trans [OF le0 r(1)], simplified])
  ultimately have "queue_inv (q\<lparr>q_roots := ?rs, q_cells := ?cells\<rparr>\<lparr>q_ledger := l\<rparr>
      \<lparr>q_cursor := (root + 1) mod length (q_roots q)\<rparr>)"
    by (intro queue_inv_cursor) simp_all
  moreover have "after_turn fits root h rest i l q =
      (q\<lparr>q_roots := ?rs, q_cells := ?cells\<rparr>\<lparr>q_ledger := l\<rparr>\<lparr>q_cursor := (root + 1) mod length (q_roots q)\<rparr>)
      \<lparr>q_recovery := q_recovery (after_turn fits root h rest i l q)\<rparr>"
    by (simp add: after_turn_def)
  ultimately show ?thesis by (metis queue_inv_recovery(1))
qed

section \<open>The loop\<close>

lemma drive_round_inv:
  assumes "queue_inv q" "drive_round now q = Some (b, q')"
  shows "queue_inv q'"
  using assms(1)
proof (cases rule: drive_round_cases [where now = now])
  case (stuck q1 l)
  moreover from this have "ledger_inv l" by (auto simp: queue_inv_def advance_inv)
  ultimately show ?thesis using assms(2) by (auto intro!: queue_inv_ledger)
next
  case (turn q1 fits root h rest i l)
  then have "root < length (q_roots q1)" by (simp add: head_fits_def)
  with turn show ?thesis using assms(2) after_turn_inv [of q1 root h rest now i l fits] by simp
qed (use assms(2) in auto)

lemma drive_loop_rule:
  assumes "queue_inv q" "P q"
    and step: "\<And>q q'. queue_inv q \<Longrightarrow> P q \<Longrightarrow> drive_round now q = Some (True, q') \<Longrightarrow> P q'"
  shows "\<exists>q0 q'. drive_loop now q = Some q' \<and> queue_inv q0 \<and> P q0 \<and>
     drive_round now q0 = Some (False, q') \<and> queue_inv q'"
  using assms(1,2)
proof (induction "q_len q" arbitrary: q rule: less_induct)
  case less
  obtain b q' where r: "drive_round now q = Some (b, q')"
    using less.prems(1) by (cases rule: drive_round_cases [where now = now]) auto
  note inv = drive_round_inv [OF less.prems(1) r]
  show ?case
  proof (cases b)
    case True
    with r have "drive_round now q = Some (True, q')" by simp
    from less.hyps [OF drive_round_len [OF this] inv step [OF less.prems this]] r True show ?thesis
      by (simp add: drive_loop.simps [of now q])
  next
    case False
    with r less.prems inv show ?thesis by (auto simp: drive_loop.simps [of now q])
  qed
qed

lemma drive_total:
  assumes "queue_inv q"
  obtains w q' where "drive now q = Some (w, q')" "queue_inv q'"
proof -
  from drive_loop_rule [OF expire_inv [OF assms], where P = "\<lambda>_. True" and now = now] obtain q'
    where "drive_loop now (expire now q) = Some q'" "queue_inv q'" by auto
  then show thesis by (intro that) (simp_all add: drive_def)
qed

lemma drive_rule:
  assumes inv: "queue_inv q" and d: "drive now q = Some (w, q')" and P: "P (expire now q)"
    and step: "\<And>q q'. queue_inv q \<Longrightarrow> P q \<Longrightarrow> drive_round now q = Some (True, q') \<Longrightarrow> P q'"
  shows "\<exists>q0. queue_inv q0 \<and> P q0 \<and> drive_round now q0 = Some (False, q') \<and> queue_inv q'
    \<and> w = (if q_len q' = 0 then None else drive_wake now q')"
proof -
  have "\<exists>q0 q1. drive_loop now (expire now q) = Some q1 \<and> queue_inv q0 \<and> P q0 \<and>
      drive_round now q0 = Some (False, q1) \<and> queue_inv q1"
    using expire_inv [OF inv] P by (rule drive_loop_rule) (rule step)
  then obtain q0 q1 where
    "drive_loop now (expire now q) = Some q1" "queue_inv q0" "P q0" "drive_round now q0 = Some (False, q1)"
    "queue_inv q1" by blast
  with d show ?thesis by (auto simp: drive_def)
qed

lemma cancel_queue_inv:
  assumes inv: "queue_inv q" and r: "root < length (q_roots q)"
  shows "\<exists>q'. cancel now root cell q = Some q' \<and> queue_inv q'"
proof -
  define q1 where "q1 = (case position (\<lambda>w. w_result w = cell) (q_roots q ! root) of
                    None \<Rightarrow> q
                  | Some index \<Rightarrow> q\<lparr>q_roots := (q_roots q)[root := remove_at index (q_roots q ! root)]\<rparr>)"
  have "queue_inv (q1\<lparr>q_cells := (q_cells q1)(cell := None)\<rparr>)"
  proof (cases "position (\<lambda>w. w_result w = cell) (q_roots q ! root)")
    case None
    have "queue_inv (q\<lparr>q_roots := q_roots q, q_cells := (q_cells q)(cell := None)\<rparr>)"
      using inv by (intro queue_inv_shrunk) (auto simp: list_all2_same queue_inv_def list_all_iff wait_ok_def)
    with None show ?thesis by (simp add: q1_def)
  next
    case (Some k)
    let ?rs = "(q_roots q)[root := remove_at k (q_roots q ! root)]"
    have sub: "subseq (remove_at k xs) xs" for xs :: "waiting list"
    proof -
      have "subseq (take k xs @ drop (Suc k) xs) (take k xs @ drop k xs)"
        by (intro list_emb_append_mono subseq_order.refl) (metis drop_Suc drop_tl suffix_imp_subseq suffix_tl)
      then show ?thesis by (simp add: remove_at_def)
    qed
    have "shrunk ?rs (q_roots q)"
      using sub r by (simp add: list_all2_conv_all_nth nth_list_update subseq_map)
    moreover have "w \<in> set (concat (q_roots q))" if "w \<in> set (concat ?rs)" for w
    proof -
      from that have "w \<in> set (concat (q_roots q)) \<or> w \<in> set (q_roots q ! root)"
        using set_update_subset_insert [of "q_roots q" root "remove_at k (q_roots q ! root)"]
          set_remove_at [of k "q_roots q ! root"] by fastforce
      with r show ?thesis using nth_mem [OF r] by auto
    qed
    ultimately have "queue_inv (q\<lparr>q_roots := ?rs, q_cells := (q_cells q)(cell := None)\<rparr>)"
      using inv by (intro queue_inv_shrunk) (auto simp: queue_inv_def list_all_iff wait_ok_def)
    with Some show ?thesis by (simp add: q1_def)
  qed
  note inv2 = this
  define q2 where "q2 = q1\<lparr>q_cells := (q_cells q1)(cell := None)\<rparr>"
  define q3 where "q3 = (case q_cells q1 cell of
                    Some (Inr i) \<Rightarrow> release_probe i (q2\<lparr>q_ledger := snd (ledger_cancel (q_ledger q2) now i)\<rparr>)
                  | _ \<Rightarrow> q2)"
  from inv2 have "queue_inv q2" by (simp add: q2_def)
  then have "queue_inv q3"
    by (auto simp: q3_def intro!: release_probe_inv queue_inv_ledger cancel_inv queue_inv_ledgerD
        split: option.split sum.split)
  moreover have "cancel now root cell q = protect now q3"
    unfolding cancel_def q3_def q2_def q1_def Let_def using r by simp
  ultimately show ?thesis by (metis protect_Some)
qed

lemma enqueue_inv:
  assumes inv: "queue_inv q" and c: "cost_ok cost"
  shows "queue_inv (snd (enqueue root cost t d q))"
proof (cases "fst (enqueue root cost t d q)")
  case (Inl e)
  then have "snd (enqueue root cost t d q) = q"
    by (auto simp: enqueue_def split: option.splits if_splits)
  with inv show ?thesis by simp
next
  case (Inr cell)
  then have g: "root < length (q_roots q)" "total_fits (q_ledger q) cost" "q_len q < MAX_WAITING"
    "q_sequence q < u64_max"
    by (auto simp: enqueue_def checked_add_def split: if_splits)
  define w where "w = \<lparr>w_result = q_next_cell q, w_cost = cost, w_enqueued = t, w_deadline = d,
    w_sequence = Suc (q_sequence q), w_bypasses = 0\<rparr>"
  define q' where "q' = snd (enqueue root cost t d q)"
  have q': "q' = q\<lparr>q_sequence := Suc (q_sequence q),
             q_roots := (q_roots q)[root := q_roots q ! root @ [w]],
             q_cells := (q_cells q)(q_next_cell q := None), q_next_cell := Suc (q_next_cell q)\<rparr>"
    using g by (simp add: q'_def enqueue_def checked_add_def w_def)
  have old: "wait_ok q x" if "r \<in> set (q_roots q)" "x \<in> set r" for r x
    using inv that by (auto simp: queue_inv_def list_all_iff)
  have mem: "r' \<in> set (q_roots q') \<Longrightarrow> r' \<in> set (q_roots q) \<or> r' = q_roots q ! root @ [w]" for r'
    using set_update_subset_insert [of "q_roots q" root "q_roots q ! root @ [w]"] by (auto simp: q')
  have ms: "mset (concat (q_roots q')) = add_mset w (mset (concat (q_roots q)))"
  proof -
    have "mset (concat (q_roots q)) = mset (concat (take root (q_roots q))) + (mset (q_roots q ! root) +
        mset (concat (drop (Suc root) (q_roots q))))"
      using arg_cong [OF id_take_nth_drop [OF g(1)], of "\<lambda>x. mset (concat x)"] by simp
    moreover have "q_roots q' = take root (q_roots q) @ (q_roots q ! root @ [w]) # drop (Suc root) (q_roots q)"
      using g(1) by (simp add: q' upd_conv_take_nth_drop)
    ultimately show ?thesis by simp
  qed
  have "wait_ok q' w" using g c by (simp add: q' wait_ok_def w_def u8_max_def)
  moreover have "wait_ok q' x" if "wait_ok q x" for x using that by (simp add: q' wait_ok_def)
  ultimately have "list_all (list_all (wait_ok q')) (q_roots q')"
    using mem old nth_mem [OF g(1)] by (fastforce simp: list_all_iff)
  moreover have "sorted_wrt (<) (map w_sequence (q_roots q ! root @ [w]))"
    using inv old [OF nth_mem [OF g(1)]] g(1)
    by (auto simp: sorted_wrt_append queue_inv_def list_all_iff wait_ok_def w_def less_Suc_eq_le)
  then have "list_all (\<lambda>r. sorted_wrt (<) (map w_sequence r)) (q_roots q')"
    using inv by (auto simp: queue_inv_def list_all_iff simp del: map_append dest!: mem)
  moreover have "distinct (map w_result (concat (q_roots q')))"
  proof -
    have "w_result x < q_next_cell q" if "x \<in> set (concat (q_roots q))" for x
      using that old by (auto simp: wait_ok_def)
    then have "w_result w \<notin> set (map w_result (concat (q_roots q)))" by (force simp: w_def)
    then have "distinct (map w_result (w # concat (q_roots q)))" using inv by (simp add: queue_inv_def)
    then show ?thesis using ms mset_eq_imp_distinct_iff
      by (metis mset.simps(2) mset_map)
  qed
  moreover have "q_len q' = Suc (q_len q)"
    using arg_cong [OF ms, of size] by (simp add: q_len_def length_concat)
  ultimately have "queue_inv q'" using inv g by (simp add: queue_inv_def q')
  then show ?thesis by (simp add: q'_def)
qed

end
