(* ===== verification/Fair_Queue_Contract.thy ===== *)
theory Fair_Queue_Contract
  imports Fair_Queue_Drive
begin

text \<open>
  The contract of the admission queue: who is admitted by \<open>drive\<close>, in which order, who is
  protected from being bypassed, when the next call is due, and what a recovery after an
  upstream rejection allows.
\<close>

section \<open>Frames\<close>

lemma protect_frame: "protect now q = Some q1 \<Longrightarrow> \<exists>b. q1 = q\<lparr>q_barrier := b\<rparr>"
  by (auto simp: protect_def split: option.splits if_splits) (metis queue.surjective queue.update_convs(10))

lemma unstarted_persists:
  assumes "e \<in> set (ledger_entries l)" "unstarted_match i e"
  shows "e \<in> set (ledger_entries (advance l t))" "admit l t c = (d, l') \<Longrightarrow> e \<in> set (ledger_entries l')"
proof -
  show adv: "e \<in> set (ledger_entries (advance l t))"
    using assms by (auto simp: advance_entries entry_retained_def unstarted_match_def)
  show "e \<in> set (ledger_entries l')" if a: "admit l t c = (d, l')"
  proof (cases d)
    case (Admitted j)
    with a adv show ?thesis by (auto elim!: admit_Admitted)
  qed (use a adv admit_not_Admitted [OF a] in auto)
qed

lemma admitted_entry:
  "admit l t c = (Admitted i, l') \<Longrightarrow> \<exists>e\<in>set (ledger_entries l'). unstarted_match i e"
  by (erule admit_Admitted) (simp add: unstarted_match_def)

text \<open>The effect of a round that admits a head.\<close>

lemma round_turn:
  assumes "queue_inv q" "drive_round now q = Some (True, q')"
  obtains root h rest fits i l where "root < length (q_roots q)" "q_roots q ! root = h # rest"
    "admit (q_ledger q) now (w_cost h) = (Admitted i, l)" "eligible q (w_cost h)" "q_ledger q' = l"
    "q_roots q' = (count_bypasses fits root (q_roots q))[root := rest]"
    "q_cells q' = (q_cells q)(w_result h := Some (Inr i))"
    "q_recovery q' = map_option (\<lambda>r. if \<not> rec_generation_only r \<or> is_generation (w_cost h)
                                    then r\<lparr>rec_probe := Some i\<rparr> else r) (q_recovery q)"
    "q_policy q' = q_policy q" "q_cooldown_until q' = q_cooldown_until q" "q_next_cell q' = q_next_cell q"
  using assms(1)
proof (cases rule: drive_round_cases [where now = now])
  case (turn q1 fits root h rest i l)
  from protect_frame [OF turn(1)] obtain b where q1: "q1 = q\<lparr>q_barrier := b\<rparr>" by blast
  from turn(2) assms(2) have q': "q' = after_turn fits root h rest i l q1" by simp
  from turn(4,5) q1 show thesis
    by (intro that [of root h rest i l fits]) (use turn(8) in \<open>simp_all add: q' q1 after_turn_def head_fits_def\<close>)
qed (use assms(2) in auto)

lemma round_cells:
  assumes "queue_inv q" "drive_round now q = Some (True, q')"
  shows "\<exists>(g :: waiting) j. q_cells q' = (q_cells q)(w_result g := Some (Inr j))"
proof (rule round_turn [OF assms])
  fix h :: waiting and i
  assume "q_cells q' = (q_cells q)(w_result h := Some (Inr i))"
  then show ?thesis by blast
qed

lemma round_stop:
  assumes "queue_inv q" "drive_round now q = Some (False, q')"
  shows "\<exists>b l. q' = q\<lparr>q_barrier := b, q_ledger := l\<rparr> \<and> l \<in> {q_ledger q, advance (q_ledger q) now}"
  using assms(1)
proof (cases rule: drive_round_cases [where now = now])
  case (cool q1)
  from protect_frame [OF cool(1)] obtain b where "q1 = q\<lparr>q_barrier := b\<rparr>" by blast
  with cool(2) assms(2) have "q' = q\<lparr>q_barrier := b, q_ledger := q_ledger q\<rparr>" by simp
  then show ?thesis by blast
next
  case (stuck q1 l)
  from protect_frame [OF stuck(1)] obtain b where "q1 = q\<lparr>q_barrier := b\<rparr>" by blast
  with stuck(2,4) assms(2) have "q' = q\<lparr>q_barrier := b, q_ledger := l\<rparr>"
    "l \<in> {q_ledger q, advance (q_ledger q) now}" by auto
  then show ?thesis by blast
qed (use assms(2) in auto)

section \<open>Order of service\<close>

text \<open>The waiter was told the identity of an active, unstarted reservation of the ledger.\<close>

definition has_ticket :: "queue \<Rightarrow> waiting \<Rightarrow> bool" where
  "has_ticket q w =
     (case q_cells q (w_result w) of
        Some (Inr i) \<Rightarrow> list_ex (unstarted_match i) (ledger_entries (q_ledger q))
      | _ \<Rightarrow> False)"

lemma has_ticketI:
  "q_cells q (w_result w) = Some (Inr i) \<Longrightarrow> e \<in> set (ledger_entries (q_ledger q)) \<Longrightarrow> unstarted_match i e \<Longrightarrow>
     has_ticket q w"
  by (auto simp: has_ticket_def list_ex_iff)

lemma has_ticketE:
  assumes "has_ticket q w"
  obtains i e where "q_cells q (w_result w) = Some (Inr i)" "e \<in> set (ledger_entries (q_ledger q))" "unstarted_match i e"
  using assms by (auto simp: has_ticket_def list_ex_iff split: option.splits sum.splits)

text \<open>What the loop has done between \<open>q0\<close> and \<open>q\<close>.\<close>

definition served_rel :: "queue \<Rightarrow> queue \<Rightarrow> bool" where
  "served_rel q0 q =
     (length (q_roots q) = length (q_roots q0)
      \<and> (\<forall>r<length (q_roots q0). \<exists>served.
           map ticket_of (q_roots q0 ! r) = map ticket_of served @ map ticket_of (q_roots q ! r)
           \<and> (\<forall>w\<in>set served. has_ticket q w))
      \<and> (\<forall>c. c \<notin> w_result ` set (concat (q_roots q0)) \<longrightarrow> q_cells q c = q_cells q0 c))"

lemma served_rel_refl: "served_rel q q"
  by (auto simp: served_rel_def intro!: exI [of _ "[]"])

lemma served_rel_member:
  assumes "served_rel q0 q" "w \<in> set (concat (q_roots q))"
  shows "w_result w \<in> w_result ` set (concat (q_roots q0))"
proof -
  from assms(2) obtain r where r: "r < length (q_roots q)" "w \<in> set (q_roots q ! r)"
    by (metis (no_types, lifting) UN_E in_set_conv_nth set_concat)
  with assms(1) obtain served where
    "map ticket_of (q_roots q0 ! r) = map ticket_of served @ map ticket_of (q_roots q ! r)"
    by (auto simp: served_rel_def)
  from arg_cong [OF this, of "\<lambda>xs. w_result ` set xs"] r(2)
  have "w_result w \<in> w_result ` set (q_roots q0 ! r)" by (auto simp: image_Un image_image)
  moreover have "r < length (q_roots q0)" using r(1) assms(1) by (simp add: served_rel_def)
  then have "set (q_roots q0 ! r) \<subseteq> set (concat (q_roots q0))" by (auto dest: nth_mem)
  ultimately show ?thesis by blast
qed

lemma served_rel_round:
  assumes inv: "queue_inv q" and rel: "served_rel q0 q" and d: "drive_round now q = Some (True, q')"
  shows "served_rel q0 q'"
proof -
  obtain root h rest fits i l where t: "root < length (q_roots q)"
    "q_roots q ! root = h # rest" "admit (q_ledger q) now (w_cost h) = (Admitted i, l)" "q_ledger q' = l"
    "q_roots q' = (count_bypasses fits root (q_roots q))[root := rest]"
    "q_cells q' = (q_cells q)(w_result h := Some (Inr i))" by (rule round_turn [OF inv d], rule that)
  from admitted_entry [OF t(3)] obtain e where e: "e \<in> set (ledger_entries l)" "unstarted_match i e" by blast
  have new: "has_ticket q' w" if "w_result w = w_result h" for w
    using that e by (intro has_ticketI) (simp_all add: t(4,6))
  have keep: "has_ticket q' w" if w: "has_ticket q w" for w
  proof (cases "w_result w = w_result h")
    case False
    with w show ?thesis using unstarted_persists(2) [OF _ _ t(3)]
      by (auto simp: t(4,6) elim!: has_ticketE intro!: has_ticketI)
  qed (rule new)
  have hd: "h \<in> set (concat (q_roots q))" using t(1,2) by (metis list.set_intros(1) nth_mem set_concat UN_I)
  have "\<exists>served. map ticket_of (q_roots q0 ! r) = map ticket_of served @ map ticket_of (q_roots q' ! r)
           \<and> (\<forall>w\<in>set served. has_ticket q' w)"
    if r: "r < length (q_roots q0)" for r
  proof -
    from rel r obtain served where s: "map ticket_of (q_roots q0 ! r) = map ticket_of served @ map ticket_of (q_roots q ! r)"
      "\<forall>w\<in>set served. has_ticket q w"
      by (auto simp: served_rel_def)
    have len: "r < length (q_roots q)" using rel r by (simp add: served_rel_def)
    show ?thesis
    proof (cases "r = root")
      case True
      with s(1) t(1,2,5) have "map ticket_of (q_roots q0 ! r) = map ticket_of (served @ [h]) @ map ticket_of (q_roots q' ! r)"
        by simp
      moreover have "\<forall>w\<in>set (served @ [h]). has_ticket q' w"
        using s(2) keep new by auto
      ultimately show ?thesis by blast
    next
      case False
      with s(1) t(5) len have "map ticket_of (q_roots q0 ! r) = map ticket_of served @ map ticket_of (q_roots q' ! r)"
        by auto
      with s(2) keep show ?thesis by blast
    qed
  qed
  moreover have "q_cells q' c = q_cells q c" if "c \<notin> w_result ` set (concat (q_roots q0))" for c
    using served_rel_member [OF rel hd] that by (auto simp: t(6))
  ultimately show ?thesis using rel by (simp add: served_rel_def t(5))
qed

lemma served_rel_advance:
  assumes rel: "served_rel q0 q" and l: "l \<in> {q_ledger q, advance (q_ledger q) now}"
  shows "served_rel q0 (q\<lparr>q_barrier := b, q_ledger := l\<rparr>)"
proof -
  have "has_ticket (q\<lparr>q_barrier := b, q_ledger := l\<rparr>) w" if "has_ticket q w" for w
    using that l unstarted_persists(1) [of _ "q_ledger q" _ now]
    by (elim has_ticketE) (auto intro!: has_ticketI)
  with rel show ?thesis unfolding served_rel_def by (simp, blast)
qed

lemma served_rel_drive:
  assumes "queue_inv q" "drive now q = Some (w, q')"
  shows "served_rel (expire now q) q'"
proof -
  let ?P = "served_rel (expire now q)"
  have "\<exists>q0. queue_inv q0 \<and> ?P q0 \<and> drive_round now q0 = Some (False, q') \<and> queue_inv q'
      \<and> w = (if q_len q' = 0 then None else drive_wake now q')"
    using assms served_rel_refl by (rule drive_rule) (rule served_rel_round)
  then obtain q0 where "queue_inv q0" "served_rel (expire now q) q0"
    "drive_round now q0 = Some (False, q')" by blast
  moreover from round_stop [OF this(1,3)] obtain b l where "q' = q0\<lparr>q_barrier := b, q_ledger := l\<rparr>"
    "l \<in> {q_ledger q0, advance (q_ledger q0) now}" by blast
  ultimately show ?thesis using served_rel_advance by blast
qed

text \<open>A small queue for the witnesses: one request per minute, two roots, three waiters.\<close>

definition demo_ledger :: ledger where
  "demo_ledger = the (ledger_new \<lparr>quota_rpm = Known 1, quota_tpm = Unknown\<rparr> Reserved 4 0 0)"

definition demo_queue :: queue where
  "demo_queue =
     snd (enqueue 1 UnmeteredGeneration 2 (from_secs 9)
       (snd (enqueue 0 UnmeteredGeneration 1 (from_secs 9)
         (snd (enqueue 0 Metadata 0 3 (queue_new demo_ledger 2))))))"

lemma demo_queue_inv: "queue_inv demo_queue"
proof -
  have "ledger_inv demo_ledger"
    by (rule ledger_new_inv [of "\<lparr>quota_rpm = Known 1, quota_tpm = Unknown\<rparr>" Reserved 4 0 0])
      (simp_all add: demo_ledger_def ledger_new_def u64_max_def)
  then show ?thesis unfolding demo_queue_def by (intro enqueue_inv queue_inv_new) simp_all
qed

lemma drive_snd: "drive now q \<noteq> None \<Longrightarrow> drive now q = Some (fst (the (drive now q)), snd (the (drive now q)))"
  by auto

text \<open>
  C24: \<open>drive\<close> answers the waiters of each root in the order they were enqueued.  Of the waiters
  that have not reached their deadline a prefix is admitted, each with an active, unstarted
  reservation in the ledger, and the rest keeps waiting in order; every waiter past its deadline
  gets the deadline error.  (\<open>ticket_of\<close> hides only the bypass counter.)
\<close>

theorem drive_serves_in_order:
  assumes "queue_inv q" "drive now q = Some (wake, q')" "r < length (q_roots q)"
  shows "\<exists>served. map ticket_of (filter (\<lambda>w. now < w_deadline w) (q_roots q ! r))
        = map ticket_of served @ map ticket_of (q_roots q' ! r)
      \<and> (\<forall>w\<in>set served. has_ticket q' w)
      \<and> (\<forall>w\<in>set (q_roots q ! r). w_deadline w \<le> now \<longrightarrow> q_cells q' (w_result w) = Some (Inl Deadline))"
proof -
  note rel = served_rel_drive [OF assms(1,2)]
  have roots: "q_roots (expire now q) ! r = filter (\<lambda>w. now < w_deadline w) (q_roots q ! r)"
    "r < length (q_roots (expire now q))"
    using assms(3) by (simp_all add: expire_def Let_def not_le)
  have "q_cells q' (w_result w) = Some (Inl Deadline)" if w: "w \<in> set (q_roots q ! r)" "w_deadline w \<le> now" for w
  proof -
    from w assms(3) have wc: "w \<in> set (concat (q_roots q))" by auto
    then have "w_result w \<notin> w_result ` set (concat (q_roots (expire now q)))"
      using cells_inj [OF assms(1) wc] w(2) by (auto simp: expire_def Let_def)
    with rel have "q_cells q' (w_result w) = q_cells (expire now q) (w_result w)" by (simp add: served_rel_def)
    also have "\<dots> = Some (Inl Deadline)" using wc w(2) by (auto simp: expire_def Let_def expire_cells)
    finally show ?thesis .
  qed
  moreover from rel roots(2) have "\<exists>served. map ticket_of (q_roots (expire now q) ! r) =
      map ticket_of served @ map ticket_of (q_roots q' ! r)
      \<and> (\<forall>w\<in>set served. has_ticket q' w)"
    by (simp add: served_rel_def)
  ultimately show ?thesis unfolding roots(1) by blast
qed

theorem drive_serves_in_order_witness:
  "let q' = snd (the (drive 5 demo_queue)) in
   (\<exists>served. map ticket_of (filter (\<lambda>w. 5 < w_deadline w) (q_roots demo_queue ! 0))
        = map ticket_of served @ map ticket_of (q_roots q' ! 0) \<and> (\<forall>w\<in>set served. has_ticket q' w))
   \<and> map length (q_roots demo_queue) = [2, 1] \<and> map length (q_roots q') = [0, 1]
   \<and> q_cells q' 0 = Some (Inl Deadline) \<and> q_cells q' 1 = Some (Inr 1)"
proof -
  have n: "drive 5 demo_queue \<noteq> None" by code_simp
  have r: "0 < length (q_roots demo_queue)" by code_simp
  from drive_serves_in_order [OF demo_queue_inv drive_snd [OF n] r]
  have "\<exists>served. map ticket_of (filter (\<lambda>w. 5 < w_deadline w) (q_roots demo_queue ! 0))
        = map ticket_of served @ map ticket_of (q_roots (snd (the (drive 5 demo_queue))) ! 0)
      \<and> (\<forall>w\<in>set served. has_ticket (snd (the (drive 5 demo_queue))) w)" by blast
  moreover have "map length (q_roots demo_queue) = [2, 1]"
    "map length (q_roots (snd (the (drive 5 demo_queue)))) = [0, 1]"
    "q_cells (snd (the (drive 5 demo_queue))) 0 = Some (Inl Deadline)"
    "q_cells (snd (the (drive 5 demo_queue))) 1 = Some (Inr 1)" by code_simp+
  ultimately show ?thesis by (simp add: Let_def)
qed

section \<open>Protection and work conservation\<close>

lemma rr_choice_barrier: "q_barrier q = Some (r, s) \<Longrightarrow> rr_choice fits q = Some root \<Longrightarrow> root = r"
  by (simp add: rr_choice_def split: if_splits)

text \<open>The barrier that \<open>protect\<close> sets when some head is due for protection.\<close>

lemma protect_oldest:
  assumes "q_policy q \<noteq> Fifo" "triggered now q" "min_by_key age_key (indexed_heads q) = Some (r, h)"
    "q_barrier q = None \<or> q_barrier q = Some (r, w_sequence h)"
  shows "\<exists>q1. protect now q = Some q1 \<and> q_barrier q1 = Some (r, w_sequence h) \<and> q_roots q1 = q_roots q"
proof -
  from min_by_key_in [OF assms(3)] have "r < length (q_roots q)" "front (q_roots q ! r) = Some h"
    by (simp_all add: set_indexed_heads)
  with assms show ?thesis by (auto simp: protect_def barrier_valid_def)
qed

lemma protected_first:
  assumes inv: "queue_inv q" and rr: "q_policy q = Rr"
    and p: "protect now q = Some q1" "q_barrier q1 = Some (r, s)"
    and d: "drive_round now q = Some (True, q')"
  shows "\<exists>h rest i. q_roots q ! r = h # rest \<and> r < length (q_roots q) \<and> q_cells q' (w_result h) = Some (Inr i)"
  using inv
proof (cases rule: drive_round_cases [where now = now])
  case (turn q2 fits root h rest i l)
  from protect_frame [OF p(1)] obtain b where q1: "q1 = q\<lparr>q_barrier := b\<rparr>" by blast
  from turn(1) p(1) have [simp]: "q2 = q1" by simp
  from q1 rr turn(9) have "rr_choice fits q1 = Some root" by simp
  from rr_choice_barrier [OF p(2) this] have "root = r" .
  with turn(2,4,5) d q1 show ?thesis by (auto simp: after_turn_def head_fits_def)
qed (use d in auto)



text \<open>
  C26: \<open>drive\<close> leaves no capacity unused.  When it returns under the default policy and no
  cool-down is running, either the protected head does not fit, or no head of any root fits the
  quota and the recovery state.
\<close>

theorem drive_work_conserving:
  assumes "queue_inv q" "q_policy q = Rr" "drive now q = Some (wake, q')" "q_cooldown_until q \<le> now"
  shows "(\<exists>r s. q_barrier q' = Some (r, s) \<and> \<not> head_fits now q' r)
       \<or> (q_barrier q' = None \<and> (\<forall>r. \<not> head_fits now q' r))"
proof -
  let ?P = "\<lambda>x. q_policy x = Rr \<and> q_cooldown_until x \<le> now"
  have step: "?P x'" if "queue_inv x" "?P x" "drive_round now x = Some (True, x')" for x x'
    by (rule round_turn [OF that(1,3)]) (use that(2) in simp)
  have "\<exists>q0. queue_inv q0 \<and> ?P q0 \<and> drive_round now q0 = Some (False, q') \<and> queue_inv q'
      \<and> wake = (if q_len q' = 0 then None else drive_wake now q')"
    using assms(1,3) by (rule drive_rule) (use assms(2,4) in \<open>simp add: expire_def Let_def\<close>, rule step)
  then obtain q0 where q0: "queue_inv q0" "?P q0" "drive_round now q0 = Some (False, q')" by blast
  from q0(1) show ?thesis
  proof (cases rule: drive_round_cases [where now = now])
    case (cool q1)
    with protect_frame [OF cool(1)] q0(2) show ?thesis by auto
  next
    case (stuck q1 l)
    from protect_frame [OF stuck(1)] q0(2) have "q_policy q1 = Rr" by auto
    with stuck q0(3) head_fits_advance [of l q1 now] show ?thesis
      by (cases "q_barrier q1") auto
  qed (use q0(3) in auto)
qed

theorem drive_work_conserving_witness:
  "let q' = snd (the (drive 5 demo_queue)) in
   ((\<exists>r s. q_barrier q' = Some (r, s) \<and> \<not> head_fits 5 q' r)
       \<or> (q_barrier q' = None \<and> (\<forall>r. \<not> head_fits 5 q' r)))
   \<and> q_len q' = 1"
proof -
  have n: "drive 5 demo_queue \<noteq> None" "q_policy demo_queue = Rr" "q_cooldown_until demo_queue \<le> 5" by code_simp+
  have "q_len (snd (the (drive 5 demo_queue))) = 1" by code_simp
  with drive_work_conserving [OF demo_queue_inv n(2) drive_snd [OF n(1)] n(3)]
  show ?thesis unfolding Let_def by blast
qed

section \<open>Wake-up times\<close>

lemma heads_concat: "h \<in> set (heads q) \<Longrightarrow> h \<in> set (concat (q_roots q))"
  by (auto simp: set_heads front_Some) (metis list.set_intros(1))

lemma heads_nonempty: "q_len q \<noteq> 0 \<Longrightarrow> heads q \<noteq> []"
proof
  assume "q_len q \<noteq> 0" "heads q = []"
  have "r = []" if "r \<in> set (q_roots q)" for r
  proof (rule ccontr)
    assume "r \<noteq> []"
    then have "front r = Some (hd r)" by (cases r) simp_all
    with that set_heads [of "hd r" q] \<open>heads q = []\<close> show False by auto
  qed
  with \<open>q_len q \<noteq> 0\<close> show False by (simp add: q_len_def sum_list_eq_0_iff)
qed

text \<open>What is known when the loop stops with waiters left.\<close>

definition settled :: "duration \<Rightarrow> queue \<Rightarrow> bool" where
  "settled now q =
     (list_all (\<lambda>w. now < w_deadline w) (concat (q_roots q))
      \<and> (q_len q \<noteq> 0 \<longrightarrow> q_cooldown_until q \<le> now \<longrightarrow> now \<le> ledger_now (q_ledger q)))"

lemma served_deadlines:
  assumes "served_rel q0 q" "w \<in> set (concat (q_roots q))"
  shows "\<exists>w0\<in>set (concat (q_roots q0)). ticket_of w = ticket_of w0"
proof -
  from assms(2) obtain r where r: "r < length (q_roots q)" "w \<in> set (q_roots q ! r)"
    by (metis (no_types, lifting) UN_E in_set_conv_nth set_concat)
  with assms(1) obtain served where r0: "r < length (q_roots q0)" and
    "map ticket_of (q_roots q0 ! r) = map ticket_of served @ map ticket_of (q_roots q ! r)"
    by (auto simp: served_rel_def)
  from arg_cong [OF this(2), of set] r(2) have "ticket_of w \<in> ticket_of ` set (q_roots q0 ! r)" by auto
  with r0 show ?thesis using nth_mem by fastforce
qed

lemma drive_settled:
  assumes "queue_inv q" "drive now q = Some (w, q')"
  shows "settled now q'" "w = (if q_len q' = 0 then None else drive_wake now q')"
proof -
  have "\<exists>q0. queue_inv q0 \<and> True \<and> drive_round now q0 = Some (False, q') \<and> queue_inv q'
      \<and> w = (if q_len q' = 0 then None else drive_wake now q')"
    using assms by (rule drive_rule) simp_all
  then obtain q0 where q0: "queue_inv q0" "drive_round now q0 = Some (False, q')"
    and w: "w = (if q_len q' = 0 then None else drive_wake now q')" by blast
  show "w = (if q_len q' = 0 then None else drive_wake now q')" by (rule w)
  have "now < w_deadline x" if "x \<in> set (concat (q_roots q'))" for x
  proof -
    from served_deadlines [OF served_rel_drive [OF assms] that] obtain y where
      "y \<in> set (concat (q_roots (expire now q)))" "ticket_of x = ticket_of y" by blast
    moreover from this(2) have "w_deadline x = w_deadline y" by (metis ticket_of_simps(4))
    ultimately show ?thesis by (auto simp: expire_def Let_def)
  qed
  moreover have "now \<le> ledger_now (q_ledger q')" if "q_len q' \<noteq> 0" "q_cooldown_until q' \<le> now"
    using q0(1)
  proof (cases rule: drive_round_cases [where now = now])
    case (stuck q1 l)
    with q0(2) have q': "q' = q1\<lparr>q_ledger := l\<rparr>" by simp
    with that(1) have "heads q1 \<noteq> []" using heads_nonempty [of q1] by (simp add: q_len_def)
    with stuck(5) show ?thesis by (simp add: q')
  qed (use q0(2) that(2) in auto)
  ultimately show "settled now q'" by (auto simp: settled_def list_all_iff)
qed

lemma drive_wake_bounds:
  assumes "settled now q" "q_len q \<noteq> 0" "drive_wake now q = Some t"
  shows "now < t" "w \<in> set (concat (q_roots q)) \<Longrightarrow> t \<le> w_deadline w"
    "now < q_cooldown_until q \<Longrightarrow> t \<le> q_cooldown_until q"
    "q_cooldown_until q \<le> now \<Longrightarrow> next_wake (q_ledger q) = Some u \<Longrightarrow> t \<le> u"
    "h \<in> set (heads q) \<Longrightarrow> now < dur_add (w_enqueued h) MAX_AGE \<Longrightarrow> t \<le> dur_add (w_enqueued h) MAX_AGE"
proof -
  let ?dl = "map w_deadline (concat (q_roots q))"
  let ?ages = "filter (\<lambda>at. now < at) (map (\<lambda>w. dur_add (w_enqueued w) MAX_AGE) (heads q))"
  let ?res = "case if now < q_cooldown_until q then Some (q_cooldown_until q) else next_wake (q_ledger q) of
     None \<Rightarrow> [] | Some at \<Rightarrow> [at]"
  have t: "min_opt (?dl @ ?ages @ ?res) = Some t" using assms(3) by (simp add: drive_wake_def Let_def)
  note le = min_opt_le [OF t]
  show "w \<in> set (concat (q_roots q)) \<Longrightarrow> t \<le> w_deadline w" by (intro le) auto
  show "now < q_cooldown_until q \<Longrightarrow> t \<le> q_cooldown_until q" by (intro le) simp
  show "q_cooldown_until q \<le> now \<Longrightarrow> next_wake (q_ledger q) = Some u \<Longrightarrow> t \<le> u" by (intro le) simp
  show "h \<in> set (heads q) \<Longrightarrow> now < dur_add (w_enqueued h) MAX_AGE \<Longrightarrow> t \<le> dur_add (w_enqueued h) MAX_AGE"
    by (intro le) auto
  from min_opt_in [OF t] have "t \<in> set ?dl \<or> t \<in> set ?ages \<or> t \<in> set ?res" by simp
  then show "now < t"
  proof (elim disjE)
    assume "t \<in> set ?res"
    then show ?thesis using assms(1,2) next_wake_future [of "q_ledger q"]
      by (auto simp: settled_def not_less split: if_splits option.splits intro: le_less_trans)
  qed (use assms(1) in \<open>auto simp: settled_def list_all_iff\<close>)
qed

text \<open>
  C27: the wake-up time that \<open>drive\<close> returns.  There is one exactly when waiters remain; it lies
  strictly in the future, no later than any waiter's deadline, the end of the cool-down and the
  time at which a head becomes due for protection; and until then no head that does not fit
  starts to fit, so a scheduler that sleeps until then loses nothing.
\<close>

theorem drive_wake_exact:
  assumes "queue_inv q" "drive now q = Some (wake, q')"
  shows "(wake = None) = (q_len q' = 0)
    \<and> (\<forall>t. wake = Some t \<longrightarrow> now < t
         \<and> (\<forall>w\<in>set (concat (q_roots q')). t \<le> w_deadline w)
         \<and> (now < q_cooldown_until q' \<longrightarrow> t \<le> q_cooldown_until q')
         \<and> (\<forall>h\<in>set (heads q'). now < dur_add (w_enqueued h) MAX_AGE \<longrightarrow> t \<le> dur_add (w_enqueued h) MAX_AGE)
         \<and> (\<forall>u r. q_cooldown_until q' \<le> now \<longrightarrow> now \<le> u \<longrightarrow> u < t \<longrightarrow> head_fits u q' r = head_fits now q' r))"
proof -
  note s = drive_settled [OF assms]
  have some: "drive_wake now q' \<noteq> None" if len: "q_len q' \<noteq> 0"
  proof -
    obtain h where "h \<in> set (heads q')" using heads_nonempty [OF len] by (meson list.set_sel(1))
    then have "concat (q_roots q') \<noteq> []" using heads_concat by fastforce
    then show ?thesis by (simp add: drive_wake_def Let_def)
  qed
  have "head_fits u q' r = head_fits now q' r"
    if t: "wake = Some t" "q_len q' \<noteq> 0" "drive_wake now q' = Some t" "q_cooldown_until q' \<le> now" "now \<le> u" "u < t" for t u r
  proof -
    let ?l = "q_ledger q'"
    have w: "max (ledger_now ?l) u < v" if "next_wake ?l = Some v" for v
      using drive_wake_bounds(4) [OF s(1) t(2,3,4) that] t(6) next_wake_future [OF that] by simp
    have eq: "check ?l x c = check ?l (max (ledger_now ?l) x) c" for x c by (simp add: check_eq advance_def Let_def)
    have now: "max (ledger_now ?l) now = ledger_now ?l" using s(1) t(2,4) by (simp add: settled_def)
    have "fst (check ?l u c) = fst (check ?l now c)" for c
      using check_until_wake [of ?l "max (ledger_now ?l) u" c] w
      unfolding eq [of u, symmetric] eq [of now, unfolded now] by simp
    then show ?thesis by (simp add: head_fits_def split: option.split)
  qed
  note fits = this
  show ?thesis
  proof (cases "q_len q' = 0")
    case False
    with some s(2) obtain t where t: "wake = Some t" "drive_wake now q' = Some t" by auto
    note b = drive_wake_bounds [OF s(1) False t(2)]
    have "now < t \<and> (\<forall>w\<in>set (concat (q_roots q')). t \<le> w_deadline w)
         \<and> (now < q_cooldown_until q' \<longrightarrow> t \<le> q_cooldown_until q')
         \<and> (\<forall>h\<in>set (heads q'). now < dur_add (w_enqueued h) MAX_AGE \<longrightarrow> t \<le> dur_add (w_enqueued h) MAX_AGE)
         \<and> (\<forall>u r. q_cooldown_until q' \<le> now \<longrightarrow> now \<le> u \<longrightarrow> u < t \<longrightarrow> head_fits u q' r = head_fits now q' r)"
      using fits [OF t(1) False t(2)] b(1,2,3,5) by (intro conjI ballI impI allI) blast+
    with False show ?thesis unfolding t(1) by blast
  qed (simp add: s(2))
qed

theorem drive_wake_exact_witness:
  "let (wake, q') = the (drive 5 demo_queue) in
   wake = Some (2 + MAX_AGE) \<and> (wake = None) = (q_len q' = 0) \<and> (\<forall>r. head_fits 6 q' r = head_fits 5 q' r)"
proof -
  define q' where "q' = snd (the (drive 5 demo_queue))"
  have n: "drive 5 demo_queue \<noteq> None" by code_simp
  have w: "fst (the (drive 5 demo_queue)) = Some (2 + MAX_AGE)" by code_simp
  have c: "q_cooldown_until q' \<le> 5" "6 < 2 + MAX_AGE" unfolding q'_def by code_simp+
  from drive_snd [OF n] w have d: "drive 5 demo_queue = Some (Some (2 + MAX_AGE), q')" by (simp add: q'_def)
  note ex = drive_wake_exact [OF demo_queue_inv d]
  have "\<forall>r. head_fits 6 q' r = head_fits 5 q' r"
    using ex [THEN conjunct2, rule_format, OF refl, THEN conjunct2, THEN conjunct2, THEN conjunct2, THEN conjunct2,
        rule_format, OF c(1) _ c(2)] by simp
  moreover from ex have "q_len q' \<noteq> 0" by simp
  ultimately show ?thesis unfolding d by simp
qed

section \<open>Recovery after a rejection\<close>

text \<open>The generation requests of \<open>q0\<close> that were admitted by the time of \<open>q\<close>.\<close>

definition granted_generations :: "queue \<Rightarrow> queue \<Rightarrow> waiting list" where
  "granted_generations q0 q =
     filter (\<lambda>w. is_generation (w_cost w) \<and> has_ticket q w) (concat (q_roots q0))"

definition probe_of :: "queue \<Rightarrow> reservation_id option" where
  "probe_of q = Option.bind (q_recovery q) rec_probe"

definition granted_cells :: "queue \<Rightarrow> queue \<Rightarrow> result_cell set" where
  "granted_cells q0 q =
     {w_result w | w. w \<in> set (concat (q_roots q0)) \<and> is_generation (w_cost w) \<and> q_cells q (w_result w) \<noteq> None}"

lemma finite_granted_cells: "finite (granted_cells q0 q)"
  unfolding granted_cells_def by (rule finite_subset [of _ "w_result ` set (concat (q_roots q0))"]) auto

text \<open>
  While recovering, a generation request is admitted only when there is no probe, and then
  becomes the probe; so the admitted generations number at most one, and none when a probe was
  there from the start.
\<close>

definition recovering :: "nat \<Rightarrow> queue \<Rightarrow> queue \<Rightarrow> bool" where
  "recovering k q0 q =
     (served_rel q0 q \<and> q_recovery q \<noteq> None \<and>
      (if probe_of q = None then k = 0 \<and> granted_cells q0 q = {} else card (granted_cells q0 q) + k \<le> 1))"

lemma recovering_round:
  assumes inv: "queue_inv q" and inv0: "queue_inv q0" and rel: "recovering k q0 q"
    and d: "drive_round now q = Some (True, q')"
  shows "recovering k q0 q'"
proof -
  obtain root h rest fits i l where t: "root < length (q_roots q)" "q_roots q ! root = h # rest"
    "admit (q_ledger q) now (w_cost h) = (Admitted i, l)" "eligible q (w_cost h)" "q_ledger q' = l"
    "q_roots q' = (count_bypasses fits root (q_roots q))[root := rest]"
    "q_cells q' = (q_cells q)(w_result h := Some (Inr i))"
    "q_recovery q' = map_option (\<lambda>r. if \<not> rec_generation_only r \<or> is_generation (w_cost h)
                                    then r\<lparr>rec_probe := Some i\<rparr> else r) (q_recovery q)"
    by (rule round_turn [OF inv d], rule that)
  from rel have srel: "served_rel q0 q" by (simp add: recovering_def)
  note srel' = served_rel_round [OF inv srel d]
  from rel obtain r where r: "q_recovery q = Some r" by (auto simp: recovering_def)
  have hq: "h \<in> set (concat (q_roots q))" using t(1,2) by (metis list.set_intros(1) nth_mem set_concat UN_I)
  have gen: "is_generation (w_cost w) = is_generation (w_cost h)"
    if w: "w \<in> set (concat (q_roots q0))" "w_result w = w_result h" for w
  proof -
    from served_deadlines [OF srel hq] obtain w0 where w0: "w0 \<in> set (concat (q_roots q0))" "ticket_of h = ticket_of w0"
      by blast
    then have "w_result w = w_result w0" "w_cost h = w_cost w0" using w(2) by (metis ticket_of_simps)+
    with cells_inj [OF inv0 w(1) w0(1)] show ?thesis by simp
  qed
  have sub: "granted_cells q0 q' \<subseteq> (if is_generation (w_cost h) then insert (w_result h) (granted_cells q0 q)
      else granted_cells q0 q)"
    using gen by (auto simp: granted_cells_def t(7) split: if_splits)
  have probe: "probe_of q = rec_probe r" by (simp add: probe_of_def r)
  show ?thesis
  proof (cases "is_generation (w_cost h)")
    case True
    with t(4) r have "rec_probe r = None" by (simp add: eligible_def)
    with rel probe have "k = 0" "granted_cells q0 q = {}" by (simp_all add: recovering_def)
    moreover from this True sub have "card (granted_cells q0 q') \<le> 1"
      using card_mono [of "{w_result h}" "granted_cells q0 q'"] by simp
    ultimately show ?thesis using True srel' r by (simp add: recovering_def probe_of_def t(8))
  next
    case False
    with sub have "card (granted_cells q0 q') \<le> card (granted_cells q0 q)"
      "granted_cells q0 q = {} \<Longrightarrow> granted_cells q0 q' = {}"
      by (auto intro: card_mono finite_granted_cells)
    with rel srel' r False show ?thesis
      by (auto simp: recovering_def probe_of_def t(8) split: if_splits)
  qed
qed

lemma granted_generations_card:
  assumes "queue_inv q0"
  shows "length (granted_generations q0 q) \<le> card (granted_cells q0 q)"
proof -
  have "distinct (map w_result (concat (q_roots q0)))" using assms by (simp add: queue_inv_def)
  then have d: "distinct (map w_result (granted_generations q0 q))"
    unfolding granted_generations_def by (rule distinct_map_filter)
  have "length (granted_generations q0 q) = card (set (map w_result (granted_generations q0 q)))"
    using distinct_card [OF d] by simp
  also have "\<dots> \<le> card (granted_cells q0 q)"
    by (rule card_mono [OF finite_granted_cells])
      (auto simp: granted_generations_def granted_cells_def elim!: has_ticketE)
  finally show ?thesis .
qed

text \<open>
  C28: recovery lets one probe through.  While the queue is recovering from a rejection, one
  \<open>drive\<close> admits at most one generation request, and none at all while an earlier probe is
  still out.
\<close>

theorem recovery_single_probe:
  assumes "queue_inv q" "drive now q = Some (wake, q')" "q_recovery q = Some r"
  shows "length (granted_generations (expire now q) q') \<le> (if rec_probe r = None then 1 else 0)"
proof -
  let ?e = "expire now q" and ?k = "if rec_probe r = None then 0 else 1 :: nat"
  note inve = expire_inv [OF assms(1), of now]
  have none: "granted_cells ?e ?e = {}"
    using inve by (auto simp: granted_cells_def queue_inv_def list_all_iff wait_ok_def)
  have "q_recovery ?e = Some r" using assms(3) by (simp add: expire_def Let_def)
  with none have base: "recovering ?k ?e ?e" by (simp add: recovering_def probe_of_def served_rel_refl)
  have step: "recovering ?k ?e x'" if "queue_inv x" "recovering ?k ?e x" "drive_round now x = Some (True, x')" for x x'
    using recovering_round [OF that(1) inve that(2,3)] .
  have "\<exists>q0. queue_inv q0 \<and> recovering ?k ?e q0 \<and> drive_round now q0 = Some (False, q') \<and> queue_inv q'
      \<and> wake = (if q_len q' = 0 then None else drive_wake now q')"
    using assms(1,2) base by (rule drive_rule) (rule step)
  then obtain q0 where q0: "queue_inv q0" "recovering ?k ?e q0" "drive_round now q0 = Some (False, q')" by blast
  from round_stop [OF q0(1,3)] have "granted_cells ?e q' = granted_cells ?e q0" by (auto simp: granted_cells_def)
  with q0(2) have "card (granted_cells ?e q') \<le> 1 - ?k" by (auto simp: recovering_def split: if_splits)
  with granted_generations_card [OF inve, where q = q'] show ?thesis by (auto split: if_splits)
qed

theorem recovery_single_probe_witness:
  "let q = arm_recovery 0 0 True demo_queue; q' = snd (the (drive 5 q)) in
   length (granted_generations (expire 5 q) q') \<le> 1 \<and> granted_generations (expire 5 q) q' \<noteq> []"
proof -
  let ?q = "arm_recovery 0 0 True demo_queue"
  have n: "drive 5 ?q \<noteq> None" "q_recovery ?q = Some \<lparr>rec_generation_only = True, rec_probe = None\<rparr>"
    "granted_generations (expire 5 ?q) (snd (the (drive 5 ?q))) \<noteq> []" by code_simp+
  with recovery_single_probe [OF arm_recovery_inv [OF demo_queue_inv] drive_snd [OF n(1)] n(2)]
  show ?thesis by (simp add: Let_def)
qed

text \<open>
  One rejection counts once.  A rejection without timing information, reported for the
  current generation, extends the cool-down by the current backoff step (at least one second
  and less than thirty-one) and moves to the next step; reporting it again under the same
  generation number changes neither the cool-down nor the backoff step, and a success of that
  generation does not end the recovery.
\<close>

theorem throttle_counts_once:
  assumes "queue_inv q" "q_generation q \<le> u64_max" "jitter \<le> 250" "now + from_secs 31 \<le> duration_max"
    "throttle jitter now (q_generation q) cost False q = Some q1"
    "throttle jitter2 now2 (q_generation q) cost2 timing q1 = Some q2"
  shows "max (q_cooldown_until q) (now + from_secs (SECONDS ! q_no_hint_stage q)) \<le> q_cooldown_until q1
    \<and> q_cooldown_until q1 \<le> max (q_cooldown_until q) (now + from_secs 31)
    \<and> q_no_hint_stage q1 = min (q_no_hint_stage q + 1) 5
    \<and> q_cooldown_until q2 = q_cooldown_until q1 \<and> q_no_hint_stage q2 = q_no_hint_stage q1
    \<and> accepted now3 i (q_generation q) q1 = q1"
proof -
  let ?d = "from_secs (SECONDS ! q_no_hint_stage q) + from_millis jitter"
  from assms(1) have st: "q_no_hint_stage q < length SECONDS" by (simp add: queue_inv_def)
  from st have "SECONDS ! q_no_hint_stage q \<in> {1, 3, 5, 10, 20, 30}"
    using nth_mem [of "q_no_hint_stage q" SECONDS] by (auto simp: SECONDS_def)
  then have d: "now + ?d \<le> now + from_secs 31" using assms(3) by (auto simp: from_secs_def from_millis_def)
  from assms(5) st have q1: "q1 = arm_recovery now ?d (is_generation cost)
      (q\<lparr>q_no_hint_stage := min (q_no_hint_stage q + 1) (length SECONDS - 1)\<rparr>)"
    by (simp add: throttle_def)
  have gen: "q_generation q \<noteq> q_generation q1"
    using wrapping_add_1_neq [of u64_max "q_generation q"] assms(2) by (auto simp: q1 arm_recovery_def u64_max_def)
  with assms(6) have "q_cooldown_until q2 = q_cooldown_until q1 \<and> q_no_hint_stage q2 = q_no_hint_stage q1"
    by (auto simp: throttle_def Let_def split: option.splits if_splits)
  moreover from gen have "accepted now3 i (q_generation q) q1 = q1" by (simp add: accepted_def)
  moreover have "q_cooldown_until q1 = max (q_cooldown_until q) (now + ?d)"
    using d assms(4) by (simp add: q1 arm_recovery_def)
  moreover have "q_no_hint_stage q1 = min (q_no_hint_stage q + 1) 5"
    by (simp add: q1 arm_recovery_def SECONDS_def)
  ultimately show ?thesis using d by auto
qed

theorem throttle_counts_once_witness:
  "\<exists>q1 q2. throttle 100 0 0 UnmeteredGeneration False demo_queue = Some q1 \<and>
     throttle 7 9 0 Metadata True q1 = Some q2 \<and>
     q_cooldown_until q1 = from_millis 1100 \<and> q_cooldown_until q2 = q_cooldown_until q1"
proof -
  have g: "q_generation demo_queue = 0" by code_simp
  define q1 where "q1 = the (throttle 100 0 0 UnmeteredGeneration False demo_queue)"
  define q2 where "q2 = the (throttle 7 9 0 Metadata True q1)"
  have t1: "throttle 100 0 0 UnmeteredGeneration False demo_queue = Some q1"
    using throttle_total [OF demo_queue_inv, of 100 0 0 UnmeteredGeneration False] by (auto simp: q1_def)
  have t2: "throttle 7 9 0 Metadata True q1 = Some q2"
    using throttle_total [OF throttle_inv [OF demo_queue_inv t1], of 7 9 0 Metadata True] by (auto simp: q2_def)
  have "q_cooldown_until q1 = from_millis 1100" unfolding q1_def by code_simp
  moreover have "q_cooldown_until q2 = q_cooldown_until q1"
    using throttle_counts_once [OF demo_queue_inv, of 100 0 UnmeteredGeneration q1 7 9 Metadata True q2] t1 t2
    by (simp add: g u64_max_def from_secs_def duration_max_def)
  ultimately show ?thesis using t1 t2 by blast
qed

end
