(* ===== verification/Http_Headers.thy ===== *)
theory Http_Headers
  imports Json_Value
begin

text \<open>
  HTTP headers and the retry and exhaustion hints read from them: \<^verbatim>\<open>admission/retry.rs\<close> and
  \<^verbatim>\<open>admission/feedback.rs\<close>.

  A \<^verbatim>\<open>HeaderMap\<close> is a function from the lower-case name to the values in order, the empty list
  when the header is absent.  The functions of other crates are the fields of \<open>http_libs\<close>:
  \<^verbatim>\<open>HeaderValue::to_str\<close>, the two parsers of \<^verbatim>\<open>humantime\<close>, \<^verbatim>\<open>httpdate::parse_http_date\<close> and the
  JSON parser.  A point in time is its distance from the Unix epoch.
\<close>

type_synonym header_map = "string \<Rightarrow> string list"

record http_libs =
  lib_to_str :: "string \<Rightarrow> string option"
  lib_parse_rfc3339 :: "string \<Rightarrow> duration option"
  lib_parse_duration :: "string \<Rightarrow> duration option"
  lib_parse_http_date :: "string \<Rightarrow> duration option"
  lib_json :: "string \<Rightarrow> json option"

definition contains_key :: "header_map \<Rightarrow> string \<Rightarrow> bool" where
  "contains_key h name = (h name \<noteq> [])"

section \<open>Exhaustion hints\<close>

record exhausted_hint =
  ex_delay :: duration
  ex_generation_only :: bool

definition unique_value :: "http_libs \<Rightarrow> header_map \<Rightarrow> string \<Rightarrow> string option" where
  "unique_value L h name =
     (case h name of
        [] \<Rightarrow> None
      | first # rest \<Rightarrow>
          (case lib_to_str L first of
             None \<Rightarrow> None
           | Some v \<Rightarrow>
               if list_all (\<lambda>x. is_some_and (\<lambda>s. trim s = trim v) (lib_to_str L x)) rest
               then Some (trim v) else None))"

text \<open>The table of the source: remaining header, reset header, generation only, time stamp.\<close>

definition hint_table :: "(string \<times> string \<times> bool \<times> bool) list" where
  "hint_table =
     [(''x-ratelimit-remaining-requests'', ''x-ratelimit-reset-requests'', False, False),
      (''x-ratelimit-remaining-tokens'', ''x-ratelimit-reset-tokens'', True, False),
      (''x-ratelimit-remaining-project-tokens'', ''x-ratelimit-reset-project-tokens'', True, False),
      (''anthropic-ratelimit-requests-remaining'', ''anthropic-ratelimit-requests-reset'', False, True)]"

definition hint_delay ::
  "http_libs \<Rightarrow> header_map \<Rightarrow> duration \<Rightarrow> string \<Rightarrow> string \<Rightarrow> bool \<Rightarrow> duration option" where
  "hint_delay L h now remaining reset timestamp =
     (case unique_value L h remaining of
        None \<Rightarrow> None
      | Some v \<Rightarrow>
          if v = [] \<or> \<not> list_all is_ascii_digit v \<or> parse_u64 v \<noteq> Some 0 then None
          else case unique_value L h reset of
            None \<Rightarrow> None
          | Some r \<Rightarrow>
              if timestamp then map_option (\<lambda>at. saturating_sub at now) (lib_parse_rfc3339 L r)
              else lib_parse_duration L r)"

definition merge_hint :: "exhausted_hint option \<Rightarrow> duration \<Rightarrow> bool \<Rightarrow> exhausted_hint" where
  "merge_hint result delay generation_only =
     (case result of
        Some previous \<Rightarrow>
          \<lparr>ex_delay = max (ex_delay previous) delay,
           ex_generation_only = ex_generation_only previous \<or> generation_only\<rparr>
      | None \<Rightarrow> \<lparr>ex_delay = delay, ex_generation_only = generation_only\<rparr>)"

definition exhausted :: "http_libs \<Rightarrow> header_map \<Rightarrow> duration \<Rightarrow> exhausted_hint option" where
  "exhausted L h now =
     foldl (\<lambda>result (remaining, reset, generation_only, timestamp).
              case hint_delay L h now remaining reset timestamp of
                None \<Rightarrow> result
              | Some delay \<Rightarrow> Some (merge_hint result delay generation_only))
       None hint_table"

section \<open>Retry timing\<close>

definition integer :: "string \<Rightarrow> nat option" where
  "integer v = (if v \<noteq> [] \<and> list_all is_ascii_digit v then parse_u64 v else None)"

definition numeric_cooldown :: "string \<Rightarrow> (nat \<Rightarrow> duration) \<Rightarrow> duration option" where
  "numeric_cooldown v scale =
     (if v = [] \<or> \<not> list_all is_ascii_digit v then None
      else Some (case parse_u64 v of None \<Rightarrow> duration_max | Some n \<Rightarrow> scale n))"

definition seconds_or_date :: "http_libs \<Rightarrow> string \<Rightarrow> duration \<Rightarrow> duration option" where
  "seconds_or_date L v now =
     (case integer v of
        Some n \<Rightarrow> Some (from_secs n)
      | None \<Rightarrow> map_option (\<lambda>at. saturating_sub at now) (lib_parse_http_date L v))"

definition retry_after_delay :: "http_libs \<Rightarrow> duration \<Rightarrow> string \<Rightarrow> duration option" where
  "retry_after_delay L now value =
     (case lib_to_str L value of
        None \<Rightarrow> None
      | Some s \<Rightarrow>
          (case numeric_cooldown (trim s) from_secs of
             Some d \<Rightarrow> Some d
           | None \<Rightarrow> seconds_or_date L (trim s) now))"

definition retry_after_ms_delay :: "http_libs \<Rightarrow> string \<Rightarrow> duration option" where
  "retry_after_ms_delay L value =
     (case lib_to_str L value of None \<Rightarrow> None | Some s \<Rightarrow> numeric_cooldown (trim s) from_millis)"

definition header_delay :: "http_libs \<Rightarrow> header_map \<Rightarrow> duration \<Rightarrow> duration option" where
  "header_delay L h now =
     max_opt (List.map_filter (retry_after_delay L now) (h ''retry-after'')
              @ List.map_filter (retry_after_ms_delay L) (h ''retry-after-ms''))"

definition timing_allows_retry :: "http_libs \<Rightarrow> header_map \<Rightarrow> duration \<Rightarrow> bool" where
  "timing_allows_retry L h now =
     (list_all (\<lambda>x. Option.bind (lib_to_str L x) (\<lambda>s. seconds_or_date L (trim s) now) \<noteq> None) (h ''retry-after'')
      \<and> list_all (\<lambda>x. Option.bind (lib_to_str L x) (\<lambda>s. integer (trim s)) \<noteq> None) (h ''retry-after-ms''))"

definition missing_timing :: "header_map \<Rightarrow> bool" where
  "missing_timing h = (\<not> contains_key h ''retry-after'' \<and> \<not> contains_key h ''retry-after-ms'')"

definition trim_blanks :: "string \<Rightarrow> string" where
  "trim_blanks s =
     (let blank = (\<lambda>c. byte_of c = 32 \<or> byte_of c = 9)
      in rev (dropWhile blank (rev (dropWhile blank s))))"

definition server_forbids_retry :: "http_libs \<Rightarrow> header_map \<Rightarrow> bool" where
  "server_forbids_retry L h =
     list_ex (\<lambda>x. is_some_and (\<lambda>s. trim_blanks s = ''false'') (lib_to_str L x)) (h ''x-should-retry'')"

section \<open>Transient rejections\<close>

definition MAX_ERROR_BODY :: nat where
  "MAX_ERROR_BODY = 16 * 1024"

definition classifiable_representation :: "http_libs \<Rightarrow> header_map \<Rightarrow> bool" where
  "classifiable_representation L h =
     (contains_key h ''content-type''
      \<and> list_all (\<lambda>x. is_some_and (\<lambda>s. eq_ignore_ascii_case (trim (hd (split_on (CHR '';'') s))) ''application/json'')
            (lib_to_str L x)) (h ''content-type'')
      \<and> list_all (\<lambda>x. is_some_and (\<lambda>s. eq_ignore_ascii_case s ''identity'') (lib_to_str L x)) (h ''content-encoding''))"

text \<open>
  The two derived decoders.  Members other than the named ones are ignored, a named member that
  occurs twice is an error, an absent or null optional member is \<open>None\<close>; a struct may also be
  given as the sequence of all its fields.
\<close>

definition member_once :: "string \<Rightarrow> (string \<times> json) list \<Rightarrow> json option option" where
  "member_once k ms =
     (case filter (\<lambda>(k', _). k' = k) ms of
        [] \<Rightarrow> Some None
      | [(_, v)] \<Rightarrow> Some (Some v)
      | _ \<Rightarrow> None)"

fun option_string :: "json option \<Rightarrow> string option option" where
  "option_string None = Some None"
| "option_string (Some JNull) = Some None"
| "option_string (Some (JStr s)) = Some (Some s)"
| "option_string (Some _) = None"

fun option_any :: "json option \<Rightarrow> bool" where
  "option_any None = False"
| "option_any (Some v) = (v \<noteq> JNull)"

definition struct_fields :: "string list \<Rightarrow> json \<Rightarrow> json option list option" where
  "struct_fields names v =
     (case v of
        JObj ms \<Rightarrow>
          (let fs = map (\<lambda>k. member_once k ms) names
           in if None \<in> set fs then None else Some (map the fs))
      | JArr xs \<Rightarrow> if length xs = length names then Some (map Some xs) else None
      | _ \<Rightarrow> None)"

text \<open>The error object: its code, its type and whether it has details.\<close>

definition decode_error :: "json \<Rightarrow> (string \<times> string option \<times> bool) option" where
  "decode_error v =
     (case struct_fields [''code'', ''type'', ''details''] v of
        Some [Some (JStr code), ty, details] \<Rightarrow>
          map_option (\<lambda>t. (code, t, option_any details)) (option_string ty)
      | _ \<Rightarrow> None)"

definition decode_envelope :: "json \<Rightarrow> ((string \<times> string option \<times> bool) \<times> string option \<times> bool) option" where
  "decode_envelope v =
     (case struct_fields [''error'', ''type'', ''code''] v of
        Some [Some err, ty, code] \<Rightarrow>
          Option.bind (decode_error err) (\<lambda>e. map_option (\<lambda>t. (e, t, option_any code)) (option_string ty))
      | _ \<Rightarrow> None)"

definition transient :: "http_libs \<Rightarrow> header_map \<Rightarrow> string \<Rightarrow> bool" where
  "transient L h bytes =
     (if MAX_ERROR_BODY < length bytes \<or> \<not> classifiable_representation L h then False
      else if \<not> valid_utf8 bytes then False
      else case lib_json L bytes of
        None \<Rightarrow> False
      | Some v \<Rightarrow>
          (case decode_envelope v of
             None \<Rightarrow> False
           | Some ((code, ty, details), envelope_type, has_code) \<Rightarrow>
               is_none_or (\<lambda>t. t = ''error'') envelope_type \<and> \<not> has_code \<and> \<not> details \<and>
               (if code = ''slow_down'' then is_none_or (\<lambda>t. t = ''rate_limit_error'') ty
                else if code = ''rate_limit_exceeded''
                then is_none_or (\<lambda>t. t \<in> set [''rate_limit_error'', ''requests'', ''tokens'']) ty
                else False)))"

section \<open>Facts\<close>

lemma max_opt_ge: "max_opt xs = Some m \<Longrightarrow> x \<in> set xs \<Longrightarrow> x \<le> (m :: 'a :: linorder)"
proof -
  have "foldl max a ys \<ge> a \<and> (\<forall>y\<in>set ys. y \<le> foldl max a ys)" for a :: 'a and ys
  proof (induction ys arbitrary: a)
    case (Cons b ys)
    from Cons.IH [of "max a b"] show ?case by (auto intro: order_trans)
  qed simp
  from this [of "hd xs" "tl xs"] show "max_opt xs = Some m \<Longrightarrow> x \<in> set xs \<Longrightarrow> x \<le> m"
    by (cases xs) (auto simp: max_opt_def)
qed

lemma max_opt_in: "max_opt xs = Some m \<Longrightarrow> (m :: 'a :: linorder) \<in> set xs"
proof -
  have "foldl max a ys \<in> set (a # ys)" for a :: 'a and ys
    by (induction ys arbitrary: a) (auto simp: max_def split: if_splits)
  from this [of "hd xs" "tl xs"] show "max_opt xs = Some m \<Longrightarrow> m \<in> set xs"
    by (cases xs) (auto simp: max_opt_def)
qed

lemma max_opt_None: "max_opt xs = None \<longleftrightarrow> xs = []"
  by (simp add: max_opt_def)

text \<open>
  A server's wait is never shortened.  The delay taken from the headers is one of the delays
  they announce and at least as long as every other one, in either unit.
\<close>

theorem header_delay_is_longest:
  assumes "header_delay L h now = Some d"
  shows "(\<forall>v\<in>set (h ''retry-after''). \<forall>x. retry_after_delay L now v = Some x \<longrightarrow> x \<le> d)
    \<and> (\<forall>v\<in>set (h ''retry-after-ms''). \<forall>x. retry_after_ms_delay L v = Some x \<longrightarrow> x \<le> d)
    \<and> ((\<exists>v\<in>set (h ''retry-after''). retry_after_delay L now v = Some d)
       \<or> (\<exists>v\<in>set (h ''retry-after-ms''). retry_after_ms_delay L v = Some d))"
  using max_opt_ge [OF assms [unfolded header_delay_def]] max_opt_in [OF assms [unfolded header_delay_def]]
  by (auto simp: map_filter_set)

definition demo_libs :: http_libs where
  "demo_libs = \<lparr>lib_to_str = Some, lib_parse_rfc3339 = (\<lambda>_. None), lib_parse_duration = (\<lambda>_. None),
     lib_parse_http_date = (\<lambda>_. None), lib_json = (\<lambda>_. None)\<rparr>"

theorem header_delay_is_longest_witness:
  "let h = (\<lambda>_. [])(''retry-after'' := ['' 2''], ''retry-after-ms'' := [''2500'']) in
   header_delay demo_libs h 0 = Some (from_millis 2500) \<and> from_secs 2 \<le> from_millis 2500"
proof -
  define h :: header_map where "h = (\<lambda>_. [])(''retry-after'' := ['' 2''], ''retry-after-ms'' := [''2500''])"
  have d: "header_delay demo_libs h 0 = Some (from_millis 2500)" unfolding h_def by code_simp
  have r: "retry_after_delay demo_libs 0 '' 2'' = Some (from_secs 2)" by code_simp
  have "'' 2'' \<in> set (h ''retry-after'')" by (simp add: h_def)
  with header_delay_is_longest [OF d] r have "from_secs 2 \<le> from_millis 2500" by blast
  with d show ?thesis by (simp add: h_def Let_def)
qed

lemma parse_u64_le: "parse_u64 s = Some n \<Longrightarrow> n \<le> u64_max"
  by (auto simp: parse_u64_def Let_def split: if_splits)

lemma numeric_cooldown_le: "numeric_cooldown v from_secs = Some d \<Longrightarrow> d \<le> duration_max"
  "numeric_cooldown v from_millis = Some d \<Longrightarrow> d \<le> duration_max"
  by (auto simp: numeric_cooldown_def from_secs_def from_millis_def duration_max_def u64_max_def
      dest!: parse_u64_le split: if_splits option.splits)

lemma retry_delay_bounds:
  assumes "\<And>v at. lib_parse_http_date L v = Some at \<Longrightarrow> at \<le> duration_max"
  shows "retry_after_delay L now v = Some x \<Longrightarrow> x \<le> duration_max"
    "retry_after_ms_delay L v = Some x \<Longrightarrow> x \<le> duration_max"
proof -
  have "seconds_or_date L s now = Some x \<Longrightarrow> x \<le> duration_max" for s
    using assms by (auto simp: seconds_or_date_def integer_def from_secs_def duration_max_def u64_max_def
        dest!: parse_u64_le split: option.splits if_splits intro: le_trans [OF diff_le_self])
  then show "retry_after_delay L now v = Some x \<Longrightarrow> x \<le> duration_max"
    by (auto simp: retry_after_delay_def dest: numeric_cooldown_le split: option.splits)
  show "retry_after_ms_delay L v = Some x \<Longrightarrow> x \<le> duration_max"
    by (auto simp: retry_after_ms_delay_def dest: numeric_cooldown_le split: option.splits)
qed

text \<open>
  An oversized wait closes the gate without allowing a replay.  A decimal \<open>retry-after\<close> value
  that does not fit 64 bits counts as the longest possible delay, and the retry check refuses it
  (provided the date parser does not read a string of digits as a date).
\<close>

theorem oversized_wait_is_conservative:
  assumes "value \<in> set (h ''retry-after'')" "lib_to_str L value = Some s" "trim s = digits" "digits \<noteq> []"
    "list_all is_ascii_digit digits" "u64_max < digits_value digits" "lib_parse_http_date L digits = None"
    "\<And>v at. lib_parse_http_date L v = Some at \<Longrightarrow> at \<le> duration_max"
  shows "header_delay L h now = Some duration_max \<and> \<not> timing_allows_retry L h now'"
proof -
  have "hd digits \<noteq> CHR ''+''" using assms(4,5) by (cases digits) (auto simp: is_ascii_digit_def byte_of_def)
  then have p: "parse_u64 digits = None"
    using assms(4-6) by (cases digits) (simp_all add: parse_u64_def Let_def)
  with assms(2-5) have ra: "retry_after_delay L now value = Some duration_max"
    by (simp add: retry_after_delay_def numeric_cooldown_def)
  have "header_delay L h now \<noteq> None"
    using ra assms(1) by (auto simp: header_delay_def max_opt_None map_filter_set [symmetric] filter_empty_conv List.map_filter_def)
  then obtain d where d: "header_delay L h now = Some d" by blast
  have "duration_max \<le> d"
    by (rule max_opt_ge [OF d [unfolded header_delay_def]]) (use ra assms(1) in \<open>auto simp: map_filter_set\<close>)
  moreover have "d \<le> duration_max"
    using max_opt_in [OF d [unfolded header_delay_def]] retry_delay_bounds [OF assms(8)] by (auto simp: map_filter_set)
  ultimately have "header_delay L h now = Some duration_max" using d by simp
  moreover have "seconds_or_date L digits now' = None"
    using p assms(4,5,7) by (simp add: seconds_or_date_def integer_def)
  then have "Option.bind (lib_to_str L value) (\<lambda>s. seconds_or_date L (trim s) now') = None"
    using assms(2,3) by simp
  then have "\<not> timing_allows_retry L h now'"
    using assms(1) unfolding timing_allows_retry_def list_all_iff by blast
  ultimately show ?thesis by simp
qed

theorem oversized_wait_is_conservative_witness:
  "let h = (\<lambda>_. [])(''retry-after'' := [''99999999999999999999999 '']) in
   header_delay demo_libs h 0 = Some duration_max \<and> \<not> timing_allows_retry demo_libs h 0"
proof -
  define h :: header_map where "h = (\<lambda>_. [])(''retry-after'' := [''99999999999999999999999 ''])"
  let ?d = "''99999999999999999999999''"
  have "''99999999999999999999999 '' \<in> set (h ''retry-after'')" by (simp add: h_def)
  moreover have "lib_to_str demo_libs ''99999999999999999999999 '' = Some ''99999999999999999999999 ''"
    "\<And>v. lib_parse_http_date demo_libs v = None" by (simp_all add: demo_libs_def)
  moreover have "trim ''99999999999999999999999 '' = ?d" "list_all is_ascii_digit ?d" "u64_max < digits_value ?d"
    by code_simp+
  ultimately have "header_delay demo_libs h 0 = Some duration_max \<and> \<not> timing_allows_retry demo_libs h 0"
    by (intro oversized_wait_is_conservative) simp_all
  then show ?thesis by (simp add: h_def Let_def)
qed

section \<open>Exhaustion hints close the gate only on an exact zero\<close>

definition hint_of :: "http_libs \<Rightarrow> header_map \<Rightarrow> duration \<Rightarrow> string \<times> string \<times> bool \<times> bool \<Rightarrow> duration option" where
  "hint_of L h now = (\<lambda>(remaining, reset, _, timestamp). hint_delay L h now remaining reset timestamp)"

text \<open>
  The exhaustion hint is sound and complete over its table.  There is a hint exactly when
  some row of the table has a remaining count of exactly zero with a readable reset; its delay is
  the longest of these resets, and it is marked generation-only exactly when a token row
  contributed.
\<close>

theorem exhausted_spec:
  "(exhausted L h now = None) = (\<forall>row\<in>set hint_table. hint_of L h now row = None)
   \<and> (\<forall>x. exhausted L h now = Some x \<longrightarrow>
        (\<forall>row\<in>set hint_table. \<forall>d. hint_of L h now row = Some d \<longrightarrow> d \<le> ex_delay x)
        \<and> (\<exists>row\<in>set hint_table. hint_of L h now row = Some (ex_delay x))
        \<and> ex_generation_only x = (\<exists>row\<in>set hint_table. hint_of L h now row \<noteq> None \<and> fst (snd (snd row))))"
proof -
  let ?f = "\<lambda>result (remaining, reset, generation_only, timestamp).
              case hint_delay L h now remaining reset timestamp of
                None \<Rightarrow> result
              | Some delay \<Rightarrow> Some (merge_hint result delay generation_only)"
  have "(foldl ?f None rows = None) = (\<forall>row\<in>set rows. hint_of L h now row = None)
   \<and> (\<forall>x. foldl ?f None rows = Some x \<longrightarrow>
        (\<forall>row\<in>set rows. \<forall>d. hint_of L h now row = Some d \<longrightarrow> d \<le> ex_delay x)
        \<and> (\<exists>row\<in>set rows. hint_of L h now row = Some (ex_delay x))
        \<and> ex_generation_only x = (\<exists>row\<in>set rows. hint_of L h now row \<noteq> None \<and> fst (snd (snd row))))" for rows
  proof (induction rows rule: rev_induct)
    case (snoc row rows)
    obtain a b g t where row: "row = (a, b, g, t)" by (cases row) auto
    have f: "foldl ?f None (rows @ [row]) = (case hint_of L h now row of None \<Rightarrow> foldl ?f None rows
        | Some d \<Rightarrow> Some (merge_hint (foldl ?f None rows) d g))"
      by (simp add: row hint_of_def)
    show ?case
    proof (cases "hint_of L h now row")
      case None
      with f snoc show ?thesis by auto
    next
      case (Some d)
      have "fst (snd (snd row)) = g" by (simp add: row)
      with f snoc Some show ?thesis
        by (cases "foldl ?f None rows") (auto simp: merge_hint_def max_def)
    qed
  qed simp
  then show ?thesis by (simp add: exhausted_def)
qed

theorem exhausted_spec_witness:
  "let L = demo_libs\<lparr>lib_parse_duration := (\<lambda>s. if s = ''6s'' then Some (from_secs 6) else None)\<rparr>;
       h = (\<lambda>_. [])(''x-ratelimit-remaining-tokens'' := [''0''], ''x-ratelimit-reset-tokens'' := [''6s'']) in
   exhausted L h 0 = Some \<lparr>ex_delay = from_secs 6, ex_generation_only = True\<rparr> \<and>
   (\<exists>row\<in>set hint_table. hint_of L h 0 row = Some (from_secs 6))"
proof -
  define L where "L = demo_libs\<lparr>lib_parse_duration := (\<lambda>s. if s = ''6s'' then Some (from_secs 6) else None)\<rparr>"
  define h :: header_map where
    "h = (\<lambda>_. [])(''x-ratelimit-remaining-tokens'' := [''0''], ''x-ratelimit-reset-tokens'' := [''6s''])"
  have e: "exhausted L h 0 = Some \<lparr>ex_delay = from_secs 6, ex_generation_only = True\<rparr>"
    unfolding L_def h_def by code_simp
  from exhausted_spec [of L h 0, THEN conjunct2, rule_format, OF e] e show ?thesis
    by (simp add: L_def h_def Let_def)
qed

end
