(* ===== verification/Admission.thy ===== *)
theory Admission
  imports Fair_Queue_Drive Http_Headers Protocol_Usage
begin

text \<open>
  The admission controller of \<^verbatim>\<open>admission/mod.rs\<close>: acquiring a hold through the queue, starting
  an attempt, feedback from response headers and rejections, settlement and release.

  The \<^verbatim>\<open>Mutex<Queue>\<close> makes each critical section atomic; a section is a function from queue to
  queue, with the readings of the clock as arguments (\<open>now\<close>).  The loop of \<^verbatim>\<open>acquire_at\<close> is cut at
  its suspension points: \<open>acquire_enqueue\<close> is the part before the loop and \<open>acquire_poll\<close> one
  iteration up to the \<^verbatim>\<open>select!\<close>; how the iterations of different tasks interleave is the
  subject of \<open>Admission_System\<close>.  The notifications that wake sleeping tasks carry no state.
\<close>

section \<open>Data\<close>

record model_estimator_status =
  me_id :: string
  me_input_estimator :: input_estimator
  me_input_token_overhead :: nat

record root_status =
  rs_id :: string
  rs_queue_length :: nat

record status_report =
  as_startup_hold_ms :: nat
  as_shared_cooldown_ms :: nat
  as_queue_length :: nat
  as_active :: nat
  as_retained :: nat
  as_roots :: "root_status list"
  as_blocked_reason :: "string option"
  as_barrier_root :: "string option"
  as_estimate_mode :: string
  as_model_estimators :: "model_estimator_status list"
  as_rpm_mode :: string
  as_tpm_mode :: string
  as_rpm_capacity :: "string option"
  as_tpm_capacity :: "string option"
  as_accounting :: string
  as_rpm_debited :: string
  as_tpm_debited :: string
  as_tpm_held :: string
  as_reservation :: reservation_diagnostics

fun limit_mode :: "limit \<Rightarrow> string" where
  "limit_mode (Known _) = ''known''"
| "limit_mode Unknown = ''unknown''"
| "limit_mode Unlimited = ''unlimited''"

fun capacity :: "limit \<Rightarrow> string option" where
  "capacity (Known n) = Some (decimal n)"
| "capacity _ = None"

record admission =
  ad_queue :: queue
  ad_root_ids :: "string list"
  ad_estimate_mode :: string
  ad_model_estimators :: "model_estimator_status list"
  ad_quota :: quota
  ad_accounting :: accounting

record hold =
  h_id :: reservation_id
  h_started :: bool
  h_generation :: nat
  h_exhaustion_observed :: bool
  h_usage :: "observed_usage option"
  h_endpoint :: endpoint
  h_wait_started :: duration
  h_queue_deadline :: duration
  h_root :: nat
  h_cost :: request_cost

record ticket =
  t_root :: nat
  t_result :: result_cell
  t_armed :: bool

section \<open>Construction\<close>

text \<open>\<^verbatim>\<open>Admission::new\<close>; \<open>None\<close> is a failed assertion.\<close>

definition admission_new :: "config \<Rightarrow> duration \<Rightarrow> admission option" where
  "admission_new c now =
     (if registered_root_ids (cfg_roots c) \<noteq> Inr () then None
      else case ledger_new (cfg_quota c) (cfg_accounting c) (cfg_concurrency c) now
                  (from_secs (cfg_startup_hold_secs c)) of
        None \<Rightarrow> None
      | Some l \<Rightarrow>
          Some \<lparr>ad_queue = queue_new l (length (cfg_roots c)),
            ad_root_ids = map root_id (cfg_roots c),
            ad_estimate_mode =
              (case quota_tpm (cfg_quota c) of
                 Known _ \<Rightarrow>
                   if list_all (\<lambda>m. model_input_estimator m = Utf8Bytes) (cfg_models c)
                   then ''json_utf8_bytes_plus_output_reservation''
                   else ''model_json_estimate_plus_output_reservation''
               | _ \<Rightarrow> ''tpm_unenforced''),
            ad_model_estimators =
              map (\<lambda>m. \<lparr>me_id = model_id m, me_input_estimator = model_input_estimator m,
                        me_input_token_overhead = model_input_token_overhead m\<rparr>) (cfg_models c),
            ad_quota = cfg_quota c, ad_accounting = cfg_accounting c\<rparr>)"

definition admission_benchmark :: "config \<Rightarrow> duration \<Rightarrow> benchmark_policy \<Rightarrow> admission option" where
  "admission_benchmark c now p =
     map_option (\<lambda>a. a\<lparr>ad_queue := (ad_queue a)\<lparr>q_policy := p\<rparr>\<rparr>) (admission_new c now)"

section \<open>Acquiring\<close>

definition acquire_deadline :: "duration \<Rightarrow> duration \<Rightarrow> duration" where
  "acquire_deadline now wait = dur_add now (min wait (from_secs 120))"

text \<open>
  \<^verbatim>\<open>acquire_at\<close> up to the ticket: \<open>clock0\<close> and \<open>clock1\<close> are the two readings of the clock.
\<close>

definition acquire_enqueue ::
  "duration \<Rightarrow> duration \<Rightarrow> nat \<Rightarrow> request_cost \<Rightarrow> duration \<Rightarrow> duration \<Rightarrow> queue
     \<Rightarrow> ((acquire_error + result_cell) \<times> queue) option" where
  "acquire_enqueue clock0 clock1 root cost now queue_deadline q =
     (if queue_deadline \<le> clock0 then Some (Inl Deadline, q)
      else case drive clock1 q of
        None \<Rightarrow> None
      | Some (_, q') \<Rightarrow> Some (enqueue root cost now queue_deadline q'))"

text \<open>One iteration of the loop: the outcome taken from the cell, and when to wake up.\<close>

definition acquire_poll ::
  "duration \<Rightarrow> result_cell \<Rightarrow> queue \<Rightarrow> (ticket_result option \<times> duration option \<times> queue) option" where
  "acquire_poll clock cell q =
     (case drive clock q of
        None \<Rightarrow> None
      | Some (wake, q') \<Rightarrow> Some (q_cells q' cell, wake, q'\<lparr>q_cells := (q_cells q')(cell := None)\<rparr>))"

definition hold_new ::
  "reservation_id \<Rightarrow> endpoint \<Rightarrow> duration \<Rightarrow> duration \<Rightarrow> nat \<Rightarrow> request_cost \<Rightarrow> hold" where
  "hold_new i endpoint now queue_deadline root cost =
     \<lparr>h_id = i, h_started = False, h_generation = 0, h_exhaustion_observed = False, h_usage = None,
      h_endpoint = endpoint, h_wait_started = now, h_queue_deadline = queue_deadline, h_root = root,
      h_cost = cost\<rparr>"

definition ticket_drop :: "duration \<Rightarrow> ticket \<Rightarrow> queue \<Rightarrow> queue option" where
  "ticket_drop clock t q = (if t_armed t then cancel clock (t_root t) (t_result t) q else Some q)"

section \<open>Status\<close>

definition cooldown :: "duration \<Rightarrow> duration \<Rightarrow> queue \<Rightarrow> queue" where
  "cooldown clock delay q = q\<lparr>q_cooldown_until := max (q_cooldown_until q) (dur_add clock delay)\<rparr>"

definition admission_snapshot :: "duration \<Rightarrow> queue \<Rightarrow> snapshot \<times> queue" where
  "admission_snapshot clock q =
     (let (s, l) = ledger_snapshot (q_ledger q) clock in (s, q\<lparr>q_ledger := l\<rparr>))"

definition as_millis_u64 :: "duration \<Rightarrow> nat" where
  "as_millis_u64 d = min (d div 1000000) u64_max"

text \<open>\<^verbatim>\<open>Admission::status\<close>; the name of the barrier root is an indexed access.\<close>

definition admission_status :: "duration \<Rightarrow> admission \<Rightarrow> (status_report \<times> admission) option" where
  "admission_status now a =
     (let (s, l) = ledger_snapshot (q_ledger (ad_queue a)) now;
          q = (ad_queue a)\<lparr>q_ledger := l\<rparr>
      in case blocked_reason now q of
           None \<Rightarrow> None
         | Some (reason, q') \<Rightarrow>
             (case (case barrier_root q' of None \<Rightarrow> Some None
                    | Some root \<Rightarrow>
                        if root < length (ad_root_ids a) then Some (Some (ad_root_ids a ! root)) else None) of
                None \<Rightarrow> None
              | Some barrier \<Rightarrow>
                  Some (\<lparr>as_startup_hold_ms = as_millis_u64 (startup_hold (q_ledger q) now),
                    as_shared_cooldown_ms = as_millis_u64 (saturating_sub (q_cooldown_until q) now),
                    as_queue_length = q_len q, as_active = sn_active s, as_retained = sn_retained s,
                    as_roots = map (\<lambda>(i, n). \<lparr>rs_id = i, rs_queue_length = n\<rparr>) (zip (ad_root_ids a) (q_lengths q)),
                    as_blocked_reason = reason, as_barrier_root = barrier,
                    as_estimate_mode = ad_estimate_mode a, as_model_estimators = ad_model_estimators a,
                    as_rpm_mode = limit_mode (quota_rpm (ad_quota a)),
                    as_tpm_mode = limit_mode (quota_tpm (ad_quota a)),
                    as_rpm_capacity = capacity (quota_rpm (ad_quota a)),
                    as_tpm_capacity = capacity (quota_tpm (ad_quota a)),
                    as_accounting = (case ad_accounting a of Reserved \<Rightarrow> ''reserved'' | Actual \<Rightarrow> ''actual''),
                    as_rpm_debited = decimal (sn_rpm_debited s), as_tpm_debited = decimal (sn_tpm_debited s),
                    as_tpm_held = decimal (sn_tpm_held s), as_reservation = sn_reservation s\<rparr>,
                    a\<lparr>ad_queue := q'\<rparr>)))"

section \<open>Holds\<close>

definition hold_start :: "duration \<Rightarrow> hold \<Rightarrow> queue \<Rightarrow> bool \<times> hold \<times> queue" where
  "hold_start clock h q =
     (if h_started h then (True, h, q)
      else if \<not> can_start q clock (h_id h) (h_cost h) then (False, h, q)
      else
        let (started, l) = start (q_ledger q) clock (h_id h)
        in (started, h\<lparr>h_started := started, h_generation := q_generation q\<rparr>, q\<lparr>q_ledger := l\<rparr>))"

text \<open>
  \<^verbatim>\<open>Hold::headers\<close>: \<open>status\<close> is the numeric status code, \<open>observed_at\<close> the wall clock and \<open>now\<close>
  the admission clock.
\<close>

definition hold_headers ::
  "http_libs \<Rightarrow> nat \<Rightarrow> header_map \<Rightarrow> duration \<Rightarrow> duration \<Rightarrow> hold \<Rightarrow> queue \<Rightarrow> hold \<times> queue" where
  "hold_headers L status headers observed_at now h q =
     (let hint = exhausted L headers observed_at;
          q1 = (if status = 429
                then (case header_delay L headers observed_at of
                        None \<Rightarrow> q
                      | Some delay \<Rightarrow> q\<lparr>q_cooldown_until := max (q_cooldown_until q) (dur_add now delay)\<rparr>)
                else q);
          (h2, q2) = (case hint of
                        None \<Rightarrow> (h, q1)
                      | Some x \<Rightarrow>
                          (h\<lparr>h_exhaustion_observed := True\<rparr>,
                           arm_recovery now (ex_delay x) (ex_generation_only x \<or> is_generation (h_cost h)) q1));
          q3 = (if status = 200 then accepted now (h_id h) (h_generation h) q2
                else if status \<noteq> 429 then release_probe (h_id h) q2 else q2)
      in (h2, q3))"

definition hold_rejected ::
  "http_libs \<Rightarrow> nat \<Rightarrow> header_map \<Rightarrow> bool \<Rightarrow> duration \<Rightarrow> duration \<Rightarrow> hold \<Rightarrow> queue \<Rightarrow> queue option" where
  "hold_rejected L jitter headers recognized system_now now h q =
     (let q1 = (if recognized \<and> \<not> h_exhaustion_observed h then
                  let has_timing = (header_delay L headers system_now \<noteq> None) in
                  if has_timing \<or> missing_timing headers
                  then throttle jitter now (h_generation h) (h_cost h) has_timing q
                  else Some q
                else Some q)
      in map_option (release_probe (h_id h)) q1)"

definition hold_usage :: "observed_usage option \<Rightarrow> hold \<Rightarrow> hold" where
  "hold_usage u h = h\<lparr>h_usage := u\<rparr>"

definition hold_drop :: "duration \<Rightarrow> hold \<Rightarrow> queue \<Rightarrow> queue" where
  "hold_drop clock h q =
     (let l = (if h_started h
               then snd (finish (q_ledger q) clock (h_id h)
                      (Option.bind (h_usage h) (\<lambda>u. usage_total u (h_endpoint h))))
               else snd (ledger_cancel (q_ledger q) clock (h_id h)))
      in release_probe (h_id h) (q\<lparr>q_ledger := l\<rparr>))"

text \<open>
  \<^verbatim>\<open>Hold::retry\<close> up to the first suspension: the hold is dropped at once, then the request is
  enqueued again with its original waiting time and deadline.
\<close>

definition hold_retry ::
  "duration \<Rightarrow> duration \<Rightarrow> duration \<Rightarrow> hold \<Rightarrow> queue \<Rightarrow> ((acquire_error + result_cell) \<times> queue) option" where
  "hold_retry clock clock0 clock1 h q =
     acquire_enqueue clock0 clock1 (h_root h) (h_cost h) (h_wait_started h) (h_queue_deadline h)
       (hold_drop clock h q)"

section \<open>Invariants of the operations\<close>

lemma cooldown_inv: "queue_inv q \<Longrightarrow> queue_inv (cooldown t d q)"
  by (simp add: cooldown_def)

lemma admission_snapshot_inv: "queue_inv q \<Longrightarrow> queue_inv (snd (admission_snapshot t q))"
  by (auto simp: admission_snapshot_def ledger_snapshot_eq Let_def intro!: queue_inv_ledger advance_inv queue_inv_ledgerD)

lemma hold_start_inv: "queue_inv q \<Longrightarrow> queue_inv (snd (snd (hold_start t h q)))"
proof -
  assume q: "queue_inv q"
  have "queue_inv (q\<lparr>q_ledger := snd (start (q_ledger q) t (h_id h))\<rparr>)"
    using q by (intro queue_inv_ledger start_inv queue_inv_ledgerD) simp_all
  with q show ?thesis by (cases "start (q_ledger q) t (h_id h)") (simp add: hold_start_def)
qed

lemma hold_headers_inv: "queue_inv q \<Longrightarrow> queue_inv (snd (hold_headers L st hm ob t h q))"
  by (auto simp: hold_headers_def Let_def intro!: accepted_inv release_probe_inv arm_recovery_inv
      split: option.split prod.split)

lemma hold_rejected_inv:
  assumes "queue_inv q"
  shows "\<exists>q'. hold_rejected L j hm r st t h q = Some q' \<and> queue_inv q'"
proof -
  have t: "\<exists>q'. throttle j t g c b q = Some q' \<and> queue_inv q'" for g c b
    using throttle_total [OF assms, of j t g c b] throttle_inv [OF assms, of j t g c b] by auto
  have "\<exists>q'. map_option (release_probe (h_id h)) x = Some q' \<and> queue_inv q'"
    if "\<exists>q'. x = Some q' \<and> queue_inv q'" for x
    using that release_probe_inv by auto
  with t assms show ?thesis by (simp add: hold_rejected_def Let_def)
qed

lemma usage_total_le: "usage_total u ep = Some n \<Longrightarrow> n \<le> u64_max"
  by (cases ep) (auto simp: usage_total_def checked_add_def bind_eq_Some_conv split: option.splits if_splits)

lemma hold_drop_inv: "queue_inv q \<Longrightarrow> queue_inv (hold_drop t h q)"
proof -
  assume q: "queue_inv q"
  have "pred_option (\<lambda>n. n \<le> u64_max) (Option.bind (h_usage h) (\<lambda>u. usage_total u (h_endpoint h)))"
    by (auto simp: pred_option_def bind_eq_Some_conv usage_total_le)
  with q show ?thesis
    by (auto simp: hold_drop_def Let_def intro!: release_probe_inv queue_inv_ledger finish_inv cancel_inv queue_inv_ledgerD)
qed

lemma acquire_enqueue_inv:
  assumes "queue_inv q" "cost_ok cost"
  shows "\<exists>r q'. acquire_enqueue c0 c1 root cost now dl q = Some (r, q') \<and> queue_inv q'"
proof -
  obtain w q1 where "drive c1 q = Some (w, q1)" "queue_inv q1" using assms(1) by (rule drive_total)
  moreover obtain r q2 where e: "enqueue root cost now dl q1 = (r, q2)" by (cases "enqueue root cost now dl q1")
  moreover have "queue_inv q2" using enqueue_inv [OF \<open>queue_inv q1\<close> assms(2), of root now dl] e by simp
  ultimately show ?thesis using assms(1) by (auto simp: acquire_enqueue_def)
qed

lemma queue_inv_take: "queue_inv q \<Longrightarrow> queue_inv (q\<lparr>q_cells := (q_cells q)(c := None)\<rparr>)"
  by (auto simp: queue_inv_def q_len_def list_all_iff wait_ok_def)

lemma acquire_poll_inv:
  assumes "queue_inv q"
  shows "\<exists>r w q'. acquire_poll c cell q = Some (r, w, q') \<and> queue_inv q'"
proof -
  obtain w q1 where "drive c q = Some (w, q1)" "queue_inv q1" using assms(1) by (rule drive_total)
  with queue_inv_take show ?thesis by (auto simp: acquire_poll_def)
qed

end
