(* ===== verification/Reservation_Ownership.thy ===== *)
theory Reservation_Ownership
  imports Fair_Queue_Contract Admission
begin

text \<open>
  Who owns the reservations of the ledger.  Every active reservation belongs to exactly one
  hold or to one ticket whose cell carries its identity; this theory proves it for the
  operations of the queue and of the ledger, \<open>Admission_System\<close> for every interleaving of the
  tasks of the gateway.
\<close>

section \<open>Active reservations\<close>

definition active_ids :: "ledger \<Rightarrow> reservation_id list" where
  "active_ids l = map entry_id (filter entry_active (ledger_entries l))"

text \<open>The reservation is active, and started or not.\<close>

definition status_is :: "ledger \<Rightarrow> reservation_id \<Rightarrow> bool \<Rightarrow> bool" where
  "status_is l i b = (\<exists>e\<in>set (ledger_entries l). entry_id e = i \<and> entry_active e \<and> entry_started e = b)"

lemma length_active_ids: "length (active_ids l) = active_count l"
  by (simp add: active_ids_def active_count_def)

lemma active_ids_advance [simp]: "active_ids (advance l t) = active_ids l"
  by (auto simp: active_ids_def advance_entries entry_retained_def intro!: arg_cong [where f = "map _"] filter_cong)

lemma status_advance [simp]: "status_is (advance l t) i b = status_is l i b"
  by (auto simp: status_is_def advance_entries entry_retained_def)

lemma status_unstarted: "unstarted_match i e \<Longrightarrow> e \<in> set (ledger_entries l) \<Longrightarrow> status_is l i False"
  by (auto simp: status_is_def unstarted_match_def)

lemma admit_ids:
  assumes "admit l t c = (Admitted i, l')"
  shows "active_ids l' = active_ids l @ [i]" "status_is l' i False" "status_is l j b \<Longrightarrow> status_is l' j b"
proof -
  from assms obtain la where l: "la = advance l t"
    "l' = la\<lparr>ledger_next := i, ledger_entries := ledger_entries la @
        [\<lparr>entry_id = i, entry_active = True, entry_started = False, entry_metadata = (c = Metadata),
          entry_tokens = (if known (quota_tpm (ledger_quota la)) \<noteq> None then cost_tokens c else 0),
          entry_rpm_until = None, entry_tpm_until = None\<rparr>]\<rparr>"
    by (rule admit_Admitted)
  have "active_ids l' = active_ids la @ [i]" by (simp add: l(2) active_ids_def)
  then show "active_ids l' = active_ids l @ [i]" by (simp add: l(1))
  show "status_is l' i False" by (simp add: l(2) status_is_def)
  assume "status_is l j b"
  then have "status_is la j b" by (simp add: l(1))
  then show "status_is l' j b" by (auto simp: l(2) status_is_def)
qed

lemma find_match:
  assumes "status_is l i b" "\<And>e. P e = (entry_id e = i \<and> entry_active e \<and> entry_started e = b)"
  shows "\<exists>e. List.find P (ledger_entries l) = Some e"
  using assms by (cases "List.find P (ledger_entries l)") (auto simp: status_is_def find_None_iff)

lemma start_granted:
  assumes "status_is l i False"
  shows "fst (start l t i)"
proof -
  have "status_is (advance l t) i False" using assms by simp
  from find_match [OF this, of "unstarted_match i"] show ?thesis
    by (auto simp: start_def unstarted_match_def Let_def)
qed

lemma start_ids:
  shows "active_ids (snd (start l t i)) = active_ids l"
    "status_is l i False \<Longrightarrow> status_is (snd (start l t i)) i True"
    "j \<noteq> i \<Longrightarrow> status_is l j b \<Longrightarrow> status_is (snd (start l t i)) j b"
proof -
  obtain r l' where s: "start l t i = (r, l')" by (cases "start l t i")
  show "active_ids (snd (start l t i)) = active_ids l"
  proof (cases r)
    case True
    with s obtain la ys e zs where x: "la = advance l t" "ledger_entries la = ys @ e # zs"
      "l' = la\<lparr>ledger_entries := ys @ start_entry (ledger_quota la) (dur_add (ledger_now la) WINDOW) e # zs,
            ledger_starts := saturating_add u64_max (ledger_starts la) 1\<rparr>" by (auto elim: start_True)
    then have "active_ids l' = active_ids la" by (simp add: active_ids_def start_entry_def)
    with s x(1) show ?thesis by simp
  next
    case False
    with s have "l' = advance l t" using start_False by simp
    with s show ?thesis by simp
  qed
  show "status_is (snd (start l t i)) i True" if "status_is l i False"
  proof -
    from start_granted [OF that, of t] s have "start l t i = (True, l')" by simp
    then obtain la ys e zs where x: "ledger_entries la = ys @ e # zs" "unstarted_match i e"
      "l' = la\<lparr>ledger_entries := ys @ start_entry (ledger_quota la) (dur_add (ledger_now la) WINDOW) e # zs,
            ledger_starts := saturating_add u64_max (ledger_starts la) 1\<rparr>" by (auto elim: start_True)
    then show ?thesis by (simp add: s status_is_def start_entry_def unstarted_match_def)
  qed
  show "status_is (snd (start l t i)) j b" if "j \<noteq> i" "status_is l j b"
  proof (cases r)
    case True
    with s obtain la ys e zs where x: "la = advance l t" "ledger_entries la = ys @ e # zs" "unstarted_match i e"
      "l' = la\<lparr>ledger_entries := ys @ start_entry (ledger_quota la) (dur_add (ledger_now la) WINDOW) e # zs,
            ledger_starts := saturating_add u64_max (ledger_starts la) 1\<rparr>" by (auto elim: start_True)
    have "status_is la j b" using that(2) x(1) by simp
    with x(2,3) that(1) have "\<exists>e'\<in>set (ys @ zs). entry_id e' = j \<and> entry_active e' \<and> entry_started e' = b"
      by (auto simp: status_is_def unstarted_match_def)
    with s x(4) show ?thesis by (auto simp: status_is_def)
  next
    case False
    with s have "l' = advance l t" using start_False by simp
    with s that(2) show ?thesis by simp
  qed
qed

lemma cancel_ids:
  assumes "status_is l i False"
  shows "mset (active_ids l) = add_mset i (mset (active_ids (snd (ledger_cancel l t i))))"
    "j \<noteq> i \<Longrightarrow> status_is l j b \<Longrightarrow> status_is (snd (ledger_cancel l t i)) j b"
proof -
  let ?la = "advance l t"
  have st: "status_is ?la i False" using assms by simp
  have "position (unstarted_match i) (ledger_entries ?la) \<noteq> None"
    using st unfolding position_None by (auto simp: status_is_def unstarted_match_def)
  then have "fst (ledger_cancel l t i)" by (auto simp: ledger_cancel_def Let_def)
  then obtain l' where s: "ledger_cancel l t i = (True, l')" by (cases "ledger_cancel l t i") auto
  then obtain k where k: "k < length (ledger_entries ?la)" "unstarted_match i (ledger_entries ?la ! k)"
    "l' = ?la\<lparr>ledger_entries := swap_remove k (ledger_entries ?la),
            ledger_cleanups := saturating_add u64_max (ledger_cleanups ?la) 1\<rparr>" by (auto elim: cancel_True)
  have ms: "mset (ledger_entries ?la) = add_mset (ledger_entries ?la ! k) (mset (ledger_entries l'))"
    using k(1,3) by (simp add: mset_swap_remove)
  have am: "mset (active_ids x) = image_mset entry_id (filter_mset entry_active (mset (ledger_entries x)))" for x
    by (simp add: active_ids_def)
  have "mset (active_ids ?la) = add_mset i (mset (active_ids l'))"
    unfolding am ms using k(2) by (simp add: unstarted_match_def)
  then show "mset (active_ids l) = add_mset i (mset (active_ids (snd (ledger_cancel l t i))))" by (simp add: s)
  show "status_is (snd (ledger_cancel l t i)) j b" if "j \<noteq> i" "status_is l j b"
  proof -
    from that(2) have "status_is ?la j b" by simp
    then obtain e where e: "e \<in># mset (ledger_entries ?la)" "entry_id e = j" "entry_active e" "entry_started e = b"
      by (auto simp: status_is_def)
    with ms k(2) that(1) have "e \<in># mset (ledger_entries l')" by (auto simp: unstarted_match_def)
    with e s show ?thesis by (auto simp: status_is_def)
  qed
qed

lemma settle_entry_inactive [simp]: "\<not> entry_active (settle_entry a tpm t u e)" "entry_id (settle_entry a tpm t u e) = entry_id e"
  by (simp_all add: settle_entry_def Let_def split: option.split)

lemma finish_ids:
  assumes "status_is l i True"
  shows "mset (active_ids l) = add_mset i (mset (active_ids (snd (finish l t i u))))"
    "j \<noteq> i \<Longrightarrow> status_is l j b \<Longrightarrow> status_is (snd (finish l t i u)) j b"
proof -
  let ?la = "advance l t"
  have st: "status_is ?la i True" using assms by simp
  from find_match [OF this, of "started_match i"] have "fst (finish l t i u)"
    by (auto simp: finish_def started_match_def Let_def)
  then obtain l' where s: "finish l t i u = (True, l')" by (cases "finish l t i u") auto
  then obtain ys e zs where x: "ledger_entries ?la = ys @ e # zs" "started_match i e"
    "l' = advance (?la\<lparr>ledger_entries := ys @ settle_entry (ledger_accounting ?la)
              (quota_tpm (ledger_quota ?la)) (ledger_now ?la) u e # zs,
            ledger_reservation := record_usage (quota_tpm (ledger_quota ?la)) u e (ledger_reservation ?la),
            ledger_cleanups := saturating_add u64_max (ledger_cleanups ?la) 1\<rparr>) t"
    by (auto elim: finish_True)
  have "active_ids ?la = map entry_id (filter entry_active (ys @ e # zs))" unfolding active_ids_def x(1) ..
  then have "mset (active_ids ?la) = add_mset i (mset (active_ids l'))"
    unfolding x(3) active_ids_advance using x(2) by (simp del: active_ids_advance add: active_ids_def started_match_def)
  then show "mset (active_ids l) = add_mset i (mset (active_ids (snd (finish l t i u))))" by (simp add: s)
  show "status_is (snd (finish l t i u)) j b" if "j \<noteq> i" "status_is l j b"
  proof -
    from that(2) have "status_is ?la j b" by simp
    with x(1,2) that(1) have "\<exists>e'\<in>set (ys @ zs). entry_id e' = j \<and> entry_active e' \<and> entry_started e' = b"
      by (auto simp: status_is_def started_match_def)
    then show ?thesis unfolding s snd_conv x(3) status_advance by (auto simp: status_is_def)
  qed
qed

section \<open>Ownership\<close>

text \<open>
  \<open>C\<close> lists the live tickets as pairs of cell and root, \<open>H\<close> the live holds as pairs of identity
  and whether they were started.
\<close>

definition granted_id :: "queue \<Rightarrow> result_cell \<Rightarrow> reservation_id option" where
  "granted_id q c = (case q_cells q c of Some (Inr i) \<Rightarrow> Some i | _ \<Rightarrow> None)"

definition granted_ids :: "(result_cell \<times> nat) list \<Rightarrow> queue \<Rightarrow> reservation_id list" where
  "granted_ids C q = List.map_filter (\<lambda>(c, _). granted_id q c) C"

lemma granted_ids_simps [simp]:
  "granted_ids [] q = []"
  "granted_ids ((c, r) # C) q = (case granted_id q c of None \<Rightarrow> [] | Some i \<Rightarrow> [i]) @ granted_ids C q"
  "granted_ids (A @ C) q = granted_ids A q @ granted_ids C q"
  by (simp_all add: granted_ids_def List.map_filter_def split: option.split)

lemma granted_ids_cong:
  assumes "\<And>c r. (c, r) \<in> set C \<Longrightarrow> granted_id q' c = granted_id q c"
  shows "granted_ids C q' = granted_ids C q"
proof -
  have "\<forall>x\<in>set C. granted_id q' (fst x) = granted_id q (fst x)" using assms by auto
  then show ?thesis by (induction C) auto
qed

definition owned :: "(result_cell \<times> nat) list \<Rightarrow> (reservation_id \<times> bool) list \<Rightarrow> queue \<Rightarrow> bool" where
  "owned C H q =
     (mset (active_ids (q_ledger q)) = mset (map fst H) + mset (granted_ids C q)
      \<and> (\<forall>(i, b)\<in>set H. status_is (q_ledger q) i b)
      \<and> (\<forall>i\<in>set (granted_ids C q). status_is (q_ledger q) i False)
      \<and> distinct (map fst C)
      \<and> (\<forall>(c, r)\<in>set C. c < q_next_cell q \<and> r < length (q_roots q))
      \<and> (\<forall>r<length (q_roots q). \<forall>w\<in>set (q_roots q ! r). (w_result w, r) \<in> set C))"

lemma owned_frame [simp]:
  "owned C H (q\<lparr>q_barrier := b\<rparr>) = owned C H q" "owned C H (q\<lparr>q_recovery := rc\<rparr>) = owned C H q"
  "owned C H (q\<lparr>q_cooldown_until := t\<rparr>) = owned C H q" "owned C H (q\<lparr>q_generation := g\<rparr>) = owned C H q"
  "owned C H (q\<lparr>q_no_hint_stage := n\<rparr>) = owned C H q" "owned C H (q\<lparr>q_policy := p\<rparr>) = owned C H q"
  by (simp_all add: owned_def granted_ids_def granted_id_def)

lemma owned_advance [simp]: "owned C H (q\<lparr>q_ledger := advance (q_ledger q) t\<rparr>) = owned C H q"
  by (simp add: owned_def granted_ids_def granted_id_def)

lemma granted_ids_upd:
  assumes "distinct (map fst C)" "(c, r) \<in> set C" "q_cells q c = None"
    "q_cells q' = (q_cells q)(c := Some (Inr i))"
  shows "mset (granted_ids C q') = add_mset i (mset (granted_ids C q))"
proof -
  from assms(2) obtain A B where C: "C = A @ (c, r) # B" by (auto simp: in_set_conv_decomp)
  have other: "granted_ids X q' = granted_ids X q" if "c \<notin> fst ` set X" for X
    using that by (intro granted_ids_cong) (force simp: granted_id_def assms(4))
  from assms(1) C have "c \<notin> fst ` set A" "c \<notin> fst ` set B" by auto
  moreover have "granted_id q' c = Some i" "granted_id q c = None" by (simp_all add: granted_id_def assms(3,4))
  ultimately show ?thesis by (simp add: C other)
qed

lemma granted_ids_other:
  "(\<And>c r. (c, r) \<in> set C \<Longrightarrow> q_cells q' c = q_cells q c \<or> (q_cells q c = None \<and> (\<exists>e. q_cells q' c = Some (Inl e)))) \<Longrightarrow>
   granted_ids C q' = granted_ids C q"
  by (rule granted_ids_cong) (force simp: granted_id_def)

lemma owned_expire:
  assumes inv: "queue_inv q" and own: "owned C H q"
  shows "owned C H (expire now q)"
proof -
  have "q_cells (expire now q) c = q_cells q c \<or> (q_cells q c = None \<and> (\<exists>e. q_cells (expire now q) c = Some (Inl e)))" for c
  proof (cases "c \<in> w_result ` set (filter (\<lambda>w. w_deadline w \<le> now) (concat (q_roots q)))")
    case True
    then obtain w where "w \<in> set (concat (q_roots q))" "c = w_result w" by auto
    with inv have "q_cells q c = None" by (auto simp: queue_inv_def list_all_iff wait_ok_def)
    with True show ?thesis by (simp add: expire_def Let_def expire_cells)
  qed (simp add: expire_def Let_def expire_cells)
  then have "granted_ids C (expire now q) = granted_ids C q" by (intro granted_ids_other) blast
  with own show ?thesis by (auto simp: owned_def expire_def Let_def)
qed

lemma owned_round:
  assumes inv: "queue_inv q" and own: "owned C H q" and d: "drive_round now q = Some (True, q')"
  shows "owned C H q'"
proof -
  obtain root h rest fits i l where t: "root < length (q_roots q)" "q_roots q ! root = h # rest"
    "admit (q_ledger q) now (w_cost h) = (Admitted i, l)" "eligible q (w_cost h)" "q_ledger q' = l"
    "q_roots q' = (count_bypasses fits root (q_roots q))[root := rest]"
    "q_cells q' = (q_cells q)(w_result h := Some (Inr i))" "q_next_cell q' = q_next_cell q"
    by (rule round_turn [OF inv d], rule that)
  have hd: "h \<in> set (q_roots q ! root)" using t(2) by simp
  with own t(1) have hC: "(w_result h, root) \<in> set C" by (auto simp: owned_def)
  from inv t(1) hd have none: "q_cells q (w_result h) = None"
    by (auto simp: queue_inv_def list_all_iff wait_ok_def)
  have g: "mset (granted_ids C q') = add_mset i (mset (granted_ids C q))"
    using own by (intro granted_ids_upd [OF _ hC none t(7)]) (simp add: owned_def)
  from arg_cong [OF g, of set_mset] have gs: "set (granted_ids C q') = insert i (set (granted_ids C q))" by simp
  note ids = admit_ids [OF t(3)]
  have "(w_result w, r) \<in> set C" if r: "r < length (q_roots q')" "w \<in> set (q_roots q' ! r)" for r w
  proof -
    from r have len: "r < length (q_roots q)" by (simp add: t(6))
    have "\<exists>w0\<in>set (q_roots q ! r). w_result w = w_result w0"
    proof (cases "r = root")
      case True
      with r(2) t(1,2,6) show ?thesis by auto
    next
      case False
      with r(2) t(6) len have "w \<in> set (q_roots q ! r) \<or> w \<in> set (bump_front (q_roots q ! r))" by (auto split: if_splits)
      then show ?thesis by (cases "q_roots q ! r") auto
    qed
    with own len show ?thesis by (auto simp: owned_def)
  qed
  with own g gs ids show ?thesis unfolding owned_def t(5,8) by (auto simp: t(6))
qed

lemma owned_drive:
  assumes inv: "queue_inv q" and own: "owned C H q" and d: "drive now q = Some (w, q')"
  shows "owned C H q'"
proof -
  have "\<exists>q0. queue_inv q0 \<and> owned C H q0 \<and> drive_round now q0 = Some (False, q') \<and> queue_inv q'
      \<and> w = (if q_len q' = 0 then None else drive_wake now q')"
    using inv d owned_expire [OF inv own] by (rule drive_rule) (rule owned_round)
  then obtain q0 where q0: "queue_inv q0" "owned C H q0" "drive_round now q0 = Some (False, q')" by blast
  from round_stop [OF q0(1,3)] obtain b l where q': "q' = q0\<lparr>q_barrier := b, q_ledger := l\<rparr>"
    and l: "l \<in> {q_ledger q0, advance (q_ledger q0) now}" by blast
  have "owned C H (q0\<lparr>q_ledger := l\<rparr>)" using l q0(2) by auto
  then show ?thesis by (simp add: q' owned_def granted_ids_def granted_id_def)
qed

section \<open>Holds\<close>

lemma inv_active_distinct: "queue_inv q \<Longrightarrow> distinct (active_ids (q_ledger q))"
  unfolding active_ids_def by (rule distinct_map_filter) (simp add: queue_inv_def ledger_inv_def)

lemma owned_distinct:
  assumes "distinct (active_ids (q_ledger q))" "owned C H q"
  shows "distinct (map fst H @ granted_ids C q)"
  using assms unfolding owned_def by (metis mset_append mset_eq_imp_distinct_iff)

lemma granted_ids_ledger [simp]: "granted_ids C (q\<lparr>q_ledger := l\<rparr>) = granted_ids C q"
  by (simp add: granted_ids_def granted_id_def)

lemma owned_statusD:
  "owned C H q \<Longrightarrow> (i, b) \<in> set H \<Longrightarrow> status_is (q_ledger q) i b"
  "owned C H q \<Longrightarrow> i \<in> set (granted_ids C q) \<Longrightarrow> status_is (q_ledger q) i False"
  by (auto simp: owned_def)

text \<open>Replacing the ledger: the identities and the status of each owner have to be kept.\<close>

lemma owned_ledgerI:
  assumes "owned C H q"
    "mset (active_ids l) = mset (map fst H') + mset (granted_ids C q)"
    "\<And>i b. (i, b) \<in> set H' \<Longrightarrow> status_is l i b" "\<And>i. i \<in> set (granted_ids C q) \<Longrightarrow> status_is l i False"
  shows "owned C H' (q\<lparr>q_ledger := l\<rparr>)"
proof -
  have "\<forall>(i, b)\<in>set H'. status_is l i b" using assms(3) by blast
  with assms(1,2,4) show ?thesis unfolding owned_def granted_ids_ledger by simp
qed

lemma owned_other:
  assumes "distinct (active_ids (q_ledger q))" "owned C (X @ (i, b) # Y) q"
  shows "(j, b') \<in> set (X @ Y) \<Longrightarrow> j \<noteq> i \<and> status_is (q_ledger q) j b'"
    "j \<in> set (granted_ids C q) \<Longrightarrow> j \<noteq> i \<and> status_is (q_ledger q) j False"
proof -
  from owned_distinct [OF assms] have d: "i \<notin> fst ` set (X @ Y)" "i \<notin> set (granted_ids C q)" by auto
  { assume j: "(j, b') \<in> set (X @ Y)"
    then have "j \<in> fst ` set (X @ Y)" by (metis fst_conv image_eqI)
    with d(1) j owned_statusD(1) [OF assms(2)] show "j \<noteq> i \<and> status_is (q_ledger q) j b'" by auto }
  { assume "j \<in> set (granted_ids C q)"
    with d(2) owned_statusD(2) [OF assms(2)] show "j \<noteq> i \<and> status_is (q_ledger q) j False" by blast }
qed

lemma owned_ids: "owned C H q \<Longrightarrow> mset (active_ids (q_ledger q)) = mset (map fst H) + mset (granted_ids C q)"
  by (simp add: owned_def)

lemma owned_hold_gone:
  assumes "distinct (active_ids (q_ledger q))" and own: "owned C (X @ (i, b) # Y) q"
    and ids: "mset (active_ids (q_ledger q)) = add_mset i (mset (active_ids l))"
    and other: "\<And>j b. j \<noteq> i \<Longrightarrow> status_is (q_ledger q) j b \<Longrightarrow> status_is l j b"
  shows "owned C (X @ Y) (q\<lparr>q_ledger := l\<rparr>)"
  using own
proof (rule owned_ledgerI)
  show "mset (active_ids l) = mset (map fst (X @ Y)) + mset (granted_ids C q)" using owned_ids [OF own] ids by simp
qed (use owned_other [OF assms(1,2)] other in blast)+

lemma owned_started:
  assumes inv: "queue_inv q" and own: "owned C (X @ (i, False) # Y) q"
  shows "owned C (X @ (i, True) # Y) (q\<lparr>q_ledger := snd (start (q_ledger q) t i)\<rparr>)"
  using own
proof (rule owned_ledgerI)
  note other = owned_other [OF inv_active_distinct [OF inv] own]
  have "status_is (q_ledger q) i False" using owned_statusD(1) [OF own] by simp
  note started = start_ids(2) [OF this, of t]
  fix j b
  assume "(j, b) \<in> set (X @ (i, True) # Y)"
  then show "status_is (snd (start (q_ledger q) t i)) j b"
    using started other(1) [of j b] start_ids(3) [of j i "q_ledger q" b t] by auto
next
  note other = owned_other [OF inv_active_distinct [OF inv] own]
  fix j
  assume "j \<in> set (granted_ids C q)"
  then show "status_is (snd (start (q_ledger q) t i)) j False"
    using other(2) [of j] start_ids(3) [of j i "q_ledger q" False t] by blast
qed (use owned_ids [OF own] in \<open>simp add: start_ids(1)\<close>)

lemma owned_release [simp]: "owned C H (release_probe i q) = owned C H q"
  by (simp add: release_probe_def split: option.split)

lemma owned_dropped:
  assumes inv: "queue_inv q" and own: "owned C (X @ (h_id h, h_started h) # Y) q"
  shows "owned C (X @ Y) (hold_drop t h q)"
proof -
  have st: "status_is (q_ledger q) (h_id h) (h_started h)" using own by (simp add: owned_def)
  show ?thesis
  proof (cases "h_started h")
    case True
    let ?u = "Option.bind (h_usage h) (\<lambda>u. usage_total u (h_endpoint h))"
    have "owned C (X @ Y) (q\<lparr>q_ledger := snd (finish (q_ledger q) t (h_id h) ?u)\<rparr>)"
      using owned_hold_gone [OF inv_active_distinct [OF inv] own] finish_ids [of "q_ledger q" "h_id h"] st True by simp
    with True show ?thesis by (simp add: hold_drop_def)
  next
    case False
    have "owned C (X @ Y) (q\<lparr>q_ledger := snd (ledger_cancel (q_ledger q) t (h_id h))\<rparr>)"
      using owned_hold_gone [OF inv_active_distinct [OF inv] own] cancel_ids [of "q_ledger q" "h_id h"] st False by simp
    with False show ?thesis by (simp add: hold_drop_def)
  qed
qed

section \<open>Tickets\<close>

lemma owned_enqueue:
  assumes own: "owned C H q" and e: "enqueue root cost t d q = (Inr c, q')"
  shows "owned (C @ [(c, root)]) H q'"
proof -
  from e obtain s where r: "root < length (q_roots q)" "c = q_next_cell q"
    and q': "q' = q\<lparr>q_sequence := s, q_roots := (q_roots q)[root := q_roots q ! root @
         [\<lparr>w_result = c, w_cost = cost, w_enqueued = t, w_deadline = d, w_sequence = s, w_bypasses = 0\<rparr>]],
       q_cells := (q_cells q)(c := None), q_next_cell := Suc c\<rparr>"
    by (auto simp: enqueue_def split: if_splits option.splits)
  have lt: "x < c \<and> y < length (q_roots q)" if "(x, y) \<in> set C" for x y using that own r(2) by (auto simp: owned_def)
  have "granted_ids C q' = granted_ids C q"
    using lt by (intro granted_ids_cong) (fastforce simp: granted_id_def q')
  moreover have "granted_id q' c = None" by (simp add: granted_id_def q')
  moreover have "c \<notin> fst ` set C" using lt by fastforce
  moreover have "(w_result w, x) \<in> set (C @ [(c, root)])" if "x < length (q_roots q')" "w \<in> set (q_roots q' ! x)" for x w
    using that own r(1) by (cases "x = root") (auto simp: q' owned_def)
  ultimately show ?thesis using own lt r(1) unfolding owned_def by (auto simp: q' less_SucI)
qed

text \<open>Taking the outcome out of a cell turns the ticket into a hold, or ends it.\<close>

lemma owned_take:
  assumes own: "owned (A @ (c, r) # B) H q" and o: "q_cells q c = Some out"
    and w: "\<And>x w. x < length (q_roots q) \<Longrightarrow> w \<in> set (q_roots q ! x) \<Longrightarrow> w_result w \<noteq> c"
  shows "owned (A @ B) (H @ (case out of Inl _ \<Rightarrow> [] | Inr i \<Rightarrow> [(i, False)])) (q\<lparr>q_cells := (q_cells q)(c := None)\<rparr>)"
proof -
  let ?q = "q\<lparr>q_cells := (q_cells q)(c := None)\<rparr>"
  have other: "granted_ids X ?q = granted_ids X q" if "c \<notin> fst ` set X" for X
    using that by (intro granted_ids_cong) (force simp: granted_id_def)
  from own have "c \<notin> fst ` set A" "c \<notin> fst ` set B" by (auto simp: owned_def)
  note g = this [THEN other]
  have gi: "granted_id q c = (case out of Inl _ \<Rightarrow> None | Inr i \<Rightarrow> Some i)"
    by (simp add: granted_id_def o split: sum.split)
  have "(w_result x, y) \<in> set (A @ B)" if "y < length (q_roots q)" "x \<in> set (q_roots q ! y)" for x y
    using own that w [OF that] by (auto simp: owned_def)
  with own show ?thesis unfolding owned_def by (cases out) (auto simp: g gi)
qed

lemma owned_forget:
  assumes own: "owned (A @ (c, r) # B) H q" and o: "q_cells q c = None"
    and w: "\<And>x w. x < length (q_roots q) \<Longrightarrow> w \<in> set (q_roots q ! x) \<Longrightarrow> w_result w \<noteq> c"
  shows "owned (A @ B) H q"
proof -
  have "granted_id q c = None" by (simp add: granted_id_def o)
  moreover have "(w_result x, y) \<in> set (A @ B)" if "y < length (q_roots q)" "x \<in> set (q_roots q ! y)" for x y
    using own that w [OF that] by (auto simp: owned_def)
  ultimately show ?thesis using own unfolding owned_def by simp
qed

lemma remove_position:
  "distinct (map f xs) \<Longrightarrow> position (\<lambda>w. f w = c) xs = Some k \<Longrightarrow> remove_at k xs = filter (\<lambda>w. f w \<noteq> c) xs"
proof (induction xs arbitrary: k)
  case (Cons x xs)
  show ?case
  proof (cases "f x = c")
    case True
    with Cons.prems have "k = 0" "c \<notin> f ` set xs" by auto
    then have "filter (\<lambda>w. f w \<noteq> c) xs = xs" by (intro filter_True) auto
    with \<open>k = 0\<close> True show ?thesis by (simp add: remove_at_def)
  next
    case False
    with Cons.prems obtain k' where "position (\<lambda>w. f w = c) xs = Some k'" "k = Suc k'" by auto
    with Cons.IH Cons.prems(1) False show ?thesis by (auto simp: remove_at_def)
  qed
qed simp

definition without_waiter :: "nat \<Rightarrow> result_cell \<Rightarrow> queue \<Rightarrow> queue" where
  "without_waiter root cell q =
     q\<lparr>q_roots := (q_roots q)[root := filter (\<lambda>w. w_result w \<noteq> cell) (q_roots q ! root)]\<rparr>"

lemma without_waiter_frame [simp]:
  "q_cells (without_waiter root cell q) = q_cells q" "q_ledger (without_waiter root cell q) = q_ledger q"
  "q_next_cell (without_waiter root cell q) = q_next_cell q"
  "length (q_roots (without_waiter root cell q)) = length (q_roots q)"
  by (simp_all add: without_waiter_def)

lemma cancel_shape:
  assumes inv: "queue_inv q" and c: "cancel now root cell q = Some q'" and r: "root < length (q_roots q)"
  shows "\<exists>b. q' = (let q2 = (without_waiter root cell q)\<lparr>q_cells := (q_cells q)(cell := None)\<rparr> in
      case q_cells q cell of
        Some (Inr i) \<Rightarrow> release_probe i (q2\<lparr>q_ledger := snd (ledger_cancel (q_ledger q) now i)\<rparr>)
      | _ \<Rightarrow> q2)\<lparr>q_barrier := b\<rparr>"
proof -
  have "distinct (map w_result (q_roots q ! root))"
  proof -
    have "distinct (concat (map (map w_result) (q_roots q)))" using inv by (simp add: queue_inv_def map_concat)
    then show ?thesis using r by (auto simp: distinct_concat_iff)
  qed
  then have drop: "(case position (\<lambda>w. w_result w = cell) (q_roots q ! root) of None \<Rightarrow> q
       | Some k \<Rightarrow> q\<lparr>q_roots := (q_roots q)[root := remove_at k (q_roots q ! root)]\<rparr>) = without_waiter root cell q"
    by (auto simp: without_waiter_def remove_position position_None filter_id_conv list_update_same_conv r
        cong: filter_cong split: option.split)
  have "cancel now root cell q = protect now (let q2 = (without_waiter root cell q)\<lparr>q_cells := (q_cells q)(cell := None)\<rparr> in
      case q_cells q cell of
        Some (Inr i) \<Rightarrow> release_probe i (q2\<lparr>q_ledger := snd (ledger_cancel (q_ledger q) now i)\<rparr>)
      | _ \<Rightarrow> q2)"
    using r unfolding cancel_def Let_def drop without_waiter_frame by (simp cong: option.case_cong sum.case_cong)
  with c show ?thesis by (simp only: protect_frame)
qed

lemma owned_cancel:
  assumes inv: "queue_inv q" and own: "owned (A @ (c, r) # B) H q" and can: "cancel now r c q = Some q'"
  shows "owned (A @ B) H q'"
proof -
  from own have r: "r < length (q_roots q)" by (auto simp: owned_def)
  let ?q1 = "without_waiter r c q"
  have gone: "w_result w \<noteq> c" if "x < length (q_roots ?q1)" "w \<in> set (q_roots ?q1 ! x)" for x w
  proof (cases "x = r")
    case False
    with that own have "(w_result w, x) \<in> set (A @ (c, r) # B)" by (auto simp: owned_def without_waiter_def)
    moreover have "distinct (map fst (A @ (c, r) # B))" "(c, r) \<in> set (A @ (c, r) # B)" using own by (simp_all add: owned_def)
    ultimately show ?thesis using False eq_key_imp_eq_value by metis
  next
    case True
    with that r show ?thesis by (simp add: without_waiter_def)
  qed
  have own1: "owned (A @ (c, r) # B) H ?q1"
  proof -
    have "w \<in> set (q_roots q ! x)" if "x < length (q_roots q)" "w \<in> set (q_roots ?q1 ! x)" for x w
      using that r by (cases "x = r") (auto simp: without_waiter_def)
    moreover have "granted_ids X ?q1 = granted_ids X q" for X by (simp add: granted_ids_def granted_id_def)
    ultimately show ?thesis using own unfolding owned_def by simp
  qed
  let ?q2 = "?q1\<lparr>q_cells := (q_cells q)(c := None)\<rparr>"
  from cancel_shape [OF inv can r] obtain b where q': "q' = (let q2 = ?q2 in
      case q_cells q c of
        Some (Inr i) \<Rightarrow> release_probe i (q2\<lparr>q_ledger := snd (ledger_cancel (q_ledger q) now i)\<rparr>)
      | _ \<Rightarrow> q2)\<lparr>q_barrier := b\<rparr>" by blast
  show ?thesis
  proof (cases "q_cells q c")
    case None
    then have "?q2 = ?q1" by (simp add: without_waiter_def fun_upd_idem)
    with None owned_forget [OF own1 _ gone] show ?thesis by (simp add: q')
  next
    case (Some out)
    have own2: "owned (A @ B) (H @ (case out of Inl _ \<Rightarrow> [] | Inr i \<Rightarrow> [(i, False)])) ?q2"
      using owned_take [OF own1 _ gone] Some by simp
    show ?thesis
    proof (cases out)
      case (Inr i)
      have st: "status_is (q_ledger ?q2) i False" using owned_statusD(1) [OF own2] Inr by simp
      have "owned (A @ B) (H @ []) (?q2\<lparr>q_ledger := snd (ledger_cancel (q_ledger q) now i)\<rparr>)"
        using own2 inv_active_distinct [OF inv] cancel_ids(1) [OF st, of now] cancel_ids(2) [OF st] Inr
        by (intro owned_hold_gone [where i = i and b = False]) simp_all
      with Some Inr show ?thesis by (simp add: q')
    qed (use Some own2 in \<open>simp add: q'\<close>)
  qed
qed

end
