(* ===== verification/Admission_System.thy ===== *)
theory Admission_System
  imports Reservation_Ownership
begin

text \<open>
  The admission controller with its clients: every task of the gateway waits with a ticket
  (suspended in \<^verbatim>\<open>acquire_at\<close>), owns a hold, or is gone.  The lock makes each operation atomic, so
  an execution is an interleaving of operations, with arbitrary readings of the clock; dropping
  a future or a hold at any moment (cancellation) is an operation too.  A panic anywhere makes
  \<open>adm_exec\<close> undefined.
\<close>

section \<open>The system\<close>

text \<open>A task suspended in \<^verbatim>\<open>acquire_at\<close>: its ticket and the arguments of the call.\<close>

record pending =
  p_ticket :: ticket
  p_cost :: request_cost
  p_endpoint :: endpoint
  p_now :: duration
  p_deadline :: duration

record system =
  s_queue :: queue
  s_tickets :: "pending list"
  s_holds :: "hold list"

definition system_new :: "queue \<Rightarrow> system" where
  "system_new q = \<lparr>s_queue = q, s_tickets = [], s_holds = []\<rparr>"

text \<open>The operations; the last argument of an operation of a client is its position.\<close>

datatype adm_op =
    OpAcquire duration duration duration nat request_cost endpoint duration
  | OpPoll duration nat
  | OpDropTicket duration nat
  | OpStart duration nat
  | OpHeaders nat header_map duration duration nat
  | OpRejected nat header_map bool duration duration nat
  | OpUsage "observed_usage option" nat
  | OpDropHold duration nat
  | OpRetry duration duration duration nat
  | OpCooldown duration duration
  | OpSnapshot duration

text \<open>The token amounts of a request are \<^verbatim>\<open>u64\<close> values.\<close>

fun op_ok :: "adm_op \<Rightarrow> bool" where
  "op_ok (OpAcquire _ _ _ _ cost _ _) = cost_ok cost"
| "op_ok _ = True"

text \<open>The part of \<^verbatim>\<open>acquire_at\<close> up to its first suspension.\<close>

definition enlist ::
  "nat \<Rightarrow> request_cost \<Rightarrow> endpoint \<Rightarrow> duration \<Rightarrow> duration \<Rightarrow> system \<Rightarrow> (acquire_error + result_cell) \<times> queue
     \<Rightarrow> system" where
  "enlist root cost endpoint now deadline s =
     (\<lambda>(r, q). case r of
        Inl _ \<Rightarrow> s\<lparr>s_queue := q\<rparr>
      | Inr cell \<Rightarrow> s\<lparr>s_queue := q, s_tickets := s_tickets s @
          [\<lparr>p_ticket = \<lparr>t_root = root, t_result = cell, t_armed = True\<rparr>, p_cost = cost,
            p_endpoint = endpoint, p_now = now, p_deadline = deadline\<rparr>]\<rparr>)"

text \<open>The end of \<^verbatim>\<open>acquire_at\<close> when the cell had an outcome.\<close>

definition resolve :: "nat \<Rightarrow> ticket_result option \<Rightarrow> system \<Rightarrow> system" where
  "resolve n out s =
     (let p = s_tickets s ! n; s' = s\<lparr>s_tickets := remove_at n (s_tickets s)\<rparr> in
      case out of
        None \<Rightarrow> s
      | Some (Inl _) \<Rightarrow> s'
      | Some (Inr i) \<Rightarrow> s'\<lparr>s_holds := s_holds s @
          [hold_new i (p_endpoint p) (p_now p) (p_deadline p) (t_root (p_ticket p)) (p_cost p)]\<rparr>)"

fun adm_exec :: "http_libs \<Rightarrow> adm_op \<Rightarrow> system \<Rightarrow> system option" where
  "adm_exec L (OpAcquire clock clock0 clock1 root cost endpoint wait) s =
     map_option (enlist root cost endpoint clock (acquire_deadline clock wait) s)
       (acquire_enqueue clock0 clock1 root cost clock (acquire_deadline clock wait) (s_queue s))"
| "adm_exec L (OpPoll clock n) s =
     (if n < length (s_tickets s) then
        map_option (\<lambda>(out, _, q). resolve n out (s\<lparr>s_queue := q\<rparr>))
          (acquire_poll clock (t_result (p_ticket (s_tickets s ! n))) (s_queue s))
      else Some s)"
| "adm_exec L (OpDropTicket clock n) s =
     (if n < length (s_tickets s) then
        map_option (\<lambda>q. s\<lparr>s_queue := q, s_tickets := remove_at n (s_tickets s)\<rparr>)
          (ticket_drop clock (p_ticket (s_tickets s ! n)) (s_queue s))
      else Some s)"
| "adm_exec L (OpStart clock n) s =
     (if n < length (s_holds s) then
        (case hold_start clock (s_holds s ! n) (s_queue s) of
           (_, h, q) \<Rightarrow> Some (s\<lparr>s_queue := q, s_holds := (s_holds s)[n := h]\<rparr>))
      else Some s)"
| "adm_exec L (OpHeaders status headers observed_at clock n) s =
     (if n < length (s_holds s) then
        (case hold_headers L status headers observed_at clock (s_holds s ! n) (s_queue s) of
           (h, q) \<Rightarrow> Some (s\<lparr>s_queue := q, s_holds := (s_holds s)[n := h]\<rparr>))
      else Some s)"
| "adm_exec L (OpRejected jitter headers recognized system_now clock n) s =
     (if n < length (s_holds s) then
        map_option (\<lambda>q. s\<lparr>s_queue := q\<rparr>)
          (hold_rejected L jitter headers recognized system_now clock (s_holds s ! n) (s_queue s))
      else Some s)"
| "adm_exec L (OpUsage u n) s =
     (if n < length (s_holds s) then Some (s\<lparr>s_holds := (s_holds s)[n := hold_usage u (s_holds s ! n)]\<rparr>)
      else Some s)"
| "adm_exec L (OpDropHold clock n) s =
     (if n < length (s_holds s) then
        Some (s\<lparr>s_queue := hold_drop clock (s_holds s ! n) (s_queue s), s_holds := remove_at n (s_holds s)\<rparr>)
      else Some s)"
| "adm_exec L (OpRetry clock clock0 clock1 n) s =
     (if n < length (s_holds s) then
        (let h = s_holds s ! n in
         map_option (enlist (h_root h) (h_cost h) (h_endpoint h) (h_wait_started h) (h_queue_deadline h)
             (s\<lparr>s_holds := remove_at n (s_holds s)\<rparr>))
           (hold_retry clock clock0 clock1 h (s_queue s)))
      else Some s)"
| "adm_exec L (OpCooldown clock delay) s = Some (s\<lparr>s_queue := cooldown clock delay (s_queue s)\<rparr>)"
| "adm_exec L (OpSnapshot clock) s = Some (s\<lparr>s_queue := snd (admission_snapshot clock (s_queue s))\<rparr>)"

text \<open>The reachable states of a gateway that starts with the queue \<open>q0\<close>.\<close>

inductive reachable :: "http_libs \<Rightarrow> queue \<Rightarrow> system \<Rightarrow> bool" for L q0 where
  initial: "reachable L q0 (system_new q0)"
| step: "reachable L q0 s \<Longrightarrow> op_ok x \<Longrightarrow> adm_exec L x s = Some s' \<Longrightarrow> reachable L q0 s'"

section \<open>The invariant\<close>

definition ticket_keys :: "pending list \<Rightarrow> (result_cell \<times> nat) list" where
  "ticket_keys = map (\<lambda>p. (t_result (p_ticket p), t_root (p_ticket p)))"

definition hold_keys :: "hold list \<Rightarrow> (reservation_id \<times> bool) list" where
  "hold_keys = map (\<lambda>h. (h_id h, h_started h))"

text \<open>A ticket is never lost: its waiter is in the queue or its cell has the outcome.\<close>

definition tracked :: "queue \<Rightarrow> pending \<Rightarrow> bool" where
  "tracked q p =
     (q_cells q (t_result (p_ticket p)) \<noteq> None
      \<or> (t_root (p_ticket p) < length (q_roots q)
         \<and> (\<exists>w\<in>set (q_roots q ! t_root (p_ticket p)).
            w_result w = t_result (p_ticket p) \<and> w_cost w = p_cost p \<and> w_enqueued w = p_now p \<and> w_deadline w = p_deadline p)))"

definition in_time :: "duration \<Rightarrow> duration \<Rightarrow> bool" where
  "in_time now deadline = (deadline \<le> dur_add now (from_secs 120))"

definition pending_ok :: "pending \<Rightarrow> bool" where
  "pending_ok p = (t_armed (p_ticket p) \<and> cost_ok (p_cost p) \<and> in_time (p_now p) (p_deadline p))"

definition hold_ok :: "hold \<Rightarrow> bool" where
  "hold_ok h = (cost_ok (h_cost h) \<and> in_time (h_wait_started h) (h_queue_deadline h))"

text \<open>The probe of a recovery is a live reservation.\<close>

definition probe_owned :: "queue \<Rightarrow> bool" where
  "probe_owned q = (\<forall>i. probe_of q = Some i \<longrightarrow> i \<in> set (active_ids (q_ledger q)))"

definition sys_inv :: "system \<Rightarrow> bool" where
  "sys_inv s =
     (queue_inv (s_queue s) \<and> owned (ticket_keys (s_tickets s)) (hold_keys (s_holds s)) (s_queue s)
      \<and> probe_owned (s_queue s)
      \<and> list_all (\<lambda>p. pending_ok p \<and> tracked (s_queue s) p) (s_tickets s) \<and> list_all hold_ok (s_holds s))"

section \<open>Operations that leave the waiters alone\<close>

definition same_waiters :: "queue \<Rightarrow> queue \<Rightarrow> bool" where
  "same_waiters q q' = (q_cells q' = q_cells q \<and> q_roots q' = q_roots q \<and> q_next_cell q' = q_next_cell q)"

lemma tracked_same: "same_waiters q q' \<Longrightarrow> tracked q' = tracked q"
  by (simp add: same_waiters_def tracked_def fun_eq_iff)

lemma owned_same: "same_waiters q q' \<Longrightarrow> q_ledger q' = q_ledger q \<Longrightarrow> owned C H q' = owned C H q"
  by (simp add: same_waiters_def owned_def granted_ids_def granted_id_def)

lemma same_waiters_simps [simp]:
  "same_waiters q q" "same_waiters q (q'\<lparr>q_ledger := l\<rparr>) = same_waiters q q'"
  "same_waiters q (q'\<lparr>q_recovery := r\<rparr>) = same_waiters q q'"
  "same_waiters q (q'\<lparr>q_cooldown_until := t\<rparr>) = same_waiters q q'"
  "same_waiters q (q'\<lparr>q_generation := g\<rparr>) = same_waiters q q'"
  "same_waiters q (q'\<lparr>q_no_hint_stage := n\<rparr>) = same_waiters q q'"
  "same_waiters q (release_probe i q') = same_waiters q q'" "q_ledger (release_probe i q') = q_ledger q'"
  "same_waiters q (accepted t i g q') = same_waiters q q'" "q_ledger (accepted t i g q') = q_ledger q'"
  "same_waiters q (arm_recovery t d b q') = same_waiters q q'" "q_ledger (arm_recovery t d b q') = q_ledger q'"
  by (simp_all add: same_waiters_def release_probe_def accepted_def arm_recovery_def split: option.split)

lemma throttle_same: "throttle j t g c b q = Some q' \<Longrightarrow> same_waiters q q' \<and> q_ledger q' = q_ledger q"
  by (auto simp: throttle_def Let_def split: option.splits if_splits)

lemma probe_of_release [simp]: "probe_of (release_probe i q) = (if probe_of q = Some i then None else probe_of q)"
  by (auto simp: probe_of_def release_probe_def split: option.split)

lemma probe_of_arm [simp]: "probe_of (arm_recovery t d b q) = None"
  by (simp add: probe_of_def arm_recovery_def)

lemma probe_accepted: "probe_of (accepted t i g q) = Some j \<Longrightarrow> probe_of q = Some j"
  by (auto simp: probe_of_def accepted_def split: if_splits)

lemma probe_throttle: "throttle j t g c b q = Some q' \<Longrightarrow> probe_of q' = Some i \<Longrightarrow> probe_of q = Some i"
  by (auto simp: probe_of_def throttle_def arm_recovery_def Let_def split: option.splits if_splits)

lemma headers_same:
  assumes "hold_headers L st hm ob t h q = (h', q')"
  shows "same_waiters q q' \<and> q_ledger q' = q_ledger q \<and> (\<forall>i. probe_of q' = Some i \<longrightarrow> probe_of q = Some i)"
    "h' = h\<lparr>h_exhaustion_observed := h_exhaustion_observed h \<or> exhausted L hm ob \<noteq> None\<rparr>"
proof -
  have p: "probe_of (q\<lparr>q_cooldown_until := x\<rparr>) = probe_of q" for x by (simp add: probe_of_def)
  show "same_waiters q q' \<and> q_ledger q' = q_ledger q \<and> (\<forall>i. probe_of q' = Some i \<longrightarrow> probe_of q = Some i)"
    using assms by (auto simp: hold_headers_def Let_def p dest!: probe_accepted split: option.splits if_splits prod.splits)
  show "h' = h\<lparr>h_exhaustion_observed := h_exhaustion_observed h \<or> exhausted L hm ob \<noteq> None\<rparr>"
    using assms by (auto simp: hold_headers_def Let_def split: option.splits prod.splits)
qed

lemma rejected_same:
  assumes "hold_rejected L j hm r sn t h q = Some q'"
  shows "same_waiters q q' \<and> q_ledger q' = q_ledger q \<and> (\<forall>i. probe_of q' = Some i \<longrightarrow> probe_of q = Some i)"
proof -
  have "same_waiters q x \<and> q_ledger x = q_ledger q \<and> (\<forall>i. probe_of x = Some i \<longrightarrow> probe_of q = Some i)"
    if "throttle j t g c b q = Some x" for g c b x
    using throttle_same [OF that] probe_throttle [OF that] by blast
  with assms show ?thesis by (auto simp: hold_rejected_def Let_def split: if_splits)
qed

lemma drop_same: "same_waiters q (hold_drop t h q)"
  by (simp add: hold_drop_def Let_def)

lemma start_same: "same_waiters q (snd (snd (hold_start t h q)))"
  by (simp add: hold_start_def split: prod.split)

section \<open>The queue keeps track of the tickets and of the probe\<close>

lemma probe_drive:
  assumes inv: "queue_inv q" and p: "probe_owned q" and d: "drive now q = Some (w, q')"
  shows "probe_owned q'"
proof -
  have p0: "probe_owned (expire now q)" using p by (simp add: probe_owned_def expire_def Let_def probe_of_def)
  have "probe_owned x'" if x: "queue_inv x" "probe_owned x" "drive_round now x = Some (True, x')" for x x'
  proof (rule round_turn [OF x(1,3)])
    fix h :: waiting and i l
    assume a: "admit (q_ledger x) now (w_cost h) = (Admitted i, l)" "q_ledger x' = l"
      "q_recovery x' = map_option (\<lambda>r. if \<not> rec_generation_only r \<or> is_generation (w_cost h)
                                    then r\<lparr>rec_probe := Some i\<rparr> else r) (q_recovery x)"
    from a(3) have "probe_of x' = Some i \<or> probe_of x' = probe_of x" by (cases "q_recovery x") (auto simp: probe_of_def)
    with x(2) show "probe_owned x'" by (auto simp: probe_owned_def a(2) admit_ids(1) [OF a(1)])
  qed
  with inv d p0 have "\<exists>q0. queue_inv q0 \<and> probe_owned q0 \<and> drive_round now q0 = Some (False, q') \<and> queue_inv q'
      \<and> w = (if q_len q' = 0 then None else drive_wake now q')" by (rule drive_rule)
  then obtain q0 where q0: "queue_inv q0" "probe_owned q0" "drive_round now q0 = Some (False, q')" by blast
  from round_stop [OF q0(1,3)] q0(2) show ?thesis by (auto simp: probe_owned_def probe_of_def)
qed

lemma answered_not_waiting:
  assumes "queue_inv q" "q_cells q c = Some out"
  shows "c \<notin> w_result ` set (concat (q_roots q))"
proof
  assume "c \<in> w_result ` set (concat (q_roots q))"
  then obtain w where "w \<in> set (concat (q_roots q))" "c = w_result w" by blast
  with assms show False by (auto simp: queue_inv_def list_all_iff wait_ok_def)
qed

lemma drive_answered:
  assumes inv: "queue_inv q" and d: "drive now q = Some (w, q')" and c: "q_cells q c = Some out"
  shows "q_cells q' c = Some out"
proof -
  note n = answered_not_waiting [OF inv c]
  then have "c \<notin> w_result ` set (concat (q_roots (expire now q)))" by (auto simp: expire_def Let_def)
  with served_rel_drive [OF inv d] have "q_cells q' c = q_cells (expire now q) c" by (simp add: served_rel_def)
  also have "\<dots> = q_cells q c" using n by (auto simp: expire_def Let_def expire_cells)
  finally show ?thesis by (simp add: c)
qed

lemma has_ticket_cell: "has_ticket q w \<Longrightarrow> q_cells q (w_result w) \<noteq> None"
  by (auto simp: has_ticket_def split: option.splits)

lemma drive_waiting:
  assumes inv: "queue_inv q" and d: "drive now q = Some (wake, q')"
    and w: "r < length (q_roots q)" "w \<in> set (q_roots q ! r)"
  shows "q_cells q' (w_result w) \<noteq> None \<or> (now < w_deadline w \<and> ticket_of w \<in> ticket_of ` set (q_roots q' ! r))"
proof (cases "w_deadline w \<le> now")
  case True
  let ?e = "expire now q"
  have e: "queue_inv ?e" by (rule expire_inv [OF inv])
  have wq: "w \<in> set (concat (q_roots q))" using w by auto
  with True have c: "q_cells ?e (w_result w) = Some (Inl Deadline)" by (auto simp: expire_def Let_def expire_cells)
  note answered_not_waiting [OF e c]
  with served_rel_drive [OF inv d] c show ?thesis by (simp add: served_rel_def)
next
  case False
  then have "w \<in> set (q_roots (expire now q) ! r)" using w by (simp add: expire_def Let_def)
  moreover have "r < length (q_roots (expire now q))" using w by (simp add: expire_def Let_def)
  with served_rel_drive [OF inv d] obtain served where
    s: "map ticket_of (q_roots (expire now q) ! r) = map ticket_of served @ map ticket_of (q_roots q' ! r)"
    "\<forall>w\<in>set served. has_ticket q' w" unfolding served_rel_def by blast
  ultimately have "ticket_of w \<in> set (map ticket_of served @ map ticket_of (q_roots q' ! r))" by (metis image_eqI list.set_map)
  then consider w1 where "w1 \<in> set served" "ticket_of w = ticket_of w1" | "ticket_of w \<in> ticket_of ` set (q_roots q' ! r)"
    by auto
  then show ?thesis
  proof cases
    case 1
    then have "w_result w = w_result w1" by (metis ticket_of_simps(1))
    with 1 s(2) has_ticket_cell show ?thesis by auto
  qed (use False in simp)
qed

lemma tracked_drive:
  assumes inv: "queue_inv q" and d: "drive now q = Some (wake, q')" and t: "tracked q p"
  shows "tracked q' p" "p_deadline p \<le> now \<Longrightarrow> q_cells q' (t_result (p_ticket p)) \<noteq> None"
proof -
  let ?c = "t_result (p_ticket p)" and ?r = "t_root (p_ticket p)"
  have len: "length (q_roots q') = length (q_roots q)"
    using served_rel_drive [OF inv d] by (simp add: served_rel_def expire_def Let_def)
  have "q_cells q' ?c \<noteq> None \<or> (now < p_deadline p \<and> tracked q' p)"
  proof (cases "q_cells q ?c")
    case None
    with t obtain w where r: "?r < length (q_roots q)" "w \<in> set (q_roots q ! ?r)" and
      w: "w_result w = ?c" "w_cost w = p_cost p" "w_enqueued w = p_now p" "w_deadline w = p_deadline p"
      by (auto simp: tracked_def)
    from drive_waiting [OF inv d r] consider "q_cells q' ?c \<noteq> None"
      | w1 where "now < p_deadline p" "w1 \<in> set (q_roots q' ! ?r)" "ticket_of w = ticket_of w1" using w by auto
    then show ?thesis
    proof cases
      case 2
      then have "w_result w = w_result w1" "w_cost w = w_cost w1" "w_enqueued w = w_enqueued w1" "w_deadline w = w_deadline w1"
        by (metis ticket_of_simps)+
      with 2 w r(1) len show ?thesis by (auto simp: tracked_def)
    qed simp
  qed (simp add: drive_answered [OF inv d])
  then show "tracked q' p" "p_deadline p \<le> now \<Longrightarrow> q_cells q' ?c \<noteq> None" by (auto simp: tracked_def)
qed

lemma tracked_enqueue:
  assumes "t_result (p_ticket p) < q_next_cell q" "tracked q p"
  shows "tracked (snd (enqueue root cost t d q)) p"
  using assms by (auto simp: enqueue_def tracked_def nth_list_update split: option.splits if_splits)

lemma tracked_new:
  assumes "enqueue root cost t d q = (Inr c, q')"
  shows "tracked q' \<lparr>p_ticket = \<lparr>t_root = root, t_result = c, t_armed = True\<rparr>, p_cost = cost,
            p_endpoint = ep, p_now = t, p_deadline = d\<rparr>"
  using assms by (auto simp: enqueue_def tracked_def split: option.splits if_splits)

lemma tracked_take: "t_result (p_ticket p) \<noteq> c \<Longrightarrow> tracked q p \<Longrightarrow> tracked (q\<lparr>q_cells := (q_cells q)(c := None)\<rparr>) p"
  by (auto simp: tracked_def)

lemma tracked_cancel:
  assumes inv: "queue_inv q" and c: "cancel now root cell q = Some q'" and r: "root < length (q_roots q)"
    and p: "t_result (p_ticket p) \<noteq> cell" "tracked q p"
  shows "tracked q' p"
proof -
  let ?q2 = "(without_waiter root cell q)\<lparr>q_cells := (q_cells q)(cell := None)\<rparr>"
  have t: "tracked ?q2 p"
    using p r by (auto simp: tracked_def without_waiter_def nth_list_update)
  have "tracked (case q_cells q cell of
        Some (Inr i) \<Rightarrow> release_probe i (?q2\<lparr>q_ledger := snd (ledger_cancel (q_ledger q) now i)\<rparr>)
      | _ \<Rightarrow> ?q2) p"
  proof -
    have "same_waiters x (release_probe i (x\<lparr>q_ledger := l\<rparr>))" for x i l by simp
    from tracked_same [OF this] t show ?thesis by (simp split: option.split sum.split)
  qed
  moreover have "tracked (x\<lparr>q_barrier := b\<rparr>) p = tracked x p" for x b by (simp add: tracked_def)
  ultimately show ?thesis using cancel_shape [OF inv c r] by (auto simp: Let_def)
qed

section \<open>Every operation keeps the invariant\<close>

lemmas keys_defs = ticket_keys_def hold_keys_def

lemma keys_simps [simp]:
  "ticket_keys (A @ B) = ticket_keys A @ ticket_keys B" "hold_keys (X @ Y) = hold_keys X @ hold_keys Y"
  "ticket_keys (p # A) = (t_result (p_ticket p), t_root (p_ticket p)) # ticket_keys A"
  "hold_keys (h # X) = (h_id h, h_started h) # hold_keys X" "ticket_keys [] = []" "hold_keys [] = []"
  by (simp_all add: keys_defs)

lemma in_ticket_keys: "p \<in> set T \<Longrightarrow> (t_result (p_ticket p), t_root (p_ticket p)) \<in> set (ticket_keys T)"
  by (auto simp: ticket_keys_def)

lemma owned_cell_bound: "owned C H q \<Longrightarrow> (c, r) \<in> set C \<Longrightarrow> c < q_next_cell q \<and> r < length (q_roots q)"
  by (auto simp: owned_def)

lemma sys_inv_queueD: "sys_inv s \<Longrightarrow> queue_inv (s_queue s)"
  by (simp add: sys_inv_def)

lemma sys_inv_frame:
  assumes s: "sys_inv s" and q: "queue_inv q" "same_waiters (s_queue s) q"
    "q_ledger q = q_ledger (s_queue s)" "\<And>i. probe_of q = Some i \<Longrightarrow> probe_of (s_queue s) = Some i"
    and h: "hold_keys H = hold_keys (s_holds s)" "list_all hold_ok H"
  shows "sys_inv (s\<lparr>s_queue := q, s_holds := H\<rparr>)"
  using s q h owned_same [OF q(2,3)] by (simp add: sys_inv_def tracked_same [OF q(2)] probe_owned_def)

lemma probe_owned_frame:
  "probe_owned q \<Longrightarrow> active_ids (q_ledger q') = active_ids (q_ledger q) \<Longrightarrow> q_recovery q' = q_recovery q \<Longrightarrow> probe_owned q'"
  by (simp add: probe_owned_def probe_of_def)

lemma release_probe_owned:
  assumes "probe_owned q" "mset (active_ids (q_ledger q)) = add_mset i (mset (active_ids l))"
  shows "probe_owned (release_probe i (q\<lparr>q_ledger := l\<rparr>))"
proof -
  have "probe_of (q\<lparr>q_ledger := l\<rparr>) = probe_of q" by (simp add: probe_of_def)
  moreover have "set (active_ids (q_ledger q)) = insert i (set (active_ids l))"
    using arg_cong [OF assms(2), of set_mset] by simp
  ultimately show ?thesis using assms(1) by (auto simp: probe_owned_def)
qed

lemma drop_probe_owned:
  assumes p: "probe_owned q" and st: "status_is (q_ledger q) (h_id h) (h_started h)"
  shows "probe_owned (hold_drop t h q)"
proof (cases "h_started h")
  case True
  then show ?thesis using release_probe_owned [OF p finish_ids(1)] st by (simp add: hold_drop_def)
next
  case False
  then show ?thesis using release_probe_owned [OF p cancel_ids(1)] st by (simp add: hold_drop_def)
qed

lemma sys_inv_driven:
  assumes s: "sys_inv s" and d: "drive t (s_queue s) = Some (w, q)"
  shows "sys_inv (s\<lparr>s_queue := q\<rparr>)"
proof -
  from s have inv: "queue_inv (s_queue s)" by (rule sys_inv_queueD)
  have "queue_inv q" using drive_total [OF inv, of t] d by (metis option.inject prod.inject)
  with s owned_drive [OF inv _ d] probe_drive [OF inv _ d] tracked_drive(1) [OF inv d]
  show ?thesis by (auto simp: sys_inv_def list_all_iff)
qed

lemma enqueue_Inl: "enqueue root cost t d q = (Inl e, q') \<Longrightarrow> q' = q"
  by (auto simp: enqueue_def split: if_splits option.splits)

lemma enqueue_frame: "q_ledger (snd (enqueue root cost t d q)) = q_ledger q" "q_recovery (snd (enqueue root cost t d q)) = q_recovery q"
  by (simp_all add: enqueue_def split: option.split)

lemma sys_inv_enlist:
  assumes s: "sys_inv s" and c: "cost_ok cost" "in_time now dl" and e: "enqueue root cost now dl (s_queue s) = (r, q)"
  shows "sys_inv (enlist root cost ep now dl s (r, q))"
proof (cases r)
  case (Inl err)
  with e have "q = s_queue s" using enqueue_Inl by blast
  with Inl s show ?thesis by (simp add: enlist_def)
next
  case (Inr cell)
  let ?p = "\<lparr>p_ticket = \<lparr>t_root = root, t_result = cell, t_armed = True\<rparr>, p_cost = cost,
            p_endpoint = ep, p_now = now, p_deadline = dl\<rparr>"
  from s have inv: "queue_inv (s_queue s)" and own: "owned (ticket_keys (s_tickets s)) (hold_keys (s_holds s)) (s_queue s)"
    by (simp_all add: sys_inv_def)
  have q: "q = snd (enqueue root cost now dl (s_queue s))" using e by simp
  have "queue_inv q" unfolding q by (rule enqueue_inv [OF inv c(1)])
  moreover have "owned (ticket_keys (s_tickets s @ [?p])) (hold_keys (s_holds s)) q"
    using owned_enqueue [OF own] e Inr by simp
  moreover have "probe_owned q" using s by (auto simp: q enqueue_frame sys_inv_def intro: probe_owned_frame)
  moreover have "tracked q p" if "p \<in> set (s_tickets s)" for p
    using that s owned_cell_bound [OF own in_ticket_keys [OF that]]
    by (auto simp: q sys_inv_def list_all_iff intro!: tracked_enqueue)
  moreover have "tracked q ?p" using e Inr by (auto intro: tracked_new)
  ultimately show ?thesis using s c Inr
    by (auto simp: enlist_def sys_inv_def list_all_iff pending_ok_def)
qed

lemma sys_inv_acquired:
  assumes s: "sys_inv s" and c: "cost_ok cost" "in_time now dl"
  shows "\<exists>s'. map_option (enlist root cost ep now dl s) (acquire_enqueue c0 c1 root cost now dl (s_queue s)) = Some s' \<and> sys_inv s'"
proof (cases "dl \<le> c0")
  case False
  obtain w q where d: "drive c1 (s_queue s) = Some (w, q)" using drive_total [OF sys_inv_queueD [OF s]] by metis
  obtain r q' where e: "enqueue root cost now dl q = (r, q')" by (cases "enqueue root cost now dl q")
  have "sys_inv (enlist root cost ep now dl (s\<lparr>s_queue := q\<rparr>) (r, q'))"
    using sys_inv_enlist [OF sys_inv_driven [OF s d] c] e by simp
  moreover have "enlist root cost ep now dl (s\<lparr>s_queue := q\<rparr>) (r, q') = enlist root cost ep now dl s (r, q')"
    by (simp add: enlist_def split: sum.split)
  ultimately show ?thesis using False d e by (simp add: acquire_enqueue_def)
qed (use s in \<open>simp add: acquire_enqueue_def enlist_def\<close>)

lemma distinct_cells:
  assumes "owned (ticket_keys (A @ p # B)) H q" "p' \<in> set (A @ B)"
  shows "t_result (p_ticket p') \<noteq> t_result (p_ticket p)"
proof -
  have "distinct (map fst (ticket_keys (A @ p # B)))" using assms(1) unfolding owned_def by blast
  then have "t_result (p_ticket p) \<notin> set (map fst (ticket_keys (A @ B)))" by simp
  moreover have "t_result (p_ticket p') \<in> set (map fst (ticket_keys (A @ B)))"
    unfolding ticket_keys_def list.map_comp using assms(2) by auto
  ultimately show ?thesis by metis
qed

lemma sys_inv_resolved:
  assumes s: "sys_inv s" and n: "n < length (s_tickets s)"
    and c: "c = t_result (p_ticket (s_tickets s ! n))"
  shows "sys_inv (resolve n (q_cells (s_queue s) c) (s\<lparr>s_queue := (s_queue s)\<lparr>q_cells := (q_cells (s_queue s))(c := None)\<rparr>\<rparr>))"
proof (cases "q_cells (s_queue s) c")
  case None
  then have "(q_cells (s_queue s))(c := None) = q_cells (s_queue s)" by (simp add: fun_upd_idem)
  with None s show ?thesis by (simp add: resolve_def Let_def)
next
  case (Some out)
  let ?q = "s_queue s" and ?p = "s_tickets s ! n"
  let ?q' = "?q\<lparr>q_cells := (q_cells ?q)(c := None)\<rparr>"
  obtain A B where T: "s_tickets s = A @ ?p # B" "set (s_tickets s) = insert ?p (set (A @ B))"
    "remove_at n (s_tickets s) = A @ B" using nth_decomp [OF n] .
  from s have inv: "queue_inv ?q" and own: "owned (ticket_keys (s_tickets s)) (hold_keys (s_holds s)) ?q"
    by (simp_all add: sys_inv_def)
  have own1: "owned (ticket_keys A @ (c, t_root (p_ticket ?p)) # ticket_keys B) (hold_keys (s_holds s)) ?q"
    using own unfolding c by (subst (asm) T(1)) simp
  have "w_result w \<noteq> c" if "x < length (q_roots ?q)" "w \<in> set (q_roots ?q ! x)" for x w
  proof -
    have "w \<in> set (concat (q_roots ?q))" using that by auto
    with answered_not_waiting [OF inv Some] show ?thesis by blast
  qed
  from owned_take [OF own1 Some this]
  have own2: "owned (ticket_keys (A @ B)) (hold_keys (s_holds s) @ (case out of Inl _ \<Rightarrow> [] | Inr i \<Rightarrow> [(i, False)])) ?q'"
    by simp
  have own3: "owned (ticket_keys (A @ ?p # B)) (hold_keys (s_holds s)) ?q" using own1 c by simp
  have tr: "tracked ?q' p" if "p \<in> set (A @ B)" for p
    using that s T(2) distinct_cells [OF own3 that] c
    by (intro tracked_take) (auto simp: sys_inv_def list_all_iff)
  have pok: "list_all pending_ok (A @ B)" "pending_ok ?p" using s T(2) by (auto simp: sys_inv_def list_all_iff)
  have "probe_owned ?q'" "queue_inv ?q'" using s queue_inv_take [OF inv] by (auto simp: sys_inv_def intro: probe_owned_frame)
  with own2 tr pok s Some T(3) show ?thesis
    by (cases out) (auto simp: resolve_def Let_def sys_inv_def list_all_iff hold_ok_def pending_ok_def hold_new_def)
qed

lemma sys_inv_ticket_dropped:
  assumes s: "sys_inv s" and n: "n < length (s_tickets s)"
  shows "\<exists>q. ticket_drop t (p_ticket (s_tickets s ! n)) (s_queue s) = Some q
    \<and> sys_inv (s\<lparr>s_queue := q, s_tickets := remove_at n (s_tickets s)\<rparr>)"
proof -
  let ?q = "s_queue s" and ?p = "s_tickets s ! n"
  let ?c = "t_result (p_ticket ?p)" and ?r = "t_root (p_ticket ?p)"
  obtain A B where T: "s_tickets s = A @ ?p # B" "set (s_tickets s) = insert ?p (set (A @ B))"
    "remove_at n (s_tickets s) = A @ B" using nth_decomp [OF n] .
  from s have inv: "queue_inv ?q" and own0: "owned (ticket_keys (s_tickets s)) (hold_keys (s_holds s)) ?q"
    by (simp_all add: sys_inv_def)
  have own: "owned (ticket_keys (A @ ?p # B)) (hold_keys (s_holds s)) ?q" using own0 T(1) by metis
  have r: "?r < length (q_roots ?q)" using owned_cell_bound [OF own, of ?c ?r] by simp
  obtain q where can: "cancel t ?r ?c ?q = Some q" and inv': "queue_inv q" using cancel_queue_inv [OF inv r] by blast
  have own': "owned (ticket_keys (A @ B)) (hold_keys (s_holds s)) q"
    using owned_cancel [OF inv _ can] own by simp
  have "probe_owned q"
  proof -
    let ?q2 = "(without_waiter ?r ?c ?q)\<lparr>q_cells := (q_cells ?q)(?c := None)\<rparr>"
    have p2: "probe_owned ?q2" using s by (auto simp: sys_inv_def without_waiter_def intro: probe_owned_frame)
    have "probe_owned (release_probe i (?q2\<lparr>q_ledger := snd (ledger_cancel (q_ledger ?q) t i)\<rparr>))"
      if "q_cells ?q ?c = Some (Inr i)" for i
    proof -
      have "i \<in> set (granted_ids (ticket_keys (A @ ?p # B)) ?q)" using that by (simp add: granted_id_def)
      from cancel_ids(1) [OF owned_statusD(2) [OF own this]] show ?thesis
        by (intro release_probe_owned [OF p2]) simp
    qed
    with p2 cancel_shape [OF inv can r] show ?thesis
      by (auto simp: Let_def probe_owned_def probe_of_def split: option.splits sum.splits)
  qed
  moreover have "tracked q p" if "p \<in> set (A @ B)" for p
    using that s T(2) distinct_cells [OF own that] by (intro tracked_cancel [OF inv can r]) (auto simp: sys_inv_def list_all_iff)
  moreover have "t_armed (p_ticket ?p)" using s n by (auto simp: sys_inv_def list_all_iff pending_ok_def)
  ultimately show ?thesis using s can inv' own' T(2,3)
    by (auto simp: ticket_drop_def sys_inv_def list_all_iff)
qed

lemma sys_inv_started:
  assumes s: "sys_inv s" and n: "n < length (s_holds s)" and st: "hold_start t (s_holds s ! n) (s_queue s) = (b, h, q)"
  shows "sys_inv (s\<lparr>s_queue := q, s_holds := (s_holds s)[n := h]\<rparr>)"
proof -
  let ?q = "s_queue s" and ?h = "s_holds s ! n"
  obtain X Y where T: "s_holds s = X @ ?h # Y" "set (s_holds s) = insert ?h (set (X @ Y))"
    "(s_holds s)[n := h] = X @ h # Y" using nth_decomp [OF n] by metis
  from s have inv: "queue_inv ?q" and own0: "owned (ticket_keys (s_tickets s)) (hold_keys (s_holds s)) ?q"
    by (simp_all add: sys_inv_def)
  have own: "owned (ticket_keys (s_tickets s)) (hold_keys X @ (h_id ?h, h_started ?h) # hold_keys Y) ?q"
    using own0 by (subst (asm) T(1)) simp
  show ?thesis
  proof (cases "h_started ?h \<or> \<not> can_start ?q t (h_id ?h) (h_cost ?h)")
    case True
    with st have "h = ?h" "q = ?q" by (auto simp: hold_start_def split: if_splits)
    with s show ?thesis by simp
  next
    case False
    then have own1: "owned (ticket_keys (s_tickets s)) (hold_keys X @ (h_id ?h, False) # hold_keys Y) ?q"
      using own by simp
    have "status_is (q_ledger ?q) (h_id ?h) False" using owned_statusD(1) [OF own1] by simp
    from start_granted [OF this, of t] False st
    have h: "h = ?h\<lparr>h_started := True, h_generation := q_generation ?q\<rparr>"
      and q: "q = ?q\<lparr>q_ledger := snd (start (q_ledger ?q) t (h_id ?h))\<rparr>"
      by (auto simp: hold_start_def split: prod.splits)
    have "owned (ticket_keys (s_tickets s)) (hold_keys (X @ h # Y)) q"
      using owned_started [OF inv own1, of t] by (simp add: h q)
    moreover have "queue_inv q" using hold_start_inv [OF inv, of t ?h] st by simp
    moreover have "probe_owned q" using s by (auto simp: q sys_inv_def start_ids(1) intro: probe_owned_frame)
    moreover have "tracked q = tracked ?q" by (rule tracked_same) (simp add: q)
    ultimately show ?thesis using s T(2) unfolding T(3) by (auto simp: sys_inv_def list_all_iff hold_ok_def h)
  qed
qed

lemma sys_inv_dropped:
  assumes s: "sys_inv s" and n: "n < length (s_holds s)"
  shows "sys_inv (s\<lparr>s_queue := hold_drop t (s_holds s ! n) (s_queue s), s_holds := remove_at n (s_holds s)\<rparr>)"
proof -
  let ?q = "s_queue s" and ?h = "s_holds s ! n"
  obtain X Y where T: "s_holds s = X @ ?h # Y" "set (s_holds s) = insert ?h (set (X @ Y))"
    "remove_at n (s_holds s) = X @ Y" using nth_decomp [OF n] by metis
  from s have inv: "queue_inv ?q" and own0: "owned (ticket_keys (s_tickets s)) (hold_keys (s_holds s)) ?q"
    by (simp_all add: sys_inv_def)
  have own: "owned (ticket_keys (s_tickets s)) (hold_keys X @ (h_id ?h, h_started ?h) # hold_keys Y) ?q"
    using own0 by (subst (asm) T(1)) simp
  have "status_is (q_ledger ?q) (h_id ?h) (h_started ?h)" using owned_statusD(1) [OF own] by simp
  with s have "probe_owned (hold_drop t ?h ?q)" by (intro drop_probe_owned) (simp_all add: sys_inv_def)
  moreover have "owned (ticket_keys (s_tickets s)) (hold_keys (X @ Y)) (hold_drop t ?h ?q)"
    using owned_dropped [OF inv own] by simp
  moreover have "tracked (hold_drop t ?h ?q) = tracked ?q" by (rule tracked_same [OF drop_same])
  ultimately show ?thesis using s T(2) hold_drop_inv [OF inv] unfolding T(3) by (auto simp: sys_inv_def list_all_iff)
qed

lemma hold_okD: "sys_inv s \<Longrightarrow> n < length (s_holds s) \<Longrightarrow> hold_ok (s_holds s ! n)"
  by (simp add: sys_inv_def list_all_iff)

lemma hold_update_keys:
  assumes "n < length hs" "h_id h = h_id (hs ! n)" "h_started h = h_started (hs ! n)"
  shows "hold_keys (hs[n := h]) = hold_keys hs"
  using assms by (simp add: hold_keys_def map_update list_update_same_conv)

lemma hold_update_ok: "list_all hold_ok hs \<Longrightarrow> hold_ok h \<Longrightarrow> list_all hold_ok (hs[n := h])"
  by (auto simp: list_all_iff dest!: set_update_subset_insert [THEN subsetD])

lemma in_time_acquire: "in_time now (acquire_deadline now wait)"
  by (auto simp: in_time_def acquire_deadline_def saturating_add_def min_def)

lemma exec_inv:
  assumes s: "sys_inv s" and ok: "op_ok x"
  shows "\<exists>s'. adm_exec L x s = Some s' \<and> sys_inv s'"
proof (cases x)
  case (OpAcquire t c0 c1 root cost ep wait)
  with sys_inv_acquired [OF s _ in_time_acquire] ok show ?thesis by simp
next
  case (OpPoll t n)
  show ?thesis
  proof (cases "n < length (s_tickets s)")
    case True
    let ?c = "t_result (p_ticket (s_tickets s ! n))"
    obtain w q where d: "drive t (s_queue s) = Some (w, q)" using drive_total [OF sys_inv_queueD [OF s]] by metis
    from sys_inv_resolved [OF sys_inv_driven [OF s d], of n ?c] True
    have "sys_inv (resolve n (q_cells q ?c) (s\<lparr>s_queue := q\<lparr>q_cells := (q_cells q)(?c := None)\<rparr>\<rparr>))" by simp
    with True OpPoll d show ?thesis by (simp add: acquire_poll_def)
  qed (use OpPoll s in simp)
next
  case (OpDropTicket t n)
  with s sys_inv_ticket_dropped [OF s, of n t] show ?thesis by (cases "n < length (s_tickets s)") auto
next
  case (OpStart t n)
  with s sys_inv_started [OF s, of n t] show ?thesis by (auto split: prod.split)
next
  case (OpHeaders st hm ob t n)
  show ?thesis
  proof (cases "n < length (s_holds s)")
    case True
    obtain h q where e: "hold_headers L st hm ob t (s_holds s ! n) (s_queue s) = (h, q)" by (metis surj_pair)
    note hs = headers_same [OF e]
    have "queue_inv q" using hold_headers_inv [OF sys_inv_queueD [OF s], of L st hm ob t "s_holds s ! n"] e by simp
    moreover have "hold_keys ((s_holds s)[n := h]) = hold_keys (s_holds s)" using True by (intro hold_update_keys) (simp_all add: hs(2))
    moreover have "list_all hold_ok ((s_holds s)[n := h])"
      using s hold_okD [OF s True] by (intro hold_update_ok) (simp_all add: sys_inv_def hs(2) hold_ok_def)
    ultimately have "sys_inv (s\<lparr>s_queue := q, s_holds := (s_holds s)[n := h]\<rparr>)"
      using hs(1) by (intro sys_inv_frame [OF s]) simp_all
    with True e OpHeaders show ?thesis by simp
  qed (use OpHeaders s in simp)
next
  case (OpRejected j hm r sn t n)
  show ?thesis
  proof (cases "n < length (s_holds s)")
    case True
    obtain q where e: "hold_rejected L j hm r sn t (s_holds s ! n) (s_queue s) = Some q" "queue_inv q"
      using hold_rejected_inv [OF sys_inv_queueD [OF s]] by blast
    have "sys_inv (s\<lparr>s_queue := q, s_holds := s_holds s\<rparr>)"
      using rejected_same [OF e(1)] e(2) s by (intro sys_inv_frame [OF s]) (simp_all add: sys_inv_def)
    with True e OpRejected show ?thesis by simp
  qed (use OpRejected s in simp)
next
  case (OpUsage u n)
  show ?thesis
  proof (cases "n < length (s_holds s)")
    case True
    let ?h = "hold_usage u (s_holds s ! n)"
    have "hold_keys ((s_holds s)[n := ?h]) = hold_keys (s_holds s)" using True by (intro hold_update_keys) (simp_all add: hold_usage_def)
    moreover have "list_all hold_ok ((s_holds s)[n := ?h])"
      using s hold_okD [OF s True] by (intro hold_update_ok) (simp_all add: sys_inv_def hold_usage_def hold_ok_def)
    ultimately have "sys_inv (s\<lparr>s_queue := s_queue s, s_holds := (s_holds s)[n := ?h]\<rparr>)"
      by (intro sys_inv_frame [OF s]) (simp_all add: sys_inv_queueD [OF s])
    with True OpUsage show ?thesis by simp
  qed (use OpUsage s in simp)
next
  case (OpDropHold t n)
  with s sys_inv_dropped [OF s, of n t] show ?thesis by simp
next
  case (OpRetry t c0 c1 n)
  show ?thesis
  proof (cases "n < length (s_holds s)")
    case True
    let ?h = "s_holds s ! n"
    let ?s = "s\<lparr>s_queue := hold_drop t ?h (s_queue s), s_holds := remove_at n (s_holds s)\<rparr>"
    have same: "enlist r c e a d ?s z = enlist r c e a d (s\<lparr>s_holds := remove_at n (s_holds s)\<rparr>) z" for r c e a d z
      by (simp add: enlist_def split: prod.split sum.split)
    from sys_inv_acquired [OF sys_inv_dropped [OF s True, of t]] hold_okD [OF s True]
    have "\<exists>s'. map_option (enlist (h_root ?h) (h_cost ?h) (h_endpoint ?h) (h_wait_started ?h) (h_queue_deadline ?h) ?s)
        (acquire_enqueue c0 c1 (h_root ?h) (h_cost ?h) (h_wait_started ?h) (h_queue_deadline ?h) (s_queue ?s)) = Some s' \<and> sys_inv s'"
      by (simp add: hold_ok_def)
    with True OpRetry show ?thesis by (simp add: hold_retry_def Let_def same [abs_def])
  qed (use OpRetry s in simp)
next
  case (OpCooldown t d)
  have "sys_inv (s\<lparr>s_queue := cooldown t d (s_queue s), s_holds := s_holds s\<rparr>)"
    using s cooldown_inv [OF sys_inv_queueD [OF s]]
    by (intro sys_inv_frame [OF s]) (simp_all add: cooldown_def probe_of_def sys_inv_def)
  with OpCooldown show ?thesis by simp
next
  case (OpSnapshot t)
  let ?q = "s_queue s"
  have q: "snd (admission_snapshot t ?q) = ?q\<lparr>q_ledger := advance (q_ledger ?q) t\<rparr>"
    by (simp add: admission_snapshot_def ledger_snapshot_eq Let_def)
  have "tracked (?q\<lparr>q_ledger := advance (q_ledger ?q) t\<rparr>) = tracked ?q" by (rule tracked_same) simp
  then have "sys_inv (s\<lparr>s_queue := ?q\<lparr>q_ledger := advance (q_ledger ?q) t\<rparr>\<rparr>)"
    using s admission_snapshot_inv [OF sys_inv_queueD [OF s], of t] unfolding q
    by (auto simp: sys_inv_def intro: probe_owned_frame)
  with OpSnapshot q show ?thesis by simp
qed

text \<open>The admission controller with its clients is a guarded system.\<close>

interpretation admission_sys: guarded_system "\<lambda>s x. the (adm_exec L x s)" op_ok sys_inv for L
  by unfold_locales (metis exec_inv option.sel)

lemma sys_inv_new: "queue_inv q \<Longrightarrow> concat (q_roots q) = [] \<Longrightarrow> active_ids (q_ledger q) = [] \<Longrightarrow> q_recovery q = None \<Longrightarrow>
    sys_inv (system_new q)"
  by (auto simp: sys_inv_def system_new_def owned_def probe_owned_def probe_of_def)

lemma reachable_inv:
  assumes "reachable L q0 s" "sys_inv (system_new q0)"
  shows "sys_inv s"
  using assms
proof (induction rule: reachable.induct)
  case (step s x s')
  with exec_inv [of s x L] show ?case by auto
qed

end
