(* ===== verification/Admission_Contract.thy ===== *)
theory Admission_Contract
  imports Admission_System
begin

text \<open>
  What the admission controller promises to the tasks of the gateway, for every interleaving of
  their operations from the start of a gateway with a validated configuration: reservations have
  exactly one owner, no operation panics, every waiter is answered by its deadline, recovery
  never waits for a probe that nobody owns, and a request only starts through the gate.
\<close>

section \<open>What no operation changes\<close>

definition fixed :: "queue \<Rightarrow> nat \<times> nat" where
  "fixed q = (ledger_concurrency (q_ledger q), length (q_roots q))"

lemma ledger_op_concurrency [simp]:
  "ledger_concurrency (snd (admit l t c)) = ledger_concurrency l"
  "ledger_concurrency (snd (start l t i)) = ledger_concurrency l"
  "ledger_concurrency (snd (ledger_cancel l t i)) = ledger_concurrency l"
  "ledger_concurrency (snd (finish l t i u)) = ledger_concurrency l"
proof -
  show "ledger_concurrency (snd (admit l t c)) = ledger_concurrency l"
  proof (cases "admit l t c")
    case (Pair d l')
    then show ?thesis by (cases d) (auto elim!: admit_Admitted dest: admit_not_Admitted)
  qed
qed (simp_all add: start_def ledger_cancel_def finish_def Let_def split: option.splits)

lemma fixed_simps [simp]:
  "fixed (release_probe i q) = fixed q" "fixed (accepted t i g q) = fixed q" "fixed (arm_recovery t d b q) = fixed q"
  "fixed (q\<lparr>q_cooldown_until := t\<rparr>) = fixed q" "fixed (q\<lparr>q_cells := c\<rparr>) = fixed q" "fixed (q\<lparr>q_barrier := br\<rparr>) = fixed q"
  "fixed (snd (enqueue root cost t d q)) = fixed q" "fixed (expire t q) = fixed q" "fixed (hold_drop t h q) = fixed q"
  "fixed (without_waiter root cell q) = fixed q" "fixed (snd (snd (hold_start t h q))) = fixed q"
  by (simp_all add: fixed_def release_probe_def accepted_def arm_recovery_def enqueue_def expire_def hold_drop_def
      without_waiter_def hold_start_def Let_def split: option.split prod.split) (metis ledger_op_concurrency(2) snd_conv)

lemma fixed_ledger: "ledger_concurrency l = ledger_concurrency (q_ledger q) \<Longrightarrow> fixed (q\<lparr>q_ledger := l\<rparr>) = fixed q"
  by (simp add: fixed_def)

lemma fixed_same: "same_waiters q q' \<Longrightarrow> q_ledger q' = q_ledger q \<Longrightarrow> fixed q' = fixed q"
  by (simp add: fixed_def same_waiters_def)

lemma fixed_drive:
  assumes inv: "queue_inv q" and d: "drive now q = Some (w, q')"
  shows "fixed q' = fixed q"
proof -
  have e: "fixed (expire now q) = fixed q" by simp
  have "fixed x' = fixed q" if x: "queue_inv x" "fixed x = fixed q" "drive_round now x = Some (True, x')" for x x'
  proof (rule round_turn [OF x(1,3)])
    fix h :: waiting and i l root fits rest
    assume a: "admit (q_ledger x) now (w_cost h) = (Admitted i, l)" "q_ledger x' = l"
      "q_roots x' = (count_bypasses fits root (q_roots x))[root := rest]"
    from a(1) have "ledger_concurrency l = ledger_concurrency (q_ledger x)" by (metis ledger_op_concurrency(1) snd_conv)
    with a(2,3) x(2) show "fixed x' = fixed q" by (simp add: fixed_def)
  qed
  with inv d e have "\<exists>q0. queue_inv q0 \<and> fixed q0 = fixed q \<and> drive_round now q0 = Some (False, q') \<and> queue_inv q'
      \<and> w = (if q_len q' = 0 then None else drive_wake now q')" by (rule drive_rule)
  then obtain q0 where q0: "queue_inv q0" "fixed q0 = fixed q" "drive_round now q0 = Some (False, q')" by blast
  from round_stop [OF q0(1,3)] q0(2) show ?thesis by (auto simp: fixed_def)
qed

lemma fixed_cancel:
  assumes "queue_inv q" "cancel t r c q = Some q'" "r < length (q_roots q)"
  shows "fixed q' = fixed q"
  using cancel_shape [OF assms] by (auto simp: Let_def fixed_ledger split: option.split sum.split)

lemma fixed_acquire:
  assumes "queue_inv q" "acquire_enqueue c0 c1 root cost now dl q = Some (r, q')"
  shows "fixed q' = fixed q"
proof (cases "dl \<le> c0")
  case False
  obtain w q1 where d: "drive c1 q = Some (w, q1)" using drive_total [OF assms(1)] by metis
  with False assms(2) have "q' = snd (enqueue root cost now dl q1)" by (simp add: acquire_enqueue_def)
  with fixed_drive [OF assms(1) d] show ?thesis by simp
qed (use assms in \<open>simp add: acquire_enqueue_def\<close>)

lemma s_queue_enlist [simp]: "s_queue (enlist root cost ep now dl s (r, q)) = q"
  by (simp add: enlist_def split: sum.split)

lemma s_queue_resolve [simp]: "s_queue (resolve n out s) = s_queue s"
  by (simp add: resolve_def Let_def split: option.split sum.split)

lemma exec_fixed:
  assumes s: "sys_inv s" and e: "adm_exec L x s = Some s'"
  shows "fixed (s_queue s') = fixed (s_queue s)"
proof (cases x)
  case (OpAcquire t c0 c1 root cost ep wait)
  with e obtain r q where q: "acquire_enqueue c0 c1 root cost t (acquire_deadline t wait) (s_queue s) = Some (r, q)"
    "s' = enlist root cost ep t (acquire_deadline t wait) s (r, q)" by auto
  with fixed_acquire [OF sys_inv_queueD [OF s] q(1)] show ?thesis by simp
next
  case (OpPoll t n)
  obtain w q where d: "drive t (s_queue s) = Some (w, q)" using drive_total [OF sys_inv_queueD [OF s]] by metis
  from OpPoll e fixed_drive [OF sys_inv_queueD [OF s] d] show ?thesis
    by (auto simp: acquire_poll_def d split: if_splits)
next
  case (OpDropTicket t n)
  show ?thesis
  proof (cases "n < length (s_tickets s)")
    case True
    let ?p = "p_ticket (s_tickets s ! n)"
    have "(t_result ?p, t_root ?p) \<in> set (ticket_keys (s_tickets s))" using True by (intro in_ticket_keys) simp
    with s have "t_root ?p < length (q_roots (s_queue s))" unfolding sys_inv_def using owned_cell_bound by blast
    from fixed_cancel [OF sys_inv_queueD [OF s] _ this] True OpDropTicket e show ?thesis
      by (auto simp: ticket_drop_def split: if_splits)
  qed (use OpDropTicket e in simp)
next
  case (OpStart t n)
  with e show ?thesis by (auto split: if_splits prod.splits) (metis fixed_simps(11) snd_conv)
next
  case (OpHeaders st hm ob t n)
  with e show ?thesis by (auto split: if_splits prod.splits dest!: headers_same(1) intro!: fixed_same)
next
  case (OpRejected j hm r sn t n)
  with e show ?thesis by (auto split: if_splits dest!: rejected_same intro!: fixed_same)
next
  case (OpUsage u n)
  with e show ?thesis by (auto split: if_splits)
next
  case (OpDropHold t n)
  with e show ?thesis by (auto split: if_splits)
next
  case (OpRetry t c0 c1 n)
  show ?thesis
  proof (cases "n < length (s_holds s)")
    case True
    let ?h = "s_holds s ! n"
    from True OpRetry e obtain r q where
      "acquire_enqueue c0 c1 (h_root ?h) (h_cost ?h) (h_wait_started ?h) (h_queue_deadline ?h) (hold_drop t ?h (s_queue s)) = Some (r, q)"
      "s_queue s' = q" by (auto simp: hold_retry_def Let_def)
    with fixed_acquire [OF hold_drop_inv [OF sys_inv_queueD [OF s]]] show ?thesis by simp
  qed (use OpRetry e in simp)
next
  case (OpCooldown t d)
  with e show ?thesis by (auto simp: cooldown_def)
next
  case (OpSnapshot t)
  with e show ?thesis by (auto simp: admission_snapshot_def ledger_snapshot_eq Let_def fixed_ledger)
qed

section \<open>A gateway with a validated configuration\<close>

lemma admission_new_Some:
  assumes "config_ok c"
  obtains a l where "admission_new c t = Some a" "ad_queue a = queue_new l (length (cfg_roots c))" "ledger_inv l"
    "ledger_entries l = []" "ledger_concurrency l = cfg_concurrency c" "ad_root_ids a = map root_id (cfg_roots c)"
proof -
  obtain l where l: "ledger_new (cfg_quota c) (cfg_accounting c) (cfg_concurrency c) t (from_secs (cfg_startup_hold_secs c)) = Some l"
    "ledger_entries l = []" "ledger_concurrency l = cfg_concurrency c"
    using assms by (auto simp: ledger_new_def config_ok_def)
  have "ledger_inv l" using ledger_new_inv [OF l(1)] assms by (simp add: config_ok_def)
  with that l config_ok_registered [OF assms] show thesis by (auto simp: admission_new_def)
qed

lemma gateway_reachable:
  assumes c: "config_ok c" and a: "admission_new c t = Some a" and r: "reachable L (ad_queue a) s"
  shows "sys_inv s" "fixed (s_queue s) = (cfg_concurrency c, length (cfg_roots c))"
proof -
  obtain l where q: "ad_queue a = queue_new l (length (cfg_roots c))" "ledger_inv l"
    "ledger_entries l = []" "ledger_concurrency l = cfg_concurrency c"
    using admission_new_Some [OF c, of t] a by (metis option.inject)
  have "length (cfg_roots c) \<le> 16" using c by (simp add: config_ok_def MAX_ROOTS_def)
  then have "sys_inv (system_new (ad_queue a))"
    using queue_inv_new [OF q(2)] q
    by (intro sys_inv_new) (simp, simp_all add: queue_new_def active_ids_def concat_replicate_trivial)
  note inv = reachable_inv [OF _ this]
  show "sys_inv s" by (rule inv [OF r])
  from r show "fixed (s_queue s) = (cfg_concurrency c, length (cfg_roots c))"
  proof (induction rule: reachable.induct)
    case initial
    then show ?case by (simp add: system_new_def q fixed_def queue_new_def)
  next
    case (step s x s')
    with exec_fixed [OF inv [OF step.hyps(1)] step.hyps(3)] show ?case by simp
  qed
qed

lemma run_reachable:
  assumes c: "config_ok c" and a: "admission_new c t = Some a" and x: "list_all op_ok xs"
  shows "reachable L (ad_queue a) (foldl (\<lambda>s x. the (adm_exec L x s)) (system_new (ad_queue a)) xs)"
  using x
proof (induction xs rule: rev_induct)
  case Nil
  then show ?case by (simp add: reachable.initial)
next
  case (snoc x xs)
  then have r: "reachable L (ad_queue a) (foldl (\<lambda>s x. the (adm_exec L x s)) (system_new (ad_queue a)) xs)" by simp
  from exec_inv [OF gateway_reachable(1) [OF c a r], of x L] snoc.prems show ?case
    by (auto intro: reachable.step [OF r])
qed

text \<open>The gateway of the demo configuration and its runs.\<close>

definition demo_gateway :: admission where
  "demo_gateway = the (admission_new demo_config 0)"

definition demo_run :: "adm_op list \<Rightarrow> system" where
  "demo_run xs = foldl (\<lambda>s x. the (adm_exec demo_libs x s)) (system_new (ad_queue demo_gateway)) xs"

lemma demo_config_ok: "config_ok demo_config"
proof -
  have "input_ok demo_input" by (simp add: input_ok_def demo_input_def rust_arith)
  with demo_config show ?thesis by (rule validated_ok)
qed

lemma demo_gateway: "admission_new demo_config 0 = Some demo_gateway"
  using admission_new_Some [OF demo_config_ok, of 0] by (metis demo_gateway_def option.sel)

lemma demo_reachable: "list_all op_ok xs \<Longrightarrow> reachable demo_libs (ad_queue demo_gateway) (demo_run xs)"
  unfolding demo_run_def by (rule run_reachable [OF demo_config_ok demo_gateway])

definition demo_ops :: "adm_op list" where
  "demo_ops =
     [OpAcquire 0 0 0 0 UnmeteredGeneration Messages (from_secs 9),
      OpAcquire 1 1 1 1 UnmeteredGeneration Responses (from_secs 9), OpPoll 2 0, OpStart 2 0,
      OpAcquire 3 3 3 0 UnmeteredGeneration Messages (from_secs 500), OpAcquire 4 4 4 0 Metadata Models 7]"

section \<open>Ownership of reservations\<close>

text \<open>
  C11: no reservation leaks and none is shared.  At any moment the active reservations of the
  ledger are those of the live holds and those granted to tickets that were not collected yet;
  they are all different and never more than the configured concurrency, and when every task is
  gone no reservation is active.
\<close>

theorem reservations_never_leak:
  assumes "config_ok c" "admission_new c t = Some a" "reachable L (ad_queue a) s"
  shows "mset (active_ids (q_ledger (s_queue s)))
        = mset (map h_id (s_holds s)) + mset (granted_ids (ticket_keys (s_tickets s)) (s_queue s))
    \<and> distinct (map h_id (s_holds s) @ granted_ids (ticket_keys (s_tickets s)) (s_queue s))
    \<and> active_count (q_ledger (s_queue s)) \<le> cfg_concurrency c
    \<and> (s_holds s = [] \<longrightarrow> s_tickets s = [] \<longrightarrow> active_count (q_ledger (s_queue s)) = 0)"
proof -
  note g = gateway_reachable [OF assms]
  have own: "owned (ticket_keys (s_tickets s)) (hold_keys (s_holds s)) (s_queue s)" and inv: "queue_inv (s_queue s)"
    using g(1) by (simp_all add: sys_inv_def)
  have k: "map fst (hold_keys (s_holds s)) = map h_id (s_holds s)" by (simp add: hold_keys_def)
  note ids = owned_ids [OF own, unfolded k] and d = owned_distinct [OF inv_active_distinct [OF inv] own, unfolded k]
  have "active_count (q_ledger (s_queue s)) \<le> cfg_concurrency c"
    using queue_inv_ledgerD [OF inv] g(2) by (simp add: ledger_inv_def fixed_def)
  moreover have "active_count (q_ledger (s_queue s)) = 0" if "s_holds s = []" "s_tickets s = []"
    using ids that by (simp add: length_active_ids [symmetric])
  ultimately show ?thesis using ids d by blast
qed

theorem reservations_never_leak_witness:
  "let s = demo_run demo_ops in
   map h_id (s_holds s) = [1] \<and> length (s_tickets s) = 3 \<and> active_count (q_ledger (s_queue s)) \<le> cfg_concurrency demo_config
   \<and> mset (active_ids (q_ledger (s_queue s)))
        = mset (map h_id (s_holds s)) + mset (granted_ids (ticket_keys (s_tickets s)) (s_queue s))"
proof -
  have "list_all op_ok demo_ops" by code_simp
  note r = reservations_never_leak [OF demo_config_ok demo_gateway demo_reachable [OF this]]
  have "map h_id (s_holds (demo_run demo_ops)) = [1]" "length (s_tickets (demo_run demo_ops)) = 3" by code_simp+
  with r show ?thesis unfolding Let_def by blast
qed

section \<open>No panic\<close>

lemma blocked_reason_total:
  assumes "queue_inv q"
  shows "\<exists>r l. blocked_reason now q = Some (r, q\<lparr>q_ledger := l\<rparr>)"
proof -
  have "\<exists>l. q = q\<lparr>q_ledger := l\<rparr>" by (rule exI [of _ "q_ledger q"]) simp
  with assms show ?thesis
    by (auto simp: blocked_reason_def queue_inv_def pred_option_def split: option.split prod.split sum.split)
qed

text \<open>
  C12: no operation of the admission controller panics, whatever the interleaving of the tasks:
  no index of a root or of the table of fitting heads is out of range, the head selected by
  \<^verbatim>\<open>drive\<close> is there and its admission is granted (the \<^verbatim>\<open>unreachable!\<close> is unreachable), the table of
  back-off seconds is never overrun, and the status report finds the name of the barrier root.
\<close>

theorem admission_never_panics:
  assumes "config_ok c" "admission_new c t = Some a" "reachable L (ad_queue a) s" "op_ok x"
  shows "adm_exec L x s \<noteq> None \<and> admission_status now (a\<lparr>ad_queue := s_queue s\<rparr>) \<noteq> None"
proof -
  note g = gateway_reachable [OF assms(1-3)]
  have inv: "queue_inv (s_queue s)" by (rule sys_inv_queueD [OF g(1)])
  have ids: "length (ad_root_ids a) = length (q_roots (s_queue s))"
    using g(2) admission_new_Some [OF assms(1), of t] assms(2) by (metis fixed_def length_map option.inject prod.inject)
  let ?q = "(s_queue s)\<lparr>q_ledger := advance (q_ledger (s_queue s)) now\<rparr>"
  have "queue_inv ?q" using inv by (intro queue_inv_ledger advance_inv queue_inv_ledgerD) simp_all
  from blocked_reason_total [OF this, of now] obtain r l where b: "blocked_reason now ?q = Some (r, ?q\<lparr>q_ledger := l\<rparr>)" by blast
  have "barrier_root (?q\<lparr>q_ledger := l\<rparr>) = Some root \<Longrightarrow> root < length (ad_root_ids a)" for root
    using inv ids by (auto simp: barrier_root_def queue_inv_def pred_option_def)
  with b have "admission_status now (a\<lparr>ad_queue := s_queue s\<rparr>) \<noteq> None"
    by (auto simp: admission_status_def ledger_snapshot_eq Let_def split: option.split)
  with exec_inv [OF g(1) assms(4)] show ?thesis by auto
qed

theorem admission_never_panics_witness:
  "adm_exec demo_libs (OpPoll (from_secs 9) 2) (demo_run demo_ops) \<noteq> None
   \<and> admission_status 5 (demo_gateway\<lparr>ad_queue := s_queue (demo_run demo_ops)\<rparr>) \<noteq> None"
proof -
  have "list_all op_ok demo_ops" by code_simp
  moreover have "op_ok (OpPoll (from_secs 9) 2)" by simp
  ultimately show ?thesis by (rule admission_never_panics [OF demo_config_ok demo_gateway demo_reachable])
qed

section \<open>Progress\<close>

text \<open>
  C13: no request waits for ever.  A task that waits for admission is answered by the first poll
  at or after its deadline, which is at most 120 seconds after the request arrived (retries
  keep the original deadline); a poll that leaves it waiting sets a wake-up in the future, no
  later than that deadline.
\<close>

theorem waiters_always_answered:
  assumes "config_ok c" "admission_new c t = Some a" "reachable L (ad_queue a) s"
    "n < length (s_tickets s)" "p = s_tickets s ! n"
  shows "p_deadline p \<le> dur_add (p_now p) (from_secs 120)
    \<and> (\<exists>out wake q. acquire_poll now (t_result (p_ticket p)) (s_queue s) = Some (out, wake, q)
         \<and> (p_deadline p \<le> now \<longrightarrow> out \<noteq> None)
         \<and> (out = None \<longrightarrow> (\<exists>u. wake = Some u \<and> now < u \<and> u \<le> p_deadline p)))"
proof -
  note inv = gateway_reachable(1) [OF assms(1-3)]
  let ?c = "t_result (p_ticket p)" and ?r = "t_root (p_ticket p)"
  have ok: "pending_ok p" "tracked (s_queue s) p" using inv assms(4,5) by (auto simp: sys_inv_def list_all_iff)
  have qi: "queue_inv (s_queue s)" by (rule sys_inv_queueD [OF inv])
  obtain w q where d: "drive now (s_queue s) = Some (w, q)" using drive_total [OF qi] by metis
  note tr = tracked_drive [OF qi d ok(2)]
  have "\<exists>u. w = Some u \<and> now < u \<and> u \<le> p_deadline p" if none: "q_cells q ?c = None"
  proof -
    from tr(1) none obtain x where x: "?r < length (q_roots q)" "x \<in> set (q_roots q ! ?r)" "w_deadline x = p_deadline p"
      by (auto simp: tracked_def)
    then have x': "x \<in> set (concat (q_roots q))" by auto
    then have ne: "concat (q_roots q) \<noteq> []" by (metis empty_iff empty_set)
    then have len: "q_len q \<noteq> 0" unfolding q_len_def length_concat [symmetric] by (simp only: length_0_conv not_False_eq_True)
    note st = drive_settled [OF qi d]
    have "drive_wake now q \<noteq> None" using ne by (simp add: drive_wake_def Let_def del: concat_eq_Nil_conv)
    then obtain u where u: "drive_wake now q = Some u" by auto
    from drive_wake_bounds(1) [OF st(1) len u] drive_wake_bounds(2) [OF st(1) len u x'] st(2) len u x(3)
    show ?thesis by simp
  qed
  with tr(2) d ok(1) show ?thesis by (auto simp: acquire_poll_def pending_ok_def in_time_def)
qed

theorem waiters_always_answered_witness:
  "let s = demo_run demo_ops; p = s_tickets s ! 1 in
   p_deadline p = 3 + from_secs 120 \<and> p_deadline p \<le> dur_add (p_now p) (from_secs 120)
   \<and> (\<exists>out wake q. acquire_poll 9 (t_result (p_ticket p)) (s_queue s) = Some (out, wake, q))"
proof -
  have ok: "list_all op_ok demo_ops" by code_simp
  have n: "1 < length (s_tickets (demo_run demo_ops))" "p_deadline (s_tickets (demo_run demo_ops) ! 1) = 3 + from_secs 120"
    by code_simp+
  from waiters_always_answered [OF demo_config_ok demo_gateway demo_reachable [OF ok] n(1) refl, of 9] n(2)
  show ?thesis unfolding Let_def by blast
qed

text \<open>
  C14: recovery never waits for a probe that nobody owns.  Whenever a recovery has a probe, that
  probe is a reservation held by a live hold or granted to a live ticket, and it is active in the
  ledger; so dropping, rejecting or cancelling it in any order gives the next request its turn.
\<close>

theorem probe_never_stranded:
  assumes "config_ok c" "admission_new c t = Some a" "reachable L (ad_queue a) s" "probe_of (s_queue s) = Some i"
  shows "(i \<in> h_id ` set (s_holds s) \<or> i \<in> set (granted_ids (ticket_keys (s_tickets s)) (s_queue s)))
    \<and> i \<in> set (active_ids (q_ledger (s_queue s)))"
proof -
  note inv = gateway_reachable(1) [OF assms(1-3)]
  have own: "owned (ticket_keys (s_tickets s)) (hold_keys (s_holds s)) (s_queue s)" using inv by (simp add: sys_inv_def)
  have i: "i \<in> set (active_ids (q_ledger (s_queue s)))" using inv assms(4) by (simp add: sys_inv_def probe_owned_def)
  moreover have "set (active_ids (q_ledger (s_queue s))) = h_id ` set (s_holds s) \<union> set (granted_ids (ticket_keys (s_tickets s)) (s_queue s))"
    using arg_cong [OF owned_ids [OF own], of set_mset] by (simp add: hold_keys_def image_image)
  ultimately show ?thesis by blast
qed

definition demo_recovery :: "adm_op list" where
  "demo_recovery =
     [OpAcquire 0 0 0 0 UnmeteredGeneration Messages (from_secs 9), OpPoll 2 0, OpStart 2 0,
      OpRejected 0 (\<lambda>_. []) True 0 5 0, OpDropHold 6 0,
      OpAcquire (from_secs 2) (from_secs 2) (from_secs 2) 1 UnmeteredGeneration Responses (from_secs 9), OpPoll (from_secs 2) 0]"

theorem probe_never_stranded_witness:
  "let s = demo_run demo_recovery in
   probe_of (s_queue s) = Some 2 \<and> (2 \<in> h_id ` set (s_holds s) \<or> 2 \<in> set (granted_ids (ticket_keys (s_tickets s)) (s_queue s)))"
proof -
  have ok: "list_all op_ok demo_recovery" by code_simp
  have p: "probe_of (s_queue (demo_run demo_recovery)) = Some 2" by code_simp
  from probe_never_stranded [OF demo_config_ok demo_gateway demo_reachable [OF ok] p] p
  show ?thesis unfolding Let_def by blast
qed

section \<open>The gate\<close>

text \<open>
  A request is sent upstream only through the gate.  Starting a hold that has not started
  succeeds exactly when the shared cool-down is over and, during a recovery, the hold is the
  probe or the recovery concerns generations only and the request is none.  A refused start
  changes nothing, so it costs no quota; a successful one is remembered and counted once.
\<close>

theorem start_only_through_gate:
  assumes "config_ok c" "admission_new c t = Some a" "reachable L (ad_queue a) s"
    "n < length (s_holds s)" "h = s_holds s ! n" "hold_start now h (s_queue s) = (b, h', q')"
  shows "b = (h_started h \<or> can_start (s_queue s) now (h_id h) (h_cost h))
    \<and> h_started h' = b
    \<and> (h_started h \<or> \<not> b \<longrightarrow> q' = s_queue s \<and> h' = h)
    \<and> (\<not> h_started h \<and> b \<longrightarrow> ledger_starts (q_ledger q') = saturating_add u64_max (ledger_starts (q_ledger (s_queue s))) 1)"
proof -
  note inv = gateway_reachable(1) [OF assms(1-3)]
  have own: "owned (ticket_keys (s_tickets s)) (hold_keys (s_holds s)) (s_queue s)" using inv by (simp add: sys_inv_def)
  have "(h_id h, h_started h) \<in> set (hold_keys (s_holds s))" using assms(4,5) by (auto simp: hold_keys_def)
  note st = owned_statusD(1) [OF own this]
  show ?thesis
  proof (cases "h_started h \<or> \<not> can_start (s_queue s) now (h_id h) (h_cost h)")
    case True
    with assms(6) show ?thesis by (auto simp: hold_start_def split: if_splits)
  next
    case False
    with st have "fst (start (q_ledger (s_queue s)) now (h_id h))" by (intro start_granted) simp
    then obtain l where l: "start (q_ledger (s_queue s)) now (h_id h) = (True, l)" by (cases "start (q_ledger (s_queue s)) now (h_id h)") auto
    then have "ledger_starts l = saturating_add u64_max (ledger_starts (q_ledger (s_queue s))) 1"
      by (auto elim!: start_True)
    with l False assms(6) show ?thesis by (auto simp: hold_start_def)
  qed
qed

theorem start_only_through_gate_witness:
  "let s = demo_run (demo_recovery @ [OpCooldown (from_secs 2) 7]) in
   \<exists>h' q'. hold_start (from_secs 2) (s_holds s ! 0) (s_queue s) = (False, h', q') \<and> q' = s_queue s \<and> h' = s_holds s ! 0"
proof -
  define s where "s = demo_run (demo_recovery @ [OpCooldown (from_secs 2) 7])"
  have ok: "list_all op_ok (demo_recovery @ [OpCooldown (from_secs 2) 7])" by code_simp
  have n: "0 < length (s_holds s)" "\<not> fst (hold_start (from_secs 2) (s_holds s ! 0) (s_queue s))" unfolding s_def by code_simp+
  obtain b h' q' where e: "hold_start (from_secs 2) (s_holds s ! 0) (s_queue s) = (b, h', q')" by (metis prod_cases3)
  from start_only_through_gate [OF demo_config_ok demo_gateway demo_reachable [OF ok, folded s_def] n(1) refl e] e n(2)
  show ?thesis unfolding s_def [symmetric] Let_def by auto
qed

text \<open>
  A response cannot prove its own recovery.  When the headers of a response (with any status,
  also 200) say that a budget is exhausted, the queue is recovering afterwards, without a probe,
  and cools down at least for the announced delay; the hold that saw the hint, and every other
  hold of the affected kind, can start nothing until a later request is admitted as the probe.
\<close>

theorem exhaustion_needs_new_probe:
  assumes "exhausted L hm observed = Some x" "hold_headers L status hm observed now h q = (h', q')"
    "q_generation q \<le> u64_max" "h_generation h = q_generation q"
  shows "h_exhaustion_observed h' \<and> dur_add now (ex_delay x) \<le> q_cooldown_until q'
    \<and> (\<exists>r. q_recovery q' = Some r \<and> rec_probe r = None
          \<and> (ex_generation_only x \<or> is_generation (h_cost h) \<longrightarrow> rec_generation_only r))
    \<and> (\<forall>later i cost. is_generation cost \<longrightarrow> \<not> can_start q' later i cost)
    \<and> q_generation q' \<noteq> h_generation h"
proof -
  define q1 where "q1 = (if status = 429
                then (case header_delay L hm observed of
                        None \<Rightarrow> q
                      | Some delay \<Rightarrow> q\<lparr>q_cooldown_until := max (q_cooldown_until q) (dur_add now delay)\<rparr>)
                else q)"
  define q2 where "q2 = arm_recovery now (ex_delay x) (ex_generation_only x \<or> is_generation (h_cost h)) q1"
  have g1: "q_generation q1 = q_generation q" by (simp add: q1_def split: option.split)
  have r2: "\<exists>r. q_recovery q2 = Some r \<and> rec_probe r = None
          \<and> (ex_generation_only x \<or> is_generation (h_cost h) \<longrightarrow> rec_generation_only r)"
    by (simp add: q2_def arm_recovery_def)
  then obtain r where r: "q_recovery q2 = Some r" "rec_probe r = None"
    "ex_generation_only x \<or> is_generation (h_cost h) \<longrightarrow> rec_generation_only r" by blast
  have gen: "q_generation q2 \<noteq> q_generation q"
    using wrapping_add_1_neq [OF _ assms(3)] by (simp add: q2_def arm_recovery_def g1 u64_max_def)
  have "q' = q2" "h' = h\<lparr>h_exhaustion_observed := True\<rparr>"
    using assms(1,2) r by (auto simp: hold_headers_def Let_def q2_def [symmetric] q1_def [symmetric]
        accepted_def release_probe_def split: if_splits)
  moreover have "dur_add now (ex_delay x) \<le> q_cooldown_until q2" by (simp add: q2_def arm_recovery_def)
  ultimately show ?thesis using r gen assms(4) by (auto simp: can_start_def)
qed

definition demo_exhausted :: header_map where
  "demo_exhausted = (\<lambda>_. [])(''x-ratelimit-remaining-tokens'' := [''0''], ''x-ratelimit-reset-tokens'' := [''3s''])"

theorem exhaustion_needs_new_probe_witness:
  "let L = demo_libs\<lparr>lib_parse_duration := (\<lambda>_. Some (from_secs 3))\<rparr>;
       s = demo_run (demo_recovery @ [OpStart (from_secs 2) 0]);
       q' = snd (hold_headers L 200 demo_exhausted 0 (from_secs 2) (s_holds s ! 0) (s_queue s))
   in h_started (s_holds s ! 0) \<and> \<not> can_start q' (from_secs 9) 2 UnmeteredGeneration \<and> from_secs 5 \<le> q_cooldown_until q'"
proof -
  define L where "L = demo_libs\<lparr>lib_parse_duration := (\<lambda>_. Some (from_secs 3))\<rparr>"
  define s where "s = demo_run (demo_recovery @ [OpStart (from_secs 2) 0])"
  obtain h' q' where e: "hold_headers L 200 demo_exhausted 0 (from_secs 2) (s_holds s ! 0) (s_queue s) = (h', q')" by (metis surj_pair)
  have x: "exhausted L demo_exhausted 0 = Some \<lparr>ex_delay = from_secs 3, ex_generation_only = True\<rparr>"
    unfolding L_def by code_simp
  have g: "q_generation (s_queue s) \<le> u64_max" "h_generation (s_holds s ! 0) = q_generation (s_queue s)"
    "h_started (s_holds s ! 0)" unfolding s_def by code_simp+
  have a: "dur_add (from_secs 2) (from_secs 3) = from_secs 5" "is_generation UnmeteredGeneration" by code_simp+
  from exhaustion_needs_new_probe [OF x e g(1,2)] a have "\<not> can_start q' (from_secs 9) 2 UnmeteredGeneration" "from_secs 5 \<le> q_cooldown_until q'"
    by auto
  then show ?thesis unfolding L_def [symmetric] s_def [symmetric] Let_def e snd_conv using g(3) by blast
qed

section \<open>Start and retry\<close>

text \<open>
  A validated configuration starts.  The assertions of \<^verbatim>\<open>Admission::new\<close> and \<^verbatim>\<open>Ledger::new\<close> hold
  for every configuration that validation accepts, and the controller starts empty: no task is
  waiting, nothing is reserved, and there is one queue per configured root.
\<close>

theorem validated_config_starts:
  assumes "validate L i = Inr c" "input_ok i"
  shows "\<exists>a. admission_new c t = Some a \<and> queue_inv (ad_queue a) \<and> q_lengths (ad_queue a) = replicate (length (cfg_roots c)) 0
    \<and> active_count (q_ledger (ad_queue a)) = 0 \<and> ad_root_ids a = map root_id (cfg_roots c)"
proof -
  have c: "config_ok c" using assms by (rule validated_ok)
  obtain a l where a: "admission_new c t = Some a" "ad_queue a = queue_new l (length (cfg_roots c))" "ledger_inv l"
    "ledger_entries l = []" "ad_root_ids a = map root_id (cfg_roots c)" using admission_new_Some [OF c, of t] by metis
  have "length (cfg_roots c) \<le> 16" using c by (simp add: config_ok_def MAX_ROOTS_def)
  with queue_inv_new [OF a(3)] a show ?thesis
    by (auto simp: q_lengths_def active_count_def queue_new_def)
qed

theorem validated_config_starts_witness:
  "\<exists>a. admission_new demo_config 7 = Some a \<and> q_lengths (ad_queue a) = replicate 2 0 \<and> ad_root_ids a = [''a-1'', ''b'']"
proof -
  have i: "input_ok demo_input" by (simp add: input_ok_def demo_input_def rust_arith)
  have n: "length (cfg_roots demo_config) = 2" "map root_id (cfg_roots demo_config) = [''a-1'', ''b'']" by code_simp+
  from validated_config_starts [OF demo_config i, of 7] show ?thesis unfolding n by blast
qed

text \<open>
  A retry keeps its place.  Retrying drops the old reservation first; then the request either
  waits again, at the end of its root's queue, with the age and the deadline of its first
  attempt, or is answered with an error.  It is not enqueued when the deadline has passed, so
  retries cannot extend the time a request waits.
\<close>

theorem retry_keeps_age:
  assumes "config_ok c" "admission_new c t = Some a" "reachable L (ad_queue a) s"
    "n < length (s_holds s)" "h = s_holds s ! n" "adm_exec L (OpRetry clock clock0 clock1 n) s = Some s'"
  shows "s_holds s' = remove_at n (s_holds s)
    \<and> (s_tickets s' = s_tickets s
       \<or> (clock0 < h_queue_deadline h \<and> (\<exists>p. s_tickets s' = s_tickets s @ [p]
            \<and> t_root (p_ticket p) = h_root h \<and> p_cost p = h_cost h \<and> p_endpoint p = h_endpoint h
            \<and> p_now p = h_wait_started h \<and> p_deadline p = h_queue_deadline h
            \<and> (\<exists>w ws. q_roots (s_queue s') ! h_root h = ws @ [w] \<and> w_result w = t_result (p_ticket p)
                 \<and> w_enqueued w = h_wait_started h \<and> w_deadline w = h_queue_deadline h \<and> w_cost w = h_cost h))))"
proof -
  note inv = gateway_reachable(1) [OF assms(1-3)]
  let ?s = "s\<lparr>s_holds := remove_at n (s_holds s)\<rparr>" and ?q = "hold_drop clock h (s_queue s)"
  obtain w q1 where d: "drive clock1 ?q = Some (w, q1)"
    using drive_total [OF hold_drop_inv [OF sys_inv_queueD [OF inv]]] by metis
  let ?e = "enqueue (h_root h) (h_cost h) (h_wait_started h) (h_queue_deadline h) q1"
  have s': "s' = enlist (h_root h) (h_cost h) (h_endpoint h) (h_wait_started h) (h_queue_deadline h) ?s
      (if h_queue_deadline h \<le> clock0 then (Inl Deadline, ?q) else ?e)"
    using assms(4,5,6) d by (auto simp: hold_retry_def acquire_enqueue_def Let_def)
  show ?thesis
  proof (cases "h_queue_deadline h \<le> clock0")
    case False
    then show ?thesis unfolding s'
      by (auto simp: enlist_def enqueue_def split: sum.split option.split)
  qed (simp add: s' enlist_def)
qed

theorem retry_keeps_age_witness:
  "let s = demo_run demo_recovery; s' = the (adm_exec demo_libs (OpRetry (from_secs 3) (from_secs 3) (from_secs 3) 0) s) in
   length (s_tickets s') = 1 \<and> p_now (s_tickets s' ! 0) = from_secs 2 \<and> p_deadline (s_tickets s' ! 0) = from_secs 11"
proof -
  define s where "s = demo_run demo_recovery"
  define x where "x = OpRetry (from_secs 3) (from_secs 3) (from_secs 3) 0"
  have ok: "list_all op_ok demo_recovery" by code_simp
  have n: "0 < length (s_holds s)" "s_tickets s = []" "h_wait_started (s_holds s ! 0) = from_secs 2"
    "h_queue_deadline (s_holds s ! 0) = from_secs 11" unfolding s_def by code_simp+
  have "adm_exec demo_libs x s \<noteq> None" and ne: "s_tickets (the (adm_exec demo_libs x s)) \<noteq> []"
    unfolding x_def s_def by code_simp+
  then have e: "adm_exec demo_libs x s = Some (the (adm_exec demo_libs x s))" by simp
  from retry_keeps_age [OF demo_config_ok demo_gateway demo_reachable [OF ok, folded s_def] n(1) refl e [unfolded x_def]]
  show ?thesis using n ne unfolding s_def [symmetric] x_def [symmetric] Let_def by auto
qed

end
