(* ===== verification/Sse_Decoder.thy ===== *)
theory Sse_Decoder
  imports Protocol_Usage Http_Headers
begin

text \<open>
  The observer of response bodies of \<^verbatim>\<open>transport/stream.rs\<close>: the incremental decoder of
  server-sent events and the bounded collector of JSON bodies.

  A fixed array with a fill count is the string of its used part: \<open>sd_storage\<close> is
  \<^verbatim>\<open>storage[..used]\<close>, \<open>sd_event_name\<close> is \<^verbatim>\<open>event_name[..event_name_len]\<close>, \<open>sd_bom_prefix\<close> is
  \<^verbatim>\<open>bom_prefix[..bom_prefix_len]\<close>; the source never reads beyond the fill count and compares it with
  the capacity before each write.  The JSON parser \<open>J\<close> is a parameter.
\<close>

section \<open>Data\<close>

definition MAX_EVENT_METADATA :: nat where
  "MAX_EVENT_METADATA = 256 * 1024"

definition EVENT_NAME_BYTES :: nat where
  "EVENT_NAME_BYTES = 32"

definition BOM_BYTES :: nat where
  "BOM_BYTES = 3"

definition EVENT_STORAGE_BYTES :: nat where
  "EVENT_STORAGE_BYTES = MAX_EVENT_METADATA - EVENT_NAME_BYTES - BOM_BYTES"

abbreviation LF :: char where "LF \<equiv> CHR 0x0A"
abbreviation CR :: char where "CR \<equiv> CHR 0x0D"

datatype line_kind = FieldLine | DataLine bool | EventLine bool | IgnoreLine

datatype sse_event =
    EvDefault | EvMessageStart | EvMessageDelta | EvContentBlockDelta | EvMessageStop | EvError | EvUnknown

definition event_from_bytes :: "string \<Rightarrow> bool \<Rightarrow> sse_event" where
  "event_from_bytes bytes overflowed =
     (if overflowed then EvUnknown
      else if bytes = '''' then EvDefault
      else if bytes = ''message_start'' then EvMessageStart
      else if bytes = ''message_delta'' then EvMessageDelta
      else if bytes = ''content_block_delta'' then EvContentBlockDelta
      else if bytes = ''message_stop'' then EvMessageStop
      else if bytes = ''error'' then EvError
      else EvUnknown)"

fun event_as_str :: "sse_event \<Rightarrow> string option" where
  "event_as_str EvDefault = None"
| "event_as_str EvMessageStart = Some ''message_start''"
| "event_as_str EvMessageDelta = Some ''message_delta''"
| "event_as_str EvContentBlockDelta = Some ''content_block_delta''"
| "event_as_str EvMessageStop = Some ''message_stop''"
| "event_as_str EvError = Some ''error''"
| "event_as_str EvUnknown = Some ''unknown''"

record sse_decoder =
  sd_endpoint :: endpoint_observer
  sd_storage :: string
  sd_line_start :: nat
  sd_line_kind :: line_kind
  sd_event :: sse_event
  sd_event_name :: string
  sd_event_name_overflow :: bool
  sd_has_data :: bool
  sd_pending_cr :: bool
  sd_bom_checked :: bool
  sd_bom_prefix :: string
  sd_overflowed :: bool

section \<open>The decoder\<close>

definition sd_new :: "endpoint \<Rightarrow> bool \<Rightarrow> sse_decoder" where
  "sd_new endpoint cache =
     \<lparr>sd_endpoint = eo_new endpoint cache, sd_storage = [], sd_line_start = 0, sd_line_kind = FieldLine,
      sd_event = EvDefault, sd_event_name = [], sd_event_name_overflow = False, sd_has_data = False,
      sd_pending_cr = False, sd_bom_checked = False, sd_bom_prefix = [], sd_overflowed = False\<rparr>"

definition sd_at_event_boundary :: "sse_decoder \<Rightarrow> bool" where
  "sd_at_event_boundary d =
     (sd_storage d = [] \<and> \<not> sd_has_data d \<and> sd_line_kind d = FieldLine \<and> sd_event d = EvDefault
      \<and> sd_event_name d = [] \<and> sd_bom_checked d \<and> sd_bom_prefix d = [])"

definition sd_mark_overflow :: "sse_decoder \<Rightarrow> sse_decoder" where
  "sd_mark_overflow d = d\<lparr>sd_overflowed := True, sd_endpoint := eo_mark_invalid (sd_endpoint d)\<rparr>"

definition sd_reset_event_name :: "sse_decoder \<Rightarrow> sse_decoder" where
  "sd_reset_event_name d = d\<lparr>sd_event_name := [], sd_event_name_overflow := False\<rparr>"

definition sd_push_storage :: "char \<Rightarrow> sse_decoder \<Rightarrow> sse_decoder" where
  "sd_push_storage byte d =
     (if length (sd_storage d) = EVENT_STORAGE_BYTES then sd_mark_overflow d
      else d\<lparr>sd_storage := sd_storage d @ [byte]\<rparr>)"

definition sd_dispatch_event :: "(string \<Rightarrow> json option) \<Rightarrow> sse_decoder \<Rightarrow> sse_decoder" where
  "sd_dispatch_event J d =
     (let d1 = (if sd_has_data d
                then d\<lparr>sd_endpoint := eo_observe J (event_as_str (sd_event d)) (sd_storage d) (sd_endpoint d)\<rparr>
                else d)
      in d1\<lparr>sd_storage := [], sd_line_start := 0, sd_has_data := False, sd_event := EvDefault\<rparr>)"

text \<open>\<^verbatim>\<open>storage[line_start..used]\<close>, and the assignment \<^verbatim>\<open>used = line_start\<close>.\<close>

definition sd_line :: "sse_decoder \<Rightarrow> string" where
  "sd_line d = drop (sd_line_start d) (sd_storage d)"

definition sd_truncate :: "sse_decoder \<Rightarrow> sse_decoder" where
  "sd_truncate d = d\<lparr>sd_storage := take (sd_line_start d) (sd_storage d)\<rparr>"

definition sd_finish_line :: "(string \<Rightarrow> json option) \<Rightarrow> sse_decoder \<Rightarrow> sse_decoder" where
  "sd_finish_line J d =
     (let d1 = (case sd_line_kind d of
           FieldLine \<Rightarrow>
             if length (sd_storage d) = sd_line_start d then sd_dispatch_event J d
             else
               let t = sd_truncate d in
               if sd_line d = ''data'' then
                 (if sd_has_data d then sd_push_storage LF t else t)\<lparr>sd_has_data := True\<rparr>
               else if sd_line d = ''event'' then t\<lparr>sd_event := EvDefault\<rparr>
               else t
         | DataLine _ \<Rightarrow> d\<lparr>sd_has_data := True\<rparr>
         | EventLine _ \<Rightarrow> d\<lparr>sd_event := event_from_bytes (sd_event_name d) (sd_event_name_overflow d)\<rparr>
         | IgnoreLine \<Rightarrow> d)
      in sd_reset_event_name (d1\<lparr>sd_line_start := length (sd_storage d1), sd_line_kind := FieldLine\<rparr>))"

definition sd_process_line_byte :: "char \<Rightarrow> sse_decoder \<Rightarrow> sse_decoder" where
  "sd_process_line_byte byte d =
     (case sd_line_kind d of
        FieldLine \<Rightarrow>
          if length (sd_storage d) = sd_line_start d \<and> byte = CHR '':'' then d\<lparr>sd_line_kind := IgnoreLine\<rparr>
          else if byte = CHR '':'' then
            (let t = sd_truncate d in
             if sd_line d = ''data'' then
               (if sd_has_data d then sd_push_storage LF t else t)\<lparr>sd_line_kind := DataLine True\<rparr>
             else if sd_line d = ''event'' then (sd_reset_event_name t)\<lparr>sd_line_kind := EventLine True\<rparr>
             else t\<lparr>sd_line_kind := IgnoreLine\<rparr>)
          else sd_push_storage byte d
      | DataLine strip_space \<Rightarrow>
          if strip_space \<and> byte = CHR '' '' then d\<lparr>sd_line_kind := DataLine False\<rparr>
          else sd_push_storage byte (d\<lparr>sd_line_kind := DataLine False\<rparr>)
      | EventLine strip_space \<Rightarrow>
          if strip_space \<and> byte = CHR '' '' then d\<lparr>sd_line_kind := EventLine False\<rparr>
          else
            let d1 = d\<lparr>sd_line_kind := EventLine False\<rparr> in
            if length (sd_event_name d) < EVENT_NAME_BYTES
            then d1\<lparr>sd_event_name := sd_event_name d @ [byte]\<rparr>
            else d1\<lparr>sd_event_name_overflow := True\<rparr>
      | IgnoreLine \<Rightarrow> d)"

text \<open>The body of the loop of \<^verbatim>\<open>process\<close>, and the loop.\<close>

definition sd_byte :: "(string \<Rightarrow> json option) \<Rightarrow> char \<Rightarrow> sse_decoder \<Rightarrow> sse_decoder" where
  "sd_byte J byte d =
     (let d1 = d\<lparr>sd_pending_cr := False\<rparr> in
      if sd_pending_cr d \<and> byte = LF then d1
      else if byte = CR then (sd_finish_line J d1)\<lparr>sd_pending_cr := True\<rparr>
      else if byte = LF then sd_finish_line J d1
      else sd_process_line_byte byte d1)"

fun sd_process :: "(string \<Rightarrow> json option) \<Rightarrow> string \<Rightarrow> sse_decoder \<Rightarrow> sse_decoder" where
  "sd_process J [] d = d"
| "sd_process J (byte # bytes) d = (if sd_overflowed d then d else sd_process J bytes (sd_byte J byte d))"

definition BOM :: string where
  "BOM = [CHR 0xEF, CHR 0xBB, CHR 0xBF]"

text \<open>The loop that looks for a byte order mark: the decoder and the bytes not consumed.\<close>

fun sd_bom :: "(string \<Rightarrow> json option) \<Rightarrow> string \<Rightarrow> sse_decoder \<Rightarrow> sse_decoder \<times> string" where
  "sd_bom J [] d = (d, [])"
| "sd_bom J (byte # bytes) d =
     (if length (sd_bom_prefix d) < BOM_BYTES then
        let p = sd_bom_prefix d @ [byte] in
        if \<not> prefix p BOM then (sd_process J p (d\<lparr>sd_bom_checked := True, sd_bom_prefix := []\<rparr>), bytes)
        else if length p = BOM_BYTES then (d\<lparr>sd_bom_checked := True, sd_bom_prefix := []\<rparr>, bytes)
        else sd_bom J bytes (d\<lparr>sd_bom_prefix := p\<rparr>)
      else (d, byte # bytes))"

definition sd_observe :: "(string \<Rightarrow> json option) \<Rightarrow> string \<Rightarrow> sse_decoder \<Rightarrow> sse_decoder" where
  "sd_observe J bytes d =
     (if sd_overflowed d then d
      else if sd_bom_checked d then sd_process J bytes d
      else case sd_bom J bytes d of (d1, rest) \<Rightarrow> sd_process J rest d1)"

section \<open>The response observer\<close>

definition observable_representation :: "http_libs \<Rightarrow> nat \<Rightarrow> header_map \<Rightarrow> string option" where
  "observable_representation L status headers =
     (if status \<noteq> 200 then None
      else if (case headers ''content-encoding'' of
                 [] \<Rightarrow> False
               | e # es \<Rightarrow>
                   (case lib_to_str L e of
                      None \<Rightarrow> True
                    | Some s \<Rightarrow> \<not> eq_ignore_ascii_case s ''identity'' \<or> es \<noteq> []))
      then None
      else case headers ''content-type'' of
             [] \<Rightarrow> None
           | t # ts \<Rightarrow>
               (case lib_to_str L t of
                  None \<Rightarrow> None
                | Some s \<Rightarrow>
                    let media = trim (hd (split_on (CHR '';'') s)) in
                    if ts \<noteq> [] then None
                    else if eq_ignore_ascii_case media ''application/json'' then Some ''application/json''
                    else if eq_ignore_ascii_case media ''text/event-stream'' then Some ''text/event-stream''
                    else None))"

datatype response_observer =
    SseObserver sse_decoder
  | JsonObserver endpoint string bool bool
  | UnsupportedObserver

definition rob_new :: "endpoint \<Rightarrow> string option \<Rightarrow> bool \<Rightarrow> response_observer" where
  "rob_new endpoint representation cache =
     (if endpoint = Models \<or> endpoint = CountTokens then UnsupportedObserver
      else case representation of
        None \<Rightarrow> UnsupportedObserver
      | Some media \<Rightarrow>
          if eq_ignore_ascii_case media ''text/event-stream'' then SseObserver (sd_new endpoint cache)
          else if eq_ignore_ascii_case media ''application/json'' then JsonObserver endpoint [] False cache
          else UnsupportedObserver)"

fun rob_observe :: "(string \<Rightarrow> json option) \<Rightarrow> string \<Rightarrow> response_observer \<Rightarrow> response_observer" where
  "rob_observe J bytes (SseObserver d) = SseObserver (sd_observe J bytes d)"
| "rob_observe J bytes (JsonObserver endpoint stored overflowed cache) =
     (if \<not> overflowed then
        if MAX_EVENT_METADATA - length stored < length bytes then JsonObserver endpoint stored True cache
        else JsonObserver endpoint (stored @ bytes) False cache
      else JsonObserver endpoint stored overflowed cache)"
| "rob_observe J bytes UnsupportedObserver = UnsupportedObserver"

fun rob_first_output_delta :: "response_observer \<Rightarrow> bool" where
  "rob_first_output_delta (SseObserver d) = eo_first_output_delta (sd_endpoint d)"
| "rob_first_output_delta _ = False"

fun rob_terminal_marker :: "response_observer \<Rightarrow> bool" where
  "rob_terminal_marker (SseObserver d) = eo_terminal_marker (sd_endpoint d)"
| "rob_terminal_marker _ = False"

fun rob_overflowed :: "response_observer \<Rightarrow> bool" where
  "rob_overflowed (SseObserver d) = sd_overflowed d"
| "rob_overflowed (JsonObserver _ _ overflowed _) = overflowed"
| "rob_overflowed UnsupportedObserver = False"

fun rob_response_error :: "response_observer \<Rightarrow> response_error_class option" where
  "rob_response_error (SseObserver d) = eo_response_error (sd_endpoint d)"
| "rob_response_error _ = None"

fun rob_finish ::
  "(string \<Rightarrow> json option) \<Rightarrow> response_observer \<Rightarrow> observed_usage option \<times> bool \<times> response_error_class option" where
  "rob_finish J (SseObserver d) =
     (if \<not> sd_overflowed d
      then (eo_finish (sd_endpoint d), sd_at_event_boundary d \<and> eo_cache_complete (sd_endpoint d),
            eo_response_error (sd_endpoint d))
      else (None, False, eo_response_error (sd_endpoint d)))"
| "rob_finish J (JsonObserver endpoint stored overflowed cache) =
     (if \<not> overflowed then
        (case J stored of
           None \<Rightarrow> (None, False, None)
         | Some v \<Rightarrow>
             (case response_error endpoint None v of
                Some e \<Rightarrow> (None, False, Some e)
              | None \<Rightarrow> (json_usage endpoint v, cache \<and> complete_json endpoint v, None)))
      else (None, False, None))"
| "rob_finish J UnsupportedObserver = (None, False, None)"

end
