(* ===== verification/Sse_Reference.thy ===== *)
theory Sse_Reference
  imports Sse_Decoder
begin

text \<open>
  The incremental decoder against a reference that sees the whole stream: split it into lines,
  read each line as a field and a value, collect the data of an event until an empty line.  The
  decoder is proved to give the same result for every way the network cuts the stream into
  chunks, as long as no event exceeds the buffer.
\<close>

section \<open>Chunking\<close>

lemma sd_process_overflowed [simp]: "sd_overflowed d \<Longrightarrow> sd_process J bs d = d"
  by (cases bs) simp_all

lemma sd_process_append: "sd_process J (a @ b) d = sd_process J b (sd_process J a d)"
  by (induction a arbitrary: d) simp_all

lemma sd_frame [simp]:
  "sd_bom_checked (sd_push_storage c d) = sd_bom_checked d" "sd_bom_prefix (sd_push_storage c d) = sd_bom_prefix d"
  "sd_bom_checked (sd_truncate d) = sd_bom_checked d" "sd_bom_prefix (sd_truncate d) = sd_bom_prefix d"
  "sd_bom_checked (sd_reset_event_name d) = sd_bom_checked d" "sd_bom_prefix (sd_reset_event_name d) = sd_bom_prefix d"
  "sd_bom_checked (sd_dispatch_event J d) = sd_bom_checked d" "sd_bom_prefix (sd_dispatch_event J d) = sd_bom_prefix d"
  by (simp_all add: sd_push_storage_def sd_mark_overflow_def sd_truncate_def sd_reset_event_name_def sd_dispatch_event_def Let_def)

lemma sd_byte_frame [simp]:
  "sd_bom_checked (sd_byte J c d) = sd_bom_checked d" "sd_bom_prefix (sd_byte J c d) = sd_bom_prefix d"
  by (simp_all add: sd_byte_def sd_finish_line_def sd_process_line_byte_def Let_def split: line_kind.split)

lemma sd_process_frame [simp]:
  "sd_bom_checked (sd_process J bs d) = sd_bom_checked d" "sd_bom_prefix (sd_process J bs d) = sd_bom_prefix d"
  by (induction bs arbitrary: d) simp_all

lemma finish_line_pending: "\<not> sd_pending_cr d \<Longrightarrow> \<not> sd_pending_cr (sd_finish_line J d)"
  by (simp add: sd_finish_line_def Let_def sd_reset_event_name_def sd_dispatch_event_def sd_push_storage_def
      sd_mark_overflow_def sd_truncate_def split: line_kind.split)

lemma line_byte_pending: "\<not> sd_pending_cr d \<Longrightarrow> \<not> sd_pending_cr (sd_process_line_byte c d)"
  by (simp add: sd_process_line_byte_def Let_def sd_reset_event_name_def sd_push_storage_def
      sd_mark_overflow_def sd_truncate_def split: line_kind.split)

text \<open>A decoder that still looks for the mark has room in its prefix and has stored nothing.\<close>

definition bom_ok :: "sse_decoder \<Rightarrow> bool" where
  "bom_ok d = (sd_bom_checked d \<or> (length (sd_bom_prefix d) < BOM_BYTES \<and> \<not> sd_overflowed d))"

lemma sd_bom_append:
  assumes "\<not> sd_bom_checked d" "length (sd_bom_prefix d) < BOM_BYTES" "\<not> sd_overflowed d" "sd_bom J a d = (d1, r)"
  shows "(sd_bom_checked d1 \<and> sd_bom J (a @ b) d = (d1, r @ b))
    \<or> (\<not> sd_bom_checked d1 \<and> r = [] \<and> \<not> sd_overflowed d1 \<and> length (sd_bom_prefix d1) < BOM_BYTES \<and> sd_bom J (a @ b) d = sd_bom J b d1)"
  using assms by (induction a arbitrary: d) (auto simp: Let_def split: if_splits)

lemma sd_observe_append:
  assumes "bom_ok d"
  shows "bom_ok (sd_observe J a d)" "sd_observe J (a @ b) d = sd_observe J b (sd_observe J a d)"
proof -
  consider (over) "sd_overflowed d" "sd_bom_checked d" | (checked) "sd_bom_checked d" "\<not> sd_overflowed d"
    | (looking) "\<not> sd_bom_checked d" "length (sd_bom_prefix d) < BOM_BYTES" "\<not> sd_overflowed d"
    using assms by (auto simp: bom_ok_def)
  then have "bom_ok (sd_observe J a d) \<and> sd_observe J (a @ b) d = sd_observe J b (sd_observe J a d)"
  proof cases
    case checked
    then show ?thesis by (auto simp: sd_observe_def sd_process_append bom_ok_def)
  next
    case looking
    obtain d1 r where e: "sd_bom J a d = (d1, r)" by (cases "sd_bom J a d")
    from sd_bom_append [OF looking e, of b] show ?thesis
      using looking e by (auto simp: sd_observe_def sd_process_append bom_ok_def)
  qed (auto simp: sd_observe_def bom_ok_def)
  then show "bom_ok (sd_observe J a d)" "sd_observe J (a @ b) d = sd_observe J b (sd_observe J a d)" by blast+
qed

lemma sd_observe_Nil: "bom_ok d \<Longrightarrow> sd_observe J [] d = d"
  by (simp add: sd_observe_def)

lemma sd_observe_chunks:
  "bom_ok d \<Longrightarrow> foldl (\<lambda>d c. sd_observe J c d) d chunks = sd_observe J (concat chunks) d"
proof (induction chunks arbitrary: d)
  case (Cons c cs)
  with sd_observe_append(1) [OF Cons.prems, of J c] show ?case by (simp add: sd_observe_append(2) [OF Cons.prems])
qed (simp add: sd_observe_Nil)

lemma bom_ok_new: "bom_ok (sd_new ep cache)"
  by (simp add: bom_ok_def sd_new_def BOM_BYTES_def)

text \<open>What a JSON body has collected after some chunks.\<close>

lemma json_observe_chunks:
  assumes "length st \<le> MAX_EVENT_METADATA"
  shows "\<exists>st'. foldl (\<lambda>ob c. rob_observe J c ob) (JsonObserver ep st False cache) chunks
     = (if length (st @ concat chunks) \<le> MAX_EVENT_METADATA then JsonObserver ep (st @ concat chunks) False cache
        else JsonObserver ep st' True cache)"
proof -
  have over: "foldl (\<lambda>ob c. rob_observe J c ob) (JsonObserver ep x True cache) cs = JsonObserver ep x True cache" for x cs
    by (induction cs) simp_all
  show ?thesis
    using assms
  proof (induction chunks arbitrary: st)
    case (Cons c cs)
    show ?case
    proof (cases "MAX_EVENT_METADATA - length st < length c")
      case True
      with Cons.prems over show ?thesis by auto
    next
      case False
      with Cons.prems have "length (st @ c) \<le> MAX_EVENT_METADATA" by simp
      from Cons.IH [OF this] False show ?thesis by (auto split: if_splits)
    qed
  qed simp
qed

definition rob_outcome ::
  "(string \<Rightarrow> json option) \<Rightarrow> response_observer
     \<Rightarrow> (observed_usage option \<times> bool \<times> response_error_class option) \<times> bool \<times> bool \<times> bool" where
  "rob_outcome J ob = (rob_finish J ob, rob_overflowed ob, rob_first_output_delta ob, rob_terminal_marker ob)"

text \<open>
  C38: how the network cuts a response into chunks is invisible.  Usage, cache completeness, error
  class, overflow and the stream markers after any sequence of chunks are those of the whole body
  in one piece, for event streams and for JSON bodies.
\<close>

theorem chunking_is_invisible:
  "rob_outcome J (foldl (\<lambda>ob c. rob_observe J c ob) (rob_new ep representation cache) chunks)
   = rob_outcome J (rob_observe J (concat chunks) (rob_new ep representation cache))"
proof -
  have sse: "foldl (\<lambda>ob c. rob_observe J c ob) (SseObserver d) cs = SseObserver (foldl (\<lambda>d c. sd_observe J c d) d cs)" for d cs
    by (induction cs arbitrary: d) simp_all
  have uns: "foldl (\<lambda>ob c. rob_observe J c ob) UnsupportedObserver cs = UnsupportedObserver" for cs
    by (induction cs) simp_all
  have json: "rob_outcome J (foldl (\<lambda>ob c. rob_observe J c ob) (JsonObserver ep [] False cache) chunks)
     = rob_outcome J (rob_observe J (concat chunks) (JsonObserver ep [] False cache))"
    using json_observe_chunks [of "[]" J ep cache chunks] by (auto simp: rob_outcome_def)
  from sse uns json sd_observe_chunks [OF bom_ok_new] show ?thesis
    by (simp add: rob_new_def split: option.split)
qed

section \<open>The reference\<close>

fun skip_lf :: "string \<Rightarrow> string" where
  "skip_lf [] = []"
| "skip_lf (c # cs) = (if c = LF then cs else c # cs)"

lemma length_skip_lf: "length (skip_lf cs) \<le> length cs"
  by (cases cs) simp_all

text \<open>The complete lines of a stream, ended by CR, LF or CR LF, and the rest; \<open>cur\<close> is the line so far.\<close>

function ref_split :: "string \<Rightarrow> string \<Rightarrow> string list \<times> string" where
  "ref_split cur [] = ([], cur)"
| "ref_split cur (c # cs) =
     (if c = CR then (let (ls, r) = ref_split [] (skip_lf cs) in (cur # ls, r))
      else if c = LF then (let (ls, r) = ref_split [] cs in (cur # ls, r))
      else ref_split (cur @ [c]) cs)"
  by pat_completeness auto
termination
  by (relation "measure (length \<circ> snd)") (auto simp: le_imp_less_Suc length_skip_lf)

record ref_state =
  rf_endpoint :: endpoint_observer
  rf_event :: sse_event
  rf_data :: "string list"

fun join_lf :: "string list \<Rightarrow> string" where
  "join_lf [] = []"
| "join_lf [v] = v"
| "join_lf (v # vs) = v @ LF # join_lf vs"

definition strip_space :: "string \<Rightarrow> string" where
  "strip_space v = (case v of c # cs \<Rightarrow> if c = CHR '' '' then cs else v | [] \<Rightarrow> [])"

definition field_of :: "string \<Rightarrow> string \<times> string" where
  "field_of line =
     (takeWhile (\<lambda>c. c \<noteq> CHR '':'') line, strip_space (tl (dropWhile (\<lambda>c. c \<noteq> CHR '':'') line)))"

definition ref_line :: "(string \<Rightarrow> json option) \<Rightarrow> ref_state \<Rightarrow> string \<Rightarrow> ref_state" where
  "ref_line J r line =
     (if line = [] then
        r\<lparr>rf_endpoint := (if rf_data r = [] then rf_endpoint r
            else eo_observe J (event_as_str (rf_event r)) (join_lf (rf_data r)) (rf_endpoint r)),
          rf_event := EvDefault, rf_data := []\<rparr>
      else let (f, v) = field_of line in
        if f = ''data'' then r\<lparr>rf_data := rf_data r @ [v]\<rparr>
        else if f = ''event'' then r\<lparr>rf_event := event_from_bytes v False\<rparr>
        else r)"

definition ref_new :: "endpoint \<Rightarrow> bool \<Rightarrow> ref_state" where
  "ref_new ep cache = \<lparr>rf_endpoint = eo_new ep cache, rf_event = EvDefault, rf_data = []\<rparr>"

definition strip_bom :: "string \<Rightarrow> string" where
  "strip_bom bs = (if prefix BOM bs then drop BOM_BYTES bs else bs)"

section \<open>Simulation\<close>

lemma join_lf_snoc: "join_lf (vs @ [v]) = (if vs = [] then v else join_lf vs @ LF # v)"
  by (induction vs rule: join_lf.induct) simp_all

text \<open>What the decoder has made of the current line.\<close>

definition line_sim :: "string \<Rightarrow> string list \<Rightarrow> sse_decoder \<Rightarrow> bool" where
  "line_sim cur vs d =
     (case sd_line_kind d of
        FieldLine \<Rightarrow> sd_storage d = join_lf vs @ cur \<and> CHR '':'' \<notin> set cur
      | DataLine b \<Rightarrow> \<exists>v. cur = ''data:'' @ v \<and> b = (v = [])
          \<and> sd_storage d = join_lf vs @ (if vs = [] then [] else [LF]) @ strip_space v
      | EventLine b \<Rightarrow> \<exists>v. cur = ''event:'' @ v \<and> b = (v = []) \<and> sd_storage d = join_lf vs
          \<and> sd_event_name d = take EVENT_NAME_BYTES (strip_space v)
          \<and> sd_event_name_overflow d = (EVENT_NAME_BYTES < length (strip_space v))
      | IgnoreLine \<Rightarrow> sd_storage d = join_lf vs \<and> (\<exists>f v. cur = f @ CHR '':'' # v \<and> CHR '':'' \<notin> set f
          \<and> f \<noteq> ''data'' \<and> f \<noteq> ''event''))"

definition sim :: "string \<Rightarrow> ref_state \<Rightarrow> sse_decoder \<Rightarrow> bool" where
  "sim cur r d =
     (sd_endpoint d = rf_endpoint r \<and> sd_event d = rf_event r \<and> sd_has_data d = (rf_data r \<noteq> [])
      \<and> \<not> sd_overflowed d \<and> sd_line_start d = length (join_lf (rf_data r)) \<and> line_sim cur (rf_data r) d
      \<and> (sd_line_kind d = FieldLine \<longrightarrow> sd_event_name d = [] \<and> \<not> sd_event_name_overflow d))"

lemma sim_pending [simp]: "sim cur r (d\<lparr>sd_pending_cr := b\<rparr>) = sim cur r d"
  by (cases "sd_line_kind d") (simp_all add: sim_def line_sim_def)

lemma strip_space_snoc: "strip_space (v @ [c]) = (if v = [] \<and> c = CHR '' '' then [] else strip_space v @ [c])"
  by (auto simp: strip_space_def split: list.split)

lemma field_of_colon: "CHR '':'' \<notin> set f \<Longrightarrow> field_of (f @ CHR '':'' # v) = (f, strip_space v)"
  by (induction f) (auto simp: field_of_def)

lemma field_of_plain: "CHR '':'' \<notin> set f \<Longrightarrow> field_of f = (f, [])"
proof -
  assume f: "CHR '':'' \<notin> set f"
  then have e: "dropWhile (\<lambda>c. c \<noteq> CHR '':'') f = []" "takeWhile (\<lambda>c. c \<noteq> CHR '':'') f = f"
    unfolding dropWhile_eq_Nil_conv takeWhile_eq_all_conv by metis+
  show ?thesis unfolding field_of_def e by (simp add: strip_space_def)
qed

lemma push_ok: "\<not> sd_overflowed (sd_push_storage c d) \<Longrightarrow> sd_push_storage c d = d\<lparr>sd_storage := sd_storage d @ [c]\<rparr>"
  by (auto simp: sd_push_storage_def sd_mark_overflow_def)

lemma sim_line_byte:
  assumes s: "sim cur r d" and o: "\<not> sd_overflowed (sd_process_line_byte c d)"
  shows "sim (cur @ [c]) r (sd_process_line_byte c d)"
proof (cases "sd_line_kind d")
  case FieldLine
  have st: "sd_storage d = join_lf (rf_data r) @ cur" "CHR '':'' \<notin> set cur" "sd_line d = cur"
    "sd_line_start d = length (join_lf (rf_data r))"
    using s FieldLine by (simp_all add: sim_def line_sim_def sd_line_def)
  show ?thesis
  proof (cases "c = CHR '':''")
    case False
    with o FieldLine have "sd_process_line_byte c d = d\<lparr>sd_storage := sd_storage d @ [c]\<rparr>"
      by (intro trans [OF _ push_ok]) (simp_all add: sd_process_line_byte_def)
    with s st False FieldLine show ?thesis by (simp add: sim_def line_sim_def)
  next
    case True
    show ?thesis
    proof (cases "cur = []")
      case True
      have "\<exists>f v. [c] = f @ CHR '':'' # v \<and> CHR '':'' \<notin> set f \<and> f \<noteq> ''data'' \<and> f \<noteq> ''event''"
        using \<open>c = CHR '':''\<close> by (intro exI [of _ "[]"]) simp
      with True show ?thesis using s st FieldLine \<open>c = CHR '':''\<close>
        by (auto simp: sim_def line_sim_def sd_process_line_byte_def)
    next
      case cur: False
      have t: "sd_truncate d = d\<lparr>sd_storage := join_lf (rf_data r)\<rparr>" using st by (simp add: sd_truncate_def)
      consider "cur = ''data''" | "cur = ''event''" | "cur \<noteq> ''data''" "cur \<noteq> ''event''" by blast
      then show ?thesis
      proof cases
        case 1
        let ?t = "if sd_has_data d then sd_push_storage LF (sd_truncate d) else sd_truncate d"
        have e: "sd_process_line_byte c d = ?t\<lparr>sd_line_kind := DataLine True\<rparr>"
          using 1 st FieldLine True by (simp add: sd_process_line_byte_def Let_def)
        with o have "\<not> sd_overflowed ?t" by simp
        then have "?t = d\<lparr>sd_storage := join_lf (rf_data r) @ (if rf_data r = [] then [] else [LF])\<rparr>"
          using s by (auto simp: sim_def t dest!: push_ok split: if_splits)
        with s 1 True show ?thesis unfolding e
          by (auto simp: sim_def line_sim_def strip_space_def)
      next
        case 2
        then show ?thesis using s st FieldLine True
          by (auto simp: sim_def line_sim_def sd_process_line_byte_def Let_def t sd_reset_event_name_def strip_space_def)
      next
        case 3
        then show ?thesis using s st FieldLine True cur
          by (auto simp: sim_def line_sim_def sd_process_line_byte_def Let_def t)
      qed
    qed
  qed
next
  case (DataLine b)
  then obtain v where v: "cur = ''data:'' @ v" "b = (v = [])"
    "sd_storage d = join_lf (rf_data r) @ (if rf_data r = [] then [] else [LF]) @ strip_space v"
    using s by (auto simp: sim_def line_sim_def)
  show ?thesis
  proof (cases "v = [] \<and> c = CHR '' ''")
    case True
    with s v DataLine show ?thesis by (auto simp: sim_def line_sim_def sd_process_line_byte_def strip_space_def)
  next
    case False
    with v(2) DataLine have e: "sd_process_line_byte c d = sd_push_storage c (d\<lparr>sd_line_kind := DataLine False\<rparr>)"
      by (auto simp: sd_process_line_byte_def)
    note push_ok [OF o [unfolded e]]
    with s v False show ?thesis unfolding e by (auto simp: sim_def line_sim_def strip_space_snoc)
  qed
next
  case (EventLine b)
  then obtain v where v: "cur = ''event:'' @ v" "b = (v = [])" "sd_storage d = join_lf (rf_data r)"
    "sd_event_name d = take EVENT_NAME_BYTES (strip_space v)" "sd_event_name_overflow d = (EVENT_NAME_BYTES < length (strip_space v))"
    using s by (auto simp: sim_def line_sim_def)
  show ?thesis
  proof (cases "v = [] \<and> c = CHR '' ''")
    case True
    with s v EventLine show ?thesis by (auto simp: sim_def line_sim_def sd_process_line_byte_def strip_space_def)
  next
    case False
    then have "strip_space (v @ [c]) = strip_space v @ [c]" by (simp add: strip_space_snoc)
    with s v False EventLine show ?thesis
      by (auto simp: sim_def line_sim_def sd_process_line_byte_def Let_def min_def)
  qed
next
  case IgnoreLine
  then obtain f v where v: "cur = f @ CHR '':'' # v" "CHR '':'' \<notin> set f" "f \<noteq> ''data''" "f \<noteq> ''event''"
    using s by (auto simp: sim_def line_sim_def)
  have "\<exists>f' v'. cur @ [c] = f' @ CHR '':'' # v' \<and> CHR '':'' \<notin> set f' \<and> f' \<noteq> ''data'' \<and> f' \<noteq> ''event''"
    using v by (intro exI [of _ f] exI [of _ "v @ [c]"]) simp
  with s IgnoreLine show ?thesis by (auto simp: sim_def line_sim_def sd_process_line_byte_def)
qed

lemma event_name_cut:
  "event_from_bytes (take EVENT_NAME_BYTES v) (EVENT_NAME_BYTES < length v) = event_from_bytes v False"
proof (cases "EVENT_NAME_BYTES < length v")
  case True
  then have "v \<notin> set ['''', ''message_start'', ''message_delta'', ''content_block_delta'', ''message_stop'', ''error'']"
    by (auto simp: EVENT_NAME_BYTES_def)
  with True show ?thesis by (simp add: event_from_bytes_def)
qed simp

lemma sim_finish_line:
  assumes s: "sim cur r d" and o: "\<not> sd_overflowed (sd_finish_line J d)"
  shows "sim [] (ref_line J r cur) (sd_finish_line J d)"
proof (cases "sd_line_kind d")
  case FieldLine
  have st: "sd_storage d = join_lf (rf_data r) @ cur" "CHR '':'' \<notin> set cur" "sd_line d = cur"
    "sd_line_start d = length (join_lf (rf_data r))"
    using s FieldLine by (simp_all add: sim_def line_sim_def sd_line_def)
  have t: "sd_truncate d = d\<lparr>sd_storage := join_lf (rf_data r)\<rparr>" using st by (simp add: sd_truncate_def)
  consider "cur = []" | "cur = ''data''" | "cur = ''event''" | "cur \<noteq> ''data''" "cur \<noteq> ''event''" "cur \<noteq> []" by blast
  then show ?thesis
  proof cases
    case 1
    with s st FieldLine show ?thesis
      by (auto simp: sim_def line_sim_def sd_finish_line_def sd_dispatch_event_def sd_reset_event_name_def ref_line_def Let_def)
  next
    case 2
    let ?t = "if sd_has_data d then sd_push_storage LF (sd_truncate d) else sd_truncate d"
    have e: "sd_finish_line J d = sd_reset_event_name (?t\<lparr>sd_has_data := True, sd_line_start := length (sd_storage ?t), sd_line_kind := FieldLine\<rparr>)"
      using 2 st FieldLine by (simp add: sd_finish_line_def Let_def)
    with o have "\<not> sd_overflowed ?t" by (simp add: sd_reset_event_name_def split: if_splits)
    then have "?t = d\<lparr>sd_storage := join_lf (rf_data r) @ (if rf_data r = [] then [] else [LF])\<rparr>"
      using s by (auto simp: sim_def t dest!: push_ok split: if_splits)
    moreover have "ref_line J r cur = r\<lparr>rf_data := rf_data r @ [[]]\<rparr>" using field_of_plain [OF st(2)] 2 by (simp add: ref_line_def)
    ultimately show ?thesis using s unfolding e
      by (auto simp: sim_def line_sim_def sd_reset_event_name_def join_lf_snoc)
  next
    case 3
    moreover have "ref_line J r cur = r\<lparr>rf_event := EvDefault\<rparr>"
      using field_of_plain [OF st(2)] 3 by (simp add: ref_line_def event_from_bytes_def)
    ultimately show ?thesis using s st FieldLine
      by (auto simp: sim_def line_sim_def sd_finish_line_def Let_def t sd_reset_event_name_def)
  next
    case 4
    moreover have "ref_line J r cur = r" using field_of_plain [OF st(2)] 4 by (simp add: ref_line_def)
    ultimately show ?thesis using s st FieldLine
      by (auto simp: sim_def line_sim_def sd_finish_line_def Let_def t sd_reset_event_name_def)
  qed
next
  case (DataLine b)
  then obtain v where v: "cur = ''data:'' @ v"
    "sd_storage d = join_lf (rf_data r) @ (if rf_data r = [] then [] else [LF]) @ strip_space v"
    using s by (auto simp: sim_def line_sim_def)
  have "ref_line J r cur = r\<lparr>rf_data := rf_data r @ [strip_space v]\<rparr>"
    using field_of_colon [of "''data''" v] v(1) by (simp add: ref_line_def)
  with s v DataLine show ?thesis
    by (auto simp: sim_def line_sim_def sd_finish_line_def Let_def sd_reset_event_name_def join_lf_snoc)
next
  case (EventLine b)
  then obtain v where v: "cur = ''event:'' @ v" "sd_storage d = join_lf (rf_data r)"
    "sd_event_name d = take EVENT_NAME_BYTES (strip_space v)" "sd_event_name_overflow d = (EVENT_NAME_BYTES < length (strip_space v))"
    using s by (auto simp: sim_def line_sim_def)
  have "ref_line J r cur = r\<lparr>rf_event := event_from_bytes (strip_space v) False\<rparr>"
    using field_of_colon [of "''event''" v] v(1) by (simp add: ref_line_def)
  with s v EventLine show ?thesis
    by (auto simp: sim_def line_sim_def sd_finish_line_def Let_def sd_reset_event_name_def event_name_cut)
next
  case IgnoreLine
  then obtain f v where v: "cur = f @ CHR '':'' # v" "CHR '':'' \<notin> set f" "f \<noteq> ''data''" "f \<noteq> ''event''"
    "sd_storage d = join_lf (rf_data r)" using s by (auto simp: sim_def line_sim_def)
  have "ref_line J r cur = r" using field_of_colon [OF v(2)] v by (simp add: ref_line_def)
  with s v(5) IgnoreLine show ?thesis
    by (auto simp: sim_def line_sim_def sd_finish_line_def Let_def sd_reset_event_name_def)
qed

lemma sd_byte_overflow: "sd_overflowed d \<Longrightarrow> sd_overflowed (sd_process J bs d)"
  by simp

lemma sim_process:
  assumes "sim cur r d" "\<not> sd_overflowed (sd_process J bs d)"
    "ref_split cur (if sd_pending_cr d then skip_lf bs else bs) = (ls, rest)"
  shows "sim rest (foldl (ref_line J) r ls) (sd_process J bs d)"
  using assms
proof (induction bs arbitrary: cur r d ls rest)
  case (Cons b bs)
  have nov: "\<not> sd_overflowed d" using Cons.prems(1) by (simp add: sim_def)
  have o: "\<not> sd_overflowed (sd_process J bs (sd_byte J b d))" using Cons.prems(2) nov by simp
  then have o1: "\<not> sd_overflowed (sd_byte J b d)" using sd_byte_overflow by blast
  let ?d = "d\<lparr>sd_pending_cr := False\<rparr>"
  consider (skip) "sd_pending_cr d" "b = LF" | (cr) "b = CR" | (lf) "b = LF" "\<not> sd_pending_cr d" | (other) "b \<noteq> CR" "b \<noteq> LF" by blast
  then show ?case
  proof cases
    case skip
    then have "sd_byte J b d = ?d" by (simp add: sd_byte_def)
    with Cons.IH [of cur r ?d ls rest] Cons.prems skip o nov show ?thesis by simp
  next
    case cr
    then have e: "sd_byte J b d = (sd_finish_line J ?d)\<lparr>sd_pending_cr := True\<rparr>" by (simp add: sd_byte_def Let_def)
    obtain ls' where ls: "ls = cur # ls'" "ref_split [] (skip_lf bs) = (ls', rest)"
      using Cons.prems(3) cr by (auto split: prod.splits if_splits)
    have "sim [] (ref_line J r cur) (sd_finish_line J ?d)" using Cons.prems(1) o1 by (intro sim_finish_line) (simp_all add: e)
    then have "sim [] (ref_line J r cur) (sd_byte J b d)" by (simp add: e)
    from Cons.IH [OF this o] ls nov show ?thesis by (simp add: e)
  next
    case lf
    then have e: "sd_byte J b d = sd_finish_line J ?d" by (simp add: sd_byte_def Let_def)
    have np: "\<not> sd_pending_cr (sd_finish_line J ?d)" by (rule finish_line_pending) simp
    obtain ls' where ls: "ls = cur # ls'" "ref_split [] bs = (ls', rest)"
      using Cons.prems(3) lf by (auto split: prod.splits if_splits)
    have "sim [] (ref_line J r cur) (sd_byte J b d)" unfolding e using Cons.prems(1) o1 by (intro sim_finish_line) (simp_all add: e)
    from Cons.IH [OF this o] ls nov np show ?thesis by (simp add: e)
  next
    case other
    then have e: "sd_byte J b d = sd_process_line_byte b ?d" by (simp add: sd_byte_def Let_def)
    have np: "\<not> sd_pending_cr (sd_process_line_byte b ?d)" by (rule line_byte_pending) simp
    have ls: "ref_split (cur @ [b]) bs = (ls, rest)"
      using Cons.prems(3) other by (auto split: if_splits)
    have "sim (cur @ [b]) r (sd_byte J b d)" unfolding e using Cons.prems(1) o1 by (intro sim_line_byte) (simp_all add: e)
    from Cons.IH [OF this o] ls nov np show ?thesis by (simp add: e)
  qed
qed (simp split: if_splits)

section \<open>The whole stream\<close>

lemma bom_bytes: "BOM_BYTES = length BOM" "CR \<notin> set BOM" "LF \<notin> set BOM"
  by (simp_all add: BOM_BYTES_def BOM_def)

lemma ref_split_plain: "CR \<notin> set bs \<Longrightarrow> LF \<notin> set bs \<Longrightarrow> ref_split cur bs = ([], cur @ bs)"
  by (induction bs arbitrary: cur) auto

text \<open>The search for the mark: it ends with the mark consumed, with the prefix processed, or is still on.\<close>

lemma sd_bom_cases:
  assumes "\<not> sd_bom_checked d" "strict_prefix (sd_bom_prefix d) BOM" "\<not> sd_overflowed d"
  shows "(strict_prefix (sd_bom_prefix d @ bs) BOM \<and> sd_bom J bs d = (d\<lparr>sd_bom_prefix := sd_bom_prefix d @ bs\<rparr>, []))
    \<or> (\<not> strict_prefix (sd_bom_prefix d @ bs) BOM \<and> (case sd_bom J bs d of (d1, rest) \<Rightarrow> sd_process J rest d1)
         = sd_process J (strip_bom (sd_bom_prefix d @ bs)) (d\<lparr>sd_bom_checked := True, sd_bom_prefix := []\<rparr>))"
  using assms
proof (induction bs arbitrary: d)
  case (Cons b bs)
  let ?p = "sd_bom_prefix d @ [b]" and ?d = "d\<lparr>sd_bom_checked := True, sd_bom_prefix := []\<rparr>"
  have len: "length (sd_bom_prefix d) < BOM_BYTES"
    using prefix_length_less [OF Cons.prems(2)] by (simp add: bom_bytes)
  show ?case
  proof (cases "prefix ?p BOM")
    case False
    then have "\<not> prefix (?p @ bs) BOM" by (meson append_prefixD)
    moreover have "\<not> prefix BOM (?p @ bs)"
    proof
      assume "prefix BOM (?p @ bs)"
      then have "prefix ?p BOM" by (rule prefix_length_prefix [rotated]) (use len in \<open>simp_all add: bom_bytes\<close>)
      with False show False by simp
    qed
    ultimately show ?thesis using False len by (simp add: Let_def strip_bom_def sd_process_append [symmetric] strict_prefix_def)
  next
    case True
    show ?thesis
    proof (cases "length ?p = BOM_BYTES")
      case full: True
      with True have p: "?p = BOM" using prefix_length_prefix [of BOM BOM ?p] by (intro prefix_order.antisym) (simp_all add: bom_bytes)
      then have b: "sd_bom_prefix d @ b # bs = BOM @ bs" by simp
      have "\<not> strict_prefix (BOM @ bs) BOM" by (meson append_prefixD prefix_order.less_asym prefix_order.less_le_not_le prefixI)
      moreover have "strip_bom (BOM @ bs) = bs" by (simp add: strip_bom_def bom_bytes)
      ultimately show ?thesis unfolding b using True full len by (simp add: Let_def)
    next
      case False
      then have "?p \<noteq> BOM" by (metis bom_bytes(1))
      with True have sp: "strict_prefix ?p BOM" by (simp add: strict_prefix_def)
      from Cons.IH [of "d\<lparr>sd_bom_prefix := ?p\<rparr>"] Cons.prems sp True False len show ?thesis by (simp add: Let_def)
    qed
  qed
qed simp

lemma observe_new:
  "sd_observe J bs (sd_new ep cache) =
     (if strict_prefix bs BOM then (sd_new ep cache)\<lparr>sd_bom_prefix := bs\<rparr>
      else sd_process J (strip_bom bs) ((sd_new ep cache)\<lparr>sd_bom_checked := True\<rparr>))"
proof -
  let ?n = "sd_new ep cache"
  have n: "\<not> sd_bom_checked ?n" "sd_bom_prefix ?n = []" "\<not> sd_overflowed ?n" by (simp_all add: sd_new_def)
  have eq: "?n\<lparr>sd_bom_checked := True, sd_bom_prefix := []\<rparr> = ?n\<lparr>sd_bom_checked := True\<rparr>" by (simp add: sd_new_def)
  have "strict_prefix (sd_bom_prefix ?n) BOM" by (simp add: n BOM_def)
  from sd_bom_cases [OF n(1) this n(3), of bs J] show ?thesis unfolding n append_Nil eq using n by (auto simp: sd_observe_def)
qed

definition ref_run :: "(string \<Rightarrow> json option) \<Rightarrow> endpoint \<Rightarrow> bool \<Rightarrow> string \<Rightarrow> ref_state \<times> string" where
  "ref_run J ep cache bs =
     (let (ls, rest) = ref_split [] (strip_bom bs) in (foldl (ref_line J) (ref_new ep cache) ls, rest))"

text \<open>
  C37: the incremental decoder implements the event-stream format.  Unless an event outgrew the
  buffer, the endpoint observer has seen exactly the events that the reference finds in the whole
  stream (an optional byte order mark is dropped, lines end with CR, LF or CR LF, one space after
  the colon is dropped, data lines are joined, an event without data is not reported), and the
  decoder is at an event boundary exactly when the stream has no unfinished event or line.
\<close>

theorem sse_decoder_reference:
  assumes "\<not> sd_overflowed (sd_observe J bs (sd_new ep cache))" "ref_run J ep cache bs = (r, rest)"
  shows "sd_endpoint (sd_observe J bs (sd_new ep cache)) = rf_endpoint r
    \<and> sd_at_event_boundary (sd_observe J bs (sd_new ep cache))
        = (bs \<noteq> [] \<and> rest = [] \<and> rf_data r = [] \<and> rf_event r = EvDefault)"
proof (cases "strict_prefix bs BOM")
  case True
  then have b: "CR \<notin> set bs" "LF \<notin> set bs" "strip_bom bs = bs"
    using bom_bytes set_mono_prefix [of bs BOM] by (auto simp: strip_bom_def strict_prefix_def prefix_order.eq_iff)
  with assms(2) have "r = ref_new ep cache" "rest = bs" by (auto simp: ref_run_def ref_split_plain)
  moreover have "sd_observe J bs (sd_new ep cache) = (sd_new ep cache)\<lparr>sd_bom_prefix := bs\<rparr>" using True by (simp add: observe_new)
  ultimately show ?thesis by (simp add: ref_new_def sd_new_def sd_at_event_boundary_def)
next
  case False
  let ?d = "(sd_new ep cache)\<lparr>sd_bom_checked := True\<rparr>"
  obtain ls where ls: "ref_split [] (strip_bom bs) = (ls, rest)" "r = foldl (ref_line J) (ref_new ep cache) ls"
    using assms(2) by (auto simp: ref_run_def split: prod.splits)
  have "sim [] (ref_new ep cache) ?d" by (simp add: sim_def line_sim_def ref_new_def sd_new_def)
  then have s: "sim rest r (sd_process J (strip_bom bs) ?d)"
    unfolding ls(2)
  proof (rule sim_process)
    show "\<not> sd_overflowed (sd_process J (strip_bom bs) ?d)" using assms(1) False by (simp add: observe_new)
    show "ref_split [] (if sd_pending_cr ?d then skip_lf (strip_bom bs) else strip_bom bs) = (ls, rest)"
      using ls(1) by (simp add: sd_new_def)
  qed
  let ?e = "sd_process J (strip_bom bs) ?d"
  have f: "sd_bom_checked ?e" "sd_bom_prefix ?e = []" by (simp_all add: sd_new_def)
  have ne: "bs \<noteq> []" using False by (auto simp: BOM_def)
  have "sd_at_event_boundary ?e = (rest = [] \<and> rf_data r = [] \<and> rf_event r = EvDefault)"
    using s f by (cases "sd_line_kind ?e") (auto simp: sim_def line_sim_def sd_at_event_boundary_def)
  with s ne False show ?thesis by (simp add: observe_new sim_def)
qed

definition demo_json :: "string \<Rightarrow> json option" where
  "demo_json s = (if s = ''m'' @ [LF] @ ''n'' then Some (JObj [(''type'', JStr ''message_stop'')]) else None)"

definition demo_stream :: string where
  "demo_stream = BOM @ '': note'' @ [CR, LF] @ ''event: message_stop'' @ [LF] @ ''data: m'' @ [CR] @ ''data:n'' @ [LF, LF]"

theorem sse_decoder_reference_witness:
  "let d = sd_observe demo_json demo_stream (sd_new Messages False); r = fst (ref_run demo_json Messages False demo_stream) in
   sd_endpoint d = rf_endpoint r \<and> sd_at_event_boundary d \<and> eo_terminal_marker (sd_endpoint d)"
proof -
  let ?d = "sd_observe demo_json demo_stream (sd_new Messages False)"
  obtain r rest where r: "ref_run demo_json Messages False demo_stream = (r, rest)" by (metis surj_pair)
  have o: "\<not> sd_overflowed ?d" by code_simp
  have "sd_at_event_boundary ?d" "eo_terminal_marker (sd_endpoint ?d)" by code_simp+
  with sse_decoder_reference [OF o r] r show ?thesis by simp
qed

section \<open>Memory\<close>

definition sd_bounded :: "sse_decoder \<Rightarrow> bool" where
  "sd_bounded d = (length (sd_storage d) \<le> EVENT_STORAGE_BYTES \<and> length (sd_event_name d) \<le> EVENT_NAME_BYTES
     \<and> sd_line_start d \<le> length (sd_storage d))"

lemma push_bounded: "sd_bounded d \<Longrightarrow> sd_bounded (sd_push_storage c d)"
  by (auto simp: sd_bounded_def sd_push_storage_def sd_mark_overflow_def)

lemma truncate_bounded: "sd_bounded d \<Longrightarrow> sd_bounded (sd_truncate d)"
  by (auto simp: sd_bounded_def sd_truncate_def)

lemma bounded_frame [simp]:
  "sd_bounded (d\<lparr>sd_line_kind := k\<rparr>) = sd_bounded d" "sd_bounded (d\<lparr>sd_has_data := h\<rparr>) = sd_bounded d"
  "sd_bounded (d\<lparr>sd_pending_cr := h\<rparr>) = sd_bounded d" "sd_bounded (d\<lparr>sd_event := v\<rparr>) = sd_bounded d"
  "sd_bounded (d\<lparr>sd_bom_checked := h\<rparr>) = sd_bounded d" "sd_bounded (d\<lparr>sd_bom_prefix := p\<rparr>) = sd_bounded d"
  "sd_bounded (d\<lparr>sd_event_name_overflow := h\<rparr>) = sd_bounded d" "sd_bounded (d\<lparr>sd_endpoint := e\<rparr>) = sd_bounded d"
  by (simp_all add: sd_bounded_def)

lemma reset_bounded: "sd_bounded d \<Longrightarrow> sd_bounded (sd_reset_event_name d)"
  by (simp add: sd_bounded_def sd_reset_event_name_def)

lemma line_byte_bounded: "sd_bounded d \<Longrightarrow> sd_bounded (sd_process_line_byte c d)"
  by (auto simp: sd_process_line_byte_def Let_def push_bounded truncate_bounded reset_bounded split: line_kind.split)
    (auto simp: sd_bounded_def)

lemma finish_line_bounded: "sd_bounded d \<Longrightarrow> sd_bounded (sd_finish_line J d)"
proof -
  assume d: "sd_bounded d"
  have cut: "sd_bounded (x\<lparr>sd_line_start := length (sd_storage x), sd_line_kind := FieldLine\<rparr>)" if "sd_bounded x" for x
    using that by (simp add: sd_bounded_def)
  have dis: "sd_bounded (sd_dispatch_event J d)" using d by (simp add: sd_dispatch_event_def Let_def sd_bounded_def)
  have "sd_bounded (if sd_has_data d then sd_push_storage LF (sd_truncate d) else sd_truncate d)"
    using d by (simp add: push_bounded truncate_bounded)
  with d dis truncate_bounded [OF d] show ?thesis unfolding sd_finish_line_def Let_def
    by (intro reset_bounded cut) (simp split: line_kind.split if_splits)
qed

lemma process_bounded: "sd_bounded d \<Longrightarrow> sd_bounded (sd_process J bs d)"
  by (induction bs arbitrary: d) (simp_all add: sd_byte_def Let_def finish_line_bounded line_byte_bounded)

lemma bom_bounded: "sd_bounded d \<Longrightarrow> length (sd_bom_prefix d) \<le> BOM_BYTES \<Longrightarrow>
    sd_bounded (fst (sd_bom J bs d)) \<and> length (sd_bom_prefix (fst (sd_bom J bs d))) \<le> BOM_BYTES"
  by (induction bs arbitrary: d) (auto simp: Let_def process_bounded)

text \<open>
  The memory of a stream observer is bounded.  Whatever the upstream sends, and however it is
  cut, the decoder holds at most 256 KiB: the event buffer, the event name and the byte order
  mark stay within their arrays, and the start of the current line stays within the used part
  of the buffer, so no slice or index of the source is out of range.
\<close>

theorem sse_memory_bounded:
  "let d = foldl (\<lambda>d c. sd_observe J c d) (sd_new ep cache) chunks in
   length (sd_storage d) + length (sd_event_name d) + length (sd_bom_prefix d) \<le> MAX_EVENT_METADATA
   \<and> length (sd_storage d) \<le> EVENT_STORAGE_BYTES \<and> length (sd_event_name d) \<le> EVENT_NAME_BYTES
   \<and> length (sd_bom_prefix d) \<le> BOM_BYTES \<and> sd_line_start d \<le> length (sd_storage d)"
proof -
  let ?P = "\<lambda>d. sd_bounded d \<and> length (sd_bom_prefix d) \<le> BOM_BYTES"
  have step: "?P (sd_observe J c d)" if "?P d" for c d
    using that bom_bounded [of d J c] by (auto simp: sd_observe_def process_bounded split: prod.split)
  have "?P (foldl (\<lambda>d c. sd_observe J c d) d chunks)" if "?P d" for d
    using that step by (induction chunks arbitrary: d) auto
  moreover have "?P (sd_new ep cache)" by (simp add: sd_bounded_def sd_new_def)
  ultimately show ?thesis
    by (auto simp: Let_def sd_bounded_def EVENT_STORAGE_BYTES_def EVENT_NAME_BYTES_def BOM_BYTES_def MAX_EVENT_METADATA_def
        dest!: meta_spec [of _ "sd_new ep cache"])
qed

end
