(* ===== verification/Key_Frames.thy ===== *)
theory Key_Frames
  imports Rust_Prelude
begin

text \<open>
  The framing of hash inputs in \<^verbatim>\<open>circuit.rs\<close> and \<^verbatim>\<open>cache.rs\<close>: each field is preceded by its length as
  eight big-endian bytes, so that the concatenation determines the fields.  The hash itself is a
  parameter of the models.
\<close>

text \<open>\<^verbatim>\<open>u64::to_be_bytes\<close>: the last \<open>k\<close> bytes of a number, most significant first.\<close>

fun be_bytes :: "nat \<Rightarrow> nat \<Rightarrow> string" where
  "be_bytes 0 n = []"
| "be_bytes (Suc k) n = be_bytes k (n div 256) @ [char_of (n mod 256)]"

definition be64 :: "nat \<Rightarrow> string" where
  "be64 n = be_bytes 8 n"

definition frame :: "string \<Rightarrow> string" where
  "frame bytes = be64 (length bytes) @ bytes"

definition frames :: "string list \<Rightarrow> string" where
  "frames fs = concat (map frame fs)"

definition short :: "string \<Rightarrow> bool" where
  "short s = (length s \<le> u64_max)"

lemma length_be_bytes [simp]: "length (be_bytes k n) = k"
  by (induction k arbitrary: n) simp_all

lemma length_be64 [simp]: "length (be64 n) = 8"
  by (simp add: be64_def)

lemma be_bytes_inj: "be_bytes k m = be_bytes k n \<Longrightarrow> m < 256 ^ k \<Longrightarrow> n < 256 ^ k \<Longrightarrow> m = n"
proof (induction k arbitrary: m n)
  case (Suc k)
  then have e: "be_bytes k (m div 256) = be_bytes k (n div 256)" "char_of (m mod 256) = (char_of (n mod 256) :: char)"
    by simp_all
  have "m div 256 < 256 ^ k" "n div 256 < 256 ^ k" using Suc.prems by (simp_all add: less_mult_imp_div_less mult.commute)
  with Suc.IH e(1) have "m div 256 = n div 256" by blast
  moreover have "m mod 256 = n mod 256"
    using arg_cong [OF e(2), of "of_char :: char \<Rightarrow> nat"] by (simp add: of_char_of)
  ultimately show ?case by (metis div_mult_mod_eq)
qed simp

lemma be64_inj: "be64 m = be64 n \<Longrightarrow> m \<le> u64_max \<Longrightarrow> n \<le> u64_max \<Longrightarrow> m = n"
proof -
  have p: "k < 256 ^ 8" if "k \<le> u64_max" for k :: nat using that by (simp add: u64_max_def power_numeral_reduce)
  show "be64 m = be64 n \<Longrightarrow> m \<le> u64_max \<Longrightarrow> n \<le> u64_max \<Longrightarrow> m = n"
    unfolding be64_def by (rule be_bytes_inj) (auto intro: p)
qed

lemma frame_append_inj:
  assumes "frame a @ x = frame b @ y" "short a" "short b"
  shows "a = b" "x = y"
proof -
  from assms(1) have e: "be64 (length a) @ a @ x = be64 (length b) @ b @ y" by (simp add: frame_def)
  then have "be64 (length a) = be64 (length b)" and r: "a @ x = b @ y" by simp_all
  then have "length a = length b" using assms(2,3) by (auto simp: short_def intro: be64_inj)
  with r show "a = b" "x = y" by simp_all
qed

lemma frame_nonempty: "frame a @ x \<noteq> []"
  by (metis append_is_Nil_conv frame_def length_0_conv length_be64 zero_neq_numeral)

lemma frames_inj: "frames xs = frames ys \<Longrightarrow> list_all short xs \<Longrightarrow> list_all short ys \<Longrightarrow> xs = ys"
proof (induction xs arbitrary: ys)
  case Nil
  then show ?case using frame_nonempty by (cases ys) (simp_all add: frames_def, metis)
next
  case (Cons x xs)
  then obtain y ys' where ys: "ys = y # ys'" using frame_nonempty by (cases ys) (simp_all add: frames_def, metis)
  from Cons.prems have e: "frame x @ frames xs = frame y @ frames ys'" "short x" "short y" by (simp_all add: ys frames_def)
  from frame_append_inj [OF e] Cons.IH [of ys'] Cons.prems(2,3) show ?case by (simp add: ys)
qed

text \<open>A list of named fields with their counts, as both keys end with.\<close>

definition field_frames :: "(string \<times> string list) \<Rightarrow> string list" where
  "field_frames = (\<lambda>(name, values). name # be64 (length values) # values)"

lemma field_frames_inj:
  assumes "concat (map field_frames xs) = concat (map field_frames ys)"
    "list_all (\<lambda>(_, vs). length vs \<le> u64_max) xs" "list_all (\<lambda>(_, vs). length vs \<le> u64_max) ys"
  shows "xs = ys"
  using assms
proof (induction xs arbitrary: ys)
  case Nil
  then show ?case by (cases ys) (auto simp: field_frames_def)
next
  case (Cons x xs)
  obtain n vs where x: "x = (n, vs)" by (cases x)
  from Cons.prems(1) obtain m ws ys' where ys: "ys = (m, ws) # ys'"
    by (cases ys) (auto simp: x field_frames_def)
  from Cons.prems have "n = m" "be64 (length vs) = be64 (length ws)"
    and r: "vs @ concat (map field_frames xs) = ws @ concat (map field_frames ys')"
    by (auto simp: x ys field_frames_def)
  then have "length vs = length ws" using Cons.prems(2,3) by (auto simp: x ys intro: be64_inj)
  with r have "vs = ws" "concat (map field_frames xs) = concat (map field_frames ys')" by simp_all
  with Cons.IH [of ys'] Cons.prems(2,3) \<open>n = m\<close> show ?case by (simp add: x ys)
qed

end
