(* ===== verification/Circuit.thy ===== *)
theory Circuit
  imports Key_Frames Gateway_Config Http_Headers "HOL-Library.List_Lexorder" "HOL-Library.Char_ord"
begin

text \<open>
  The circuit breaker of \<^verbatim>\<open>circuit.rs\<close>: per scope (root, URL, model and credentials) a gate that
  opens after repeated failures, lets one probe through when its delay is over, and closes when
  the probe succeeds.

  The hash map of entries is an association list; its iteration order, which the library leaves
  open and on which the choice among equally old entries depends, is the argument \<open>iter\<close>.  Every
  reading of the clock is an argument of its own.  \<open>None\<close> is a panic: the entry of an attempt is
  missing, or a counter drops below zero.
\<close>

section \<open>Data\<close>

definition MAX_SCOPES :: nat where "MAX_SCOPES = 128"
definition MAX_WAITERS :: nat where "MAX_WAITERS = 64"
definition FAILURE_THRESHOLD :: nat where "FAILURE_THRESHOLD = 3"
definition FAILURE_GAP :: duration where "FAILURE_GAP = from_secs 60"
definition COOLDOWN :: duration where "COOLDOWN = from_secs 5"
definition FIRST_BACKOFF :: duration where "FIRST_BACKOFF = from_secs 1"
definition MAX_BACKOFF :: duration where "MAX_BACKOFF = from_secs 30"

type_synonym ckey = string

datatype gate = GClosed | GOpen duration duration | GHalfOpen

record centry =
  ce_gate :: gate
  ce_generation :: nat
  ce_in_flight :: nat
  ce_failures :: nat
  ce_last_failure :: "duration option"
  ce_next_backoff :: duration
  ce_touched :: duration

record circuit_counts =
  cc_waiters :: nat
  cc_failures :: nat
  cc_opens :: nat
  cc_rejections :: nat
  cc_probes :: nat
  cc_recoveries :: nat
  cc_capacity_bypasses :: nat

record circuit =
  c_entries :: "(ckey \<times> centry) list"
  c_counts :: circuit_counts

record circuit_snapshot =
  cn_scopes :: nat
  cn_open :: nat
  cn_half_open :: nat
  cn_tracked_attempts :: nat
  cn_counts :: circuit_counts

record attempt =
  at_key :: ckey
  at_generation :: nat
  at_tracked :: bool
  at_resolved :: bool

datatype open_error = Cooling duration | Probing

definition counts_default :: circuit_counts where
  "counts_default = \<lparr>cc_waiters = 0, cc_failures = 0, cc_opens = 0, cc_rejections = 0, cc_probes = 0,
     cc_recoveries = 0, cc_capacity_bypasses = 0\<rparr>"

definition circuit_default :: circuit where
  "circuit_default = \<lparr>c_entries = [], c_counts = counts_default\<rparr>"

section \<open>Operations\<close>

definition failure_delay :: "http_libs \<Rightarrow> header_map \<Rightarrow> duration \<Rightarrow> duration \<Rightarrow> duration option" where
  "failure_delay L headers now1 now2 =
     map_option (\<lambda>delay. max delay (if timing_allows_retry L headers now2 then FIRST_BACKOFF else COOLDOWN))
       (header_delay L headers now1)"

definition blocked_for :: "duration \<Rightarrow> centry \<Rightarrow> duration option" where
  "blocked_for now e =
     (case ce_gate e of
        GClosed \<Rightarrow> None
      | GOpen since delay \<Rightarrow> if now - since < delay then Some (delay - (now - since)) else None
      | GHalfOpen \<Rightarrow> Some COOLDOWN)"

text \<open>The seconds of the \<^verbatim>\<open>retry-after\<close> header of the rejection.\<close>

definition retry_after_seconds :: "open_error \<Rightarrow> nat" where
  "retry_after_seconds e =
     (let delay = (case e of Cooling d \<Rightarrow> d | Probing \<Rightarrow> COOLDOWN) in
      max (saturating_add u64_max (delay div 1000000000) (if delay mod 1000000000 \<noteq> 0 then 1 else 0)) 1)"

text \<open>The names of the headers that identify a credential, sorted, without repetitions.\<close>

definition scope_names :: "auth \<Rightarrow> string list" where
  "scope_names a =
     remdups_adj (sort ([''authorization'', ''x-api-key'', ''api-key'', ''openai-organization'', ''openai-project'']
       @ (case a of Env header _ \<Rightarrow> [to_ascii_lowercase header] | _ \<Rightarrow> [])))"

definition scope_frames :: "nat \<Rightarrow> string \<Rightarrow> nat option \<Rightarrow> header_map \<Rightarrow> auth \<Rightarrow> string list" where
  "scope_frames root url model headers a =
     be64 root # url # be64 (case model of None \<Rightarrow> u64_max | Some i \<Rightarrow> i)
     # concat (map (\<lambda>name. name # be64 (length (headers name)) # headers name) (scope_names a))"

definition circuit_scope ::
  "(string \<Rightarrow> ckey) \<Rightarrow> nat \<Rightarrow> string \<Rightarrow> nat option \<Rightarrow> header_map \<Rightarrow> auth \<Rightarrow> ckey" where
  "circuit_scope sha256 root url model headers a = sha256 (frames (scope_frames root url model headers a))"

definition circuit_snapshot :: "circuit \<Rightarrow> circuit_snapshot" where
  "circuit_snapshot c =
     \<lparr>cn_scopes = length (c_entries c),
      cn_open = length (filter (\<lambda>(_, e). case ce_gate e of GOpen _ _ \<Rightarrow> True | _ \<Rightarrow> False) (c_entries c)),
      cn_half_open = length (filter (\<lambda>(_, e). ce_gate e = GHalfOpen) (c_entries c)),
      cn_tracked_attempts = sum_list (map (\<lambda>(_, e). ce_in_flight e) (c_entries c)),
      cn_counts = c_counts c\<rparr>"

fun update_entry :: "ckey \<Rightarrow> (centry \<Rightarrow> centry) \<Rightarrow> (ckey \<times> centry) list \<Rightarrow> (ckey \<times> centry) list" where
  "update_entry k f [] = []"
| "update_entry k f ((k', e) # es) = (if k' = k then (k', f e) # es else (k', e) # update_entry k f es)"

definition remove_entry :: "ckey \<Rightarrow> (ckey \<times> centry) list \<Rightarrow> (ckey \<times> centry) list" where
  "remove_entry k es = filter (\<lambda>(k', _). k' \<noteq> k) es"

definition count_rejection :: "circuit \<Rightarrow> circuit" where
  "count_rejection c =
     c\<lparr>c_counts := (c_counts c)\<lparr>cc_rejections := saturating_add u64_max (cc_rejections (c_counts c)) 1\<rparr>\<rparr>"

text \<open>
  One iteration of the loop of \<^verbatim>\<open>Scope::wait\<close>: \<open>waiter\<close> says whether the call has its guard, which
  is dropped on every return.
\<close>

datatype wait_outcome = WaitAgain bool | WaitOk | WaitErr open_error

definition drop_waiter :: "bool \<Rightarrow> circuit \<Rightarrow> circuit option" where
  "drop_waiter waiter c =
     (if \<not> waiter then Some c
      else if cc_waiters (c_counts c) = 0 then None
      else Some (c\<lparr>c_counts := (c_counts c)\<lparr>cc_waiters := cc_waiters (c_counts c) - 1\<rparr>\<rparr>))"

definition scope_wait :: "duration \<Rightarrow> ckey \<Rightarrow> bool \<Rightarrow> circuit \<Rightarrow> (wait_outcome \<times> circuit) option" where
  "scope_wait now key waiter c =
     (let entry = map_of (c_entries c) key in
      if (case entry of None \<Rightarrow> False | Some e \<Rightarrow> ce_gate e = GHalfOpen) then
        if \<not> waiter then
          if cc_waiters (c_counts c) = MAX_WAITERS then Some (WaitErr Probing, count_rejection c)
          else Some (WaitAgain True, c\<lparr>c_counts := (c_counts c)\<lparr>cc_waiters := cc_waiters (c_counts c) + 1\<rparr>\<rparr>)
        else Some (WaitAgain True, c)
      else case Option.bind entry (blocked_for now) of
        Some delay \<Rightarrow> map_option (Pair (WaitErr (Cooling delay))) (drop_waiter waiter (count_rejection c))
      | None \<Rightarrow> map_option (Pair WaitOk) (drop_waiter waiter c))"

text \<open>
  \<^verbatim>\<open>Scope::start\<close>: \<open>now\<close> is the reading of \<^verbatim>\<open>blocked_for\<close>, \<open>new\<close> the one of a new entry and \<open>stamp\<close> the
  last one.
\<close>

definition new_entry :: "duration \<Rightarrow> centry" where
  "new_entry new =
     \<lparr>ce_gate = GClosed, ce_generation = 0, ce_in_flight = 0, ce_failures = 0, ce_last_failure = None,
      ce_next_backoff = FIRST_BACKOFF, ce_touched = new\<rparr>"

definition evictable :: "((ckey \<times> centry) list \<Rightarrow> (ckey \<times> centry) list) \<Rightarrow> (ckey \<times> centry) list \<Rightarrow> ckey option" where
  "evictable iter es =
     map_option fst (min_by_key (\<lambda>(_, e). ce_touched e)
       (filter (\<lambda>(_, e). ce_in_flight e = 0 \<and> ce_gate e = GClosed) (iter es)))"

definition attempt_entry :: "duration \<Rightarrow> centry \<Rightarrow> centry" where
  "attempt_entry stamp e =
     (let e1 = (case ce_gate e of
                  GOpen _ _ \<Rightarrow> e\<lparr>ce_gate := GHalfOpen, ce_generation := wrapping_add u64_max (ce_generation e) 1\<rparr>
                | _ \<Rightarrow> e)
      in e1\<lparr>ce_in_flight := ce_in_flight e1 + 1, ce_touched := stamp\<rparr>)"

definition scope_start ::
  "((ckey \<times> centry) list \<Rightarrow> (ckey \<times> centry) list) \<Rightarrow> duration \<Rightarrow> duration \<Rightarrow> duration \<Rightarrow> ckey \<Rightarrow> circuit
     \<Rightarrow> (open_error + attempt) \<times> circuit" where
  "scope_start iter new now stamp key c0 =
     (case (if map_of (c_entries c0) key = None \<and> MAX_SCOPES \<le> length (c_entries c0)
            then map_option (\<lambda>k. c0\<lparr>c_entries := remove_entry k (c_entries c0)\<rparr>) (evictable iter (c_entries c0))
            else Some c0) of
        None \<Rightarrow>
          (Inr \<lparr>at_key = key, at_generation = 0, at_tracked = False, at_resolved = False\<rparr>,
           c0\<lparr>c_counts := (c_counts c0)\<lparr>cc_capacity_bypasses :=
             saturating_add u64_max (cc_capacity_bypasses (c_counts c0)) 1\<rparr>\<rparr>)
      | Some c1 \<Rightarrow>
          let c2 = (if map_of (c_entries c1) key = None
                    then c1\<lparr>c_entries := (key, new_entry new) # c_entries c1\<rparr> else c1);
              e = the (map_of (c_entries c2) key)
          in case blocked_for now e of
               Some delay \<Rightarrow>
                 if ce_gate e = GHalfOpen then (Inl Probing, c2)
                 else (Inl (Cooling delay), count_rejection c2)
             | None \<Rightarrow>
                 let probe = (case ce_gate e of GOpen _ _ \<Rightarrow> True | _ \<Rightarrow> False);
                     c3 = c2\<lparr>c_entries := update_entry key (attempt_entry stamp) (c_entries c2)\<rparr>
                 in (Inr \<lparr>at_key = key, at_generation = ce_generation (attempt_entry stamp e), at_tracked = True,
                        at_resolved = False\<rparr>,
                     if probe
                     then c3\<lparr>c_counts := (c_counts c3)\<lparr>cc_probes := saturating_add u64_max (cc_probes (c_counts c3)) 1\<rparr>\<rparr>
                     else c3))"

text \<open>
  \<^verbatim>\<open>Attempt::resolve\<close> on the entry, with its four readings of the clock; the second result says
  whether the gate opened.
\<close>

definition resolve_entry ::
  "duration \<Rightarrow> duration \<Rightarrow> duration \<Rightarrow> duration \<Rightarrow> duration option \<Rightarrow> centry \<Rightarrow> centry \<times> bool" where
  "resolve_entry t1 t2 t3 t4 failure e0 =
     (let e = e0\<lparr>ce_touched := t1\<rparr> in
      case failure of
        Some delay \<Rightarrow>
          let e1 = (if (case ce_last_failure e of None \<Rightarrow> True | Some at \<Rightarrow> FAILURE_GAP < t2 - at)
                    then e\<lparr>ce_failures := 0\<rparr> else e);
              e2 = e1\<lparr>ce_failures := saturating_add u8_max (ce_failures e1) 1, ce_last_failure := Some t3\<rparr>
          in if FAILURE_THRESHOLD \<le> ce_failures e2 \<or> ce_gate e2 = GHalfOpen
             then (e2\<lparr>ce_gate := GOpen t4 (max delay (ce_next_backoff e2)),
                      ce_next_backoff := min (ce_next_backoff e2 * 2) MAX_BACKOFF,
                      ce_generation := wrapping_add u64_max (ce_generation e2) 1\<rparr>, True)
             else (e2, False)
      | None \<Rightarrow>
          (e\<lparr>ce_failures := 0, ce_last_failure := None, ce_next_backoff := FIRST_BACKOFF, ce_gate := GClosed\<rparr>, False))"

definition attempt_resolve ::
  "duration \<Rightarrow> duration \<Rightarrow> duration \<Rightarrow> duration \<Rightarrow> duration option \<Rightarrow> attempt \<Rightarrow> circuit \<Rightarrow> (attempt \<times> circuit) option" where
  "attempt_resolve t1 t2 t3 t4 failure a c0 =
     (if at_resolved a \<or> \<not> at_tracked a then Some (a, c0)
      else
        let a' = a\<lparr>at_resolved := True\<rparr>;
            c = (if failure \<noteq> None
                 then c0\<lparr>c_counts := (c_counts c0)\<lparr>cc_failures := saturating_add u64_max (cc_failures (c_counts c0)) 1\<rparr>\<rparr>
                 else c0)
        in case map_of (c_entries c) (at_key a) of
             None \<Rightarrow> None
           | Some e \<Rightarrow>
               if ce_generation e \<noteq> at_generation a then Some (a', c)
               else
                 let (e', opened) = resolve_entry t1 t2 t3 t4 failure e;
                     n = c_counts c;
                     n1 = (if opened then n\<lparr>cc_opens := saturating_add u64_max (cc_opens n) 1\<rparr> else n);
                     n2 = (if failure = None \<and> ce_gate e = GHalfOpen
                           then n1\<lparr>cc_recoveries := saturating_add u64_max (cc_recoveries n1) 1\<rparr> else n1)
                 in Some (a', c\<lparr>c_entries := update_entry (at_key a) (\<lambda>_. e') (c_entries c), c_counts := n2\<rparr>))"

definition attempt_failure ::
  "duration \<Rightarrow> duration \<Rightarrow> duration \<Rightarrow> duration \<Rightarrow> duration option \<Rightarrow> attempt \<Rightarrow> circuit \<Rightarrow> (attempt \<times> circuit) option" where
  "attempt_failure t1 t2 t3 t4 delay a c =
     attempt_resolve t1 t2 t3 t4 (Some (case delay of None \<Rightarrow> COOLDOWN | Some d \<Rightarrow> d)) a c"

definition attempt_headers ::
  "http_libs \<Rightarrow> nat \<Rightarrow> header_map \<Rightarrow> duration \<Rightarrow> duration \<Rightarrow> duration \<Rightarrow> duration \<Rightarrow> duration \<Rightarrow> duration
     \<Rightarrow> attempt \<Rightarrow> circuit \<Rightarrow> (attempt \<times> circuit) option" where
  "attempt_headers L status headers now1 now2 t1 t2 t3 t4 a c =
     (if status = 500 \<or> status = 502 \<or> status = 503 \<or> status = 504
      then attempt_failure t1 t2 t3 t4 (failure_delay L headers now1 now2) a c else Some (a, c))"

definition attempt_drop :: "duration \<Rightarrow> attempt \<Rightarrow> circuit \<Rightarrow> circuit option" where
  "attempt_drop now a c =
     (if \<not> at_tracked a then Some c
      else case map_of (c_entries c) (at_key a) of
        None \<Rightarrow> None
      | Some e \<Rightarrow>
          if ce_in_flight e = 0 then None
          else
            let e1 = e\<lparr>ce_in_flight := ce_in_flight e - 1\<rparr>;
                e2 = (if \<not> at_resolved a \<and> ce_generation e1 = at_generation a \<and> ce_gate e1 = GHalfOpen
                      then e1\<lparr>ce_gate := GOpen now 0, ce_generation := wrapping_add u64_max (ce_generation e1) 1\<rparr>
                      else e1)
            in Some (c\<lparr>c_entries := update_entry (at_key a) (\<lambda>_. e2) (c_entries c)\<rparr>))"

text \<open>\<^verbatim>\<open>Attempt::complete\<close> consumes the attempt: it is resolved and then dropped.\<close>

definition attempt_complete ::
  "duration \<Rightarrow> duration \<Rightarrow> duration \<Rightarrow> duration \<Rightarrow> duration \<Rightarrow> attempt \<Rightarrow> circuit \<Rightarrow> circuit option" where
  "attempt_complete t1 t2 t3 t4 t5 a c =
     Option.bind (attempt_resolve t1 t2 t3 t4 None a c) (\<lambda>(a', c'). attempt_drop t5 a' c')"

section \<open>The breaker with its users\<close>

text \<open>The live attempts, and the calls suspended in \<^verbatim>\<open>wait\<close> with whether they hold a guard.\<close>

record circuit_system =
  k_circuit :: circuit
  k_attempts :: "attempt list"
  k_waits :: "(ckey \<times> bool) list"

definition circuit_system_new :: circuit_system where
  "circuit_system_new = \<lparr>k_circuit = circuit_default, k_attempts = [], k_waits = []\<rparr>"

datatype circuit_op =
    KStart duration duration duration ckey
  | KFailure duration duration duration duration "duration option" nat
  | KHeaders nat header_map duration duration duration duration duration duration nat
  | KComplete duration duration duration duration duration nat
  | KDrop duration nat
  | KWait ckey
  | KPoll duration nat
  | KCancel nat

fun circuit_exec ::
  "http_libs \<Rightarrow> ((ckey \<times> centry) list \<Rightarrow> (ckey \<times> centry) list) \<Rightarrow> circuit_op \<Rightarrow> circuit_system \<Rightarrow> circuit_system option" where
  "circuit_exec L iter (KStart new now stamp key) s =
     (case scope_start iter new now stamp key (k_circuit s) of
        (Inl _, c) \<Rightarrow> Some (s\<lparr>k_circuit := c\<rparr>)
      | (Inr a, c) \<Rightarrow> Some (s\<lparr>k_circuit := c, k_attempts := k_attempts s @ [a]\<rparr>))"
| "circuit_exec L iter (KFailure t1 t2 t3 t4 delay n) s =
     (if n < length (k_attempts s) then
        map_option (\<lambda>(a, c). s\<lparr>k_circuit := c, k_attempts := (k_attempts s)[n := a]\<rparr>)
          (attempt_failure t1 t2 t3 t4 delay (k_attempts s ! n) (k_circuit s))
      else Some s)"
| "circuit_exec L iter (KHeaders status headers now1 now2 t1 t2 t3 t4 n) s =
     (if n < length (k_attempts s) then
        map_option (\<lambda>(a, c). s\<lparr>k_circuit := c, k_attempts := (k_attempts s)[n := a]\<rparr>)
          (attempt_headers L status headers now1 now2 t1 t2 t3 t4 (k_attempts s ! n) (k_circuit s))
      else Some s)"
| "circuit_exec L iter (KComplete t1 t2 t3 t4 t5 n) s =
     (if n < length (k_attempts s) then
        map_option (\<lambda>c. s\<lparr>k_circuit := c, k_attempts := remove_at n (k_attempts s)\<rparr>)
          (attempt_complete t1 t2 t3 t4 t5 (k_attempts s ! n) (k_circuit s))
      else Some s)"
| "circuit_exec L iter (KDrop now n) s =
     (if n < length (k_attempts s) then
        map_option (\<lambda>c. s\<lparr>k_circuit := c, k_attempts := remove_at n (k_attempts s)\<rparr>)
          (attempt_drop now (k_attempts s ! n) (k_circuit s))
      else Some s)"
| "circuit_exec L iter (KWait key) s = Some (s\<lparr>k_waits := k_waits s @ [(key, False)]\<rparr>)"
| "circuit_exec L iter (KPoll now n) s =
     (if n < length (k_waits s) then
        map_option (\<lambda>(r, c). s\<lparr>k_circuit := c,
            k_waits := (case r of WaitAgain g \<Rightarrow> (k_waits s)[n := (fst (k_waits s ! n), g)] | _ \<Rightarrow> remove_at n (k_waits s))\<rparr>)
          (scope_wait now (fst (k_waits s ! n)) (snd (k_waits s ! n)) (k_circuit s))
      else Some s)"
| "circuit_exec L iter (KCancel n) s =
     (if n < length (k_waits s) then
        map_option (\<lambda>c. s\<lparr>k_circuit := c, k_waits := remove_at n (k_waits s)\<rparr>)
          (drop_waiter (snd (k_waits s ! n)) (k_circuit s))
      else Some s)"

inductive circuit_reachable ::
  "http_libs \<Rightarrow> ((ckey \<times> centry) list \<Rightarrow> (ckey \<times> centry) list) \<Rightarrow> circuit_system \<Rightarrow> bool" for L iter where
  circuit_initial: "circuit_reachable L iter circuit_system_new"
| circuit_step: "circuit_reachable L iter s \<Longrightarrow> circuit_exec L iter x s = Some s' \<Longrightarrow> circuit_reachable L iter s'"

end
