(* ===== verification/Circuit_Contract.thy ===== *)
theory Circuit_Contract
  imports Circuit
begin

text \<open>
  What the circuit breaker promises, for every interleaving of attempts and waiting calls: it
  never panics, its memory is bounded, a half-open gate always has a live probe that will decide
  it, an open gate lets nothing through before its delay is over, and an outdated attempt cannot
  change a gate.
\<close>

section \<open>Entries\<close>

lemma map_of_update_entry: "map_of (update_entry k f es) k' = (if k' = k then map_option f (map_of es k') else map_of es k')"
  by (induction k f es rule: update_entry.induct) auto

lemma fst_update_entry [simp]: "map fst (update_entry k f es) = map fst es"
  by (induction k f es rule: update_entry.induct) auto

lemma length_update_entry [simp]: "length (update_entry k f es) = length es"
  by (induction k f es rule: update_entry.induct) auto

declare map_of_eq_Some_iff [simp del]

lemma map_of_remove_entry: "map_of (remove_entry k es) k' = (if k' = k then None else map_of es k')"
  by (induction es) (auto simp: remove_entry_def)

lemma distinct_remove_entry: "distinct (map fst es) \<Longrightarrow> distinct (map fst (remove_entry k es))"
  unfolding remove_entry_def by (rule distinct_map_filter)

lemma length_remove_entry: "map_of es k = Some e \<Longrightarrow> length (remove_entry k es) < length es"
  unfolding remove_entry_def by (rule length_filter_less [of "(k, e)"]) (auto dest: map_of_SomeD)

lemma evictable_closed:
  assumes "evictable iter es = Some k" "distinct (map fst es)" "\<And>xs. mset (iter xs) = mset xs"
  shows "\<exists>e. map_of es k = Some e \<and> ce_in_flight e = 0 \<and> ce_gate e = GClosed"
proof -
  from assms(1) obtain e where "(k, e) \<in> set (iter es)" "ce_in_flight e = 0" "ce_gate e = GClosed"
    by (auto simp: evictable_def dest!: min_by_key_in)
  moreover have "set (iter es) = set es" using assms(3) [of es] by (metis set_mset_mset)
  ultimately show ?thesis using assms(2) map_of_is_SomeI by fastforce
qed

section \<open>The invariant\<close>

definition flights :: "ckey \<Rightarrow> attempt list \<Rightarrow> nat" where
  "flights k as = length (filter (\<lambda>a. at_tracked a \<and> at_key a = k) as)"

definition owns :: "ckey \<Rightarrow> centry \<Rightarrow> attempt \<Rightarrow> bool" where
  "owns k e a = (at_tracked a \<and> \<not> at_resolved a \<and> at_key a = k \<and> at_generation a = ce_generation e)"

definition entry_ok :: "attempt list \<Rightarrow> ckey \<Rightarrow> centry \<Rightarrow> bool" where
  "entry_ok as k e =
     (ce_in_flight e = flights k as \<and> (ce_gate e = GHalfOpen \<longrightarrow> (\<exists>a\<in>set as. owns k e a))
      \<and> FIRST_BACKOFF \<le> ce_next_backoff e \<and> ce_next_backoff e \<le> MAX_BACKOFF)"

definition entries_ok :: "attempt list \<Rightarrow> (ckey \<times> centry) list \<Rightarrow> bool" where
  "entries_ok as es =
     (distinct (map fst es) \<and> length es \<le> MAX_SCOPES
      \<and> (\<forall>k e. map_of es k = Some e \<longrightarrow> entry_ok as k e)
      \<and> (\<forall>a\<in>set as. at_tracked a \<longrightarrow> map_of es (at_key a) \<noteq> None))"

definition waiters_ok :: "(ckey \<times> bool) list \<Rightarrow> circuit_counts \<Rightarrow> bool" where
  "waiters_ok ws n = (cc_waiters n = length (filter snd ws) \<and> cc_waiters n \<le> MAX_WAITERS)"

definition circuit_inv :: "circuit_system \<Rightarrow> bool" where
  "circuit_inv s = (entries_ok (k_attempts s) (c_entries (k_circuit s)) \<and> waiters_ok (k_waits s) (c_counts (k_circuit s)))"

lemma backoff_bounds [simp]: "FIRST_BACKOFF \<le> MAX_BACKOFF" "FIRST_BACKOFF \<le> min (b * 2) MAX_BACKOFF \<longleftrightarrow> FIRST_BACKOFF \<le> b * 2"
  by (simp_all add: FIRST_BACKOFF_def MAX_BACKOFF_def rust_arith)

lemma flights_simps [simp]:
  "flights k [] = 0" "flights k (A @ B) = flights k A + flights k B"
  "flights k (a # B) = (if at_tracked a \<and> at_key a = k then 1 else 0) + flights k B"
  by (simp_all add: flights_def)

lemma flights_pos: "a \<in> set as \<Longrightarrow> at_tracked a \<Longrightarrow> 0 < flights (at_key a) as"
  by (auto simp: flights_def length_greater_0_conv filter_empty_conv)

section \<open>Starting\<close>

lemma start_inv_entry:
  assumes ok: "entries_ok as es" and e: "map_of es k = Some e" and b: "blocked_for now e = None"
  shows "entries_ok (as @ [\<lparr>at_key = k, at_generation = ce_generation (attempt_entry t e), at_tracked = True, at_resolved = False\<rparr>])
    (update_entry k (attempt_entry t) es)"
proof -
  let ?a = "\<lparr>at_key = k, at_generation = ce_generation (attempt_entry t e), at_tracked = True, at_resolved = False\<rparr>"
  have ek: "entry_ok as k e" using ok e by (auto simp: entries_ok_def)
  have "entry_ok (as @ [?a]) k (attempt_entry t e)"
    using ek b by (auto simp: entry_ok_def attempt_entry_def owns_def blocked_for_def split: gate.splits if_splits)
  moreover have "entry_ok (as @ [?a]) k' e'" if "k' \<noteq> k" "map_of es k' = Some e'" for k' e'
    using ok that by (auto simp: entries_ok_def entry_ok_def)
  ultimately show ?thesis using ok e unfolding entries_ok_def
    by (auto simp: map_of_update_entry)
qed

lemma entries_ok_insert:
  assumes "entries_ok as es" "map_of es k = None" "length es < MAX_SCOPES"
  shows "entries_ok as ((k, new_entry t) # es)"
proof -
  have "\<not> (at_tracked a \<and> at_key a = k)" if "a \<in> set as" for a using assms(1,2) that by (auto simp: entries_ok_def)
  then have "flights k as = 0" by (auto simp: flights_def filter_empty_conv)
  moreover have "k \<notin> set (map fst es)" using assms(2) by (simp add: map_of_eq_None_iff)
  ultimately show ?thesis using assms(1,3) by (auto simp: entries_ok_def entry_ok_def new_entry_def)
qed

lemma entries_ok_evict:
  assumes "entries_ok as es" "map_of es k = Some e" "ce_in_flight e = 0"
  shows "entries_ok as (remove_entry k es)" "length (remove_entry k es) < MAX_SCOPES"
proof -
  have "flights k as = 0" using assms by (auto simp: entries_ok_def entry_ok_def)
  then have "\<not> (at_tracked a \<and> at_key a = k)" if "a \<in> set as" for a using that flights_pos by fastforce
  with assms(1) length_remove_entry [OF assms(2)] show "entries_ok as (remove_entry k es)" "length (remove_entry k es) < MAX_SCOPES"
    by (auto simp: entries_ok_def map_of_remove_entry distinct_remove_entry)
qed

lemma start_circuit_inv:
  assumes inv: "circuit_inv s" and it: "\<And>xs. mset (iter xs) = mset xs"
  shows "\<exists>s'. circuit_exec L iter (KStart new now t key) s = Some s' \<and> circuit_inv s'"
proof -
  let ?c = "k_circuit s" and ?as = "k_attempts s"
  have ok: "entries_ok ?as (c_entries ?c)" and w: "waiters_ok (k_waits s) (c_counts ?c)" using inv by (auto simp: circuit_inv_def)
  define r where "r = (if map_of (c_entries ?c) key = None \<and> MAX_SCOPES \<le> length (c_entries ?c)
            then map_option (\<lambda>k. ?c\<lparr>c_entries := remove_entry k (c_entries ?c)\<rparr>) (evictable iter (c_entries ?c))
            else Some ?c)"
  show ?thesis
  proof (cases r)
    case None
    let ?a = "\<lparr>at_key = key, at_generation = 0, at_tracked = False, at_resolved = False\<rparr>"
    have "entry_ok (?as @ [?a]) k e = entry_ok ?as k e" for k e by (simp add: entry_ok_def owns_def)
    with ok have "entries_ok (?as @ [?a]) (c_entries ?c)" by (auto simp: entries_ok_def)
    with w None show ?thesis by (simp add: scope_start_def r_def [symmetric] circuit_inv_def waiters_ok_def)
  next
    case (Some c1)
    have c1: "entries_ok ?as (c_entries c1) \<and> c_counts c1 = c_counts ?c
      \<and> (map_of (c_entries c1) key = None \<longrightarrow> length (c_entries c1) < MAX_SCOPES)"
    proof (cases "map_of (c_entries ?c) key = None \<and> MAX_SCOPES \<le> length (c_entries ?c)")
      case True
      with Some obtain k where k: "evictable iter (c_entries ?c) = Some k" "c1 = ?c\<lparr>c_entries := remove_entry k (c_entries ?c)\<rparr>"
        by (auto simp: r_def)
      from evictable_closed [OF k(1) _ it] ok obtain e where "map_of (c_entries ?c) k = Some e" "ce_in_flight e = 0"
        by (auto simp: entries_ok_def)
      from entries_ok_evict [OF ok this] show ?thesis by (simp add: k(2))
    next
      case False
      with Some have "c1 = ?c" by (auto simp: r_def split: if_splits)
      with ok False show ?thesis by auto
    qed
    define c2 where "c2 = (if map_of (c_entries c1) key = None then c1\<lparr>c_entries := (key, new_entry new) # c_entries c1\<rparr> else c1)"
    have c2: "entries_ok ?as (c_entries c2)" "c_counts c2 = c_counts ?c"
      using c1 entries_ok_insert by (auto simp: c2_def)
    obtain e where e: "map_of (c_entries c2) key = Some e" by (cases "map_of (c_entries c1) key") (auto simp: c2_def)
    note st = start_inv_entry [OF c2(1) e, of now t]
    have "scope_start iter new now t key ?c = (case blocked_for now e of
               Some delay \<Rightarrow>
                 if ce_gate e = GHalfOpen then (Inl Probing, c2)
                 else (Inl (Cooling delay), count_rejection c2)
             | None \<Rightarrow>
                 let probe = (case ce_gate e of GOpen _ _ \<Rightarrow> True | _ \<Rightarrow> False);
                     c3 = c2\<lparr>c_entries := update_entry key (attempt_entry t) (c_entries c2)\<rparr>
                 in (Inr \<lparr>at_key = key, at_generation = ce_generation (attempt_entry t e), at_tracked = True,
                        at_resolved = False\<rparr>,
                     if probe
                     then c3\<lparr>c_counts := (c_counts c3)\<lparr>cc_probes := saturating_add u64_max (cc_probes (c_counts c3)) 1\<rparr>\<rparr>
                     else c3))"
      unfolding scope_start_def r_def [symmetric] Some by (simp only: option.case Let_def c2_def [symmetric] e option.sel)
    with st c2 w show ?thesis
      by (auto simp: circuit_inv_def waiters_ok_def count_rejection_def Let_def split: option.split)
  qed
qed

section \<open>Resolving and dropping\<close>

lemma entries_ok_update:
  assumes ok: "entries_ok (X @ a # Y) es" and e: "map_of es k = Some e" and k: "k = at_key a"
    and new: "entry_ok (X @ B @ Y) k e'"
    and other: "\<And>k'. k' \<noteq> k \<Longrightarrow> flights k' B = 0"
    and B: "\<And>b. b \<in> set B \<Longrightarrow> at_tracked b \<longrightarrow> at_key b = k"
  shows "entries_ok (X @ B @ Y) (update_entry k (\<lambda>_. e') es)"
proof -
  have "entry_ok (X @ B @ Y) k'' e''" if "k'' \<noteq> k" "map_of es k'' = Some e''" for k'' e''
  proof -
    have "entry_ok (X @ a # Y) k'' e''" using ok that(2) by (auto simp: entries_ok_def)
    moreover have "\<not> owns k'' e'' a" using that(1) k by (auto simp: owns_def)
    ultimately show ?thesis using that(1) k other [OF that(1)] by (auto simp: entry_ok_def)
  qed
  with ok e new B show ?thesis unfolding entries_ok_def by (auto simp: map_of_update_entry)
qed

lemma resolve_entry_ok:
  assumes "resolve_entry t1 t2 t3 t4 failure e = (e', b)" "entry_ok as k e" "flights k as' = flights k as"
  shows "entry_ok as' k e'"
  using assms by (auto simp: resolve_entry_def entry_ok_def Let_def split: option.splits if_splits)

lemma resolve_ok:
  assumes ok: "entries_ok (X @ a # Y) (c_entries c)"
  shows "\<exists>a' c'. attempt_resolve t1 t2 t3 t4 failure a c = Some (a', c') \<and> entries_ok (X @ a' # Y) (c_entries c')
    \<and> cc_waiters (c_counts c') = cc_waiters (c_counts c) \<and> at_key a' = at_key a \<and> at_tracked a' = at_tracked a"
proof (cases "at_resolved a \<or> \<not> at_tracked a")
  case True
  with ok show ?thesis by (simp add: attempt_resolve_def)
next
  case False
  let ?a = "a\<lparr>at_resolved := True\<rparr>" and ?k = "at_key a"
  obtain e where e: "map_of (c_entries c) ?k = Some e" using ok False by (auto simp: entries_ok_def)
  have ek: "entry_ok (X @ a # Y) ?k e" using ok e by (auto simp: entries_ok_def)
  have fl: "flights k (X @ ?a # Y) = flights k (X @ a # Y)" for k by simp
  show ?thesis
  proof (cases "ce_generation e = at_generation a")
    case True
    obtain e' b where r: "resolve_entry t1 t2 t3 t4 failure e = (e', b)" by (cases "resolve_entry t1 t2 t3 t4 failure e")
    have "entries_ok (X @ [?a] @ Y) (update_entry ?k (\<lambda>_. e') (c_entries c))"
      using resolve_entry_ok [OF r ek, of "X @ [?a] @ Y"] by (intro entries_ok_update [OF ok e refl]) auto
    with False True e r show ?thesis by (auto simp: attempt_resolve_def Let_def)
  next
    case stale: False
    have "entry_ok (X @ ?a # Y) k e'" if "map_of (c_entries c) k = Some e'" for k e'
    proof -
      have "entry_ok (X @ a # Y) k e'" using ok that by (auto simp: entries_ok_def)
      moreover have "\<not> owns k e' a" using that e stale by (auto simp: owns_def)
      ultimately show ?thesis unfolding entry_ok_def fl by auto
    qed
    with ok have "entries_ok (X @ ?a # Y) (c_entries c)" by (auto simp: entries_ok_def)
    with False stale e show ?thesis by (auto simp: attempt_resolve_def Let_def)
  qed
qed

lemma drop_ok:
  assumes ok: "entries_ok (X @ a # Y) (c_entries c)"
  shows "\<exists>c'. attempt_drop now a c = Some c' \<and> entries_ok (X @ Y) (c_entries c') \<and> c_counts c' = c_counts c"
proof (cases "at_tracked a")
  case False
  then have "entry_ok (X @ Y) k e = entry_ok (X @ a # Y) k e" for k e by (auto simp: entry_ok_def owns_def)
  with ok False show ?thesis by (auto simp: attempt_drop_def entries_ok_def)
next
  case True
  let ?k = "at_key a"
  obtain e where e: "map_of (c_entries c) ?k = Some e" using ok True by (auto simp: entries_ok_def)
  have ek: "entry_ok (X @ a # Y) ?k e" using ok e by (auto simp: entries_ok_def)
  define e2 where "e2 = (let e1 = e\<lparr>ce_in_flight := ce_in_flight e - 1\<rparr> in
      if \<not> at_resolved a \<and> ce_generation e1 = at_generation a \<and> ce_gate e1 = GHalfOpen
      then e1\<lparr>ce_gate := GOpen now 0, ce_generation := wrapping_add u64_max (ce_generation e1) 1\<rparr> else e1)"
  have "entry_ok (X @ [] @ Y) ?k e2"
    using ek True by (auto simp: entry_ok_def owns_def e2_def Let_def)
  then have "entries_ok (X @ [] @ Y) (update_entry ?k (\<lambda>_. e2) (c_entries c))"
    by (intro entries_ok_update [OF ok e refl]) auto
  moreover have "ce_in_flight e \<noteq> 0" using ek True by (simp add: entry_ok_def)
  then have "attempt_drop now a c = Some (c\<lparr>c_entries := update_entry ?k (\<lambda>_. e2) (c_entries c)\<rparr>)"
    using True e by (simp add: attempt_drop_def Let_def e2_def)
  ultimately show ?thesis by simp
qed

lemma poll_ok:
  assumes n: "n < length ws" and w: "waiters_ok ws (c_counts c)"
    and u: "\<And>c1. cc_waiters (c_counts c1) = cc_waiters (c_counts c) \<Longrightarrow>
      \<exists>c'. drop_waiter (snd (ws ! n)) c1 = Some c' \<and> c_entries c' = c_entries c1 \<and> waiters_ok (remove_at n ws) (c_counts c')"
  shows "\<exists>r c'. scope_wait now (fst (ws ! n)) (snd (ws ! n)) c = Some (r, c') \<and> c_entries c' = c_entries c
    \<and> waiters_ok (case r of WaitAgain g \<Rightarrow> ws[n := (fst (ws ! n), g)] | _ \<Rightarrow> remove_at n ws) (c_counts c')"
proof -
  obtain k g where kg: "ws ! n = (k, g)" by (cases "ws ! n")
  obtain X Y where d: "ws = X @ (k, g) # Y" "remove_at n ws = X @ Y" "ws[n := (k, True)] = X @ (k, True) # Y"
    using nth_decomp [OF n] kg by metis
  let ?half = "case map_of (c_entries c) k of None \<Rightarrow> False | Some e \<Rightarrow> ce_gate e = GHalfOpen"
  have cw: "cc_waiters (c_counts c) = length (filter snd X) + (if g then 1 else 0) + length (filter snd Y)"
    "cc_waiters (c_counts c) \<le> MAX_WAITERS" using w by (auto simp: waiters_ok_def d(1))
  have r: "cc_waiters (c_counts (count_rejection c)) = cc_waiters (c_counts c)" "c_entries (count_rejection c) = c_entries c"
    by (simp_all add: count_rejection_def)
  show ?thesis
  proof (cases ?half)
    case True
    then have sw: "scope_wait now k g c = (if \<not> g then
          if cc_waiters (c_counts c) = MAX_WAITERS then Some (WaitErr Probing, count_rejection c)
          else Some (WaitAgain True, c\<lparr>c_counts := (c_counts c)\<lparr>cc_waiters := cc_waiters (c_counts c) + 1\<rparr>\<rparr>)
        else Some (WaitAgain True, c))" by (simp add: scope_wait_def Let_def)
    then show ?thesis using cw r d(2,3) by (auto simp: kg waiters_ok_def)
  next
    case False
    then have "scope_wait now k g c = (case Option.bind (map_of (c_entries c) k) (blocked_for now) of
        Some delay \<Rightarrow> map_option (Pair (WaitErr (Cooling delay))) (drop_waiter g (count_rejection c))
      | None \<Rightarrow> map_option (Pair WaitOk) (drop_waiter g c))" by (simp add: scope_wait_def Let_def)
    with u [of c] u [OF r(1)] r(2) show ?thesis by (auto simp: kg split: option.split)
  qed
qed

lemma circuit_exec_inv:
  assumes inv: "circuit_inv s" and it: "\<And>xs. mset (iter xs) = mset xs"
  shows "\<exists>s'. circuit_exec L iter x s = Some s' \<and> circuit_inv s'"
proof -
  let ?c = "k_circuit s" and ?as = "k_attempts s"
  have ok: "entries_ok ?as (c_entries ?c)" and w: "waiters_ok (k_waits s) (c_counts ?c)" using inv by (auto simp: circuit_inv_def)
  have res: "\<exists>s'. map_option (\<lambda>(a, c). s\<lparr>k_circuit := c, k_attempts := ?as[n := a]\<rparr>)
      (attempt_resolve t1 t2 t3 t4 f (?as ! n) ?c) = Some s' \<and> circuit_inv s'" if n: "n < length ?as" for n t1 t2 t3 t4 f
  proof -
    obtain X Y where d: "?as = X @ ?as ! n # Y" "\<And>y. ?as[n := y] = X @ y # Y" using nth_decomp [OF n] by metis
    have "entries_ok (X @ ?as ! n # Y) (c_entries ?c)" using ok d(1) by metis
    from resolve_ok [OF this, of t1 t2 t3 t4 f] w d(2) show ?thesis by (auto simp: circuit_inv_def waiters_ok_def)
  qed
  have unguard: "\<exists>c'. drop_waiter (snd (k_waits s ! n)) c = Some c' \<and> c_entries c' = c_entries c
      \<and> waiters_ok (remove_at n (k_waits s)) (c_counts c')"
    if n: "n < length (k_waits s)" and c: "cc_waiters (c_counts c) = cc_waiters (c_counts ?c)" for n c
  proof -
    obtain X Y where d: "k_waits s = X @ k_waits s ! n # Y" "remove_at n (k_waits s) = X @ Y" using nth_decomp [OF n] by metis
    have "length (filter snd (k_waits s)) = length (filter snd X) + (if snd (k_waits s ! n) then 1 else 0) + length (filter snd Y)"
      by (subst d(1)) simp
    with w c d(2) show ?thesis by (auto simp: drop_waiter_def waiters_ok_def)
  qed
  show ?thesis
  proof (cases x)
    case (KStart new now t key)
    with start_circuit_inv [OF inv it] show ?thesis by simp
  next
    case (KFailure t1 t2 t3 t4 delay n)
    with res [of n] inv show ?thesis by (simp add: attempt_failure_def)
  next
    case (KHeaders st hm n1 n2 t1 t2 t3 t4 n)
    with res [of n] inv show ?thesis by (simp add: attempt_headers_def attempt_failure_def)
  next
    case (KComplete t1 t2 t3 t4 t5 n)
    show ?thesis
    proof (cases "n < length ?as")
      case True
      obtain X Y where d: "?as = X @ ?as ! n # Y" "remove_at n ?as = X @ Y" using nth_decomp [OF True] by metis
      have "entries_ok (X @ ?as ! n # Y) (c_entries ?c)" using ok d(1) by metis
      from resolve_ok [OF this, of t1 t2 t3 t4 None] obtain a' c' where r: "attempt_resolve t1 t2 t3 t4 None (?as ! n) ?c = Some (a', c')"
        "entries_ok (X @ a' # Y) (c_entries c')" "cc_waiters (c_counts c') = cc_waiters (c_counts ?c)" by blast
      from drop_ok [OF r(2), of t5] r w d(2) KComplete True show ?thesis
        by (auto simp: attempt_complete_def circuit_inv_def waiters_ok_def)
    qed (use KComplete inv in simp)
  next
    case (KDrop now n)
    show ?thesis
    proof (cases "n < length ?as")
      case True
      obtain X Y where d: "?as = X @ ?as ! n # Y" "remove_at n ?as = X @ Y" using nth_decomp [OF True] by metis
      have "entries_ok (X @ ?as ! n # Y) (c_entries ?c)" using ok d(1) by metis
      from drop_ok [OF this, of now] w d(2) KDrop True show ?thesis by (auto simp: circuit_inv_def)
    qed (use KDrop inv in simp)
  next
    case (KWait key)
    with inv show ?thesis by (simp add: circuit_inv_def waiters_ok_def)
  next
    case (KPoll now n)
    show ?thesis
    proof (cases "n < length (k_waits s)")
      case True
      have u: "\<exists>c'. drop_waiter (snd (k_waits s ! n)) c = Some c' \<and> c_entries c' = c_entries c
          \<and> waiters_ok (remove_at n (k_waits s)) (c_counts c')"
        if "cc_waiters (c_counts c) = cc_waiters (c_counts ?c)" for c by (rule unguard [OF True that])
      from poll_ok [OF True w u, of now] show ?thesis using ok KPoll True
        by (auto simp: circuit_inv_def)
    qed (use KPoll inv in simp)
  next
    case (KCancel n)
    with unguard [of n ?c] inv ok show ?thesis by (auto simp: circuit_inv_def)
  qed
qed

text \<open>The breaker with its users is a guarded system.\<close>

interpretation circuit_sys: guarded_system "\<lambda>s x. the (circuit_exec L id x s)" "\<lambda>_. True" circuit_inv for L
  by unfold_locales (metis circuit_exec_inv id_apply option.sel)

lemma circuit_new_inv: "circuit_inv circuit_system_new"
  by (simp add: circuit_inv_def circuit_system_new_def circuit_default_def counts_default_def entries_ok_def waiters_ok_def)

lemma circuit_reachable_inv:
  assumes "circuit_reachable L iter s" "\<And>xs. mset (iter xs) = mset xs"
  shows "circuit_inv s"
  using assms(1)
proof (induction rule: circuit_reachable.induct)
  case circuit_initial
  show ?case by (rule circuit_new_inv)
next
  case (circuit_step s x s')
  from circuit_exec_inv [OF circuit_step.IH assms(2), of L x] circuit_step.hyps(2) show ?case by auto
qed

definition demo_circuit :: "circuit_op list \<Rightarrow> circuit_system" where
  "demo_circuit xs = foldl (\<lambda>s x. the (circuit_exec demo_libs id x s)) circuit_system_new xs"

lemma demo_circuit_reachable: "circuit_reachable demo_libs id (demo_circuit xs)"
proof (induction xs rule: rev_induct)
  case (snoc x xs)
  have inv: "circuit_inv (demo_circuit xs)" by (rule circuit_reachable_inv [OF snoc]) simp
  obtain s' where s': "circuit_exec demo_libs id x (demo_circuit xs) = Some s'"
    using circuit_exec_inv [OF inv, of id demo_libs x] by auto
  have "demo_circuit (xs @ [x]) = the (circuit_exec demo_libs id x (demo_circuit xs))"
    unfolding demo_circuit_def foldl_append foldl.simps ..
  with circuit_step [OF snoc s'] s' show ?case by (metis option.sel)
qed (simp add: demo_circuit_def circuit_initial)

text \<open>Three failures open the gate of the scope; after the delay one attempt is the probe.\<close>

definition demo_trip :: "circuit_op list" where
  "demo_trip =
     [KStart 0 0 0 ''a'', KFailure 1 1 1 1 None 0, KDrop 2 0, KStart 3 3 3 ''a'', KFailure 4 4 4 4 None 0, KDrop 5 0,
      KStart 6 6 6 ''a'', KFailure 7 7 7 7 None 0, KDrop 8 0]"

definition demo_probe :: "circuit_op list" where
  "demo_probe = demo_trip @ [KStart 0 (from_secs 6) (from_secs 6) ''a'', KWait ''a'', KPoll (from_secs 6) 0]"

section \<open>Contract\<close>

text \<open>
  C39: the circuit breaker never panics and its memory is bounded.  In every reachable state the
  entry of each live attempt is present and counts the live attempts of its scope, so dropping or
  resolving an attempt finds its entry and no counter drops below zero; there are at most 128
  scopes and 64 registered waiters, and the back-off stays between one and thirty seconds.
\<close>

theorem circuit_never_panics:
  assumes "circuit_reachable L iter s" "\<And>xs. mset (iter xs) = mset xs"
  shows "circuit_exec L iter x s \<noteq> None
    \<and> length (c_entries (k_circuit s)) \<le> MAX_SCOPES \<and> cc_waiters (c_counts (k_circuit s)) \<le> MAX_WAITERS
    \<and> (\<forall>k e. map_of (c_entries (k_circuit s)) k = Some e \<longrightarrow>
          ce_in_flight e = length (filter (\<lambda>a. at_tracked a \<and> at_key a = k) (k_attempts s))
          \<and> FIRST_BACKOFF \<le> ce_next_backoff e \<and> ce_next_backoff e \<le> MAX_BACKOFF)"
proof -
  have inv: "circuit_inv s" using assms by (rule circuit_reachable_inv)
  from circuit_exec_inv [OF inv assms(2), of L x] have "circuit_exec L iter x s \<noteq> None" by auto
  with inv show ?thesis
    by (auto simp: circuit_inv_def entries_ok_def waiters_ok_def entry_ok_def flights_def)
qed

theorem circuit_never_panics_witness:
  "circuit_exec demo_libs id (KDrop 9 0) (demo_circuit demo_probe) \<noteq> None
   \<and> length (k_attempts (demo_circuit demo_probe)) = 1 \<and> cc_waiters (c_counts (k_circuit (demo_circuit demo_probe))) = 1"
proof -
  have "length (k_attempts (demo_circuit demo_probe)) = 1" "cc_waiters (c_counts (k_circuit (demo_circuit demo_probe))) = 1"
    by code_simp+
  with circuit_never_panics [OF demo_circuit_reachable, of "KDrop 9 0" demo_probe] show ?thesis by simp
qed

text \<open>
  C40: a half-open gate is never stranded.  Whenever the gate of a scope is half open, there is a
  live, unresolved attempt, the probe, of the generation of the gate; whatever ends that attempt
  (success, failure, or being dropped by a cancelled task) leaves the gate closed or open, so the
  calls waiting for the probe are always released.
\<close>

theorem half_open_is_decided:
  assumes "circuit_reachable L iter s" "\<And>xs. mset (iter xs) = mset xs"
    "map_of (c_entries (k_circuit s)) k = Some e" "ce_gate e = GHalfOpen"
  shows "\<exists>a\<in>set (k_attempts s). at_key a = k \<and> at_generation a = ce_generation e \<and> at_tracked a \<and> \<not> at_resolved a
    \<and> (\<forall>t1 t2 t3 t4 failure. \<exists>a' c' e'. attempt_resolve t1 t2 t3 t4 failure a (k_circuit s) = Some (a', c')
          \<and> map_of (c_entries c') k = Some e' \<and> ce_gate e' \<noteq> GHalfOpen)
    \<and> (\<forall>now. \<exists>c' e'. attempt_drop now a (k_circuit s) = Some c' \<and> map_of (c_entries c') k = Some e' \<and> ce_gate e' \<noteq> GHalfOpen)"
proof -
  have ok: "entries_ok (k_attempts s) (c_entries (k_circuit s))"
    using circuit_reachable_inv [OF assms(1,2)] by (simp add: circuit_inv_def)
  then have ek: "entry_ok (k_attempts s) k e" using assms(3) by (auto simp: entries_ok_def)
  with assms(4) obtain a where a: "a \<in> set (k_attempts s)" "owns k e a" by (auto simp: entry_ok_def)
  have fl: "ce_in_flight e \<noteq> 0"
    using ek a(2) flights_pos [OF a(1)] by (auto simp: entry_ok_def owns_def)
  have "\<exists>a' c' e'. attempt_resolve t1 t2 t3 t4 failure a (k_circuit s) = Some (a', c')
          \<and> map_of (c_entries c') k = Some e' \<and> ce_gate e' \<noteq> GHalfOpen" for t1 t2 t3 t4 failure
    using a(2) assms(3,4)
    by (auto simp: attempt_resolve_def owns_def Let_def resolve_entry_def map_of_update_entry split: prod.split option.split)
  moreover have "\<exists>c' e'. attempt_drop now a (k_circuit s) = Some c' \<and> map_of (c_entries c') k = Some e' \<and> ce_gate e' \<noteq> GHalfOpen" for now
    using a(2) assms(3,4) fl by (auto simp: attempt_drop_def owns_def Let_def map_of_update_entry)
  ultimately show ?thesis using a by (auto simp: owns_def)
qed

theorem half_open_is_decided_witness:
  "\<exists>e a. map_of (c_entries (k_circuit (demo_circuit demo_probe))) ''a'' = Some e \<and> ce_gate e = GHalfOpen
     \<and> a \<in> set (k_attempts (demo_circuit demo_probe)) \<and> at_generation a = ce_generation e"
proof -
  define s where "s = demo_circuit demo_probe"
  have "map_option ce_gate (map_of (c_entries (k_circuit s)) ''a'') = Some GHalfOpen" unfolding s_def by code_simp
  then obtain e where e: "map_of (c_entries (k_circuit s)) ''a'' = Some e" "ce_gate e = GHalfOpen" by auto
  from half_open_is_decided [OF demo_circuit_reachable _ e [unfolded s_def]] e show ?thesis
    unfolding s_def [symmetric] by auto
qed

text \<open>
  An open gate lets nothing through before its delay is over.  Starting an attempt in a scope
  whose gate is open fails with the remaining time, never creates an attempt and leaves every
  entry as it is; once the delay is over the attempt is started as the probe and the gate is half
  open, and while it is half open every further start is refused.
\<close>

theorem open_gate_blocks:
  assumes "map_of (c_entries c) key = Some e"
  shows "(\<forall>since delay. ce_gate e = GOpen since delay \<longrightarrow> now - since < delay \<longrightarrow>
        (\<exists>c'. scope_start iter new now stamp key c = (Inl (Cooling (delay - (now - since))), c') \<and> c_entries c' = c_entries c))
    \<and> (\<forall>since delay. ce_gate e = GOpen since delay \<longrightarrow> delay \<le> now - since \<longrightarrow>
        (\<exists>a c' e'. scope_start iter new now stamp key c = (Inr a, c') \<and> at_tracked a
           \<and> map_of (c_entries c') key = Some e' \<and> ce_gate e' = GHalfOpen \<and> at_generation a = ce_generation e'
           \<and> scope_start iter new2 now2 stamp2 key c' = (Inl Probing, c')))
    \<and> (ce_gate e = GHalfOpen \<longrightarrow> scope_start iter new now stamp key c = (Inl Probing, c))"
proof -
  have s: "scope_start iter nw nn st key c = (case blocked_for nn e of
               Some delay \<Rightarrow>
                 if ce_gate e = GHalfOpen then (Inl Probing, c)
                 else (Inl (Cooling delay), count_rejection c)
             | None \<Rightarrow>
                 let probe = (case ce_gate e of GOpen _ _ \<Rightarrow> True | _ \<Rightarrow> False);
                     c3 = c\<lparr>c_entries := update_entry key (attempt_entry st) (c_entries c)\<rparr>
                 in (Inr \<lparr>at_key = key, at_generation = ce_generation (attempt_entry st e), at_tracked = True,
                        at_resolved = False\<rparr>,
                     if probe
                     then c3\<lparr>c_counts := (c_counts c3)\<lparr>cc_probes := saturating_add u64_max (cc_probes (c_counts c3)) 1\<rparr>\<rparr>
                     else c3))" if "map_of (c_entries c) key = Some e" for c e nw nn st
    using that by (simp add: scope_start_def Let_def cong: option.case_cong)
  have half: "scope_start iter nw nn st key c' = (Inl Probing, c')"
    if "map_of (c_entries c') key = Some e'" "ce_gate e' = GHalfOpen" for c' e' nw nn st
    using s [OF that(1)] that(2) by (simp add: blocked_for_def)
  show ?thesis
  proof (intro conjI allI impI)
    fix since delay
    assume "ce_gate e = GOpen since delay" "now - since < delay"
    then show "\<exists>c'. scope_start iter new now stamp key c = (Inl (Cooling (delay - (now - since))), c') \<and> c_entries c' = c_entries c"
      by (simp add: s [OF assms] blocked_for_def count_rejection_def)
  next
    fix since delay
    assume g: "ce_gate e = GOpen since delay" "delay \<le> now - since"
    let ?c = "c\<lparr>c_entries := update_entry key (attempt_entry stamp) (c_entries c),
        c_counts := (c_counts c)\<lparr>cc_probes := saturating_add u64_max (cc_probes (c_counts c)) 1\<rparr>\<rparr>"
    let ?e = "attempt_entry stamp e"
    have m: "map_of (c_entries ?c) key = Some ?e" using assms by (simp add: map_of_update_entry)
    have ge: "ce_gate ?e = GHalfOpen" using g(1) by (simp add: attempt_entry_def)
    have "scope_start iter new now stamp key c = (Inr \<lparr>at_key = key, at_generation = ce_generation ?e, at_tracked = True,
                        at_resolved = False\<rparr>, ?c)"
      using g by (simp add: s [OF assms] blocked_for_def Let_def)
    with m ge half [OF m ge] show "\<exists>a c' e'. scope_start iter new now stamp key c = (Inr a, c') \<and> at_tracked a
           \<and> map_of (c_entries c') key = Some e' \<and> ce_gate e' = GHalfOpen \<and> at_generation a = ce_generation e'
           \<and> scope_start iter new2 now2 stamp2 key c' = (Inl Probing, c')" by auto
  next
    assume "ce_gate e = GHalfOpen"
    with half [OF assms] show "scope_start iter new now stamp key c = (Inl Probing, c)" by blast
  qed
qed

theorem open_gate_blocks_witness:
  "let c = k_circuit (demo_circuit demo_trip) in
   \<exists>c'. scope_start id 0 (from_secs 1) 0 ''a'' c = (Inl (Cooling (from_secs 4 + 7)), c') \<and> c_entries c' = c_entries c"
proof -
  define c where "c = k_circuit (demo_circuit demo_trip)"
  have g: "map_option ce_gate (map_of (c_entries c) ''a'') = Some (GOpen 7 COOLDOWN)" unfolding c_def by code_simp
  then obtain e where e: "map_of (c_entries c) ''a'' = Some e" "ce_gate e = GOpen 7 COOLDOWN" by auto
  have "from_secs 1 - 7 < COOLDOWN" "COOLDOWN - (from_secs 1 - 7) = from_secs 4 + 7" by code_simp+
  with open_gate_blocks [OF e(1), of "from_secs 1" id 0 0] e(2) show ?thesis unfolding c_def [symmetric] Let_def by auto
qed

end
