(* ===== verification/Transport_Headers.thy ===== *)
theory Transport_Headers
  imports Gateway_Config Http_Headers
begin

text \<open>
  What the gateway does to the headers that pass through it: \<^verbatim>\<open>transport/headers.rs\<close>.

  Where a header map is changed or enumerated it is the list of its names with their values, each
  name once; the view \<open>header_map\<close> of \<open>Http_Headers\<close> is \<^term>\<open>get_all\<close>.  The order of the names, which
  the library does not promise, is never observable: the code sorts the names or adds up sizes.
  Of the \<^verbatim>\<open>http\<close> crate the checks of names and values and the parser of an authority are the fields of
  \<open>header_libs\<close>, with the parser of IP addresses.
\<close>

section \<open>Header maps\<close>

type_synonym hmap = "(string \<times> string list) list"

definition get_all :: "hmap \<Rightarrow> header_map" where
  "get_all h name = (case map_of h name of None \<Rightarrow> [] | Some vs \<Rightarrow> vs)"

definition hm_remove :: "string \<Rightarrow> hmap \<Rightarrow> hmap" where
  "hm_remove name h = filter (\<lambda>(n, _). n \<noteq> name) h"

definition hm_insert :: "string \<Rightarrow> string \<Rightarrow> hmap \<Rightarrow> hmap" where
  "hm_insert name v h = hm_remove name h @ [(name, [v])]"

definition hm_append :: "string \<Rightarrow> string \<Rightarrow> hmap \<Rightarrow> hmap" where
  "hm_append name v h =
     (if map_of h name = None then h @ [(name, [v])]
      else map (\<lambda>(n, vs). if n = name then (n, vs @ [v]) else (n, vs)) h)"

text \<open>Every name once, with at least one value.\<close>

definition hm_ok :: "hmap \<Rightarrow> bool" where
  "hm_ok h = (distinct (map fst h) \<and> list_all (\<lambda>(_, vs). vs \<noteq> []) h)"

record authority =
  au_str :: string
  au_host :: string
  au_port :: "nat option"

record header_libs =
  lib_header_name :: "string \<Rightarrow> string option"
  lib_header_value :: "string \<Rightarrow> string option"
  lib_authority :: "string \<Rightarrow> authority option"
  lib_loopback_ip :: "string \<Rightarrow> bool"

section \<open>Operations\<close>

definition HOP_BY_HOP :: "string list" where
  "HOP_BY_HOP =
     [''connection'', ''keep-alive'', ''proxy-authenticate'', ''proxy-authorization'', ''te'', ''trailer'',
      ''transfer-encoding'', ''upgrade'']"

definition DATA_TOKEN_HEADER :: string where
  "DATA_TOKEN_HEADER = ''x-llmgw-token''"

definition CONTROL_TOKEN_HEADER :: string where
  "CONTROL_TOKEN_HEADER = ''x-llmgw-control-token''"

definition stored_size :: "hmap \<Rightarrow> nat" where
  "stored_size h = (\<Sum>(name, vs)\<leftarrow>h. \<Sum>v\<leftarrow>vs. length name + length v + 4) + 2"

definition nominated :: "http_libs \<Rightarrow> header_map \<Rightarrow> string list" where
  "nominated L h =
     map to_ascii_lowercase
       (filter (\<lambda>v. v \<noteq> [])
         (map trim (concat (map (split_on CHR '','') (List.map_filter (lib_to_str L) (h ''connection''))))))"

definition requests_upgrade :: "http_libs \<Rightarrow> header_map \<Rightarrow> bool" where
  "requests_upgrade L h =
     (contains_key h ''upgrade'' \<or> contains_key h ''sec-websocket-key'' \<or> ''upgrade'' \<in> set (nominated L h))"

definition is_reserved_auth_target :: "string \<Rightarrow> bool" where
  "is_reserved_auth_target name =
     (eq_ignore_ascii_case name ''host'' \<or> eq_ignore_ascii_case name ''content-length''
      \<or> eq_ignore_ascii_case name DATA_TOKEN_HEADER \<or> eq_ignore_ascii_case name CONTROL_TOKEN_HEADER
      \<or> list_ex (eq_ignore_ascii_case name) HOP_BY_HOP)"

definition scrub :: "http_libs \<Rightarrow> hmap \<Rightarrow> hmap" where
  "scrub L h = fold hm_remove HOP_BY_HOP (fold hm_remove (nominated L (get_all h)) h)"

definition prepare_request ::
  "http_libs \<Rightarrow> header_libs \<Rightarrow> hmap \<Rightarrow> auth \<Rightarrow> string option \<Rightarrow> hmap" where
  "prepare_request L H headers a upstream_secret =
     (let h = hm_remove CONTROL_TOKEN_HEADER (hm_remove DATA_TOKEN_HEADER (hm_remove ''host'' (scrub L headers))) in
      case a of
        Forward \<Rightarrow> h
      | Env header _ \<Rightarrow>
          (let h1 = hm_remove ''x-api-key'' (hm_remove ''authorization'' h) in
           case (lib_header_name H header, upstream_secret) of
             (Some name, Some secret) \<Rightarrow>
               (case lib_header_value H secret of Some v \<Rightarrow> hm_insert name v h1 | None \<Rightarrow> h1)
           | _ \<Rightarrow> h1)
      | AuthNone \<Rightarrow> hm_remove ''x-api-key'' (hm_remove ''authorization'' h))"

definition prepare_response :: "http_libs \<Rightarrow> hmap \<Rightarrow> hmap" where
  "prepare_response L headers = hm_remove CONTROL_TOKEN_HEADER (hm_remove DATA_TOKEN_HEADER (scrub L headers))"

definition trim_brackets :: "string \<Rightarrow> string" where
  "trim_brackets s = rev (dropWhile (\<lambda>c. c = CHR '']'') (rev (dropWhile (\<lambda>c. c = CHR ''['') s)))"

text \<open>The check of one authority in \<^verbatim>\<open>validate_local_request\<close>.\<close>

definition local_authority :: "header_libs \<Rightarrow> nat \<Rightarrow> authority \<Rightarrow> bool" where
  "local_authority H port a =
     (CHR ''@'' \<notin> set (au_str a)
      \<and> (eq_ignore_ascii_case (au_host a) ''localhost'' \<or> lib_loopback_ip H (trim_brackets (au_host a)))
      \<and> (case au_port a of Some value \<Rightarrow> value = port | None \<Rightarrow> au_str a = au_host a \<and> port = 80))"

definition first_value :: "http_libs \<Rightarrow> string list \<Rightarrow> string option" where
  "first_value L vs = (case vs of [] \<Rightarrow> None | v # _ \<Rightarrow> lib_to_str L v)"

definition validate_local_request ::
  "http_libs \<Rightarrow> header_libs \<Rightarrow> header_map \<Rightarrow> string \<Rightarrow> nat \<Rightarrow> (nat \<times> string) + unit" where
  "validate_local_request L H h method port =
     (if contains_key h ''origin'' then Inl (403, ''browser_origin_not_allowed'')
      else if \<not> is_some_and (local_authority H port) (Option.bind (first_value L (h ''host'')) (lib_authority H))
              \<or> tl (h ''host'') \<noteq> [] then Inl (403, ''invalid_local_host'')
      else if method = ''POST'' \<and>
              (\<not> is_some_and (\<lambda>v. eq_ignore_ascii_case (trim (hd (split_on CHR '';'' v))) ''application/json'')
                  (first_value L (h ''content-type''))
               \<or> tl (h ''content-type'') \<noteq> []) then Inl (415, ''json_content_type_required'')
      else Inr ())"

section \<open>Laws of header maps\<close>

lemma get_all_remove: "get_all (hm_remove n h) m = (if m = n then [] else get_all h m)"
  by (induction h) (auto simp: get_all_def hm_remove_def)

lemma map_of_hm_remove: "map_of (hm_remove n h) m = (if m = n then None else map_of h m)"
  by (induction h) (auto simp: hm_remove_def)

lemma get_all_insert: "get_all (hm_insert n v h) m = (if m = n then [v] else get_all h m)"
  by (auto simp: get_all_def hm_insert_def map_of_hm_remove map_add_def split: option.splits)

lemma get_all_removes: "get_all (fold hm_remove ns h) m = (if m \<in> set ns then [] else get_all h m)"
  by (induction ns arbitrary: h) (auto simp: get_all_remove)

lemma get_all_append: "get_all (hm_append n v h) m = (if m = n then get_all h m @ [v] else get_all h m)"
proof (cases "map_of h n")
  case None
  then show ?thesis by (auto simp: get_all_def hm_append_def map_add_def split: option.splits)
next
  case (Some vs)
  have "map_of (map (\<lambda>(k, ws). if k = n then (k, ws @ [v]) else (k, ws)) h) m
    = map_option (\<lambda>ws. if m = n then ws @ [v] else ws) (map_of h m)" by (induction h) auto
  with Some show ?thesis by (auto simp: get_all_def hm_append_def split: option.splits)
qed

lemma get_all_scrub:
  "get_all (scrub L h) m = (if m \<in> set (nominated L (get_all h)) \<or> m \<in> set HOP_BY_HOP then [] else get_all h m)"
  by (simp add: scrub_def get_all_removes)

section \<open>What reaches the upstream\<close>

text \<open>The two lists of reserved names, of the configuration and of the transport, agree.\<close>

lemma reserved_names_agree: "is_transport_reserved_header v = is_reserved_auth_target v"
proof -
  have "list_all (\<lambda>n. to_ascii_lowercase n = n) ([''host'', ''content-length'', DATA_TOKEN_HEADER, CONTROL_TOKEN_HEADER] @ HOP_BY_HOP)"
    by code_simp
  then have l: "to_ascii_lowercase n = n" if "n \<in> set ([''host'', ''content-length'', DATA_TOKEN_HEADER, CONTROL_TOKEN_HEADER] @ HOP_BY_HOP)"
    for n using that unfolding list_all_iff by blast
  have "eq_ignore_ascii_case v n = (to_ascii_lowercase v = n)"
    if "n \<in> set ([''host'', ''content-length'', DATA_TOKEN_HEADER, CONTROL_TOKEN_HEADER] @ HOP_BY_HOP)" for n
    using l [OF that] by (simp add: eq_ignore_ascii_case_def)
  then have "is_reserved_auth_target v
    = (to_ascii_lowercase v \<in> set ([''host'', ''content-length'', DATA_TOKEN_HEADER, CONTROL_TOKEN_HEADER] @ HOP_BY_HOP))"
    by (auto simp: is_reserved_auth_target_def list_ex_iff)
  also have "\<dots> = is_transport_reserved_header v"
    unfolding is_transport_reserved_header_def DATA_TOKEN_HEADER_def CONTROL_TOKEN_HEADER_def HOP_BY_HOP_def
    by (simp only: set_append list.set Un_insert_left Un_empty_left insert_iff empty_iff) blast
  finally show ?thesis ..
qed

lemma reserved_lowercase:
  "\<not> is_reserved_auth_target v \<Longrightarrow>
     to_ascii_lowercase v \<notin> set HOP_BY_HOP \<union> {''host'', DATA_TOKEN_HEADER, CONTROL_TOKEN_HEADER}"
  unfolding reserved_names_agree [symmetric] is_transport_reserved_header_def DATA_TOKEN_HEADER_def
    CONTROL_TOKEN_HEADER_def HOP_BY_HOP_def
  by (simp only: list.set Un_iff insert_iff empty_iff) blast

definition private_names :: "string set" where
  "private_names = set HOP_BY_HOP \<union> {''host'', DATA_TOKEN_HEADER, CONTROL_TOKEN_HEADER}"

definition removed_names :: "http_libs \<Rightarrow> hmap \<Rightarrow> string set" where
  "removed_names L h =
     set (nominated L (get_all h)) \<union> private_names"

lemma get_all_prepared:
  "get_all (hm_remove CONTROL_TOKEN_HEADER (hm_remove DATA_TOKEN_HEADER (hm_remove ''host'' (scrub L h)))) m
   = (if m \<in> removed_names L h then [] else get_all h m)"
  by (auto simp: get_all_remove get_all_scrub removed_names_def private_names_def)

text \<open>
  C19: no secret leaves the gateway by mistake.  For an authentication mode accepted by the
  validation, the request sent upstream carries no hop-by-hop header, no host header, neither
  token of the gateway and no header the client nominated as connection-specific; with
  environment authentication the configured header carries exactly the configured secret,
  whatever the client sent under that name, and no other credential of the client is forwarded;
  with no authentication none is.  Every other header passes unchanged.
\<close>

theorem prepared_request_headers:
  assumes "validate_auth i = Inr a"
    and "\<And>v n. lib_header_name H v = Some n \<Longrightarrow> n = to_ascii_lowercase v"
    and "\<And>s v. lib_header_value H s = Some v \<Longrightarrow> v = s"
    and "\<And>header name. a = Env header name \<Longrightarrow>
      lib_header_name H header \<noteq> None \<and> (\<exists>s. secret = Some s \<and> lib_header_value H s \<noteq> None)"
  shows "get_all (prepare_request L H h a secret) m =
    (case a of
       Forward \<Rightarrow> if m \<in> removed_names L h then [] else get_all h m
     | AuthNone \<Rightarrow> if m \<in> removed_names L h \<union> {''authorization'', ''x-api-key''} then [] else get_all h m
     | Env header _ \<Rightarrow>
         if m = to_ascii_lowercase header then [the secret]
         else if m \<in> removed_names L h \<union> {''authorization'', ''x-api-key''} then [] else get_all h m)
    \<and> (m \<in> private_names \<longrightarrow>
        get_all (prepare_request L H h a secret) m = [])"
proof -
  define h0 where "h0 = hm_remove CONTROL_TOKEN_HEADER (hm_remove DATA_TOKEN_HEADER (hm_remove ''host'' (scrub L h)))"
  have h0: "get_all h0 m = (if m \<in> removed_names L h then [] else get_all h m)" unfolding h0_def by (rule get_all_prepared)
  note prepare = prepare_request_def [of L H h a secret, folded h0_def, unfolded Let_def]
  show ?thesis
  proof (cases a)
    case (Env header name)
    from assms(4) [OF Env] assms(2,3) obtain s where s: "secret = Some s" "lib_header_value H s = Some s"
      "lib_header_name H header = Some (to_ascii_lowercase header)" by fastforce
    have "\<not> is_reserved_auth_target header" using assms(1) Env unfolding reserved_names_agree [symmetric]
      by (auto simp: validate_auth_def and_then_def split: if_splits sum.splits)
    then have r: "to_ascii_lowercase header \<notin> private_names"
      unfolding private_names_def by (rule reserved_lowercase)
    have g: "get_all (prepare_request L H h a secret) m = (if m = to_ascii_lowercase header then [s]
        else if m \<in> removed_names L h \<union> {''authorization'', ''x-api-key''} then [] else get_all h m)"
      unfolding prepare by (simp add: Env s get_all_insert get_all_remove h0)
    have e: "get_all (prepare_request L H h a secret) m = []"
      if m: "m \<in> private_names"
    proof -
      from m r have "m \<noteq> to_ascii_lowercase header" by blast
      moreover from m have "m \<in> removed_names L h" unfolding removed_names_def by blast
      ultimately show ?thesis using g by simp
    qed
    show ?thesis
    proof (intro conjI impI)
      show "get_all (prepare_request L H h a secret) m =
        (case a of Forward \<Rightarrow> if m \<in> removed_names L h then [] else get_all h m
         | AuthNone \<Rightarrow> if m \<in> removed_names L h \<union> {''authorization'', ''x-api-key''} then [] else get_all h m
         | Env header _ \<Rightarrow> if m = to_ascii_lowercase header then [the secret]
             else if m \<in> removed_names L h \<union> {''authorization'', ''x-api-key''} then [] else get_all h m)"
        unfolding g by (simp only: Env auth.case s option.sel)
    qed (rule e)
  qed (unfold prepare, simp_all add: get_all_remove h0, simp_all add: removed_names_def)
qed

definition demo_header_libs :: header_libs where
  "demo_header_libs = \<lparr>lib_header_name = (\<lambda>v. Some (to_ascii_lowercase v)), lib_header_value = Some,
     lib_authority = (\<lambda>_. None), lib_loopback_ip = (\<lambda>_. False)\<rparr>"

theorem prepared_request_headers_witness:
  "get_all (prepare_request demo_libs demo_header_libs
      [(''api-key'', [''stolen'']), (''authorization'', [''client'']), (''connection'', [''close, Api-Key''])]
      (Env ''Api-Key'' ''KEY'') (Some ''secret'')) ''api-key'' = [''secret'']"
proof -
  let ?i = "\<lparr>ai_mode = ''env'', ai_header = Some ''Api-Key'', ai_name = Some ''KEY''\<rparr>"
  have v: "validate_auth ?i = Inr (Env ''Api-Key'' ''KEY'')" by code_simp
  have "to_ascii_lowercase ''Api-Key'' = ''api-key''" by code_simp
  with prepared_request_headers [OF v, of demo_header_libs "Some ''secret''" demo_libs
      "[(''api-key'', [''stolen'']), (''authorization'', [''client'']), (''connection'', [''close, Api-Key''])]" "''api-key''"]
  show ?thesis by (simp add: demo_header_libs_def)
qed

end
