(* ===== verification/Shared_Permits.thy ===== *)
theory Shared_Permits
  imports Rust_Prelude "HOL-Library.Multiset"
begin

text \<open>
  A budget of permits and the shared values that own some of them: \<^verbatim>\<open>tokio::sync::Semaphore\<close> with
  \<^verbatim>\<open>OwnedSemaphorePermit\<close>, and \<^verbatim>\<open>Arc\<close> (or \<^verbatim>\<open>Bytes\<close> with an owner) around a value that holds a permit.
  Dropping the last reference drops the value and gives its permits back.  The response cache and
  the request bodies both account for their memory in this way.

  The references are counted explicitly; the invariant says that the counts are the numbers of
  owners, given as a multiset of addresses, and that no permit is lost.
\<close>

section \<open>The pool\<close>

record 'a shared =
  sh_count :: nat
  sh_permit :: nat
  sh_value :: 'a

record 'a pool =
  p_avail :: nat
  p_arcs :: "(nat \<times> 'a shared) list"
  p_next :: nat

definition pool_new :: "nat \<Rightarrow> 'a pool" where
  "pool_new n = \<lparr>p_avail = n, p_arcs = [], p_next = 0\<rparr>"

text \<open>\<^verbatim>\<open>try_acquire_many_owned\<close> and dropping a permit.\<close>

definition pool_acquire :: "nat \<Rightarrow> 'a pool \<Rightarrow> 'a pool option" where
  "pool_acquire n p = (if n \<le> p_avail p then Some (p\<lparr>p_avail := p_avail p - n\<rparr>) else None)"

definition pool_release :: "nat \<Rightarrow> 'a pool \<Rightarrow> 'a pool" where
  "pool_release n p = p\<lparr>p_avail := p_avail p + n\<rparr>"

text \<open>A new shared value takes over a permit.\<close>

definition arc_new :: "nat \<Rightarrow> 'a \<Rightarrow> 'a pool \<Rightarrow> nat \<times> 'a pool" where
  "arc_new permit v p =
     (p_next p, p\<lparr>p_arcs := (p_next p, \<lparr>sh_count = 1, sh_permit = permit, sh_value = v\<rparr>) # p_arcs p,
                 p_next := p_next p + 1\<rparr>)"

definition arc_get :: "nat \<Rightarrow> 'a pool \<Rightarrow> 'a option" where
  "arc_get a p = map_option sh_value (map_of (p_arcs p) a)"

definition set_count :: "nat \<Rightarrow> (nat \<Rightarrow> nat) \<Rightarrow> (nat \<times> 'a shared) list \<Rightarrow> (nat \<times> 'a shared) list" where
  "set_count a f = map (\<lambda>(b, sh). if b = a then (b, sh\<lparr>sh_count := f (sh_count sh)\<rparr>) else (b, sh))"

definition arc_clone :: "nat \<Rightarrow> 'a pool \<Rightarrow> 'a pool" where
  "arc_clone a p = p\<lparr>p_arcs := set_count a (\<lambda>n. n + 1) (p_arcs p)\<rparr>"

definition arc_drop :: "nat \<Rightarrow> 'a pool \<Rightarrow> 'a pool" where
  "arc_drop a p =
     (case map_of (p_arcs p) a of
        None \<Rightarrow> p
      | Some sh \<Rightarrow>
          if sh_count sh \<le> 1
          then pool_release (sh_permit sh) (p\<lparr>p_arcs := filter (\<lambda>(b, _). b \<noteq> a) (p_arcs p)\<rparr>)
          else p\<lparr>p_arcs := set_count a (\<lambda>n. n - 1) (p_arcs p)\<rparr>)"

section \<open>The contract\<close>

text \<open>
  What a client needs: with \<open>held\<close> permits in its hands and the references \<open>R\<close>, every operation keeps
  the books, and a shared value can be read as long as somebody refers to it.
\<close>

locale permit_owner =
  fixes ok :: "nat \<Rightarrow> nat multiset \<Rightarrow> 'p \<Rightarrow> bool"
    and acquire :: "nat \<Rightarrow> 'p \<Rightarrow> 'p option"
    and release :: "nat \<Rightarrow> 'p \<Rightarrow> 'p"
    and new :: "nat \<Rightarrow> 'v \<Rightarrow> 'p \<Rightarrow> nat \<times> 'p"
    and get :: "nat \<Rightarrow> 'p \<Rightarrow> 'v option"
    and clone :: "nat \<Rightarrow> 'p \<Rightarrow> 'p"
    and discard :: "nat \<Rightarrow> 'p \<Rightarrow> 'p"
  assumes acquire_ok: "ok h R p \<Longrightarrow> acquire n p = Some p' \<Longrightarrow> ok (h + n) R p'"
    and release_ok: "ok (h + n) R p \<Longrightarrow> ok h R (release n p)"
    and new_ok: "ok (h + n) R p \<Longrightarrow> new n v p = (a, p') \<Longrightarrow> ok h (add_mset a R) p' \<and> get a p' = Some v \<and> a \<notin># R"
    and clone_ok: "ok h R p \<Longrightarrow> a \<in># R \<Longrightarrow> ok h (add_mset a R) (clone a p)"
    and discard_ok: "ok h (add_mset a R) p \<Longrightarrow> ok h R (discard a p)"
    and get_ref: "ok h R p \<Longrightarrow> a \<in># R \<Longrightarrow> get a p \<noteq> None"
    and get_acquire: "acquire n p = Some p' \<Longrightarrow> get a p' = get a p"
    and get_release: "get a (release n p) = get a p"
    and get_new: "ok h R p \<Longrightarrow> new n v p = (b, p') \<Longrightarrow> a \<in># R \<Longrightarrow> get a p' = get a p"
    and get_clone: "get a (clone b p) = get a p"
    and get_discard: "ok h (add_mset b R) p \<Longrightarrow> a \<in># R \<Longrightarrow> get a (discard b p) = get a p"
begin

lemma discards_ok: "ok h (mset bs + R) p \<Longrightarrow> ok h R (fold discard bs p)"
  by (induction bs arbitrary: p) (auto dest: discard_ok)

lemma get_discards: "ok h (mset bs + R) p \<Longrightarrow> a \<in># R \<Longrightarrow> get a (fold discard bs p) = get a p"
proof (induction bs arbitrary: p)
  case (Cons b bs)
  then have o: "ok h (add_mset b (mset bs + R)) p" by simp
  from Cons.IH [OF discard_ok [OF o] Cons.prems(2)] get_discard [OF o, of a] Cons.prems(2) show ?case by simp
qed simp

end

section \<open>The pool keeps the contract\<close>

definition refs :: "'a pool \<Rightarrow> nat \<Rightarrow> nat" where
  "refs p a = (case map_of (p_arcs p) a of None \<Rightarrow> 0 | Some sh \<Rightarrow> sh_count sh)"

definition permits :: "(nat \<times> 'a shared) list \<Rightarrow> nat" where
  "permits as = (\<Sum>(_, sh)\<leftarrow>as. sh_permit sh)"

definition pool_ok :: "nat \<Rightarrow> nat \<Rightarrow> nat multiset \<Rightarrow> 'a pool \<Rightarrow> bool" where
  "pool_ok T held R p =
     (distinct (map fst (p_arcs p)) \<and> (\<forall>a sh. map_of (p_arcs p) a = Some sh \<longrightarrow> a < p_next p \<and> 0 < sh_count sh)
      \<and> (\<forall>a. refs p a = count R a) \<and> p_avail p + permits (p_arcs p) + held = T)"

declare map_of_eq_Some_iff [simp del]

lemma fst_set_count [simp]: "map fst (set_count a f as) = map fst as"
  by (auto simp: set_count_def)

lemma map_of_set_count:
  "map_of (set_count a f as) b =
     (if b = a then map_option (\<lambda>sh. sh\<lparr>sh_count := f (sh_count sh)\<rparr>) (map_of as b) else map_of as b)"
  by (induction as) (auto simp: set_count_def)

lemma permits_set_count [simp]: "permits (set_count a f as) = permits as"
  by (induction as) (auto simp: set_count_def permits_def)

lemma map_of_filter_neq: "map_of (filter (\<lambda>(b, _). b \<noteq> a) as) c = (if c = a then None else map_of as c)"
  by (induction as) auto

lemma permits_filter:
  "distinct (map fst as) \<Longrightarrow> map_of as a = Some sh \<Longrightarrow> permits (filter (\<lambda>(b, _). b \<noteq> a) as) + sh_permit sh = permits as"
proof (induction as)
  case (Cons x as)
  obtain b s where x: "x = (b, s)" by (cases x)
  show ?case
  proof (cases "b = a")
    case True
    with Cons.prems have "filter (\<lambda>(c, _). c \<noteq> a) as = as" by (force simp: x filter_id_conv)
    with True Cons.prems show ?thesis by (simp add: x permits_def)
  next
    case False
    with Cons show ?thesis by (simp add: x permits_def)
  qed
qed simp

lemma pool_ok_ref: "pool_ok T h R p \<Longrightarrow> a \<in># R \<Longrightarrow> \<exists>sh. map_of (p_arcs p) a = Some sh \<and> sh_count sh = count R a"
  unfolding pool_ok_def refs_def by (metis (no_types, lifting) count_eq_zero_iff option.case_eq_if option.collapse)

lemma pool_ok_new: "pool_ok T 0 {#} (pool_new T)"
  by (simp add: pool_ok_def pool_new_def refs_def permits_def)

lemma pool_discard_ok:
  assumes ok: "pool_ok T h (add_mset a R) p"
  shows "pool_ok T h R (arc_drop a p)" "b \<in># R \<Longrightarrow> arc_get b (arc_drop a p) = arc_get b p"
proof -
  from pool_ok_ref [OF ok, of a] obtain sh where sh: "map_of (p_arcs p) a = Some sh" "sh_count sh = Suc (count R a)" by auto
  have d: "distinct (map fst (p_arcs p))" using ok by (simp add: pool_ok_def)
  have c: "refs p b = count (add_mset a R) b" for b using ok by (simp add: pool_ok_def)
  show "pool_ok T h R (arc_drop a p)"
  proof (cases "count R a")
    case 0
    with sh ok c permits_filter [OF d sh(1)] show ?thesis
      by (auto simp: arc_drop_def pool_ok_def pool_release_def refs_def map_of_filter_neq distinct_map_filter)
  next
    case (Suc n)
    with sh ok c show ?thesis by (auto simp: arc_drop_def pool_ok_def refs_def map_of_set_count)
  qed
  show "arc_get b (arc_drop a p) = arc_get b p" if "b \<in># R"
    using that sh by (auto simp: arc_drop_def arc_get_def pool_release_def map_of_filter_neq map_of_set_count
      option.map_comp comp_def)
qed

interpretation budget: permit_owner "pool_ok T" pool_acquire pool_release arc_new arc_get arc_clone arc_drop for T
proof
  fix h R and p p' :: "'a pool" and n a b v
  show "pool_ok T h R p \<Longrightarrow> pool_acquire n p = Some p' \<Longrightarrow> pool_ok T (h + n) R p'"
    by (auto simp: pool_ok_def pool_acquire_def refs_def split: if_splits)
  show "pool_ok T (h + n) R p \<Longrightarrow> pool_ok T h R (pool_release n p)"
    by (auto simp: pool_ok_def pool_release_def refs_def)
  show "pool_ok T h R p \<Longrightarrow> a \<in># R \<Longrightarrow> pool_ok T h (add_mset a R) (arc_clone a p)"
    using pool_ok_ref [of T h R p a] by (auto simp: pool_ok_def arc_clone_def refs_def map_of_set_count)
  show "pool_ok T h R p \<Longrightarrow> a \<in># R \<Longrightarrow> arc_get a p \<noteq> None"
    using pool_ok_ref [of T h R p a] by (auto simp: arc_get_def)
  show "pool_acquire n p = Some p' \<Longrightarrow> arc_get a p' = arc_get a p"
    by (auto simp: pool_acquire_def arc_get_def split: if_splits)
  show "arc_get a (pool_release n p) = arc_get a p" by (simp add: pool_release_def arc_get_def)
  show "arc_get a (arc_clone b p) = arc_get a p"
    by (auto simp: arc_clone_def arc_get_def map_of_set_count option.map_comp comp_def)
  show "pool_ok T h (add_mset a R) p \<Longrightarrow> pool_ok T h R (arc_drop a p)" by (rule pool_discard_ok(1))
  show "pool_ok T h (add_mset b R) p \<Longrightarrow> a \<in># R \<Longrightarrow> arc_get a (arc_drop b p) = arc_get a p" by (rule pool_discard_ok(2))
  have fresh: "map_of (p_arcs p) (p_next p) = None" if "pool_ok T m R p" for m using that
    unfolding pool_ok_def by (metis less_irrefl not_None_eq)
  show "pool_ok T (h + n) R p \<Longrightarrow> arc_new n v p = (a, p') \<Longrightarrow>
      pool_ok T h (add_mset a R) p' \<and> arc_get a p' = Some v \<and> a \<notin># R"
  proof -
    assume ok: "pool_ok T (h + n) R p" and nw: "arc_new n v p = (a, p')"
    have f: "map_of (p_arcs p) (p_next p) = None" by (rule fresh [OF ok])
    have "refs p (p_next p) = count R (p_next p)" using ok by (simp add: pool_ok_def)
    then have z: "count R (p_next p) = 0" unfolding refs_def f by simp
    have "p_next p \<notin> fst ` set (p_arcs p)" using f unfolding map_of_eq_None_iff .
    with nw ok f z show ?thesis
      by (auto simp: arc_new_def pool_ok_def refs_def permits_def arc_get_def less_SucI count_eq_zero_iff split: if_splits)
  qed
  show "pool_ok T h R p \<Longrightarrow> arc_new n v p = (b, p') \<Longrightarrow> a \<in># R \<Longrightarrow> arc_get a p' = arc_get a p"
    using fresh [of h] pool_ok_ref [of T h R p a] by (auto simp: arc_new_def arc_get_def)
qed

lemma pool_bounds: "pool_ok T h R p \<Longrightarrow> p_avail p + h \<le> T"
  by (auto simp: pool_ok_def)

text \<open>When nobody holds anything any more the whole budget is available again.\<close>

lemma pool_all_returned: "pool_ok T 0 {#} p \<Longrightarrow> p_avail p = T \<and> p_arcs p = []"
proof -
  assume ok: "pool_ok T 0 {#} p"
  have "p_arcs p = []"
  proof (cases "p_arcs p")
    case (Cons x xs)
    then have "map_of (p_arcs p) (fst x) = Some (snd x)" by (cases x) auto
    then have "refs p (fst x) = sh_count (snd x)" "0 < sh_count (snd x)" using ok
      by (simp add: refs_def) (metis \<open>map_of (p_arcs p) (fst x) = Some (snd x)\<close> ok pool_ok_def)
    moreover have "refs p (fst x) = 0" using ok by (simp add: pool_ok_def)
    ultimately show ?thesis by simp
  qed simp
  with ok show ?thesis by (simp add: pool_ok_def permits_def)
qed

end
