(* ===== verification/Exact_Cache.thy ===== *)
theory Exact_Cache
  imports Transport_Headers Response_Shape Shared_Permits Key_Frames "HOL-Library.List_Lexorder" "HOL-Library.Char_ord"
begin

text \<open>
  The exact response cache of \<^verbatim>\<open>cache.rs\<close>: keys, the store with its memory budget, the election of one
  request per key to fill the cache, and the capture of a response.

  The memory of an entry is counted by the permits its \<^verbatim>\<open>Arc\<close> owns (\<open>Shared_Permits\<close>); a response that
  is still being replayed keeps its entry, and so its permits, alive.  The hash maps are association
  lists; the iteration order that decides between equally old entries is the argument \<open>iter\<close>, the
  reading of the clock for each visited entry the argument \<open>clk\<close>.  SHA-256 and the JSON parser are
  parameters.  \<open>None\<close> is a panic: a checked counter overflows or drops below zero, or a loop does not
  end within its fuel.  Notifications only wake the waiting calls, which may look again at any time.
\<close>

section \<open>Data\<close>

definition BUDGET_BYTES :: nat where "BUDGET_BYTES = 4 * 1024 * 1024"
definition ENTRY_BYTES :: nat where "ENTRY_BYTES = 256 * 1024"
definition CACHE_ENTRIES :: nat where "CACHE_ENTRIES = 128"

type_synonym xkey = string

record bypasses =
  by_request_cache_control :: nat
  by_size :: nat
  by_endpoint :: nat
  by_tools_state :: nat
  by_history :: nat
  by_unsupported_shape :: nat

record not_stored_counts =
  ns_status :: nat
  ns_response_cache_control :: nat
  ns_unsafe_headers :: nat
  ns_encoding :: nat
  ns_representation :: nat
  ns_size :: nat
  ns_incomplete_or_unsafe :: nat

datatype not_stored =
    NotStatus | NotCacheControl | NotSafeHeaders | NotEncoding | NotRepresentation | NotSize | NotComplete

record xentry =
  en_body :: string
  en_headers :: hmap
  en_inserted :: duration

record xstate =
  x_entries :: "(xkey \<times> nat) list"
  x_flights :: "xkey list"
  x_waiters :: nat
  x_coalesced :: nat
  x_coordination_bypasses :: nat
  x_considered :: nat
  x_bypasses :: bypasses
  x_not_stored :: not_stored_counts
  x_hits :: nat
  x_misses :: nat
  x_stores :: nat
  x_evictions :: nat
  x_budget_bypasses :: nat

record exact_cache =
  xc_config :: cache_config
  xc_budget :: "xentry pool"
  xc_state :: xstate

datatype flight = Unclaimed | WaitingFlight | Owner | BypassFlight

datatype lookup_outcome = Uncounted | Miss | Hit

record xpending =
  pd_key :: xkey
  pd_outcome :: lookup_outcome
  pd_flight :: flight
  pd_waited :: bool
  pd_capture_pending :: bool

record capture =
  cp_pending :: xpending
  cp_body :: string
  cp_headers :: hmap
  cp_permit :: nat
  cp_limit :: nat

record xsnapshot =
  xs_enabled :: bool
  xs_considered :: nat
  xs_bypasses :: bypasses
  xs_not_stored :: not_stored_counts
  xs_hits :: nat
  xs_misses :: nat
  xs_stores :: nat
  xs_evictions :: nat
  xs_budget_bypasses :: nat
  xs_entries :: nat
  xs_inflight_keys :: nat
  xs_waiters :: nat
  xs_coalesced :: nat
  xs_coordination_bypasses :: nat
  xs_retained_bytes :: nat
  xs_budget_bytes :: nat

definition no_bypasses :: bypasses where
  "no_bypasses = \<lparr>by_request_cache_control = 0, by_size = 0, by_endpoint = 0, by_tools_state = 0, by_history = 0,
     by_unsupported_shape = 0\<rparr>"

definition no_not_stored :: not_stored_counts where
  "no_not_stored = \<lparr>ns_status = 0, ns_response_cache_control = 0, ns_unsafe_headers = 0, ns_encoding = 0,
     ns_representation = 0, ns_size = 0, ns_incomplete_or_unsafe = 0\<rparr>"

definition xstate_default :: xstate where
  "xstate_default = \<lparr>x_entries = [], x_flights = [], x_waiters = 0, x_coalesced = 0, x_coordination_bypasses = 0,
     x_considered = 0, x_bypasses = no_bypasses, x_not_stored = no_not_stored, x_hits = 0, x_misses = 0, x_stores = 0,
     x_evictions = 0, x_budget_bypasses = 0\<rparr>"

definition cache_new :: "cache_config \<Rightarrow> exact_cache" where
  "cache_new config = \<lparr>xc_config = config, xc_budget = pool_new BUDGET_BYTES, xc_state = xstate_default\<rparr>"

section \<open>Requests and their keys\<close>

abbreviation (input) bump :: "nat \<Rightarrow> nat" where
  "bump n \<equiv> saturating_add u64_max n 1"

fun count_bypass :: "bypass \<Rightarrow> bypasses \<Rightarrow> bypasses" where
  "count_bypass RequestCacheControl b = b\<lparr>by_request_cache_control := bump (by_request_cache_control b)\<rparr>"
| "count_bypass Size b = b\<lparr>by_size := bump (by_size b)\<rparr>"
| "count_bypass EndpointBypass b = b\<lparr>by_endpoint := bump (by_endpoint b)\<rparr>"
| "count_bypass ToolsState b = b\<lparr>by_tools_state := bump (by_tools_state b)\<rparr>"
| "count_bypass History b = b\<lparr>by_history := bump (by_history b)\<rparr>"
| "count_bypass UnsupportedShape b = b\<lparr>by_unsupported_shape := bump (by_unsupported_shape b)\<rparr>"

definition key_names :: "hmap \<Rightarrow> string list" where
  "key_names headers = sort (filter (\<lambda>name. name \<noteq> ''x-stainless-retry-count'') (map fst headers))"

definition key_frames :: "nat \<Rightarrow> string \<Rightarrow> hmap \<Rightarrow> string \<Rightarrow> string list" where
  "key_frames root url headers body =
     be64 root # url # be64 (length (key_names headers))
     # concat (map (\<lambda>name. name # be64 (length (get_all headers name)) # get_all headers name) (key_names headers)) @ [body]"

definition cache_request ::
  "(string \<Rightarrow> json option) \<Rightarrow> (string \<Rightarrow> xkey) \<Rightarrow> nat \<Rightarrow> string \<Rightarrow> hmap \<Rightarrow> endpoint \<Rightarrow> string \<Rightarrow> bool \<Rightarrow> exact_cache
   \<Rightarrow> xpending option \<times> exact_cache" where
  "cache_request from_slice sha256 root url headers endpoint body forbids c =
     (let st = (xc_state c)\<lparr>x_considered := bump (x_considered (xc_state c))\<rparr> in
      case bypass_reason from_slice endpoint body (cc_max_history (xc_config c)) forbids of
        Some reason \<Rightarrow> (None, c\<lparr>xc_state := st\<lparr>x_bypasses := count_bypass reason (x_bypasses st)\<rparr>\<rparr>)
      | None \<Rightarrow>
          (Some \<lparr>pd_key = sha256 (frames (key_frames root url headers body)), pd_outcome = Uncounted,
                 pd_flight = Unclaimed, pd_waited = False, pd_capture_pending = False\<rparr>,
           c\<lparr>xc_state := st\<rparr>))"

definition cache_snapshot :: "exact_cache option \<Rightarrow> xsnapshot" where
  "cache_snapshot cache =
     (case cache of
        None \<Rightarrow>
          \<lparr>xs_enabled = False, xs_considered = 0, xs_bypasses = no_bypasses, xs_not_stored = no_not_stored,
           xs_hits = 0, xs_misses = 0, xs_stores = 0, xs_evictions = 0, xs_budget_bypasses = 0, xs_entries = 0,
           xs_inflight_keys = 0, xs_waiters = 0, xs_coalesced = 0, xs_coordination_bypasses = 0,
           xs_retained_bytes = 0, xs_budget_bytes = BUDGET_BYTES\<rparr>
      | Some c \<Rightarrow>
          let st = xc_state c in
          \<lparr>xs_enabled = True, xs_considered = x_considered st, xs_bypasses = x_bypasses st,
           xs_not_stored = x_not_stored st, xs_hits = x_hits st, xs_misses = x_misses st, xs_stores = x_stores st,
           xs_evictions = x_evictions st, xs_budget_bypasses = x_budget_bypasses st, xs_entries = length (x_entries st),
           xs_inflight_keys = length (x_flights st), xs_waiters = x_waiters st, xs_coalesced = x_coalesced st,
           xs_coordination_bypasses = x_coordination_bypasses st,
           xs_retained_bytes = BUDGET_BYTES - p_avail (xc_budget c), xs_budget_bytes = BUDGET_BYTES\<rparr>)"

section \<open>Looking up and waiting\<close>

definition inserted_at :: "exact_cache \<Rightarrow> nat \<Rightarrow> duration" where
  "inserted_at c a = (case arc_get a (xc_budget c) of None \<Rightarrow> 0 | Some e \<Rightarrow> en_inserted e)"

definition retain_fresh :: "(xkey \<Rightarrow> duration) \<Rightarrow> exact_cache \<Rightarrow> exact_cache" where
  "retain_fresh clk c =
     (let fresh = (\<lambda>(k, a). clk k - inserted_at c a < from_secs (cc_ttl_secs (xc_config c)));
          es = x_entries (xc_state c)
      in c\<lparr>xc_state := (xc_state c)\<lparr>x_entries := filter fresh es\<rparr>,
           xc_budget := fold arc_drop (map snd (filter (\<lambda>e. \<not> fresh e) es)) (xc_budget c)\<rparr>)"

definition count_outcome :: "bool \<Rightarrow> xpending \<Rightarrow> xstate \<Rightarrow> (xpending \<times> xstate) option" where
  "count_outcome found p st =
     (case pd_outcome p of
        Uncounted \<Rightarrow>
          if found
          then map_option (\<lambda>n. (p\<lparr>pd_outcome := Hit\<rparr>, st\<lparr>x_hits := n\<rparr>)) (checked_add u64_max (x_hits st) 1)
          else map_option (\<lambda>n. (p\<lparr>pd_outcome := Miss\<rparr>, st\<lparr>x_misses := n\<rparr>)) (checked_add u64_max (x_misses st) 1)
      | Miss \<Rightarrow>
          if found then
            Option.bind (checked_sub (x_misses st) 1) (\<lambda>misses.
            Option.bind (checked_add u64_max (x_hits st) 1) (\<lambda>hits.
              Some (p\<lparr>pd_outcome := Hit\<rparr>,
                    st\<lparr>x_misses := misses, x_hits := hits,
                       x_coalesced := (if pd_waited p then bump (x_coalesced st) else x_coalesced st)\<rparr>)))
          else Some (p, st)
      | Hit \<Rightarrow> Some (p, st))"

definition leave_waiters :: "xpending \<Rightarrow> xstate \<Rightarrow> (xpending \<times> xstate) option" where
  "leave_waiters p st =
     (if pd_flight p = WaitingFlight
      then map_option (\<lambda>n. (p\<lparr>pd_flight := Unclaimed\<rparr>, st\<lparr>x_waiters := n\<rparr>)) (checked_sub (x_waiters st) 1)
      else Some (p, st))"

text \<open>
  \<^verbatim>\<open>lookup_in\<close>: a hit is a new reference to the entry, which the body of the response owns.
\<close>

definition lookup_in ::
  "(xkey \<Rightarrow> duration) \<Rightarrow> xpending \<Rightarrow> exact_cache \<Rightarrow> (nat option \<times> xpending \<times> exact_cache) option" where
  "lookup_in clk p c =
     (let c1 = retain_fresh clk c; found = map_of (x_entries (xc_state c1)) (pd_key p) in
      Option.bind (count_outcome (found \<noteq> None) p (xc_state c1)) (\<lambda>(p1, st1).
        case found of
          None \<Rightarrow> Some (None, p1, c1\<lparr>xc_state := st1\<rparr>)
        | Some a \<Rightarrow>
            map_option (\<lambda>(p2, st2). (Some a, p2, c1\<lparr>xc_state := st2, xc_budget := arc_clone a (xc_budget c1)\<rparr>))
              (leave_waiters p1 st1)))"

datatype turn = TurnHit nat | TurnGo | TurnWait

text \<open>One round of the loop of \<^verbatim>\<open>wait_for_turn\<close>; after \<open>TurnWait\<close> the call sleeps until it is notified.\<close>

definition wait_turn ::
  "(xkey \<Rightarrow> duration) \<Rightarrow> xpending \<Rightarrow> exact_cache \<Rightarrow> (turn \<times> xpending \<times> exact_cache) option" where
  "wait_turn clk p c =
     Option.bind (lookup_in clk p c) (\<lambda>(found, p1, c1).
       case found of
         Some a \<Rightarrow> Some (TurnHit a, p1, c1)
       | None \<Rightarrow>
           let st = xc_state c1 in
           if pd_flight p1 \<in> {Owner, BypassFlight} then Some (TurnGo, p1, c1)
           else if pd_key p1 \<notin> set (x_flights st) then
             map_option (\<lambda>(p2, st2).
               if length (x_flights st2) < CACHE_ENTRIES
               then (TurnGo, p2\<lparr>pd_flight := Owner\<rparr>, c1\<lparr>xc_state := st2\<lparr>x_flights := pd_key p2 # x_flights st2\<rparr>\<rparr>)
               else (TurnGo, p2\<lparr>pd_flight := BypassFlight\<rparr>,
                     c1\<lparr>xc_state := st2\<lparr>x_coordination_bypasses := bump (x_coordination_bypasses st2)\<rparr>\<rparr>))
               (leave_waiters p1 st)
           else if pd_flight p1 \<noteq> WaitingFlight
           then Some (TurnWait, p1\<lparr>pd_flight := WaitingFlight, pd_waited := True\<rparr>,
                      c1\<lparr>xc_state := st\<lparr>x_waiters := x_waiters st + 1\<rparr>\<rparr>)
           else Some (TurnWait, p1, c1))"

section \<open>Giving up\<close>

fun count_not_stored :: "not_stored \<Rightarrow> not_stored_counts \<Rightarrow> not_stored_counts" where
  "count_not_stored NotStatus n = n\<lparr>ns_status := bump (ns_status n)\<rparr>"
| "count_not_stored NotCacheControl n = n\<lparr>ns_response_cache_control := bump (ns_response_cache_control n)\<rparr>"
| "count_not_stored NotSafeHeaders n = n\<lparr>ns_unsafe_headers := bump (ns_unsafe_headers n)\<rparr>"
| "count_not_stored NotEncoding n = n\<lparr>ns_encoding := bump (ns_encoding n)\<rparr>"
| "count_not_stored NotRepresentation n = n\<lparr>ns_representation := bump (ns_representation n)\<rparr>"
| "count_not_stored NotSize n = n\<lparr>ns_size := bump (ns_size n)\<rparr>"
| "count_not_stored NotComplete n = n\<lparr>ns_incomplete_or_unsafe := bump (ns_incomplete_or_unsafe n)\<rparr>"

definition record_not_stored :: "not_stored \<Rightarrow> xpending \<Rightarrow> exact_cache \<Rightarrow> xpending \<times> exact_cache" where
  "record_not_stored reason p c =
     (p\<lparr>pd_capture_pending := False\<rparr>,
      c\<lparr>xc_state := (xc_state c)\<lparr>x_not_stored := count_not_stored reason (x_not_stored (xc_state c))\<rparr>\<rparr>)"

definition pending_drop :: "xpending \<Rightarrow> exact_cache \<Rightarrow> exact_cache option" where
  "pending_drop p c =
     (let c1 = (if pd_capture_pending p then snd (record_not_stored NotComplete p c) else c); st = xc_state c1 in
      case pd_flight p of
        WaitingFlight \<Rightarrow> map_option (\<lambda>n. c1\<lparr>xc_state := st\<lparr>x_waiters := n\<rparr>\<rparr>) (checked_sub (x_waiters st) 1)
      | Owner \<Rightarrow> Some (c1\<lparr>xc_state := st\<lparr>x_flights := removeAll (pd_key p) (x_flights st)\<rparr>\<rparr>)
      | _ \<Rightarrow> Some c1)"

definition reject_status :: "xpending \<Rightarrow> exact_cache \<Rightarrow> exact_cache option" where
  "reject_status p c = (let (p1, c1) = record_not_stored NotStatus p c in pending_drop p1 c1)"

section \<open>Capturing a response\<close>

definition remove_key :: "xkey \<Rightarrow> exact_cache \<Rightarrow> exact_cache" where
  "remove_key k c =
     (case map_of (x_entries (xc_state c)) k of
        None \<Rightarrow> c
      | Some a \<Rightarrow>
          c\<lparr>xc_state := (xc_state c)\<lparr>x_entries := filter (\<lambda>(k', _). k' \<noteq> k) (x_entries (xc_state c))\<rparr>,
            xc_budget := arc_drop a (xc_budget c)\<rparr>)"

type_synonym map_order = "(xkey \<times> nat) list \<Rightarrow> (xkey \<times> nat) list"

definition evict :: "map_order \<Rightarrow> exact_cache \<Rightarrow> (bool \<times> exact_cache) option" where
  "evict iter c =
     (case min_by_key (\<lambda>(_, a). inserted_at c a) (iter (x_entries (xc_state c))) of
        None \<Rightarrow> Some (False, c)
      | Some (key, _) \<Rightarrow>
          let c1 = remove_key key c in
          map_option (\<lambda>n. (True, c1\<lparr>xc_state := (xc_state c1)\<lparr>x_evictions := n\<rparr>\<rparr>))
            (checked_add u64_max (x_evictions (xc_state c1)) 1))"

text \<open>
  The loop of \<^verbatim>\<open>capture\<close> that makes room.  Every round that does not end it removes an entry, so one
  more than the number of entries is fuel enough.
\<close>

fun reserve :: "nat \<Rightarrow> map_order \<Rightarrow> exact_cache \<Rightarrow> (bool \<times> exact_cache) option" where
  "reserve 0 iter c = None"
| "reserve (Suc fuel) iter c =
     (case pool_acquire ENTRY_BYTES (xc_budget c) of
        Some b \<Rightarrow> Some (True, c\<lparr>xc_budget := b\<rparr>)
      | None \<Rightarrow>
          Option.bind (evict iter c) (\<lambda>(evicted, c1).
            if evicted then reserve fuel iter c1
            else map_option (\<lambda>n. (False, c1\<lparr>xc_state := (xc_state c1)\<lparr>x_budget_bypasses := n\<rparr>\<rparr>))
                   (checked_add u64_max (x_budget_bypasses (xc_state c1)) 1)))"

definition forbids_reuse :: "http_libs \<Rightarrow> header_map \<Rightarrow> bool" where
  "forbids_reuse L h =
     list_ex (\<lambda>value.
       case lib_to_str L value of
         None \<Rightarrow> True
       | Some v \<Rightarrow>
           list_ex (\<lambda>directive.
             let name = trim (hd (split_on CHR ''='' directive)) in
             eq_ignore_ascii_case name ''no-store'' \<or> eq_ignore_ascii_case name ''no-cache''
             \<or> eq_ignore_ascii_case (trim directive) ''max-age=0'') (split_on CHR '','' v))
       (h ''cache-control'' @ h ''pragma'')"

definition unsafe_vary :: "http_libs \<Rightarrow> header_map \<Rightarrow> bool" where
  "unsafe_vary L h =
     list_ex (\<lambda>value.
       case lib_to_str L value of
         None \<Rightarrow> True
       | Some v \<Rightarrow>
           list_ex (\<lambda>field. trim field = ''*'' \<or> eq_ignore_ascii_case (trim field) ''x-stainless-retry-count'')
             (split_on CHR '','' v)) (h ''vary'')"

definition capture_rejection :: "http_libs \<Rightarrow> nat \<Rightarrow> header_map \<Rightarrow> not_stored option" where
  "capture_rejection L status original =
     (if status \<noteq> 200 then Some NotStatus
      else if forbids_reuse L original then Some NotCacheControl
      else if contains_key original ''set-cookie'' \<or> unsafe_vary L original then Some NotSafeHeaders
      else if list_ex (\<lambda>v. \<not> eq_ignore_ascii_case v ''identity'') (original ''content-encoding'') then Some NotEncoding
      else if list_ex (\<lambda>v. is_none_or (\<lambda>n. ENTRY_BYTES < n) (Option.bind (lib_to_str L v) parse_u64))
                (original ''content-length'') then Some NotSize
      else None)"

definition storable_media :: "http_libs \<Rightarrow> string list \<Rightarrow> bool" where
  "storable_media L types =
     (tl types = []
      \<and> is_some_and (\<lambda>v. let media = trim (hd (split_on CHR '';'' v)) in
           eq_ignore_ascii_case media ''application/json'' \<or> eq_ignore_ascii_case media ''text/event-stream'')
          (first_value L types))"

definition replayed_names :: "string list" where
  "replayed_names = [''content-type'', ''content-encoding'', ''content-language'']"

definition capture_limit :: "header_map \<Rightarrow> nat option" where
  "capture_limit forwarded =
     Option.bind
       (foldl (\<lambda>t name. foldl (\<lambda>t v. Option.bind t (\<lambda>n. checked_add u64_max n (length name + length v + 4))) t
                          (forwarded name)) (Some 2) replayed_names)
       (checked_sub ENTRY_BYTES)"

definition replayed_headers :: "header_map \<Rightarrow> hmap" where
  "replayed_headers forwarded =
     fold (\<lambda>name h. fold (hm_append name) (forwarded name) h) replayed_names []"

definition cache_capture ::
  "http_libs \<Rightarrow> map_order \<Rightarrow> nat \<Rightarrow> header_map \<Rightarrow> header_map \<Rightarrow> xpending \<Rightarrow> exact_cache
   \<Rightarrow> (capture option \<times> exact_cache) option" where
  "cache_capture L iter status original forwarded p c =
     (let give_up = (\<lambda>reason. let (p1, c1) = record_not_stored reason p c in map_option (Pair None) (pending_drop p1 c1)) in
      case capture_rejection L status original of
        Some reason \<Rightarrow> give_up reason
      | None \<Rightarrow>
          if \<not> storable_media L (forwarded ''content-type'') then give_up NotRepresentation
          else case capture_limit forwarded of
            None \<Rightarrow> give_up NotSize
          | Some limit \<Rightarrow>
              Option.bind (reserve (Suc (length (x_entries (xc_state c)))) iter c) (\<lambda>(ok, c1).
                if \<not> ok then map_option (Pair None) (pending_drop p c1)
                else Some (Some \<lparr>cp_pending = p\<lparr>pd_capture_pending := True\<rparr>, cp_body = [],
                                cp_headers = replayed_headers forwarded, cp_permit = ENTRY_BYTES, cp_limit = limit\<rparr>, c1)))"

definition capture_observe :: "string \<Rightarrow> capture \<Rightarrow> exact_cache \<Rightarrow> (bool \<times> capture \<times> exact_cache) option" where
  "capture_observe bytes cp c =
     map_option (\<lambda>room.
       if room < length bytes then
         if pd_capture_pending (cp_pending cp)
         then let (p1, c1) = record_not_stored NotSize (cp_pending cp) c in (False, cp\<lparr>cp_pending := p1\<rparr>, c1)
         else (False, cp, c)
       else (True, cp\<lparr>cp_body := cp_body cp @ bytes\<rparr>, c))
       (checked_sub (cp_limit cp) (length (cp_body cp)))"

definition capture_drop :: "capture \<Rightarrow> exact_cache \<Rightarrow> exact_cache option" where
  "capture_drop cp c =
     map_option (\<lambda>c1. c1\<lparr>xc_budget := pool_release (cp_permit cp) (xc_budget c1)\<rparr>) (pending_drop (cp_pending cp) c)"

definition store_entry :: "xkey \<Rightarrow> nat \<Rightarrow> exact_cache \<Rightarrow> exact_cache" where
  "store_entry k a c =
     (let c1 = remove_key k c in c1\<lparr>xc_state := (xc_state c1)\<lparr>x_entries := (k, a) # x_entries (xc_state c1)\<rparr>\<rparr>)"

definition capture_commit ::
  "map_order \<Rightarrow> duration \<Rightarrow> bool \<Rightarrow> capture \<Rightarrow> exact_cache \<Rightarrow> exact_cache option" where
  "capture_commit iter now complete cp c =
     (let p = cp_pending cp; key = pd_key p in
      if \<not> complete \<or> \<not> pd_capture_pending p then capture_drop cp c
      else
        Option.bind (checked_sub ENTRY_BYTES (length (cp_body cp) + stored_size (cp_headers cp))) (\<lambda>rest.
          let p = p\<lparr>pd_capture_pending := False\<rparr>;
              (permit, b1) = (if rest \<le> cp_permit cp then (cp_permit cp - rest, pool_release rest (xc_budget c))
                              else (cp_permit cp, xc_budget c));
              (a, b2) = arc_new permit \<lparr>en_body = cp_body cp, en_headers = cp_headers cp, en_inserted = now\<rparr> b1;
              c1 = c\<lparr>xc_budget := b2\<rparr>
          in Option.bind
               (if CACHE_ENTRIES \<le> length (x_entries (xc_state c1)) \<and> map_of (x_entries (xc_state c1)) key = None
                then map_option snd (evict iter c1) else Some c1) (\<lambda>c2.
             let c3 = store_entry key a c2 in
             Option.bind (checked_add u64_max (x_stores (xc_state c3)) 1) (\<lambda>stores.
               let st = (xc_state c3)\<lparr>x_stores := stores\<rparr>;
                   (p1, st1) = (if pd_flight p = Owner
                                then (p\<lparr>pd_flight := Unclaimed\<rparr>, st\<lparr>x_flights := removeAll key (x_flights st)\<rparr>)
                                else (p, st))
               in pending_drop p1 (c3\<lparr>xc_state := st1\<rparr>)))))"

section \<open>The cache with its users\<close>

record cache_system =
  y_cache :: exact_cache
  y_pendings :: "xpending list"
  y_captures :: "capture list"
  y_replays :: "nat list"

datatype cache_op =
    XRequest nat string hmap endpoint string bool
  | XLookup "xkey \<Rightarrow> duration" nat
  | XTurn "xkey \<Rightarrow> duration" nat
  | XCapture nat header_map header_map nat
  | XReject nat
  | XDropPending nat
  | XObserve string nat
  | XCommit duration bool nat
  | XDropCapture nat
  | XDropReplay nat

definition cache_system_new :: "cache_config \<Rightarrow> cache_system" where
  "cache_system_new config = \<lparr>y_cache = cache_new config, y_pendings = [], y_captures = [], y_replays = []\<rparr>"

record cache_env =
  ce_libs :: http_libs
  ce_sha256 :: "string \<Rightarrow> xkey"
  ce_iter :: map_order

text \<open>
  The operations in the order in which the tasks of the gateway perform them; an operation on an
  object that does not exist does nothing.
\<close>

fun cache_exec :: "cache_env \<Rightarrow> cache_op \<Rightarrow> cache_system \<Rightarrow> cache_system option" where
  "cache_exec E (XRequest root url headers endpoint body forbids) s =
     (case cache_request (lib_json (ce_libs E)) (ce_sha256 E) root url headers endpoint body forbids (y_cache s) of
        (None, c) \<Rightarrow> Some (s\<lparr>y_cache := c\<rparr>)
      | (Some p, c) \<Rightarrow> Some (s\<lparr>y_cache := c, y_pendings := y_pendings s @ [p]\<rparr>))"
| "cache_exec E (XLookup clk n) s =
     (if n < length (y_pendings s) then
        map_option (\<lambda>(found, p, c). s\<lparr>y_cache := c, y_pendings := (y_pendings s)[n := p],
            y_replays := (case found of None \<Rightarrow> y_replays s | Some a \<Rightarrow> a # y_replays s)\<rparr>)
          (lookup_in clk (y_pendings s ! n) (y_cache s))
      else Some s)"
| "cache_exec E (XTurn clk n) s =
     (if n < length (y_pendings s) then
        map_option (\<lambda>(t, p, c). s\<lparr>y_cache := c, y_pendings := (y_pendings s)[n := p],
            y_replays := (case t of TurnHit a \<Rightarrow> a # y_replays s | _ \<Rightarrow> y_replays s)\<rparr>)
          (wait_turn clk (y_pendings s ! n) (y_cache s))
      else Some s)"
| "cache_exec E (XCapture status original forwarded n) s =
     (if n < length (y_pendings s) then
        map_option (\<lambda>(cp, c). s\<lparr>y_cache := c, y_pendings := remove_at n (y_pendings s),
            y_captures := (case cp of None \<Rightarrow> y_captures s | Some cp \<Rightarrow> y_captures s @ [cp])\<rparr>)
          (cache_capture (ce_libs E) (ce_iter E) status original forwarded (y_pendings s ! n) (y_cache s))
      else Some s)"
| "cache_exec E (XReject n) s =
     (if n < length (y_pendings s) then
        map_option (\<lambda>c. s\<lparr>y_cache := c, y_pendings := remove_at n (y_pendings s)\<rparr>)
          (reject_status (y_pendings s ! n) (y_cache s))
      else Some s)"
| "cache_exec E (XDropPending n) s =
     (if n < length (y_pendings s) then
        map_option (\<lambda>c. s\<lparr>y_cache := c, y_pendings := remove_at n (y_pendings s)\<rparr>)
          (pending_drop (y_pendings s ! n) (y_cache s))
      else Some s)"
| "cache_exec E (XObserve bytes n) s =
     (if n < length (y_captures s) then
        map_option (\<lambda>(_, cp, c). s\<lparr>y_cache := c, y_captures := (y_captures s)[n := cp]\<rparr>)
          (capture_observe bytes (y_captures s ! n) (y_cache s))
      else Some s)"
| "cache_exec E (XCommit now complete n) s =
     (if n < length (y_captures s) then
        map_option (\<lambda>c. s\<lparr>y_cache := c, y_captures := remove_at n (y_captures s)\<rparr>)
          (capture_commit (ce_iter E) now complete (y_captures s ! n) (y_cache s))
      else Some s)"
| "cache_exec E (XDropCapture n) s =
     (if n < length (y_captures s) then
        map_option (\<lambda>c. s\<lparr>y_cache := c, y_captures := remove_at n (y_captures s)\<rparr>)
          (capture_drop (y_captures s ! n) (y_cache s))
      else Some s)"
| "cache_exec E (XDropReplay n) s =
     (if n < length (y_replays s) then
        Some (s\<lparr>y_cache := (y_cache s)\<lparr>xc_budget := arc_drop (y_replays s ! n) (xc_budget (y_cache s))\<rparr>,
                y_replays := remove_at n (y_replays s)\<rparr>)
      else Some s)"

text \<open>The states reached after a number of operations.\<close>

inductive cache_reachable :: "cache_env \<Rightarrow> cache_config \<Rightarrow> nat \<Rightarrow> cache_system \<Rightarrow> bool" for E config where
  cache_initial: "cache_reachable E config 0 (cache_system_new config)"
| cache_step: "cache_reachable E config n s \<Longrightarrow> cache_exec E x s = Some s' \<Longrightarrow> cache_reachable E config (Suc n) s'"

end
