(* ===== verification/Exact_Cache_Facts.thy ===== *)
theory Exact_Cache_Facts
  imports Exact_Cache
begin

text \<open>
  The books of the response cache and that every operation keeps them: permits and references, the
  keys in flight with their owners, the waiting calls, and the counters.
\<close>

section \<open>Results that must not be a panic\<close>

definition holds :: "'a option \<Rightarrow> ('a \<Rightarrow> bool) \<Rightarrow> bool" where
  "holds r Q = (\<exists>x. r = Some x \<and> Q x)"

lemma holds_simps [simp]: "holds None Q = False" "holds (Some x) Q = Q x"
  by (simp_all add: holds_def)

lemma holds_map [simp]: "holds (map_option f r) Q = holds r (\<lambda>x. Q (f x))"
  by (auto simp: holds_def)

lemma holds_bind: "holds r Q \<Longrightarrow> (\<And>x. r = Some x \<Longrightarrow> Q x \<Longrightarrow> holds (f x) Q') \<Longrightarrow> holds (Option.bind r f) Q'"
  by (auto simp: holds_def)

lemma holds_mono: "holds r Q \<Longrightarrow> (\<And>x. r = Some x \<Longrightarrow> Q x \<Longrightarrow> Q' x) \<Longrightarrow> holds r Q'"
  by (auto simp: holds_def)

section \<open>The books\<close>

definition entry_size :: "xentry \<Rightarrow> nat" where
  "entry_size e = length (en_body e) + stored_size (en_headers e)"

definition sized :: "xentry pool \<Rightarrow> bool" where
  "sized b = (\<forall>(_, sh)\<in>set (p_arcs b). sh_permit sh = entry_size (sh_value sh))"

definition store_ok :: "nat \<Rightarrow> nat multiset \<Rightarrow> exact_cache \<Rightarrow> bool" where
  "store_ok h R c =
     (pool_ok BUDGET_BYTES h (mset (map snd (x_entries (xc_state c))) + R) (xc_budget c) \<and> sized (xc_budget c)
      \<and> distinct (map fst (x_entries (xc_state c))) \<and> length (x_entries (xc_state c)) \<le> CACHE_ENTRIES
      \<and> x_evictions (xc_state c) + length (x_entries (xc_state c)) \<le> x_stores (xc_state c))"

definition owner_keys :: "xpending multiset \<Rightarrow> xkey multiset" where
  "owner_keys P = image_mset pd_key (filter_mset (\<lambda>p. pd_flight p = Owner) P)"

definition waiting_calls :: "xpending multiset \<Rightarrow> nat" where
  "waiting_calls P = size (filter_mset (\<lambda>p. pd_flight p = WaitingFlight) P)"

definition missed :: "xpending multiset \<Rightarrow> nat" where
  "missed P = size (filter_mset (\<lambda>p. pd_outcome p = Miss) P)"

definition flight_ok :: "xpending multiset \<Rightarrow> xstate \<Rightarrow> bool" where
  "flight_ok P st =
     (distinct (x_flights st) \<and> length (x_flights st) \<le> CACHE_ENTRIES \<and> mset (x_flights st) = owner_keys P
      \<and> x_waiters st = waiting_calls P)"

definition count_ok :: "nat \<Rightarrow> xpending multiset \<Rightarrow> xstate \<Rightarrow> bool" where
  "count_ok n P st =
     (missed P \<le> x_misses st \<and> x_hits st + x_misses st \<le> n \<and> x_stores st \<le> n \<and> x_budget_bypasses st \<le> n)"

definition capture_ok :: "capture \<Rightarrow> bool" where
  "capture_ok cp =
     (cp_permit cp = ENTRY_BYTES \<and> cp_limit cp + stored_size (cp_headers cp) = ENTRY_BYTES
      \<and> length (cp_body cp) \<le> cp_limit cp)"

lemma books_simps [simp]:
  "owner_keys {#} = {#}" "owner_keys (add_mset p P) = (if pd_flight p = Owner then add_mset (pd_key p) (owner_keys P) else owner_keys P)"
  "waiting_calls {#} = 0" "waiting_calls (add_mset p P) = (if pd_flight p = WaitingFlight then 1 else 0) + waiting_calls P"
  "missed {#} = 0" "missed (add_mset p P) = (if pd_outcome p = Miss then 1 else 0) + missed P"
  by (simp_all add: owner_keys_def waiting_calls_def missed_def)

lemma count_ok_mono: "count_ok n P st \<Longrightarrow> n \<le> m \<Longrightarrow> count_ok m P st"
  by (auto simp: count_ok_def)

text \<open>Nothing but the books matters.\<close>

definition same_store :: "xstate \<Rightarrow> xstate \<Rightarrow> bool" where
  "same_store st st' = (x_entries st' = x_entries st \<and> x_evictions st' = x_evictions st \<and> x_stores st' = x_stores st)"

definition same_flights :: "xstate \<Rightarrow> xstate \<Rightarrow> bool" where
  "same_flights st st' = (x_flights st' = x_flights st \<and> x_waiters st' = x_waiters st)"

lemma store_ok_cong: "same_store (xc_state c) st \<Longrightarrow> store_ok h R (c\<lparr>xc_state := st\<rparr>) = store_ok h R c"
  by (simp add: store_ok_def same_store_def)

lemma flight_ok_cong: "same_flights st st' \<Longrightarrow> flight_ok P st' = flight_ok P st"
  by (simp add: flight_ok_def same_flights_def)

section \<open>The pool\<close>

lemma sized_count: "sized b \<Longrightarrow> sized (b\<lparr>p_arcs := set_count a f (p_arcs b)\<rparr>)"
  by (auto simp: sized_def set_count_def split: if_splits)

lemma sized_drop: "sized b \<Longrightarrow> sized (arc_drop a b)"
  by (cases "map_of (p_arcs b) a") (auto simp: arc_drop_def sized_count, auto simp: pool_release_def sized_def)

lemma sized_drops: "sized b \<Longrightarrow> sized (fold arc_drop as b)"
  by (induction as arbitrary: b) (auto simp: sized_drop)

lemma sized_clone: "sized b \<Longrightarrow> sized (arc_clone a b)"
  by (simp add: arc_clone_def sized_count)

lemma sized_acquire: "pool_acquire n b = Some b' \<Longrightarrow> sized b \<Longrightarrow> sized b'"
  by (auto simp: pool_acquire_def sized_def split: if_splits)

lemma sized_release [simp]: "sized (pool_release n b) = sized b"
  by (simp add: pool_release_def sized_def)

lemma mset_map_filter_split: "mset (map f xs) = mset (map f (filter P xs)) + mset (map f (filter (\<lambda>x. \<not> P x) xs))"
  by (induction xs) auto

lemma retain_ok:
  assumes "store_ok h R c"
  shows "store_ok h R (retain_fresh clk c)"
    "same_flights (xc_state c) (xc_state (retain_fresh clk c))"
    "count_ok n P (xc_state (retain_fresh clk c)) = count_ok n P (xc_state c)"
    "xc_config (retain_fresh clk c) = xc_config c"
    "map_of (x_entries (xc_state (retain_fresh clk c))) k = Some a \<Longrightarrow>
       a \<in># mset (map snd (x_entries (xc_state (retain_fresh clk c))))"
proof -
  let ?es = "x_entries (xc_state c)"
  let ?f = "\<lambda>(k, a). clk k - inserted_at c a < from_secs (cc_ttl_secs (xc_config c))"
  have "mset (map snd ?es) + R = mset (map snd (filter (\<lambda>e. \<not> ?f e) ?es)) + (mset (map snd (filter ?f ?es)) + R)"
    using mset_map_filter_split [of snd ?es ?f] by (simp add: add_ac)
  with assms have "pool_ok BUDGET_BYTES h (mset (map snd (filter (\<lambda>e. \<not> ?f e) ?es)) + (mset (map snd (filter ?f ?es)) + R)) (xc_budget c)"
    by (metis store_ok_def)
  from budget.discards_ok [OF this] assms show "store_ok h R (retain_fresh clk c)"
    by (simp add: store_ok_def retain_fresh_def Let_def sized_drops distinct_map_filter)
       (metis (no_types, lifting) add_le_cancel_left length_filter_le order_trans)
  show "same_flights (xc_state c) (xc_state (retain_fresh clk c))" "xc_config (retain_fresh clk c) = xc_config c"
    "count_ok n P (xc_state (retain_fresh clk c)) = count_ok n P (xc_state c)"
    by (simp_all add: retain_fresh_def Let_def same_flights_def count_ok_def)
  show "map_of (x_entries (xc_state (retain_fresh clk c))) k = Some a \<Longrightarrow>
       a \<in># mset (map snd (x_entries (xc_state (retain_fresh clk c))))"
    by (metis in_set_zipE map_of_SomeD set_mset_mset zip_map_fst_snd)
qed

definition books :: "nat \<Rightarrow> nat \<Rightarrow> nat multiset \<Rightarrow> xpending multiset \<Rightarrow> exact_cache \<Rightarrow> bool" where
  "books n h R P c = (store_ok h R c \<and> flight_ok P (xc_state c) \<and> count_ok n P (xc_state c))"

section \<open>Looking up\<close>

lemma count_outcome_ok:
  assumes "count_ok n (add_mset p P) st" "n < u64_max"
  shows "holds (count_outcome found p st) (\<lambda>(p', st'). count_ok (Suc n) (add_mset p' P) st' \<and> same_store st st' \<and> same_flights st st'
    \<and> pd_key p' = pd_key p \<and> pd_flight p' = pd_flight p \<and> pd_capture_pending p' = pd_capture_pending p)"
  using assms
  by (cases "pd_outcome p")
     (auto simp: count_outcome_def count_ok_def same_store_def same_flights_def checked_add_def checked_sub_def)

lemma leave_waiters_ok:
  assumes "flight_ok (add_mset p P) st" "count_ok n (add_mset p P) st"
  shows "holds (leave_waiters p st) (\<lambda>(p', st'). flight_ok (add_mset p' P) st' \<and> count_ok n (add_mset p' P) st' \<and> same_store st st'
    \<and> x_flights st' = x_flights st \<and> pd_key p' = pd_key p \<and> pd_capture_pending p' = pd_capture_pending p
    \<and> pd_flight p' = (if pd_flight p = WaitingFlight then Unclaimed else pd_flight p))"
  using assms by (auto simp: leave_waiters_def flight_ok_def count_ok_def same_store_def checked_sub_def)

lemma lookup_ok:
  assumes "books n h R (add_mset p P) c" "n < u64_max"
  shows "holds (lookup_in clk p c) (\<lambda>(found, p', c').
      books (Suc n) h (case found of None \<Rightarrow> R | Some a \<Rightarrow> add_mset a R) (add_mset p' P) c'
      \<and> pd_key p' = pd_key p \<and> pd_capture_pending p' = pd_capture_pending p
      \<and> (found = None \<longrightarrow> pd_flight p' = pd_flight p))"
proof -
  let ?c = "retain_fresh clk c"
  let ?found = "map_of (x_entries (xc_state ?c)) (pd_key p)"
  have st: "store_ok h R c" and fl: "flight_ok (add_mset p P) (xc_state c)" and cn: "count_ok n (add_mset p P) (xc_state c)"
    using assms(1) by (auto simp: books_def)
  note r = retain_ok [OF st, where clk = clk]
  have cn': "count_ok n (add_mset p P) (xc_state ?c)" using cn r(3) by simp
  show ?thesis unfolding lookup_in_def Let_def
  proof (rule holds_bind [OF count_outcome_ok [OF cn' assms(2)]], clarify)
    fix p1 st1
    assume b: "count_ok (Suc n) (add_mset p1 P) st1" "same_store (xc_state ?c) st1" "same_flights (xc_state ?c) st1"
      "pd_key p1 = pd_key p" "pd_flight p1 = pd_flight p" "pd_capture_pending p1 = pd_capture_pending p"
    have "flight_ok (add_mset p P) st1" using fl flight_ok_cong [OF r(2)] flight_ok_cong [OF b(3)] by blast
    then have fl1: "flight_ok (add_mset p1 P) st1" using b(4,5) by (simp add: flight_ok_def)
    have s1: "store_ok h R (?c\<lparr>xc_state := st1\<rparr>)" using r(1) store_ok_cong [OF b(2)] by blast
    show "holds (case ?found of None \<Rightarrow> Some (None, p1, ?c\<lparr>xc_state := st1\<rparr>)
        | Some a \<Rightarrow> map_option (\<lambda>(p2, st2). (Some a, p2, ?c\<lparr>xc_state := st2, xc_budget := arc_clone a (xc_budget ?c)\<rparr>))
              (leave_waiters p1 st1))
      (\<lambda>(found, p', c'). books (Suc n) h (case found of None \<Rightarrow> R | Some a \<Rightarrow> add_mset a R) (add_mset p' P) c'
      \<and> pd_key p' = pd_key p \<and> pd_capture_pending p' = pd_capture_pending p
      \<and> (found = None \<longrightarrow> pd_flight p' = pd_flight p))"
    proof (cases ?found)
      case None
      with s1 fl1 b show ?thesis by (simp add: books_def)
    next
      case (Some a)
      have a: "a \<in># mset (map snd (x_entries st1)) + R" using r(5) [OF Some] b(2) by (simp add: same_store_def)
      have hit: "store_ok h (add_mset a R) (?c\<lparr>xc_state := st2, xc_budget := arc_clone a (xc_budget ?c)\<rparr>)"
        if "same_store st1 st2" for st2
        using s1 that budget.clone_ok [OF _ a, of BUDGET_BYTES h "xc_budget ?c"] by (simp add: store_ok_def same_store_def sized_clone)
      show ?thesis unfolding Some option.case holds_map
        by (rule holds_mono [OF leave_waiters_ok [OF fl1 b(1)]]) (use b hit in \<open>auto simp: books_def\<close>)
    qed
  qed
qed

lemma wait_turn_ok:
  assumes "books n h R (add_mset p P) c" "n < u64_max"
  shows "holds (wait_turn clk p c) (\<lambda>(t, p', c').
      books (Suc n) h (case t of TurnHit a \<Rightarrow> add_mset a R | _ \<Rightarrow> R) (add_mset p' P) c'
      \<and> pd_key p' = pd_key p \<and> pd_capture_pending p' = pd_capture_pending p
      \<and> (t = TurnGo \<longrightarrow> pd_flight p' \<in> {Owner, BypassFlight})
      \<and> (t = TurnWait \<longrightarrow> pd_flight p' = WaitingFlight \<and> pd_key p \<in># owner_keys P))"
  unfolding wait_turn_def
proof (rule holds_bind [OF lookup_ok [OF assms]], clarify)
  fix found p1 c1
  assume b: "books (Suc n) h (case found of None \<Rightarrow> R | Some a \<Rightarrow> add_mset a R) (add_mset p1 P) c1"
    "pd_key p1 = pd_key p" "pd_capture_pending p1 = pd_capture_pending p"
  let ?Q = "\<lambda>(t, p', c').
      books (Suc n) h (case t of TurnHit a \<Rightarrow> add_mset a R | _ \<Rightarrow> R) (add_mset p' P) c'
      \<and> pd_key p' = pd_key p \<and> pd_capture_pending p' = pd_capture_pending p
      \<and> (t = TurnGo \<longrightarrow> pd_flight p' \<in> {Owner, BypassFlight})
      \<and> (t = TurnWait \<longrightarrow> pd_flight p' = WaitingFlight \<and> pd_key p \<in># owner_keys P)"
  let ?st = "xc_state c1"
  show "holds (case found of Some a \<Rightarrow> Some (TurnHit a, p1, c1)
       | None \<Rightarrow>
           let st = ?st in
           if pd_flight p1 \<in> {Owner, BypassFlight} then Some (TurnGo, p1, c1)
           else if pd_key p1 \<notin> set (x_flights st) then
             map_option (\<lambda>(p2, st2).
               if length (x_flights st2) < CACHE_ENTRIES
               then (TurnGo, p2\<lparr>pd_flight := Owner\<rparr>, c1\<lparr>xc_state := st2\<lparr>x_flights := pd_key p2 # x_flights st2\<rparr>\<rparr>)
               else (TurnGo, p2\<lparr>pd_flight := BypassFlight\<rparr>,
                     c1\<lparr>xc_state := st2\<lparr>x_coordination_bypasses := saturating_add u64_max (x_coordination_bypasses st2) 1\<rparr>\<rparr>))
               (leave_waiters p1 st)
           else if pd_flight p1 \<noteq> WaitingFlight
           then Some (TurnWait, p1\<lparr>pd_flight := WaitingFlight, pd_waited := True\<rparr>,
                      c1\<lparr>xc_state := st\<lparr>x_waiters := x_waiters st + 1\<rparr>\<rparr>)
           else Some (TurnWait, p1, c1)) ?Q"
  proof (cases found)
    case (Some a)
    with b show ?thesis by simp
  next
    case None
    have fl: "flight_ok (add_mset p1 P) ?st" and cn: "count_ok (Suc n) (add_mset p1 P) ?st" and so: "store_ok h R c1"
      using b(1) None by (auto simp: books_def)
    consider (go) "pd_flight p1 \<in> {Owner, BypassFlight}"
      | (free) "pd_flight p1 \<notin> {Owner, BypassFlight}" "pd_key p1 \<notin> set (x_flights ?st)"
      | (busy) "pd_flight p1 \<notin> {Owner, BypassFlight}" "pd_key p1 \<in> set (x_flights ?st)" by blast
    then show ?thesis
    proof cases
      case go
      with b None show ?thesis by simp
    next
      case free
      from leave_waiters_ok [OF fl cn] obtain p2 st2 where l: "leave_waiters p1 ?st = Some (p2, st2)"
        "flight_ok (add_mset p2 P) st2" "count_ok (Suc n) (add_mset p2 P) st2" "same_store ?st st2" "x_flights st2 = x_flights ?st"
        "pd_key p2 = pd_key p1" "pd_capture_pending p2 = pd_capture_pending p1" "pd_flight p2 \<notin> {Owner, WaitingFlight}"
        using free(1) by (auto simp: holds_def split: if_splits)
      have own: "books (Suc n) h R (add_mset (p2\<lparr>pd_flight := Owner\<rparr>) P) (c1\<lparr>xc_state := st2\<lparr>x_flights := pd_key p2 # x_flights st2\<rparr>\<rparr>)"
        if "length (x_flights st2) < CACHE_ENTRIES"
        using that l free so by (auto simp: books_def store_ok_def flight_ok_def count_ok_def same_store_def)
      have "books (Suc n) h R (add_mset (p2\<lparr>pd_flight := BypassFlight\<rparr>) P)
          (c1\<lparr>xc_state := st2\<lparr>x_coordination_bypasses := saturating_add u64_max (x_coordination_bypasses st2) 1\<rparr>\<rparr>)"
        using l so by (auto simp: books_def store_ok_def flight_ok_def count_ok_def same_store_def)
      with own None free l b show ?thesis by simp
    next
      case busy
      have "pd_key p \<in># owner_keys P" using busy fl b(2) by (auto simp: flight_ok_def set_mset_mset [symmetric] simp del: set_mset_mset)
      with None busy b fl cn so show ?thesis
        by (cases "pd_flight p1") (auto simp: books_def store_ok_def flight_ok_def count_ok_def)
    qed
  qed
qed

section \<open>Giving up\<close>

lemma mset_removeAll_distinct: "distinct xs \<Longrightarrow> mset (removeAll x xs) = mset xs - {#x#}"
  by (metis distinct_remove1_removeAll mset_remove1)

lemma record_ok:
  assumes "books n h R (add_mset p P) c" "record_not_stored reason p c = (p', c')"
  shows "books n h R (add_mset p' P) c'" "p' = p\<lparr>pd_capture_pending := False\<rparr>" "same_store (xc_state c) (xc_state c')"
    "xc_budget c' = xc_budget c"
  using assms by (auto simp: record_not_stored_def books_def store_ok_def flight_ok_def count_ok_def same_store_def)

lemma flight_drop:
  assumes "flight_ok (add_mset p P) st"
  shows "pd_flight p = WaitingFlight \<Longrightarrow> 0 < x_waiters st \<and> flight_ok P (st\<lparr>x_waiters := x_waiters st - 1\<rparr>)"
    "pd_flight p = Owner \<Longrightarrow> flight_ok P (st\<lparr>x_flights := removeAll (pd_key p) (x_flights st)\<rparr>)"
    "pd_flight p \<notin> {WaitingFlight, Owner} \<Longrightarrow> flight_ok P st"
  using assms order_trans [OF length_removeAll_less_eq [of "pd_key p" "x_flights st"]]
  by (auto simp: flight_ok_def mset_removeAll_distinct distinct_removeAll)

lemma pending_drop_ok:
  assumes "books n h R (add_mset p P) c"
  shows "holds (pending_drop p c) (\<lambda>c'. books n h R P c' \<and> same_store (xc_state c) (xc_state c') \<and> xc_budget c' = xc_budget c)"
proof -
  define c1 where "c1 = (if pd_capture_pending p then snd (record_not_stored NotComplete p c) else c)"
  have b: "books n h R (add_mset p P) c1" "same_store (xc_state c) (xc_state c1)" "xc_budget c1 = xc_budget c"
    using assms by (auto simp: c1_def record_not_stored_def books_def store_ok_def flight_ok_def count_ok_def same_store_def)
  have fl: "flight_ok (add_mset p P) (xc_state c1)" using b(1) by (simp add: books_def)
  have rest: "books n h R P (c1\<lparr>xc_state := (xc_state c1)\<lparr>x_flights := f, x_waiters := w\<rparr>\<rparr>)"
    if "flight_ok P ((xc_state c1)\<lparr>x_flights := f, x_waiters := w\<rparr>)" for f w
    using that b(1) by (simp add: books_def store_ok_def count_ok_def)
  show ?thesis
    using flight_drop [OF fl] rest [where f = "x_flights (xc_state c1)" and w = "x_waiters (xc_state c1) - 1"]
      rest [where f = "removeAll (pd_key p) (x_flights (xc_state c1))" and w = "x_waiters (xc_state c1)"]
      rest [where f = "x_flights (xc_state c1)" and w = "x_waiters (xc_state c1)"] b(2,3)
    by (cases "pd_flight p")
       (simp_all add: pending_drop_def c1_def [symmetric] Let_def checked_sub_def same_store_def)
qed

section \<open>Making room\<close>

definition same_counts :: "xstate \<Rightarrow> xstate \<Rightarrow> bool" where
  "same_counts st st' =
     (x_hits st' = x_hits st \<and> x_misses st' = x_misses st \<and> x_stores st' = x_stores st \<and> x_budget_bypasses st' = x_budget_bypasses st)"

lemma count_ok_cong: "same_counts st st' \<Longrightarrow> count_ok n P st' = count_ok n P st"
  by (simp add: count_ok_def same_counts_def)

lemma mset_snd_remove:
  "distinct (map fst es) \<Longrightarrow> map_of es k = Some a \<Longrightarrow>
     mset (map snd es) = add_mset a (mset (map snd (filter (\<lambda>(k', _). k' \<noteq> k) es)))"
proof (induction es)
  case (Cons x es)
  obtain k' b where x: "x = (k', b)" by (cases x)
  show ?case
  proof (cases "k' = k")
    case True
    with Cons.prems have "filter (\<lambda>(k', _). k' \<noteq> k) es = es" by (force simp: x filter_id_conv)
    with True Cons.prems show ?thesis by (simp add: x)
  next
    case False
    with Cons show ?thesis by (simp add: x)
  qed
qed simp

lemma remove_key_ok:
  assumes "store_ok h R c"
  shows "store_ok h R (remove_key k c)" "same_flights (xc_state c) (xc_state (remove_key k c))"
    "same_counts (xc_state c) (xc_state (remove_key k c))" "x_evictions (xc_state (remove_key k c)) = x_evictions (xc_state c)"
    "map_of (x_entries (xc_state (remove_key k c))) k' = (if k' = k then None else map_of (x_entries (xc_state c)) k')"
    "map_of (x_entries (xc_state c)) k = Some a \<Longrightarrow>
       Suc (length (x_entries (xc_state (remove_key k c)))) = length (x_entries (xc_state c))"
proof -
  let ?es = "x_entries (xc_state c)" and ?f = "\<lambda>(k', _). k' \<noteq> k"
  have d: "distinct (map fst ?es)" using assms by (simp add: store_ok_def)
  show "same_flights (xc_state c) (xc_state (remove_key k c))" "same_counts (xc_state c) (xc_state (remove_key k c))"
    "x_evictions (xc_state (remove_key k c)) = x_evictions (xc_state c)"
    by (auto simp: remove_key_def same_flights_def same_counts_def split: option.split)
  show "map_of (x_entries (xc_state (remove_key k c))) k' = (if k' = k then None else map_of ?es k')"
    by (auto simp: remove_key_def map_of_filter_neq split: option.split)
  have len: "Suc (length (filter ?f ?es)) = length ?es" if "map_of ?es k = Some b" for b
    using arg_cong [OF mset_snd_remove [OF d that], of size]
    by (simp only: size_mset length_map size_add_mset)
  then show "map_of ?es k = Some a \<Longrightarrow> Suc (length (x_entries (xc_state (remove_key k c)))) = length ?es"
    by (simp add: remove_key_def)
  show "store_ok h R (remove_key k c)"
  proof (cases "map_of ?es k")
    case None
    with assms show ?thesis by (simp add: remove_key_def)
  next
    case (Some b)
    have "pool_ok BUDGET_BYTES h (add_mset b (mset (map snd (filter ?f ?es)) + R)) (xc_budget c)"
      using assms mset_snd_remove [OF d Some] by (simp add: store_ok_def)
    from budget.discard_ok [OF this] Some assms len [OF Some] show ?thesis
      by (simp add: remove_key_def store_ok_def sized_drop distinct_map_filter)
  qed
qed

lemma evict_ok:
  assumes so: "store_ok h R c" and n: "x_stores (xc_state c) \<le> u64_max" and it: "\<And>xs. mset (iter xs) = mset xs"
  shows "holds (evict iter c) (\<lambda>(b, c'). store_ok h R c' \<and> same_flights (xc_state c) (xc_state c') \<and> same_counts (xc_state c) (xc_state c')
    \<and> (b \<longrightarrow> length (x_entries (xc_state c')) < length (x_entries (xc_state c)))
    \<and> (\<not> b \<longrightarrow> c' = c \<and> x_entries (xc_state c) = []))"
proof (cases "min_by_key (\<lambda>(_, a). inserted_at c a) (iter (x_entries (xc_state c)))")
  case None
  then have "x_entries (xc_state c) = []" using it [of "x_entries (xc_state c)"] by simp
  with so None show ?thesis by (simp add: evict_def same_flights_def same_counts_def)
next
  case (Some ka)
  obtain k a where ka: "ka = (k, a)" by (cases ka)
  have "(k, a) \<in> set (iter (x_entries (xc_state c)))" using Some ka min_by_key_in by metis
  then have "(k, a) \<in> set (x_entries (xc_state c))" using it [of "x_entries (xc_state c)"] by (metis set_mset_mset)
  then have m: "map_of (x_entries (xc_state c)) k = Some a" using so by (simp add: store_ok_def)
  note r = remove_key_ok [OF so, of k] and l = remove_key_ok(6) [OF so m]
  have e: "x_evictions (xc_state c) + length (x_entries (xc_state c)) \<le> x_stores (xc_state c)" using so by (simp add: store_ok_def)
  have s: "x_stores (xc_state (remove_key k c)) = x_stores (xc_state c)" using r(3) by (simp add: same_counts_def)
  show ?thesis
  proof (cases "checked_add u64_max (x_evictions (xc_state (remove_key k c))) 1")
    case None
    with e n l r(4) show ?thesis by (simp add: checked_add_def split: if_splits)
  next
    case (Some m)
    then have "m = Suc (x_evictions (xc_state c))" by (simp add: checked_add_def r(4) split: if_splits)
    with r e l s have "store_ok h R ((remove_key k c)\<lparr>xc_state := (xc_state (remove_key k c))\<lparr>x_evictions := m\<rparr>\<rparr>)"
      by (simp add: store_ok_def)
    moreover have "evict iter c = Some (True, (remove_key k c)\<lparr>xc_state := (xc_state (remove_key k c))\<lparr>x_evictions := m\<rparr>\<rparr>)"
      using \<open>min_by_key _ _ = Some ka\<close> Some by (simp add: evict_def ka Let_def)
    ultimately show ?thesis using r(2,3) l by (simp add: same_flights_def same_counts_def)
  qed
qed

lemma reserve_ok:
  assumes "store_ok h R c" "count_ok n P (xc_state c)" "n < u64_max" "\<And>xs. mset (iter xs) = mset xs"
    "length (x_entries (xc_state c)) < fuel"
  shows "holds (reserve fuel iter c) (\<lambda>(ok, c'). store_ok (if ok then h + ENTRY_BYTES else h) R c'
    \<and> count_ok (Suc n) P (xc_state c') \<and> same_flights (xc_state c) (xc_state c'))"
  using assms
proof (induction fuel arbitrary: c)
  case (Suc fuel)
  have n: "x_stores (xc_state c) \<le> u64_max" using Suc.prems(2,3) by (simp add: count_ok_def)
  show ?case
  proof (cases "pool_acquire ENTRY_BYTES (xc_budget c)")
    case (Some b)
    with Suc.prems(1,2) budget.acquire_ok [OF _ Some] sized_acquire [OF Some] show ?thesis
      by (auto simp: store_ok_def count_ok_def same_flights_def)
  next
    case None
    have "holds (Option.bind (evict iter c) (\<lambda>(evicted, c1).
            if evicted then reserve fuel iter c1
            else map_option (\<lambda>n. (False, c1\<lparr>xc_state := (xc_state c1)\<lparr>x_budget_bypasses := n\<rparr>\<rparr>))
                   (checked_add u64_max (x_budget_bypasses (xc_state c1)) 1)))
        (\<lambda>(ok, c'). store_ok (if ok then h + ENTRY_BYTES else h) R c' \<and> count_ok (Suc n) P (xc_state c') \<and> same_flights (xc_state c) (xc_state c'))"
    proof (rule holds_bind [OF evict_ok [OF Suc.prems(1) n Suc.prems(4)]], clarify)
      fix b c1
      assume e: "store_ok h R c1" "same_flights (xc_state c) (xc_state c1)" "same_counts (xc_state c) (xc_state c1)"
        "b \<longrightarrow> length (x_entries (xc_state c1)) < length (x_entries (xc_state c))"
        "\<not> b \<longrightarrow> c1 = c \<and> x_entries (xc_state c) = []"
      have cn: "count_ok n P (xc_state c1)" using Suc.prems(2) count_ok_cong [OF e(3)] by blast
      show "holds (if b then reserve fuel iter c1
            else map_option (\<lambda>n. (False, c1\<lparr>xc_state := (xc_state c1)\<lparr>x_budget_bypasses := n\<rparr>\<rparr>))
                   (checked_add u64_max (x_budget_bypasses (xc_state c1)) 1))
        (\<lambda>(ok, c'). store_ok (if ok then h + ENTRY_BYTES else h) R c' \<and> count_ok (Suc n) P (xc_state c') \<and> same_flights (xc_state c) (xc_state c'))"
      proof (cases b)
        case True
        with e(4) Suc.prems(5) have "length (x_entries (xc_state c1)) < fuel" by simp
        from holds_mono [OF Suc.IH [OF e(1) cn Suc.prems(3,4) this]] True e(2) show ?thesis
          by (auto simp: same_flights_def)
      next
        case False
        with e cn Suc.prems(3) show ?thesis
          by (auto simp: checked_add_def count_ok_def same_flights_def store_ok_def)
      qed
    qed
    with None show ?thesis by simp
  qed
qed simp

section \<open>Capturing\<close>

lemma distinct_append:
  assumes "distinct (map fst h)"
  shows "distinct (map fst (hm_append n v h))"
proof (cases "map_of h n = None")
  case True
  with assms show ?thesis by (simp add: hm_append_def map_of_eq_None_iff)
next
  case False
  have "map fst (map (\<lambda>(k, vs). if k = n then (k, vs @ [v]) else (k, vs)) h) = map fst h" by auto
  with False assms show ?thesis unfolding hm_append_def by (simp only: if_False)
qed

lemma stored_size_append:
  assumes "distinct (map fst h)"
  shows "stored_size (hm_append n v h) = stored_size h + (length n + length v + 4)"
proof (cases "map_of h n = None")
  case True
  then show ?thesis by (simp add: hm_append_def stored_size_def)
next
  case False
  then obtain vs where "map_of h n = Some vs" by auto
  with assms have "(\<Sum>(name, vs)\<leftarrow>map (\<lambda>(k, vs). if k = n then (k, vs @ [v]) else (k, vs)) h. \<Sum>v\<leftarrow>vs. length name + length v + 4)
    = (\<Sum>(name, vs)\<leftarrow>h. \<Sum>v\<leftarrow>vs. length name + length v + 4) + (length n + length v + 4)"
  proof (induction h)
    case (Cons x h)
    obtain k ws where x: "x = (k, ws)" by (cases x)
    show ?case
    proof (cases "k = n")
      case True
      with Cons.prems(1) have "map (\<lambda>(k, vs). if k = n then (k, vs @ [v]) else (k, vs)) h = h"
        by (intro map_idI) (force simp: x)
      with True show ?thesis by (simp add: x)
    next
      case False
      with Cons show ?thesis by (simp add: x)
    qed
  qed simp
  with False show ?thesis by (simp add: hm_append_def stored_size_def)
qed

lemma appends_ok:
  "distinct (map fst h) \<Longrightarrow> distinct (map fst (fold (hm_append n) vs h))
     \<and> stored_size (fold (hm_append n) vs h) = stored_size h + (\<Sum>v\<leftarrow>vs. length n + length v + 4)"
  by (induction vs arbitrary: h) (simp_all add: distinct_append stored_size_append)

lemma checked_sum:
  "foldl (\<lambda>t v. Option.bind t (\<lambda>n. checked_add m n (f v))) t vs = Some k \<Longrightarrow>
     \<exists>j. t = Some j \<and> k = j + (\<Sum>v\<leftarrow>vs. f v)"
proof (induction vs arbitrary: t)
  case (Cons v vs)
  then show ?case by (cases t) (fastforce simp: checked_add_def split: if_splits)+
qed simp

lemma capture_limit_size:
  assumes "capture_limit forwarded = Some limit"
  shows "limit + stored_size (replayed_headers forwarded) = ENTRY_BYTES"
proof -
  let ?f = "\<lambda>name v. length name + length (v :: string) + 4"
  let ?s = "\<lambda>name. \<Sum>v\<leftarrow>forwarded name. ?f name v"
  obtain t where t: "foldl (\<lambda>t name. foldl (\<lambda>t v. Option.bind t (\<lambda>n. checked_add u64_max n (?f name v))) t (forwarded name))
      (Some 2) replayed_names = Some t" "checked_sub ENTRY_BYTES t = Some limit"
    using assms by (auto simp: capture_limit_def split: bind_splits)
  from t(1) have "t = 2 + ?s ''content-type'' + ?s ''content-encoding'' + ?s ''content-language''"
    unfolding replayed_names_def foldl.simps by (auto dest!: checked_sum)
  moreover have "stored_size (replayed_headers forwarded) = 2 + ?s ''content-type'' + ?s ''content-encoding'' + ?s ''content-language''"
  proof -
    define h1 where "h1 = fold (hm_append ''content-type'') (forwarded ''content-type'') []"
    define h2 where "h2 = fold (hm_append ''content-encoding'') (forwarded ''content-encoding'') h1"
    have "distinct (map fst h1)" "stored_size h1 = 2 + ?s ''content-type''"
      using appends_ok [of "[]" "''content-type''" "forwarded ''content-type''"] by (simp_all add: h1_def stored_size_def)
    moreover from appends_ok [OF this(1), of "''content-encoding''" "forwarded ''content-encoding''"]
    have "distinct (map fst h2)" "stored_size h2 = stored_size h1 + ?s ''content-encoding''" by (simp_all add: h2_def)
    moreover have "replayed_headers forwarded = fold (hm_append ''content-language'') (forwarded ''content-language'') h2"
      by (simp add: replayed_headers_def replayed_names_def h1_def h2_def)
    moreover note appends_ok [OF calculation(3), of "''content-language''" "forwarded ''content-language''"]
    ultimately show ?thesis by simp
  qed
  ultimately show ?thesis using t(2) by (simp add: checked_sub_def split: if_splits)
qed

definition capture_result :: "nat \<Rightarrow> nat \<Rightarrow> nat multiset \<Rightarrow> xpending multiset \<Rightarrow> capture option \<times> exact_cache \<Rightarrow> bool" where
  "capture_result n h R P = (\<lambda>(cp, c'). case cp of
       None \<Rightarrow> books n h R P c'
     | Some cp \<Rightarrow> books n (h + ENTRY_BYTES) R (add_mset (cp_pending cp) P) c' \<and> capture_ok cp)"

lemma capture_books:
  assumes b: "books n h R (add_mset p P) c" and n: "n < u64_max" and it: "\<And>xs. mset (iter xs) = mset xs"
  shows "holds (cache_capture L iter status original forwarded p c) (capture_result (Suc n) h R P)"
proof -
  have up: "books (Suc n) h R Q d" if "books n h R Q d" for Q d using that count_ok_mono [of n _ _ "Suc n"] by (auto simp: books_def)
  have give_up: "holds (let (p1, c1) = record_not_stored reason p c in map_option (Pair None) (pending_drop p1 c1))
      (capture_result (Suc n) h R P)" for reason
  proof -
    obtain p1 c1 where r: "record_not_stored reason p c = (p1, c1)" by (cases "record_not_stored reason p c")
    from holds_mono [OF pending_drop_ok [OF record_ok(1) [OF b r]]] up show ?thesis by (auto simp: r capture_result_def)
  qed
  consider (rej) reason where "capture_rejection L status original = Some reason"
    | (media) "capture_rejection L status original = None" "\<not> storable_media L (forwarded ''content-type'')"
    | (size) "capture_rejection L status original = None" "storable_media L (forwarded ''content-type'')" "capture_limit forwarded = None"
    | (go) limit where "capture_rejection L status original = None" "storable_media L (forwarded ''content-type'')" "capture_limit forwarded = Some limit"
    by blast
  then show ?thesis
  proof cases
    case (go limit)
    have so: "store_ok h R c" and fl: "flight_ok (add_mset p P) (xc_state c)" and cn: "count_ok n (add_mset p P) (xc_state c)"
      using b by (auto simp: books_def)
    let ?cp = "\<lparr>cp_pending = p\<lparr>pd_capture_pending := True\<rparr>, cp_body = [],
                cp_headers = replayed_headers forwarded, cp_permit = ENTRY_BYTES, cp_limit = limit\<rparr>"
    have "holds (Option.bind (reserve (Suc (length (x_entries (xc_state c)))) iter c) (\<lambda>(ok, c1).
                if \<not> ok then map_option (Pair None) (pending_drop p c1) else Some (Some ?cp, c1))) (capture_result (Suc n) h R P)"
    proof (rule holds_bind [OF reserve_ok [OF so cn n it]], simp, clarify)
      fix ok c1
      assume r: "store_ok (if ok then h + ENTRY_BYTES else h) R c1" "count_ok (Suc n) (add_mset p P) (xc_state c1)"
        "same_flights (xc_state c) (xc_state c1)"
      have "flight_ok (add_mset p P) (xc_state c1)" using fl flight_ok_cong [OF r(3)] by blast
      with r have bk: "books (Suc n) (if ok then h + ENTRY_BYTES else h) R (add_mset p P) c1" by (simp add: books_def)
      show "holds (if \<not> ok then map_option (Pair None) (pending_drop p c1) else Some (Some ?cp, c1)) (capture_result (Suc n) h R P)"
      proof (cases ok)
        case False
        with holds_mono [OF pending_drop_ok [of "Suc n" h R p P c1]] bk show ?thesis by (auto simp: capture_result_def)
      next
        case True
        have "capture_ok ?cp" using capture_limit_size [OF go(3)] by (simp add: capture_ok_def)
        with True bk show ?thesis by (simp add: capture_result_def books_def flight_ok_def count_ok_def)
      qed
    qed
    with go show ?thesis by (simp add: cache_capture_def)
  qed (use give_up in \<open>simp_all add: cache_capture_def\<close>)
qed

lemma observe_books:
  assumes "books n h R (add_mset (cp_pending cp) P) c" "capture_ok cp"
  shows "holds (capture_observe bytes cp c) (\<lambda>(ok, cp', c'). books n h R (add_mset (cp_pending cp') P) c' \<and> capture_ok cp'
    \<and> cp_headers cp' = cp_headers cp \<and> cp_body cp' = (if ok then cp_body cp @ bytes else cp_body cp)
    \<and> pd_key (cp_pending cp') = pd_key (cp_pending cp) \<and> xc_budget c' = xc_budget c \<and> same_store (xc_state c) (xc_state c'))"
proof -
  obtain p1 c1 where r: "record_not_stored NotSize (cp_pending cp) c = (p1, c1)"
    by (cases "record_not_stored NotSize (cp_pending cp) c")
  from record_ok [OF assms(1) r] assms r show ?thesis
    by (auto simp: capture_observe_def checked_sub_def capture_ok_def same_store_def)
qed

lemma capture_drop_books:
  assumes "books n (h + ENTRY_BYTES) R (add_mset (cp_pending cp) P) c" "capture_ok cp"
  shows "holds (capture_drop cp c) (\<lambda>c'. books n h R P c' \<and> x_entries (xc_state c') = x_entries (xc_state c))"
  unfolding capture_drop_def holds_map
  by (rule holds_mono [OF pending_drop_ok [OF assms(1)]])
     (use assms(2) budget.release_ok [of BUDGET_BYTES h ENTRY_BYTES] in
       \<open>auto simp: books_def store_ok_def capture_ok_def same_store_def\<close>)

section \<open>Committing\<close>

lemma get_remove_key: "store_ok h (add_mset a R) c \<Longrightarrow> arc_get a (xc_budget (remove_key k c)) = arc_get a (xc_budget c)"
proof (cases "map_of (x_entries (xc_state c)) k")
  case (Some b)
  assume so: "store_ok h (add_mset a R) c"
  then have "distinct (map fst (x_entries (xc_state c)))" by (simp add: store_ok_def)
  from mset_snd_remove [OF this Some] so
  have "pool_ok BUDGET_BYTES h (add_mset b (add_mset a (mset (map snd (filter (\<lambda>(k', _). k' \<noteq> k) (x_entries (xc_state c)))) + R))) (xc_budget c)"
    by (simp add: store_ok_def add_mset_commute)
  from budget.get_discard [OF this, of a] Some show ?thesis by (simp add: remove_key_def)
qed (simp add: remove_key_def)

lemma get_evict:
  "store_ok h (add_mset a R) c \<Longrightarrow> evict iter c = Some (b, c') \<Longrightarrow> arc_get a (xc_budget c') = arc_get a (xc_budget c)"
  by (auto simp: evict_def Let_def get_remove_key split: option.splits)

text \<open>Replacing or adding the entry of a key.\<close>

lemma store_entry_ok:
  assumes so: "store_ok h (add_mset a R) c" and room: "length (x_entries (xc_state c)) < CACHE_ENTRIES \<or> map_of (x_entries (xc_state c)) k \<noteq> None"
  defines "c' \<equiv> store_entry k a c"
  shows "store_ok h R (c'\<lparr>xc_state := (xc_state c')\<lparr>x_stores := Suc (x_stores (xc_state c'))\<rparr>\<rparr>)"
    "same_flights (xc_state c) (xc_state c')" "same_counts (xc_state c) (xc_state c')"
    "map_of (x_entries (xc_state c')) k = Some a" "arc_get a (xc_budget c') = arc_get a (xc_budget c)"
proof -
  note r = remove_key_ok [OF so, of k]
  let ?d = "remove_key k c"
  have "map_of (x_entries (xc_state ?d)) k = None" using r(5) by simp
  then have k: "k \<notin> fst ` set (x_entries (xc_state ?d))" by (simp only: map_of_eq_None_iff set_map [symmetric]) simp
  have st: "x_stores (xc_state ?d) = x_stores (xc_state c)" using r(3) by (simp add: same_counts_def)
  have len: "length (x_entries (xc_state ?d)) \<le> length (x_entries (xc_state c))
    \<and> (map_of (x_entries (xc_state c)) k \<noteq> None \<longrightarrow> length (x_entries (xc_state ?d)) < length (x_entries (xc_state c)))"
    using remove_key_ok(6) [OF so, of k] by (cases "map_of (x_entries (xc_state c)) k") (auto simp: remove_key_def)
  have c: "length (x_entries (xc_state c)) \<le> CACHE_ENTRIES"
    "x_evictions (xc_state c) + length (x_entries (xc_state c)) \<le> x_stores (xc_state c)" using so by (auto simp: store_ok_def)
  from r(1) k st len c r(4) room
  show "store_ok h R (c'\<lparr>xc_state := (xc_state c')\<lparr>x_stores := Suc (x_stores (xc_state c'))\<rparr>\<rparr>)"
    unfolding c'_def by (auto simp: store_entry_def Let_def store_ok_def)
  show "same_flights (xc_state c) (xc_state c')" "same_counts (xc_state c) (xc_state c')" "map_of (x_entries (xc_state c')) k = Some a"
    "arc_get a (xc_budget c') = arc_get a (xc_budget c)"
    using r(2,3) get_remove_key [OF so] by (simp_all add: c'_def store_entry_def Let_def same_flights_def same_counts_def)
qed

text \<open>The captured bytes become a shared entry that owns exactly the permits of its size.\<close>

lemma captured_entry:
  assumes so: "store_ok (h + ENTRY_BYTES) R c" and cp: "capture_ok cp"
    and rest: "rest = ENTRY_BYTES - (length (cp_body cp) + stored_size (cp_headers cp))"
    and v: "v = \<lparr>en_body = cp_body cp, en_headers = cp_headers cp, en_inserted = now\<rparr>"
    and new: "arc_new (cp_permit cp - rest) v (pool_release rest (xc_budget c)) = (a, b2)"
  shows "store_ok h (add_mset a R) (c\<lparr>xc_budget := b2\<rparr>)" "arc_get a b2 = Some v" "rest \<le> cp_permit cp"
proof -
  let ?n = "entry_size v"
  have n: "?n + rest = ENTRY_BYTES" "cp_permit cp - rest = ?n" using cp by (auto simp: capture_ok_def rest v entry_size_def)
  then show "rest \<le> cp_permit cp" using cp by (simp add: capture_ok_def)
  have "pool_ok BUDGET_BYTES (h + ?n) (mset (map snd (x_entries (xc_state c))) + R) (pool_release rest (xc_budget c))"
    using so n by (intro budget.release_ok) (simp add: store_ok_def add.assoc)
  from budget.new_ok [OF this new [unfolded n(2)]] so show "store_ok h (add_mset a R) (c\<lparr>xc_budget := b2\<rparr>)" "arc_get a b2 = Some v"
    using new by (auto simp: store_ok_def sized_def arc_new_def pool_release_def n(2))
qed

lemma commit_books:
  assumes b: "books n (h + ENTRY_BYTES) R (add_mset (cp_pending cp) P) c" and cp: "capture_ok cp" and n: "n < u64_max"
    and it: "\<And>xs. mset (iter xs) = mset xs"
  shows "holds (capture_commit iter now complete cp c) (\<lambda>c'. books (Suc n) h R P c'
    \<and> (complete \<and> pd_capture_pending (cp_pending cp) \<longrightarrow>
        (\<exists>a. map_of (x_entries (xc_state c')) (pd_key (cp_pending cp)) = Some a
          \<and> arc_get a (xc_budget c') = Some \<lparr>en_body = cp_body cp, en_headers = cp_headers cp, en_inserted = now\<rparr>)))"
proof (cases "complete \<and> pd_capture_pending (cp_pending cp)")
  case False
  have up: "books (Suc n) h R P d" if "books n h R P d" for d using that count_ok_mono [of n _ _ "Suc n"] by (auto simp: books_def)
  from False have "capture_commit iter now complete cp c = capture_drop cp c" by (auto simp: capture_commit_def Let_def)
  with holds_mono [OF capture_drop_books [OF b cp]] False up show ?thesis by auto
next
  case True
  define p where "p = (cp_pending cp)\<lparr>pd_capture_pending := False\<rparr>"
  define key where "key = pd_key (cp_pending cp)"
  define v where "v = \<lparr>en_body = cp_body cp, en_headers = cp_headers cp, en_inserted = now\<rparr>"
  define rest where "rest = ENTRY_BYTES - (length (cp_body cp) + stored_size (cp_headers cp))"
  obtain a b2 where new: "arc_new (cp_permit cp - rest) v (pool_release rest (xc_budget c)) = (a, b2)"
    by (cases "arc_new (cp_permit cp - rest) v (pool_release rest (xc_budget c))")
  have so: "store_ok (h + ENTRY_BYTES) R c" and fl: "flight_ok (add_mset (cp_pending cp) P) (xc_state c)"
    and cn: "count_ok n (add_mset (cp_pending cp) P) (xc_state c)" using b by (auto simp: books_def)
  note e = captured_entry [OF so cp rest_def v_def new]
  have sub: "checked_sub ENTRY_BYTES (length (cp_body cp) + stored_size (cp_headers cp)) = Some rest"
    using cp by (auto simp: checked_sub_def capture_ok_def rest_def)
  let ?c1 = "c\<lparr>xc_budget := b2\<rparr>"
  let ?full = "CACHE_ENTRIES \<le> length (x_entries (xc_state c)) \<and> map_of (x_entries (xc_state c)) key = None"
  have n1: "x_stores (xc_state ?c1) \<le> u64_max" using cn n by (simp add: count_ok_def)
  obtain c2 where c2: "(if ?full then map_option snd (evict iter ?c1) else Some ?c1) = Some c2" "store_ok h (add_mset a R) c2"
    "same_flights (xc_state c) (xc_state c2)" "same_counts (xc_state c) (xc_state c2)" "arc_get a (xc_budget c2) = Some v"
    "length (x_entries (xc_state c2)) < CACHE_ENTRIES \<or> map_of (x_entries (xc_state c2)) key \<noteq> None"
  proof (cases ?full)
    case True
    from evict_ok [OF e(1) n1 it] obtain bb d where d: "evict iter ?c1 = Some (bb, d)" "store_ok h (add_mset a R) d"
      "same_flights (xc_state ?c1) (xc_state d)" "same_counts (xc_state ?c1) (xc_state d)"
      "bb \<longrightarrow> length (x_entries (xc_state d)) < length (x_entries (xc_state c))" "\<not> bb \<longrightarrow> x_entries (xc_state c) = []"
      by (auto simp: holds_def)
    have "bb" using d(6) True by (auto simp: CACHE_ENTRIES_def)
    moreover have "length (x_entries (xc_state c)) \<le> CACHE_ENTRIES" using so by (simp add: store_ok_def)
    ultimately show thesis using True d get_evict [OF e(1) d(1)] e(2) by (intro that [of d]) auto
  next
    case False
    with e show thesis by (intro that [of ?c1]) (auto simp: same_flights_def same_counts_def)
  qed
  note st = store_entry_ok [OF c2(2,6)]
  let ?c3 = "store_entry key a c2"
  let ?st = "(xc_state ?c3)\<lparr>x_stores := Suc (x_stores (xc_state ?c3))\<rparr>"
  have s3: "x_stores (xc_state ?c3) = x_stores (xc_state c)" using st(3) c2(4) by (simp add: same_counts_def)
  then have add: "checked_add u64_max (x_stores (xc_state ?c3)) 1 = Some (Suc (x_stores (xc_state ?c3)))"
    using cn n by (simp add: checked_add_def count_ok_def)
  define p1 where "p1 = (if pd_flight p = Owner then p\<lparr>pd_flight := Unclaimed\<rparr> else p)"
  define st1 where "st1 = (if pd_flight p = Owner then ?st\<lparr>x_flights := removeAll key (x_flights ?st)\<rparr> else ?st)"
  have fl3: "flight_ok (add_mset (cp_pending cp) P) ?st" using fl st(2) c2(3) by (simp add: flight_ok_def same_flights_def)
  have "flight_ok (add_mset p1 P) st1"
    using flight_drop(2) [OF fl3] fl3 by (auto simp: p1_def st1_def p_def key_def flight_ok_def)
  moreover have "count_ok (Suc n) (add_mset p1 P) st1"
    using cn st(3) c2(4) by (auto simp: count_ok_def p1_def st1_def p_def same_counts_def)
  moreover have "store_ok h R (?c3\<lparr>xc_state := st1\<rparr>)" using st(1) by (simp add: st1_def store_ok_def)
  ultimately have "books (Suc n) h R (add_mset p1 P) (?c3\<lparr>xc_state := st1\<rparr>)" by (simp add: books_def)
  note drop = pending_drop_ok [OF this]
  have eq: "capture_commit iter now complete cp c = pending_drop p1 (?c3\<lparr>xc_state := st1\<rparr>)"
    using True c2(1) unfolding capture_commit_def Let_def key_def [symmetric] p_def [symmetric] v_def [symmetric] sub bind.bind_lunit
    by (simp add: e(3) new add [simplified] p1_def st1_def)
  show ?thesis unfolding eq
    by (rule holds_mono [OF drop]) (use True st(4,5) c2(5) in \<open>auto simp: same_store_def st1_def key_def v_def\<close>)
qed

end
