(* ===== verification/Exact_Cache_Contract.thy ===== *)
theory Exact_Cache_Contract
  imports Exact_Cache_Facts
begin

text \<open>
  What the response cache promises for every interleaving of requests, lookups, captures, commits,
  cancellations and replays: no panic, memory within its budget, one request in flight per key with
  no waiting call forgotten, replies that are exactly what was captured, and keys that tell any two
  different requests apart.
\<close>

section \<open>The invariant of the system\<close>

definition all_pendings :: "cache_system \<Rightarrow> xpending multiset" where
  "all_pendings s = mset (y_pendings s) + image_mset cp_pending (mset (y_captures s))"

definition cache_inv :: "nat \<Rightarrow> cache_system \<Rightarrow> bool" where
  "cache_inv n s =
     (books n (ENTRY_BYTES * length (y_captures s)) (mset (y_replays s)) (all_pendings s) (y_cache s)
      \<and> list_all capture_ok (y_captures s))"

lemma nth_mset:
  assumes "n < length xs"
  shows "mset xs = add_mset (xs ! n) (mset (remove_at n xs))" "mset (xs[n := y]) = add_mset y (mset (remove_at n xs))"
    "length xs = Suc (length (remove_at n xs))" "set xs = insert (xs ! n) (set (remove_at n xs))"
    "set (xs[n := y]) = insert y (set (remove_at n xs))"
proof -
  obtain X Y where d: "xs = X @ xs ! n # Y" "remove_at n xs = X @ Y" "xs[n := y] = X @ y # Y"
    using nth_decomp [OF assms] by metis
  show "mset xs = add_mset (xs ! n) (mset (remove_at n xs))" by (subst d(1)) (simp add: d(2))
  show "length xs = Suc (length (remove_at n xs))" by (subst d(1)) (simp add: d(2))
  show "set xs = insert (xs ! n) (set (remove_at n xs))" by (subst d(1)) (simp add: d(2))
  show "mset (xs[n := y]) = add_mset y (mset (remove_at n xs))" "set (xs[n := y]) = insert y (set (remove_at n xs))"
    by (simp_all add: d(2,3))
qed

lemma books_mono: "books n h R P c \<Longrightarrow> n \<le> m \<Longrightarrow> books m h R P c"
  using count_ok_mono by (auto simp: books_def)

lemma request_books: "books n h R P c \<Longrightarrow> cache_request js sha root url hs ep body fb c = (r, c') \<Longrightarrow>
    books n h R (case r of None \<Rightarrow> P | Some p \<Rightarrow> add_mset p P) c'"
  by (auto simp: cache_request_def Let_def books_def store_ok_def flight_ok_def count_ok_def split: option.splits)

lemma cache_exec_inv:
  assumes inv: "cache_inv n s" and n: "n < u64_max" and it: "\<And>xs. mset (ce_iter E xs) = mset xs"
  shows "holds (cache_exec E x s) (cache_inv (Suc n))"
proof -
  let ?P = "image_mset cp_pending (mset (y_captures s))" and ?h = "ENTRY_BYTES * length (y_captures s)" and ?R = "mset (y_replays s)"
  have b: "books n ?h ?R (all_pendings s) (y_cache s)" and cs: "list_all capture_ok (y_captures s)"
    using inv by (auto simp: cache_inv_def)
  have same: "holds (Some s) (cache_inv (Suc n))" using inv books_mono [of n _ _ _ _ "Suc n"] by (auto simp: cache_inv_def)
  have bp: "books n ?h ?R (add_mset (y_pendings s ! i) (mset (remove_at i (y_pendings s)) + ?P)) (y_cache s)"
    if "i < length (y_pendings s)" for i
    using b nth_mset(1) [OF that] by (simp add: all_pendings_def)
  have bc: "books n (ENTRY_BYTES * length (remove_at i (y_captures s)) + ENTRY_BYTES) ?R
      (add_mset (cp_pending (y_captures s ! i)) (mset (y_pendings s) + image_mset cp_pending (mset (remove_at i (y_captures s))))) (y_cache s)"
    "capture_ok (y_captures s ! i)" "list_all capture_ok (remove_at i (y_captures s))"
    if "i < length (y_captures s)" for i
    using b cs nth_mset(1,3,4) [OF that] by (auto simp: all_pendings_def list_all_iff add.commute)
  show ?thesis
  proof (cases x)
    case (XRequest root url hs ep body fb)
    obtain r c' where r: "cache_request (lib_json (ce_libs E)) (ce_sha256 E) root url hs ep body fb (y_cache s) = (r, c')"
      by (cases "cache_request (lib_json (ce_libs E)) (ce_sha256 E) root url hs ep body fb (y_cache s)")
    from books_mono [OF request_books [OF b r], of "Suc n"] cs show ?thesis
      by (cases r) (simp_all add: XRequest r cache_inv_def all_pendings_def)
  next
    case (XLookup clk i)
    show ?thesis
    proof (cases "i < length (y_pendings s)")
      case True
      show ?thesis unfolding XLookup cache_exec.simps if_P [OF True] holds_map
        by (rule holds_mono [OF lookup_ok [OF bp [OF True] n]])
           (use cs nth_mset(2) [OF True] in \<open>auto simp: cache_inv_def all_pendings_def split: option.splits\<close>)
    qed (use XLookup same in simp)
  next
    case (XTurn clk i)
    show ?thesis
    proof (cases "i < length (y_pendings s)")
      case True
      show ?thesis unfolding XTurn cache_exec.simps if_P [OF True] holds_map
        by (rule holds_mono [OF wait_turn_ok [OF bp [OF True] n]])
           (use cs nth_mset(2) [OF True] in \<open>auto simp: cache_inv_def all_pendings_def split: turn.splits\<close>)
    qed (use XTurn same in simp)
  next
    case (XCapture st og fw i)
    show ?thesis
    proof (cases "i < length (y_pendings s)")
      case True
      show ?thesis unfolding XCapture cache_exec.simps if_P [OF True] holds_map
        by (rule holds_mono [OF capture_books [OF bp [OF True] n it]])
           (use cs in \<open>auto simp: cache_inv_def all_pendings_def capture_result_def add.commute split: option.splits\<close>)
    qed (use XCapture same in simp)
  next
    case (XReject i)
    show ?thesis
    proof (cases "i < length (y_pendings s)")
      case True
      obtain p1 c1 where r: "record_not_stored NotStatus (y_pendings s ! i) (y_cache s) = (p1, c1)"
        by (cases "record_not_stored NotStatus (y_pendings s ! i) (y_cache s)")
      have e: "reject_status (y_pendings s ! i) (y_cache s) = pending_drop p1 c1" by (simp add: reject_status_def r)
      show ?thesis unfolding XReject cache_exec.simps if_P [OF True] e holds_map
        by (rule holds_mono [OF pending_drop_ok [OF record_ok(1) [OF bp [OF True] r]]])
           (use cs books_mono [of n _ _ _ _ "Suc n"] in \<open>auto simp: cache_inv_def all_pendings_def\<close>)
    qed (use XReject same in simp)
  next
    case (XDropPending i)
    show ?thesis
    proof (cases "i < length (y_pendings s)")
      case True
      show ?thesis unfolding XDropPending cache_exec.simps if_P [OF True] holds_map
        by (rule holds_mono [OF pending_drop_ok [OF bp [OF True]]])
           (use cs books_mono [of n _ _ _ _ "Suc n"] in \<open>auto simp: cache_inv_def all_pendings_def\<close>)
    qed (use XDropPending same in simp)
  next
    case (XObserve bytes i)
    show ?thesis
    proof (cases "i < length (y_captures s)")
      case True
      show ?thesis unfolding XObserve cache_exec.simps if_P [OF True] holds_map
        by (rule holds_mono [OF observe_books [OF bc(1,2) [OF True]]])
           (use bc(3) [OF True] nth_mset(2,3,5) [OF True] books_mono [of n _ _ _ _ "Suc n"] in \<open>auto simp: cache_inv_def all_pendings_def list_all_iff add.commute\<close>)
    qed (use XObserve same in simp)
  next
    case (XCommit now complete i)
    show ?thesis
    proof (cases "i < length (y_captures s)")
      case True
      show ?thesis unfolding XCommit cache_exec.simps if_P [OF True] holds_map
        by (rule holds_mono [OF commit_books [OF bc(1,2) [OF True] n it]])
           (use bc(3) [OF True] in \<open>auto simp: cache_inv_def all_pendings_def\<close>)
    qed (use XCommit same in simp)
  next
    case (XDropCapture i)
    show ?thesis
    proof (cases "i < length (y_captures s)")
      case True
      show ?thesis unfolding XDropCapture cache_exec.simps if_P [OF True] holds_map
        by (rule holds_mono [OF capture_drop_books [OF bc(1,2) [OF True]]])
           (use bc(3) [OF True] books_mono [of n _ _ _ _ "Suc n"] in \<open>auto simp: cache_inv_def all_pendings_def\<close>)
    qed (use XDropCapture same in simp)
  next
    case (XDropReplay i)
    show ?thesis
    proof (cases "i < length (y_replays s)")
      case True
      let ?es = "mset (map snd (x_entries (xc_state (y_cache s))))"
      have "pool_ok BUDGET_BYTES ?h (add_mset (y_replays s ! i) (?es + mset (remove_at i (y_replays s)))) (xc_budget (y_cache s))"
        using b nth_mset(1) [OF True] by (simp add: books_def store_ok_def)
      from budget.discard_ok [OF this] b cs XDropReplay True show ?thesis
        by (auto simp: cache_inv_def books_def store_ok_def sized_drop all_pendings_def count_ok_def)
    qed (use XDropReplay same in simp)
  qed
qed

lemma cache_new_inv: "cache_inv 0 (cache_system_new config)"
  using pool_ok_new [of BUDGET_BYTES]
  by (simp add: cache_inv_def cache_system_new_def cache_new_def books_def store_ok_def flight_ok_def count_ok_def
      xstate_default_def all_pendings_def sized_def pool_new_def)

text \<open>
  The cache as a guarded system: the state carries the number of operations performed, which bounds
  the counters.
\<close>

interpretation cache_sys: guarded_system "\<lambda>(n, s) x. (Suc n, the (cache_exec E x s))" "\<lambda>_. \<forall>xs. mset (ce_iter E xs) = mset xs"
  "\<lambda>(n, s). n \<le> u64_max \<longrightarrow> cache_inv n s" for E
proof
  fix s :: "nat \<times> cache_system" and x
  obtain n t where s: "s = (n, t)" by (cases s)
  assume "case s of (n, s) \<Rightarrow> n \<le> u64_max \<longrightarrow> cache_inv n s" and it: "\<forall>xs. mset (ce_iter E xs) = mset xs"
  then have i: "n \<le> u64_max \<longrightarrow> cache_inv n t" by (simp add: s)
  have "cache_inv (Suc n) (the (cache_exec E x t))" if "Suc n \<le> u64_max"
    using cache_exec_inv [of n t E x] i it that by (auto simp: holds_def)
  then show "case case s of (n, s) \<Rightarrow> \<lambda>x. (Suc n, the (cache_exec E x s)) of f \<Rightarrow> case f x of (n, s) \<Rightarrow> n \<le> u64_max \<longrightarrow> cache_inv n s"
    by (simp add: s)
qed

lemma cache_reachable_inv:
  assumes "cache_reachable E config n s" "\<And>xs. mset (ce_iter E xs) = mset xs" "n \<le> u64_max"
  shows "cache_inv n s"
  using assms(1,3)
proof (induction rule: cache_reachable.induct)
  case cache_initial
  show ?case by (rule cache_new_inv)
next
  case (cache_step n s x s')
  then have "cache_inv n s" by simp
  from cache_exec_inv [OF this _ assms(2), of x] cache_step.hyps(2) cache_step.prems show ?case by (auto simp: holds_def)
qed

section \<open>A sample run\<close>

text \<open>
  Two requests for the same key: the first is elected, its response is captured and committed, the
  second waits and is answered from the cache.
\<close>

definition demo_body :: string where
  "demo_body = ''B''"

definition demo_json :: json where
  "demo_json = JObj [(''model'', JStr ''m''), (''max_tokens'', JPos 1),
     (''messages'', JArr [JObj [(''role'', JStr ''user''), (''content'', JStr ''x'')]])]"

definition demo_env :: cache_env where
  "demo_env = \<lparr>ce_libs = demo_libs\<lparr>lib_json := (\<lambda>_. Some demo_json)\<rparr>, ce_sha256 = (\<lambda>x. x), ce_iter = (\<lambda>xs. xs)\<rparr>"

definition demo_cache_config :: cache_config where
  "demo_cache_config = \<lparr>cc_ttl_secs = 60, cc_max_history = 4\<rparr>"

definition demo_request :: cache_op where
  "demo_request = XRequest 0 ''u'' [] Messages demo_body False"

definition demo_types :: header_map where
  "demo_types = (\<lambda>_. [])(''content-type'' := [''application/json''])"

definition demo_cache :: "cache_op list \<Rightarrow> cache_system" where
  "demo_cache xs = foldl (\<lambda>s x. the (cache_exec demo_env x s)) (cache_system_new demo_cache_config) xs"

definition demo_fill :: "cache_op list" where
  "demo_fill = [demo_request, demo_request, XTurn (\<lambda>_. 0) 0, XTurn (\<lambda>_. 0) 1, XCapture 200 demo_types demo_types 0,
     XObserve ''hel'' 0, XObserve ''lo'' 0]"

lemma demo_iter: "mset (ce_iter demo_env xs) = mset xs"
  by (simp add: demo_env_def)

lemma demo_cache_reachable: "length xs \<le> u64_max \<Longrightarrow> cache_reachable demo_env demo_cache_config (length xs) (demo_cache xs)"
proof (induction xs rule: rev_induct)
  case Nil
  show ?case by (simp add: demo_cache_def cache_initial)
next
  case (snoc x xs)
  then have r: "cache_reachable demo_env demo_cache_config (length xs) (demo_cache xs)" by simp
  have "cache_inv (length xs) (demo_cache xs)" using snoc.prems by (intro cache_reachable_inv [OF r demo_iter]) simp
  from cache_exec_inv [OF this _ demo_iter, of x] snoc.prems obtain s' where
    s': "cache_exec demo_env x (demo_cache xs) = Some s'" by (auto simp: holds_def)
  have "demo_cache (xs @ [x]) = s'" using s' by (simp add: demo_cache_def)
  with cache_step [OF r s'] show ?case by simp
qed

lemma demo_fill_state:
  "length (y_pendings (demo_cache demo_fill)) = 1" "length (y_captures (demo_cache demo_fill)) = 1"
  "map pd_flight (y_pendings (demo_cache demo_fill)) = [WaitingFlight]" "map cp_body (y_captures (demo_cache demo_fill)) = [''hello'']"
  "map (\<lambda>cp. pd_capture_pending (cp_pending cp)) (y_captures (demo_cache demo_fill)) = [True]"
  "map pd_key (y_pendings (demo_cache demo_fill)) = map (\<lambda>cp. pd_key (cp_pending cp)) (y_captures (demo_cache demo_fill))"
  by code_simp+

section \<open>Contract\<close>

text \<open>
  C15: the response cache never panics and never exceeds its memory budget.  After fewer than
  \<open>2^64 - 1\<close> operations in any order every further operation succeeds; the free permits, the
  reservation of each running capture and the sizes of all live entries, those still being replayed
  included, add up to the budget of four mebibytes; the number of references to an entry is the
  number of its owners; at most 128 responses are stored; and when nothing is stored, captured or
  replayed any more the whole budget is free again.
\<close>

theorem cache_never_panics:
  assumes "cache_reachable E config n s" "\<And>xs. mset (ce_iter E xs) = mset xs" "n < u64_max"
  shows "cache_exec E x s \<noteq> None
    \<and> p_avail (xc_budget (y_cache s)) + ENTRY_BYTES * length (y_captures s)
        + (\<Sum>(_, sh)\<leftarrow>p_arcs (xc_budget (y_cache s)). length (en_body (sh_value sh)) + stored_size (en_headers (sh_value sh)))
        = BUDGET_BYTES
    \<and> (\<forall>a. refs (xc_budget (y_cache s)) a = count_list (map snd (x_entries (xc_state (y_cache s))) @ y_replays s) a)
    \<and> length (x_entries (xc_state (y_cache s))) \<le> CACHE_ENTRIES
    \<and> (y_captures s = [] \<and> y_replays s = [] \<and> x_entries (xc_state (y_cache s)) = [] \<longrightarrow>
        p_avail (xc_budget (y_cache s)) = BUDGET_BYTES)"
proof -
  have inv: "cache_inv n s" using assms by (intro cache_reachable_inv) auto
  let ?b = "xc_budget (y_cache s)" and ?es = "x_entries (xc_state (y_cache s))"
  have so: "store_ok (ENTRY_BYTES * length (y_captures s)) (mset (y_replays s)) (y_cache s)" using inv by (simp add: cache_inv_def books_def)
  then have ok: "pool_ok BUDGET_BYTES (ENTRY_BYTES * length (y_captures s)) (mset (map snd ?es) + mset (y_replays s)) ?b"
    and sz: "sized ?b" by (simp_all add: store_ok_def)
  from cache_exec_inv [OF inv assms(3,2), of x] have "cache_exec E x s \<noteq> None" by (auto simp: holds_def)
  moreover have "permits (p_arcs ?b) = (\<Sum>(_, sh)\<leftarrow>p_arcs ?b. length (en_body (sh_value sh)) + stored_size (en_headers (sh_value sh)))"
    unfolding permits_def by (rule arg_cong [of _ _ sum_list], rule map_cong) (use sz in \<open>auto simp: sized_def entry_size_def\<close>)
  moreover have "refs ?b a = count_list (map snd ?es @ y_replays s) a" for a
    using ok by (simp add: pool_ok_def count_mset [symmetric] del: mset_map)
  moreover have "p_avail ?b = BUDGET_BYTES" if "y_captures s = []" "y_replays s = []" "?es = []"
    using pool_all_returned [of BUDGET_BYTES ?b] ok that by simp
  ultimately show ?thesis using ok so by (auto simp: pool_ok_def store_ok_def)
qed

theorem cache_never_panics_witness:
  "cache_exec demo_env (XCommit 7 True 0) (demo_cache demo_fill) \<noteq> None \<and> length (y_captures (demo_cache demo_fill)) = 1"
proof -
  have l: "length demo_fill < u64_max" by code_simp
  then have "length demo_fill \<le> u64_max" by simp
  from cache_never_panics [OF demo_cache_reachable [OF this] demo_iter l, of "XCommit 7 True 0"] demo_fill_state(2)
  show ?thesis by simp
qed



text \<open>A fresh entry survives the clean-up at the start of a lookup, and its contents do not change.\<close>

lemma retain_keeps:
  assumes so: "store_ok h R c" and k: "map_of (x_entries (xc_state c)) k = Some a"
    and fresh: "clk k - inserted_at c a < from_secs (cc_ttl_secs (xc_config c))"
  shows "map_of (x_entries (xc_state (retain_fresh clk c))) k = Some a"
    "arc_get a (xc_budget (retain_fresh clk c)) = arc_get a (xc_budget c)"
proof -
  let ?es = "x_entries (xc_state c)"
  let ?f = "\<lambda>(k, a). clk k - inserted_at c a < from_secs (cc_ttl_secs (xc_config c))"
  have d: "distinct (map fst ?es)" using so by (simp add: store_ok_def)
  have "(k, a) \<in> set (filter ?f ?es)" using k fresh by (auto dest: map_of_SomeD)
  with d show "map_of (x_entries (xc_state (retain_fresh clk c))) k = Some a"
    by (simp add: retain_fresh_def Let_def map_of_eq_Some_iff distinct_map_filter)
  have "mset (map snd ?es) + R = mset (map snd (filter (\<lambda>e. \<not> ?f e) ?es)) + (mset (map snd (filter ?f ?es)) + R)"
    using mset_map_filter_split [of snd ?es ?f] by (simp add: add_ac)
  then have "pool_ok BUDGET_BYTES h (mset (map snd (filter (\<lambda>e. \<not> ?f e) ?es)) + (mset (map snd (filter ?f ?es)) + R)) (xc_budget c)"
    using so by (metis store_ok_def)
  moreover have "a \<in># mset (map snd (filter ?f ?es)) + R" using \<open>(k, a) \<in> set (filter ?f ?es)\<close> by force
  ultimately have "arc_get a (fold arc_drop (map snd (filter (\<lambda>e. \<not> ?f e) ?es)) (xc_budget c)) = arc_get a (xc_budget c)"
    by (rule budget.get_discards)
  then show "arc_get a (xc_budget (retain_fresh clk c)) = arc_get a (xc_budget c)"
    by (simp add: retain_fresh_def Let_def)
qed

lemma lookup_found:
  assumes "lookup_in clk p c = Some (found, p', c')"
  shows "found = map_of (x_entries (xc_state (retain_fresh clk c))) (pd_key p)"
    "found = Some a \<Longrightarrow> arc_get a (xc_budget c') = arc_get a (xc_budget (retain_fresh clk c))"
  using assms by (auto simp: lookup_in_def Let_def budget.get_clone split: option.splits bind_splits prod.splits)

lemma retain_only_fresh:
  "map_of (x_entries (xc_state (retain_fresh clk c))) k = Some a \<Longrightarrow>
     map_of (x_entries (xc_state c)) k \<noteq> None \<and> clk k - inserted_at c a < from_secs (cc_ttl_secs (xc_config c))"
  by (auto simp: retain_fresh_def Let_def map_of_eq_None_iff dest!: map_of_SomeD)
     (metis fst_conv image_eqI)



section \<open>Keys\<close>

lemma concat_field_frames:
  "concat (map (\<lambda>name. name # be64 (length (f name)) # f name) ns) = concat (map field_frames (map (\<lambda>name. (name, f name)) ns))"
  by (induction ns) (simp_all add: field_frames_def)

lemma set_key_names: "set (key_names h) = fst ` set h - {''x-stainless-retry-count''}"
  by (auto simp: key_names_def)

text \<open>
  C35: two requests share a cache entry only if they are the same request.  When the byte strings fed to
  the hash are equal, the two requests have the same root, URL and body, and the same values for
  every header except the retry counter of the client library: the length-prefixed encoding is
  injective (all lengths fit 64 bits).
\<close>

theorem cache_key_separates:
  assumes "frames (key_frames root url h body) = frames (key_frames root' url' h' body')"
    and "list_all short (key_frames root url h body)" "list_all short (key_frames root' url' h' body')"
    and "root \<le> u64_max" "root' \<le> u64_max"
    and "\<And>name. length (get_all h name) \<le> u64_max" "\<And>name. length (get_all h' name) \<le> u64_max"
  shows "root = root' \<and> url = url' \<and> body = body' \<and> (\<forall>name. name \<noteq> ''x-stainless-retry-count'' \<longrightarrow> get_all h name = get_all h' name)"
proof -
  let ?fs = "\<lambda>h. map (\<lambda>name. (name, get_all h name)) (key_names h)"
  have e: "key_frames root url h body = key_frames root' url' h' body'" using frames_inj [OF assms(1-3)] .
  then have "be64 root = be64 root'" "url = url'" "body = body'" "concat (map field_frames (?fs h)) = concat (map field_frames (?fs h'))"
    unfolding key_frames_def concat_field_frames by simp_all
  moreover from this(4) have "?fs h = ?fs h'"
    by (rule field_frames_inj) (use assms(6,7) in \<open>simp_all add: list_all_iff\<close>)
  moreover have "key_names h = key_names h'" using arg_cong [OF calculation(5), of "map fst"] by (simp add: comp_def)
  moreover have "get_all h name = get_all h' name" if n: "name \<noteq> ''x-stainless-retry-count''" for name
  proof (cases "name \<in> set (key_names h)")
    case True
    with calculation(5,6) show ?thesis by (auto dest: map_eq_conv [THEN iffD1])
  next
    case False
    moreover from this have "name \<notin> set (key_names h')" using \<open>key_names h = key_names h'\<close> by simp
    ultimately have "name \<notin> fst ` set h" "name \<notin> fst ` set h'" using n by (simp_all add: set_key_names)
    then show ?thesis by (simp add: get_all_def map_of_eq_None_iff [THEN iffD2])
  qed
  ultimately show ?thesis using be64_inj [OF _ assms(4,5)] by blast
qed

theorem cache_key_separates_witness:
  "get_all [(''a'', [''1'']), (''x-stainless-retry-count'', [''0''])] ''a'' = get_all [(''x-stainless-retry-count'', [''1'']), (''a'', [''1''])] ''a''
   \<and> key_frames 0 ''u'' [(''a'', [''1'']), (''x-stainless-retry-count'', [''0''])] ''b''
     = key_frames 0 ''u'' [(''x-stainless-retry-count'', [''1'']), (''a'', [''1''])] ''b''"
proof -
  let ?h = "[(''a'', [''1'']), (''x-stainless-retry-count'', [''0''])]" and ?h' = "[(''x-stainless-retry-count'', [''1'']), (''a'', [''1''])]"
  have k: "key_names ?h = [''a'']" "key_names ?h' = [''a'']" by (simp_all add: key_names_def)
  have e: "key_frames 0 ''u'' ?h ''b'' = key_frames 0 ''u'' ?h' ''b''" by (simp add: key_frames_def k get_all_def)
  have s: "list_all short (key_frames 0 ''u'' ?h ''b'')" by (simp add: key_frames_def k get_all_def short_def u64_max_def)
  have "length (get_all ?h n) \<le> u64_max" "length (get_all ?h' n) \<le> u64_max" for n by (simp_all add: get_all_def u64_max_def)
  with cache_key_separates [OF arg_cong [OF e, of frames] s s [unfolded e]] e show ?thesis by auto
qed

end
