(* ===== verification/Request_Inspection.thy ===== *)
theory Request_Inspection
  imports Ledger Json_Value
begin

text \<open>
  The inspection of request bodies, \<^verbatim>\<open>protocol/request.rs\<close>: which model a request names, whether it
  may run, and what it may cost.

  The deserializer of \<^verbatim>\<open>serde_json\<close> is the parameter \<open>walk\<close>: the document it visits, with the members of
  objects in order and with their duplicates, or \<open>None\<close> when it fails somewhere or something follows
  the document.  The sets of bits \<^verbatim>\<open>seen\<close> are lists of the bits set.
\<close>

section \<open>Data\<close>

record data_route =
  dr_root_index :: nat
  dr_endpoint :: endpoint

type_synonym protocol_error = "nat \<times> string"

definition reject :: "nat \<Rightarrow> string \<Rightarrow> protocol_error" where
  "reject status code = (status, code)"

record inspection =
  in_model :: "string option"
  in_background :: bool
  in_duplicate :: bool
  in_caps :: "nat option option list"
  in_multimodal :: bool
  in_n :: "nat option option"

definition inspection_default :: inspection where
  "inspection_default = \<lparr>in_model = None, in_background = False, in_duplicate = False, in_caps = [None, None, None],
     in_multimodal = False, in_n = None\<rparr>"

section \<open>Scanning the input of a request\<close>

text \<open>The visitor \<^verbatim>\<open>Number\<close>: a positive integer.\<close>

fun number :: "json \<Rightarrow> nat option" where
  "number (JPos n) = (if 0 < n then Some n else None)"
| "number _ = None"

datatype scan = ScanMessages | ScanMessage | ScanInput | ScanItem | ScanContent | ScanBlock | ScanModalities | ScanKind

definition known_kinds :: "string list" where
  "known_kinds = [''text'', ''input_text'', ''output_text'', ''message'', ''function_call'', ''function_call_output'',
     ''tool_use'', ''tool_result'', ''thinking'', ''redacted_thinking'', ''refusal'']"

fun scan_str :: "scan \<Rightarrow> string \<Rightarrow> bool" where
  "scan_str ScanKind s = (s \<notin> set known_kinds)"
| "scan_str ScanModalities s = (s \<noteq> ''text'')"
| "scan_str ScanInput s = False"
| "scan_str ScanContent s = False"
| "scan_str _ s = True"

fun scan_child :: "scan \<Rightarrow> scan option" where
  "scan_child ScanMessages = Some ScanMessage"
| "scan_child ScanInput = Some ScanItem"
| "scan_child ScanContent = Some ScanBlock"
| "scan_child ScanModalities = Some ScanModalities"
| "scan_child _ = None"

definition scan_bit :: "scan \<Rightarrow> string \<Rightarrow> nat" where
  "scan_bit self key =
     (if key = ''type'' then 1 else if key = ''content'' then 2 else if key = ''audio'' then 4
      else if key = ''output'' \<and> self = ScanItem then 8 else 0)"

text \<open>The visitor \<^verbatim>\<open>Scan\<close>: whether a value holds anything the estimate does not cover.\<close>

function (sequential) scan_value :: "scan \<Rightarrow> json \<Rightarrow> bool"
  and scan_fields :: "scan \<Rightarrow> (string \<times> json) list \<Rightarrow> nat list \<Rightarrow> bool" where
  "scan_value self (JStr s) = scan_str self s"
| "scan_value self (JArr xs) =
     (case scan_child self of None \<Rightarrow> True | Some child \<Rightarrow> (\<exists>x\<in>set xs. scan_value child x))"
| "scan_value self (JObj ms) =
     (if self \<notin> {ScanMessage, ScanItem, ScanBlock} then True else scan_fields self ms [])"
| "scan_value self JNull = (self \<noteq> ScanContent)"
| "scan_value self _ = True"
| "scan_fields self [] seen = (self = ScanBlock \<and> 1 \<notin> set seen)"
| "scan_fields self ((key, v) # ms) seen =
     (let b = scan_bit self key;
          dup = (b \<noteq> 0 \<and> b \<in> set seen);
          unsupported =
            (if key = ''type'' then scan_value ScanKind v
             else if key = ''content'' then scan_value ScanContent v
             else if key = ''output'' \<and> self = ScanItem then scan_value ScanContent v
             else key = ''audio'')
      in dup \<or> unsupported \<or> scan_fields self ms (b # seen))"
  by pat_completeness auto
termination
  by (relation "measure (case_sum (\<lambda>(_, v). size v) (\<lambda>(_, ms, _). size_list (size_prod (\<lambda>_. 0) size) ms))")
     (auto simp: less_Suc_eq_le intro: size_list_estimation' [where f = size] le_imp_less_Suc)

section \<open>The members of the request\<close>

definition field_bit :: "endpoint \<Rightarrow> string \<Rightarrow> nat" where
  "field_bit ep key =
     (if key = ''model'' then 1 else if key = ''background'' then 2 else if key = ''max_tokens'' then 4
      else if key = ''max_completion_tokens'' then 8 else if key = ''max_output_tokens'' then 16
      else if key = ''messages'' \<and> ep \<noteq> Responses then 32
      else if key = ''input'' \<and> ep = Responses then 64
      else if key = ''modalities'' \<and> ep = ChatCompletions then 128
      else if key = ''n'' \<and> ep = ChatCompletions then 256 else 0)"

definition inspect_field :: "nat \<Rightarrow> json \<Rightarrow> inspection \<Rightarrow> inspection" where
  "inspect_field b v i =
     (if b = 1 then i\<lparr>in_model := as_str v\<rparr>
      else if b = 2 then i\<lparr>in_background := (as_bool v = Some True)\<rparr>
      else if b = 4 then i\<lparr>in_caps := (in_caps i)[0 := Some (number v)]\<rparr>
      else if b = 8 then i\<lparr>in_caps := (in_caps i)[1 := Some (number v)]\<rparr>
      else if b = 16 then i\<lparr>in_caps := (in_caps i)[2 := Some (number v)]\<rparr>
      else if b = 256 then i\<lparr>in_n := Some (number v)\<rparr>
      else if b = 32 then i\<lparr>in_multimodal := (in_multimodal i \<or> scan_value ScanMessages v)\<rparr>
      else if b = 64 then i\<lparr>in_multimodal := (in_multimodal i \<or> scan_value ScanInput v)\<rparr>
      else if b = 128 then i\<lparr>in_multimodal := (in_multimodal i \<or> scan_value ScanModalities v)\<rparr>
      else i)"

fun inspect_fields :: "endpoint \<Rightarrow> (string \<times> json) list \<Rightarrow> nat list \<Rightarrow> inspection \<Rightarrow> inspection" where
  "inspect_fields ep [] seen i = i"
| "inspect_fields ep ((key, v) # ms) seen i =
     (let b = field_bit ep key in
      if b \<noteq> 0 \<and> b \<in> set seen then inspect_fields ep ms seen (i\<lparr>in_duplicate := True\<rparr>)
      else inspect_fields ep ms (b # seen) (inspect_field b v i))"

text \<open>The visitor \<^verbatim>\<open>InspectionVisitor\<close>: only an object is inspected.\<close>

fun inspect :: "endpoint \<Rightarrow> json \<Rightarrow> inspection option" where
  "inspect ep (JObj ms) = Some (inspect_fields ep ms [] inspection_default)"
| "inspect ep _ = None"

section \<open>The cost of a request\<close>

text \<open>The output cap of the request per endpoint, \<^verbatim>\<open>caps[0]\<close> to \<^verbatim>\<open>caps[2]\<close>.\<close>

definition output_cap :: "endpoint \<Rightarrow> nat option option list \<Rightarrow> (string + nat option) option" where
  "output_cap ep caps =
     (case ep of
        ChatCompletions \<Rightarrow>
          if caps ! 2 \<noteq> None then Some (Inl ''unsupported_output_bound_field'')
          else if caps ! 0 \<noteq> None \<and> caps ! 1 \<noteq> None then Some (Inl ''ambiguous_output_bound'')
          else Some (Inr (Option.bind (if caps ! 1 \<noteq> None then caps ! 1 else caps ! 0) id))
      | Responses \<Rightarrow>
          if caps ! 0 \<noteq> None \<or> caps ! 1 \<noteq> None then Some (Inl ''unsupported_output_bound_field'')
          else Some (Inr (Option.bind (caps ! 2) id))
      | Messages \<Rightarrow>
          if caps ! 1 \<noteq> None \<or> caps ! 2 \<noteq> None then Some (Inl ''unsupported_output_bound_field'')
          else Some (Inr (Option.bind (caps ! 0) id))
      | _ \<Rightarrow> None)"

text \<open>The estimate of a metered generation.\<close>

definition metered_cost ::
  "config_libs \<Rightarrow> endpoint \<Rightarrow> inspection \<Rightarrow> model \<Rightarrow> nat \<Rightarrow> string \<Rightarrow> (string + request_cost) option" where
  "metered_cost L ep i m limit text =
     (if in_multimodal i then Some (Inl ''unsupported_multimodal_estimate'')
      else if is_some_and (\<lambda>n. n \<noteq> Some 1) (in_n i) then Some (Inl ''unsupported_generation_count'')
      else if Some None \<in> set (in_caps i) then Some (Inl ''invalid_output_bound'')
      else map_option (\<lambda>r.
        case r of
          Inl code \<Rightarrow> Inl code
        | Inr cap \<Rightarrow>
            (case (if cap \<noteq> None then cap else model_max_output_tokens m) of
               None \<Rightarrow> Inl ''output_bound_required''
             | Some out \<Rightarrow>
                 (case estimate L (model_input_estimator m) text (model_input_token_overhead m) of
                    None \<Rightarrow> Inl ''estimate_exceeds_budget''
                  | Some inp \<Rightarrow>
                      if is_none_or (\<lambda>total. limit < total) (checked_add u64_max inp out)
                      then Inl ''estimate_exceeds_budget'' else Inr (Estimated inp out))))
        (output_cap ep (in_caps i)))"

text \<open>\<^verbatim>\<open>inspect_body\<close>; \<open>None\<close> is a panic: the root does not exist, or a branch marked unreachable is reached.\<close>

definition inspect_body ::
  "config_libs \<Rightarrow> (string \<Rightarrow> json option) \<Rightarrow> config \<Rightarrow> data_route \<Rightarrow> string
   \<Rightarrow> (protocol_error + (request_cost \<times> nat option)) option" where
  "inspect_body L walk config route body =
     (let ep = dr_endpoint route; error = (\<lambda>code. Some (Inl (reject 400 code))) in
      if ep = Models then Some (Inr (Metadata, None))
      else case (if valid_utf8 body then walk body else None) of
        None \<Rightarrow> error ''invalid_json''
      | Some doc \<Rightarrow>
          (case inspect ep doc of
             None \<Rightarrow> error ''json_object_required''
           | Some i \<Rightarrow>
               if in_duplicate i then error ''duplicate_inspected_field''
               else if ep = Responses \<and> in_background i then error ''unsupported_background''
               else case in_model i of
                 None \<Rightarrow> error ''model_required''
               | Some name \<Rightarrow>
                   if length (cfg_roots config) \<le> dr_root_index route then None
                   else if name \<notin> set (root_models (cfg_roots config ! dr_root_index route)) then error ''model_not_allowed''
                   else case position (\<lambda>m. model_id m = name) (cfg_models config) of
                     None \<Rightarrow> error ''model_not_allowed''
                   | Some k \<Rightarrow>
                       if ep = CountTokens then Some (Inr (Metadata, Some k))
                       else case quota_tpm (cfg_quota config) of
                         Known limit \<Rightarrow>
                           map_option (\<lambda>r. case r of Inl code \<Rightarrow> Inl (reject 400 code) | Inr cost \<Rightarrow> Inr (cost, Some k))
                             (metered_cost L ep i (cfg_models config ! k) limit body)
                       | _ \<Rightarrow> Some (Inr (UnmeteredGeneration, Some k))))"

end
