(* ===== verification/Request_Contract.thy ===== *)
theory Request_Contract
  imports Request_Inspection
begin

text \<open>
  What the inspection of a request promises: the single pass over the members agrees with looking
  each member up, and the cost of an accepted request is one the ledger can ever admit.
\<close>

section \<open>The single pass\<close>

definition by_bit :: "endpoint \<Rightarrow> (string \<times> json) list \<Rightarrow> nat \<Rightarrow> json option" where
  "by_bit ep ms = map_of (map (\<lambda>(k, v). (field_bit ep k, v)) ms)"

text \<open>An attribute that only the members with bit \<open>b\<close> change is set by the first of them.\<close>

lemma pass_attribute:
  assumes "\<And>i d. g (i\<lparr>in_duplicate := d\<rparr>) = g i" "\<And>b' v i. b' \<noteq> b \<Longrightarrow> g (inspect_field b' v i) = g i"
    "\<And>v i. g (inspect_field b v i) = h v (g i)" "b \<noteq> 0"
  shows "g (inspect_fields ep ms seen i) =
    (if b \<in> set seen then g i else case by_bit ep ms b of None \<Rightarrow> g i | Some v \<Rightarrow> h v (g i))"
  using assms(4)
proof (induction ep ms seen i rule: inspect_fields.induct)
  case (2 ep key v ms seen i)
  then show ?case by (cases "field_bit ep key = b") (auto simp: Let_def by_bit_def assms(1-3) split: option.split)
qed (simp add: by_bit_def)

lemma by_bit_Cons: "by_bit ep ((k, v) # ms) b = (if field_bit ep k = b then Some v else by_bit ep ms b)"
  by (auto simp: by_bit_def)

lemma by_bit_key:
  assumes "\<And>k. field_bit ep k = b \<longleftrightarrow> k = key"
  shows "by_bit ep ms b = map_of ms key"
proof (induction ms)
  case (Cons x ms)
  obtain k v where x: "x = (k, v)" by (cases x)
  from Cons show ?case unfolding x by_bit_Cons assms by (simp add: eq_commute)
qed (simp add: by_bit_def)

lemma by_bit_none:
  assumes "\<And>k. field_bit ep k \<noteq> b"
  shows "by_bit ep ms b = None"
proof (induction ms)
  case (Cons x ms)
  obtain k v where x: "x = (k, v)" by (cases x)
  from Cons show ?case unfolding x by_bit_Cons using assms [of k] by simp
qed (simp add: by_bit_def)

lemma field_bit_inj: "field_bit ep k = field_bit ep k' \<Longrightarrow> field_bit ep k \<noteq> 0 \<Longrightarrow> k = k'"
  by (simp add: field_bit_def split: if_splits)

lemma by_bit_lookup:
  "by_bit ep ms 1 = map_of ms ''model''" "by_bit ep ms 2 = map_of ms ''background''" "by_bit ep ms 4 = map_of ms ''max_tokens''"
  "by_bit ep ms 8 = map_of ms ''max_completion_tokens''" "by_bit ep ms 16 = map_of ms ''max_output_tokens''"
  "by_bit ep ms 32 = (if ep \<noteq> Responses then map_of ms ''messages'' else None)"
  "by_bit ep ms 64 = (if ep = Responses then map_of ms ''input'' else None)"
  "by_bit ep ms 128 = (if ep = ChatCompletions then map_of ms ''modalities'' else None)"
  "by_bit ep ms 256 = (if ep = ChatCompletions then map_of ms ''n'' else None)"
proof -
  have key: "by_bit ep ms b = map_of ms key" if "field_bit ep key = b" "b \<noteq> 0" for b key
  proof (rule by_bit_key)
    show "field_bit ep k = b \<longleftrightarrow> k = key" for k using that field_bit_inj [of ep k key] by auto
  qed
  show "by_bit ep ms 1 = map_of ms ''model''" "by_bit ep ms 2 = map_of ms ''background''" "by_bit ep ms 4 = map_of ms ''max_tokens''"
    "by_bit ep ms 8 = map_of ms ''max_completion_tokens''" "by_bit ep ms 16 = map_of ms ''max_output_tokens''"
    by (rule key, simp add: field_bit_def, simp)+
  have none: "by_bit ep ms b = None" if "\<And>k. field_bit ep k \<noteq> b" for b using that by (rule by_bit_none)
  show "by_bit ep ms 32 = (if ep \<noteq> Responses then map_of ms ''messages'' else None)"
    using key [of "''messages''" 32] none [of 32] by (cases ep) (simp_all add: field_bit_def)
  show "by_bit ep ms 64 = (if ep = Responses then map_of ms ''input'' else None)"
    using key [of "''input''" 64] none [of 64] by (cases ep) (simp_all add: field_bit_def)
  show "by_bit ep ms 128 = (if ep = ChatCompletions then map_of ms ''modalities'' else None)"
    using key [of "''modalities''" 128] none [of 128] by (cases ep) (simp_all add: field_bit_def)
  show "by_bit ep ms 256 = (if ep = ChatCompletions then map_of ms ''n'' else None)"
    using key [of "''n''" 256] none [of 256] by (cases ep) (simp_all add: field_bit_def)
qed

lemma inspect_field_simps:
  "in_model (inspect_field b v i) = (if b = 1 then as_str v else in_model i)"
  "in_background (inspect_field b v i) = (if b = 2 then as_bool v = Some True else in_background i)"
  "in_n (inspect_field b v i) = (if b = 256 then Some (number v) else in_n i)"
  "in_duplicate (inspect_field b v i) = in_duplicate i"
  "in_caps (inspect_field b v i) = (if b = 4 then (in_caps i)[0 := Some (number v)] else if b = 8 then (in_caps i)[1 := Some (number v)]
     else if b = 16 then (in_caps i)[2 := Some (number v)] else in_caps i)"
  by (simp_all add: inspect_field_def)

definition scan_of :: "nat \<Rightarrow> scan" where
  "scan_of b = (if b = 32 then ScanMessages else if b = 64 then ScanInput else ScanModalities)"

definition content_bits :: "nat set" where
  "content_bits = {32, 64, 128}"

lemma inspect_field_multimodal:
  "in_multimodal (inspect_field b v i) = (in_multimodal i \<or> b \<in> content_bits \<and> scan_value (scan_of b) v)"
  by (simp add: inspect_field_def scan_of_def content_bits_def)

lemma bex_first: "(c \<in> S \<Longrightarrow> c \<notin> T) \<Longrightarrow> (\<exists>b\<in>S - T. if c = b then p b else B b) = (c \<in> S \<and> p c \<or> (\<exists>b\<in>S - insert c T. B b))"
  by (cases "\<exists>b\<in>S - insert c T. B b") (fastforce, auto split: if_splits)

lemma pass_multimodal:
  "in_multimodal (inspect_fields ep ms seen i) =
     (in_multimodal i \<or> (\<exists>b\<in>content_bits - set seen. is_some_and (scan_value (scan_of b)) (by_bit ep ms b)))"
proof (induction ep ms seen i rule: inspect_fields.induct)
  case (2 ep key v ms seen i)
  let ?b = "field_bit ep key"
  show ?case
  proof (cases "?b \<noteq> 0 \<and> ?b \<in> set seen")
    case True
    then have "by_bit ep ((key, v) # ms) b = by_bit ep ms b" if "b \<notin> set seen" for b using that by (auto simp: by_bit_Cons)
    with True 2 show ?thesis by (auto simp: Let_def)
  next
    case False
    then have "in_multimodal (inspect_fields ep ((key, v) # ms) seen i) = (in_multimodal i \<or> ?b \<in> content_bits \<and> scan_value (scan_of ?b) v
        \<or> (\<exists>b\<in>content_bits - set (?b # seen). is_some_and (scan_value (scan_of b)) (by_bit ep ms b)))"
      using 2 by (auto simp: Let_def inspect_field_multimodal)
    moreover have "(\<exists>b\<in>content_bits - set seen. is_some_and (scan_value (scan_of b)) (by_bit ep ((key, v) # ms) b))
      = (?b \<in> content_bits \<and> scan_value (scan_of ?b) v
        \<or> (\<exists>b\<in>content_bits - set (?b # seen). is_some_and (scan_value (scan_of b)) (by_bit ep ms b)))"
    proof -
      have "0 \<notin> content_bits" by (simp add: content_bits_def)
      with False have n: "?b \<in> content_bits \<Longrightarrow> ?b \<notin> set seen" by auto
      have "is_some_and Q (by_bit ep ((key, v) # ms) b) = (if ?b = b then Q v else is_some_and Q (by_bit ep ms b))" for Q b
        by (simp add: by_bit_Cons)
      then show ?thesis by (simp only: bex_first [OF n] list.set)
    qed
    ultimately show ?thesis by blast
  qed
qed (simp add: by_bit_def)

lemma pass_caps:
  "length (in_caps i) = 3 \<Longrightarrow> in_caps (inspect_fields ep ms seen i) =
     map (\<lambda>(j, b). if b \<in> set seen then in_caps i ! j else case by_bit ep ms b of None \<Rightarrow> in_caps i ! j | Some v \<Rightarrow> Some (number v))
       [(0, 4), (1, 8), (2, 16)]"
proof -
  assume l: "length (in_caps i) = 3"
  have len: "length (in_caps (inspect_fields ep ms seen i)) = length (in_caps i)" for i
    by (induction ep ms seen i rule: inspect_fields.induct) (simp_all add: Let_def inspect_field_simps)
  have cap: "in_caps (inspect_fields ep ms seen i) ! j =
      (if b \<in> set seen then in_caps i ! j else case by_bit ep ms b of None \<Rightarrow> in_caps i ! j | Some v \<Rightarrow> Some (number v))"
    if "(j, b) \<in> {(0, 4), (1, 8), (2, 16)}" for j b
  proof -
    have "(\<lambda>i. if length (in_caps i) = 3 then Some (in_caps i ! j) else None) (inspect_fields ep ms seen i) =
      (if b \<in> set seen then if length (in_caps i) = 3 then Some (in_caps i ! j) else None
       else case by_bit ep ms b of None \<Rightarrow> if length (in_caps i) = 3 then Some (in_caps i ! j) else None
       | Some v \<Rightarrow> (\<lambda>v x. map_option (\<lambda>_. Some (number v)) x) v (if length (in_caps i) = 3 then Some (in_caps i ! j) else None))"
      using that by (intro pass_attribute) (auto simp: inspect_field_simps)
    moreover have "length (in_caps (inspect_fields ep ms seen i)) = 3" using len l by simp
    ultimately show ?thesis using l by (auto split: option.splits)
  qed
  have three: "xs = [xs ! 0, xs ! 1, xs ! 2]" if "length xs = 3" for xs :: "nat option option list"
    using that by (auto simp: numeral_3_eq_3 length_Suc_conv numeral_2_eq_2)
  have "length (in_caps (inspect_fields ep ms seen i)) = 3" using len l by simp
  from three [OF this] cap [of 0 4] cap [of 1 8] cap [of 2 16] show ?thesis
    by (simp only: list.map prod.case insert_iff empty_iff prod.inject simp_thms)
qed

definition inspected_keys :: "endpoint \<Rightarrow> (string \<times> json) list \<Rightarrow> string list" where
  "inspected_keys ep ms = filter (\<lambda>k. field_bit ep k \<noteq> 0) (map fst ms)"

lemma pass_duplicate:
  "in_duplicate (inspect_fields ep ms seen i) \<longleftrightarrow>
     in_duplicate i \<or> \<not> distinct (inspected_keys ep ms) \<or> (\<exists>k\<in>set (inspected_keys ep ms). field_bit ep k \<in> set seen)"
proof (induction ep ms seen i rule: inspect_fields.induct)
  case (2 ep key v ms seen i)
  let ?b = "field_bit ep key"
  have k: "field_bit ep k = ?b \<longleftrightarrow> k = key" if "?b \<noteq> 0" for k using field_bit_inj that by metis
  have m: "k \<in> set (inspected_keys ep ms) \<Longrightarrow> field_bit ep k \<noteq> 0" for k by (simp add: inspected_keys_def)
  consider (zero) "?b = 0" | (dup) "?b \<noteq> 0" "?b \<in> set seen" | (new) "?b \<noteq> 0" "?b \<notin> set seen" by blast
  then show ?case
  proof cases
    case zero
    then have e: "inspected_keys ep ((key, v) # ms) = inspected_keys ep ms" by (simp add: inspected_keys_def)
    have "in_duplicate (inspect_fields ep ((key, v) # ms) seen i) \<longleftrightarrow> in_duplicate i \<or> \<not> distinct (inspected_keys ep ms)
        \<or> (\<exists>k\<in>set (inspected_keys ep ms). field_bit ep k \<in> set (0 # seen))"
      using 2(2) zero by (simp add: Let_def inspect_field_simps)
    moreover have "(\<exists>k\<in>set (inspected_keys ep ms). field_bit ep k \<in> set (0 # seen))
        = (\<exists>k\<in>set (inspected_keys ep ms). field_bit ep k \<in> set seen)" by (rule bex_cong [OF refl]) (use m in force)
    ultimately show ?thesis unfolding e by blast
  next
    case dup
    then have "inspected_keys ep ((key, v) # ms) = key # inspected_keys ep ms" by (simp add: inspected_keys_def)
    with dup 2(1) show ?thesis by (simp add: Let_def)
  next
    case new
    then have e: "inspected_keys ep ((key, v) # ms) = key # inspected_keys ep ms" by (simp add: inspected_keys_def)
    have "in_duplicate (inspect_fields ep ((key, v) # ms) seen i) \<longleftrightarrow> in_duplicate i \<or> \<not> distinct (inspected_keys ep ms)
        \<or> (\<exists>k\<in>set (inspected_keys ep ms). field_bit ep k \<in> set (?b # seen))"
      using 2(2) new by (simp add: Let_def inspect_field_simps)
    with new k show ?thesis unfolding e by (auto; metis)
  qed
qed (simp add: inspected_keys_def)

lemma pass_model: "in_model (inspect_fields ep ms seen i) =
    (if 1 \<in> set seen then in_model i else case by_bit ep ms 1 of None \<Rightarrow> in_model i | Some v \<Rightarrow> as_str v)"
  by (rule pass_attribute) (simp_all add: inspect_field_simps)

lemma pass_background: "in_background (inspect_fields ep ms seen i) =
    (if 2 \<in> set seen then in_background i else case by_bit ep ms 2 of None \<Rightarrow> in_background i | Some v \<Rightarrow> as_bool v = Some True)"
  by (rule pass_attribute) (simp_all add: inspect_field_simps)

lemma pass_n: "in_n (inspect_fields ep ms seen i) =
    (if 256 \<in> set seen then in_n i else case by_bit ep ms 256 of None \<Rightarrow> in_n i | Some v \<Rightarrow> Some (number v))"
  by (rule pass_attribute) (simp_all add: inspect_field_simps)

section \<open>Contract\<close>

text \<open>
  C34: the single pass over a request body sees what a careful reader sees.  A body is flagged as
  ambiguous exactly when one of the members the gateway relies on occurs more than once; and each
  attribute of the inspection is read from the member of that name: the model, the background flag,
  the three output caps, the number of generations, and the input scanned for anything the token
  estimate does not cover (the messages, or for the responses endpoint the input, and for chat the
  modalities).
\<close>

theorem inspection_reference:
  assumes "inspect ep doc = Some i"
  shows "\<exists>ms. doc = JObj ms
    \<and> (in_duplicate i \<longleftrightarrow> \<not> distinct (filter (\<lambda>k. field_bit ep k \<noteq> 0) (map fst ms)))
    \<and> in_model i = Option.bind (map_of ms ''model'') as_str
    \<and> (in_background i \<longleftrightarrow> Option.bind (map_of ms ''background'') as_bool = Some True)
    \<and> in_caps i = map (\<lambda>k. map_option number (map_of ms k)) [''max_tokens'', ''max_completion_tokens'', ''max_output_tokens'']
    \<and> in_n i = (if ep = ChatCompletions then map_option number (map_of ms ''n'') else None)
    \<and> (in_multimodal i \<longleftrightarrow>
         (if ep = Responses then is_some_and (scan_value ScanInput) (map_of ms ''input'')
          else is_some_and (scan_value ScanMessages) (map_of ms ''messages''))
         \<or> ep = ChatCompletions \<and> is_some_and (scan_value ScanModalities) (map_of ms ''modalities''))"
proof -
  obtain ms where ms: "doc = JObj ms" "i = inspect_fields ep ms [] inspection_default"
    using assms by (cases doc) auto
  have "in_duplicate i \<longleftrightarrow> \<not> distinct (filter (\<lambda>k. field_bit ep k \<noteq> 0) (map fst ms))"
    by (simp add: ms(2) pass_duplicate inspection_default_def inspected_keys_def)
  moreover have "in_model i = Option.bind (map_of ms ''model'') as_str"
    unfolding ms(2) pass_model by_bit_lookup by (simp add: inspection_default_def split: option.split)
  moreover have "in_background i \<longleftrightarrow> Option.bind (map_of ms ''background'') as_bool = Some True"
    by (simp add: ms(2) pass_background by_bit_lookup inspection_default_def split: option.split)
  moreover have "in_caps i = map (\<lambda>k. map_option number (map_of ms k)) [''max_tokens'', ''max_completion_tokens'', ''max_output_tokens'']"
    by (simp add: ms(2) pass_caps by_bit_lookup inspection_default_def split: option.split)
  moreover have "in_n i = (if ep = ChatCompletions then map_option number (map_of ms ''n'') else None)"
    by (simp add: ms(2) pass_n by_bit_lookup inspection_default_def split: option.split)
  moreover have "in_multimodal i \<longleftrightarrow>
         (if ep = Responses then is_some_and (scan_value ScanInput) (map_of ms ''input'')
          else is_some_and (scan_value ScanMessages) (map_of ms ''messages''))
         \<or> ep = ChatCompletions \<and> is_some_and (scan_value ScanModalities) (map_of ms ''modalities'')"
    by (simp add: ms(2) pass_multimodal by_bit_lookup inspection_default_def content_bits_def scan_of_def)
  ultimately show ?thesis using ms(1) by blast
qed

definition demo_request_doc :: json where
  "demo_request_doc = JObj [(''model'', JStr ''m''), (''max_tokens'', JPos 10), (''x'', JNull), (''x'', JNull),
     (''messages'', JArr [JObj [(''role'', JStr ''user''), (''content'', JArr [JObj [(''type'', JStr ''image'')]])]])]"

theorem inspection_reference_witness:
  "\<exists>i. inspect Messages demo_request_doc = Some i \<and> \<not> in_duplicate i \<and> in_multimodal i \<and> in_model i = Some ''m''"
proof -
  obtain i where i: "inspect Messages demo_request_doc = Some i" by (simp add: demo_request_doc_def)
  have "\<not> in_duplicate (the (inspect Messages demo_request_doc))" "in_multimodal (the (inspect Messages demo_request_doc))" by code_simp+
  with i inspection_reference [OF i] show ?thesis by (auto simp: demo_request_doc_def)
qed

lemma number_pos: "number v = Some n \<Longrightarrow> 0 < n"
  by (cases v) (auto split: if_splits)

lemma caps_positive:
  assumes "inspect ep doc = Some i" "j < 3" "in_caps i ! j = Some (Some n)"
  shows "0 < n"
proof -
  obtain ms where "i = inspect_fields ep ms [] inspection_default" using assms(1) by (cases doc) auto
  then have "in_caps i = map (\<lambda>b. case by_bit ep ms b of None \<Rightarrow> None | Some v \<Rightarrow> Some (number v)) [4, 8, 16]"
    by (simp add: pass_caps inspection_default_def numeral_2_eq_2 split: option.split)
  with assms(2,3) show ?thesis using number_pos by (auto simp: less_Suc_eq numeral_3_eq_3 split: option.splits)
qed

lemma output_cap_positive:
  assumes "inspect ep doc = Some i" "output_cap ep (in_caps i) = Some (Inr (Some n))"
  shows "0 < n"
  using assms(2) caps_positive [OF assms(1), of 0 n] caps_positive [OF assms(1), of 1 n] caps_positive [OF assms(1), of 2 n]
  by (auto simp: output_cap_def bind_eq_Some_conv split: endpoint.splits if_splits)

lemma metered_cost_parts:
  assumes "metered_cost L ep i m limit body = Some (Inr cost)"
  obtains cap out inp where "output_cap ep (in_caps i) = Some (Inr cap)"
    "(if cap \<noteq> None then cap else model_max_output_tokens m) = Some out"
    "estimate L (model_input_estimator m) body (model_input_token_overhead m) = Some inp"
    "\<not> is_none_or (\<lambda>total. limit < total) (checked_add u64_max inp out)" "cost = Estimated inp out"
proof -
  have g: "\<not> in_multimodal i" "\<not> is_some_and (\<lambda>n. n \<noteq> Some 1) (in_n i)" "Some None \<notin> set (in_caps i)"
    using assms unfolding metered_cost_def by (auto split: if_splits)
  obtain r where r: "output_cap ep (in_caps i) = Some r"
    using assms g unfolding metered_cost_def by (cases "output_cap ep (in_caps i)") auto
  obtain cap where cap: "r = Inr cap" using assms g unfolding metered_cost_def r by (cases r) auto
  obtain out where out: "(if cap \<noteq> None then cap else model_max_output_tokens m) = Some out"
    using assms g unfolding metered_cost_def r cap
    by (cases "if cap \<noteq> None then cap else model_max_output_tokens m") auto
  obtain inp where inp: "estimate L (model_input_estimator m) body (model_input_token_overhead m) = Some inp"
    using assms g unfolding metered_cost_def r cap option.map sum.case out option.case
    by (cases "estimate L (model_input_estimator m) body (model_input_token_overhead m)") auto
  have "\<not> is_none_or (\<lambda>total. limit < total) (checked_add u64_max inp out) \<and> cost = Estimated inp out"
    using assms g unfolding metered_cost_def r cap option.map sum.case out option.case inp by (auto split: if_splits)
  with that r [unfolded cap] out inp show thesis by blast
qed

lemma metered_cost_ok: "metered_cost L ep i m limit body = Some (Inr cost) \<Longrightarrow> cost_ok cost"
  by (erule metered_cost_parts) (auto simp: checked_add_def split: if_splits)

lemma metered_cost_Inr:
  assumes "metered_cost L ep i m limit body = Some (Inr cost)" "inspect ep doc = Some i" "model_max_output_tokens m \<noteq> Some 0"
  shows "\<exists>inp out. cost = Estimated inp out \<and> inp + out \<le> limit \<and> inp + out \<le> u64_max \<and> 0 < out
    \<and> estimate L (model_input_estimator m) body (model_input_token_overhead m) = Some inp"
proof -
  obtain cap out inp where c: "output_cap ep (in_caps i) = Some (Inr cap)"
    "(if cap \<noteq> None then cap else model_max_output_tokens m) = Some out"
    "estimate L (model_input_estimator m) body (model_input_token_overhead m) = Some inp"
    "\<not> is_none_or (\<lambda>total. limit < total) (checked_add u64_max inp out)" "cost = Estimated inp out"
    using metered_cost_parts [OF assms(1)] .
  have "0 < out" using c(2) output_cap_positive [OF assms(2), of out] c(1) assms(3) by (auto split: if_splits)
  with c show ?thesis by (auto simp: checked_add_def split: if_splits)
qed

lemma result_Inr: "(case z of Inl code \<Rightarrow> Inl (f code) | Inr x \<Rightarrow> Inr (x, j)) = Inr (y, k) \<longleftrightarrow> z = Inr y \<and> j = k"
  by (cases z) auto

lemma inspect_body_accepts:
  assumes r: "inspect_body L walk c route body = Some (Inr (cost, k))" and ep: "dr_endpoint route \<noteq> Models"
  shows "\<exists>doc i name j. inspect (dr_endpoint route) doc = Some i
    \<and> name \<in> set (root_models (cfg_roots c ! dr_root_index route))
    \<and> position (\<lambda>m. model_id m = name) (cfg_models c) = Some j \<and> k = Some j
    \<and> (if dr_endpoint route = CountTokens then cost = Metadata else case quota_tpm (cfg_quota c) of
            Known limit \<Rightarrow> metered_cost L (dr_endpoint route) i (cfg_models c ! j) limit body = Some (Inr cost)
          | _ \<Rightarrow> cost = UnmeteredGeneration)"
proof -
  note def = inspect_body_def [of L walk c route body, unfolded Let_def] and simps = ep r
  obtain doc where doc: "(if valid_utf8 body then walk body else None) = Some doc"
    using r ep unfolding def by (cases "if valid_utf8 body then walk body else None") simp_all
  obtain i where i: "inspect (dr_endpoint route) doc = Some i"
    using r ep unfolding def doc by (cases "inspect (dr_endpoint route) doc") simp_all
  have f: "\<not> in_duplicate i" "\<not> (dr_endpoint route = Responses \<and> in_background i)"
    using r ep unfolding def doc option.case i by (auto split: if_splits)
  obtain name where n: "in_model i = Some name"
    using r ep f unfolding def doc option.case i by (cases "in_model i") auto
  have m: "\<not> length (cfg_roots c) \<le> dr_root_index route" "name \<in> set (root_models (cfg_roots c ! dr_root_index route))"
    using r ep f unfolding def doc option.case i n by (auto split: if_splits)
  obtain j where j: "position (\<lambda>m. model_id m = name) (cfg_models c) = Some j"
    using r ep f m unfolding def doc option.case i n by (cases "position (\<lambda>m. model_id m = name) (cfg_models c)") auto
  have "k = Some j \<and> (if dr_endpoint route = CountTokens then cost = Metadata else case quota_tpm (cfg_quota c) of
            Known limit \<Rightarrow> metered_cost L (dr_endpoint route) i (cfg_models c ! j) limit body = Some (Inr cost)
          | _ \<Rightarrow> cost = UnmeteredGeneration)"
    using r ep f m unfolding def doc option.case i n j
    by (auto simp: result_Inr split: if_splits limit.splits)
  with i m(2) j show ?thesis by blast
qed

text \<open>
  C18: a request the inspection accepts is one the quota can ever admit.  For a validated configuration
  and a ledger with its quota, the cost computed for an accepted body fits the token budget, so the
  ledger never refuses it for good; metered generations reserve the estimate of the input and a
  positive output bound, which together stay within the limit and within 64 bits; only listing
  models and counting tokens are free; and the model is one that the root may use.
\<close>

theorem accepted_cost_fits:
  assumes "config_ok c" "inspect_body L walk c route body = Some (Inr (cost, k))" "ledger_quota l = cfg_quota c"
  shows "total_fits l cost \<and> cost_ok cost \<and> (cost = Metadata \<longleftrightarrow> dr_endpoint route \<in> {Models, CountTokens})
    \<and> (\<forall>limit. quota_tpm (cfg_quota c) = Known limit \<and> cost \<noteq> Metadata \<longrightarrow>
         (\<exists>inp out. cost = Estimated inp out \<and> inp + out \<le> limit \<and> 0 < out))
    \<and> (dr_endpoint route \<noteq> Models \<longrightarrow>
         (\<exists>j. k = Some j \<and> j < length (cfg_models c)
           \<and> model_id (cfg_models c ! j) \<in> set (root_models (cfg_roots c ! dr_root_index route))))"
proof (cases "dr_endpoint route = Models")
  case True
  with assms(2,3) show ?thesis by (auto simp: inspect_body_def total_fits_def split: option.splits)
next
  case False
  let ?ep = "dr_endpoint route"
  from inspect_body_accepts [OF assms(2) False] obtain doc i name j where d: "inspect ?ep doc = Some i"
    "name \<in> set (root_models (cfg_roots c ! dr_root_index route))"
    "position (\<lambda>m. model_id m = name) (cfg_models c) = Some j" "k = Some j"
    and cost: "if ?ep = CountTokens then cost = Metadata else case quota_tpm (cfg_quota c) of
            Known limit \<Rightarrow> metered_cost L ?ep i (cfg_models c ! j) limit body = Some (Inr cost)
          | _ \<Rightarrow> cost = UnmeteredGeneration" by blast
  from position_Some [OF d(3)] have j: "j < length (cfg_models c)" "model_id (cfg_models c ! j) = name" by auto
  have m: "model_max_output_tokens (cfg_models c ! j) \<noteq> Some 0" using assms(1) j(1) by (auto simp: config_ok_def list_all_length)
  show ?thesis
  proof (cases "?ep = CountTokens")
    case True
    with cost d(2,4) j show ?thesis by (auto simp: total_fits_def split: option.splits)
  next
    case gen: False
    show ?thesis
    proof (cases "quota_tpm (cfg_quota c)")
      case (Known limit)
      with cost gen have "metered_cost L ?ep i (cfg_models c ! j) limit body = Some (Inr cost)" by simp
      from metered_cost_Inr [OF this d(1) m] cost gen False Known d(2,4) j assms(3) show ?thesis
        by (auto simp: total_fits_def)
    qed (use cost gen False d(2,4) j assms(3) in \<open>auto simp: total_fits_def\<close>)
  qed
qed

definition demo_metered_config :: config where
  "demo_metered_config = demo_config\<lparr>cfg_quota := \<lparr>quota_rpm = Known 2, quota_tpm = Known 100\<rparr>\<rparr>"

definition demo_walk :: "string \<Rightarrow> json option" where
  "demo_walk _ = Some (JObj [(''model'', JStr ''m''), (''max_tokens'', JPos 10), (''messages'', JArr [])])"

theorem accepted_cost_fits_witness:
  "inspect_body demo_config_libs demo_walk demo_metered_config \<lparr>dr_root_index = 0, dr_endpoint = Messages\<rparr> ''body''
     = Some (Inr (Estimated 4 10, Some 0))
   \<and> total_fits (the (ledger_new (cfg_quota demo_metered_config) Reserved 1 0 0)) (Estimated 4 10)"
proof -
  let ?l = "the (ledger_new (cfg_quota demo_metered_config) Reserved 1 0 0)"
  have "config_ok demo_config" using validated_ok [OF demo_config] by (simp add: input_ok_def demo_input_def rust_arith)
  then have c: "config_ok demo_metered_config" by (simp add: config_ok_def demo_metered_config_def rust_arith)
  have i: "inspect_body demo_config_libs demo_walk demo_metered_config \<lparr>dr_root_index = 0, dr_endpoint = Messages\<rparr> ''body''
     = Some (Inr (Estimated 4 10, Some 0))" by code_simp
  have "ledger_quota ?l = cfg_quota demo_metered_config" by (simp add: ledger_new_def)
  from accepted_cost_fits [OF c i this] i show ?thesis by blast
qed

end
