(* ===== verification/Body_Budget.thy ===== *)
theory Body_Budget
  imports Shared_Permits
begin

text \<open>
  The memory of request bodies, \<^verbatim>\<open>transport/body_budget.rs\<close>: bodies are read frame by frame, every byte
  is paid for with a permit before it is stored, and the permits return when the last clone of the
  body is gone.  The frames come from the connection; each operation of the system below is one
  frame, the end of a body, or a task that is cancelled, in any order.
\<close>

section \<open>Reading\<close>

definition TOTAL_STORED_LIMIT :: nat where "TOTAL_STORED_LIMIT = 32 * 1024 * 1024"
definition PER_REQUEST_LIMIT :: nat where "PER_REQUEST_LIMIT = 8 * 1024 * 1024"

datatype body_read_error = TooLarge | MemoryFull | ReadFailed

datatype body_frame = DataFrame string | OtherFrame | FrameError

record reader =
  rd_bytes :: string
  rd_permit :: "nat option"

definition reader_new :: reader where
  "reader_new = \<lparr>rd_bytes = [], rd_permit = None\<rparr>"

abbreviation held_permit :: "nat option \<Rightarrow> nat" where
  "held_permit p \<equiv> (case p of None \<Rightarrow> 0 | Some n \<Rightarrow> n)"

text \<open>One round of the loop of \<^verbatim>\<open>read\<close>; on an error the reader is dropped by the caller.\<close>

definition read_frame ::
  "body_frame \<Rightarrow> reader \<Rightarrow> string pool \<Rightarrow> (body_read_error + reader) \<times> string pool" where
  "read_frame f rd b =
     (case f of
        FrameError \<Rightarrow> (Inl ReadFailed, b)
      | OtherFrame \<Rightarrow> (Inr rd, b)
      | DataFrame d \<Rightarrow>
          (case checked_add u64_max (length (rd_bytes rd)) (length d) of
             None \<Rightarrow> (Inl TooLarge, b)
           | Some next_length \<Rightarrow>
               if PER_REQUEST_LIMIT < next_length then (Inl TooLarge, b)
               else if u32_max < length d then (Inl TooLarge, b)
               else if 0 < length d then
                 (case pool_acquire (length d) b of
                    None \<Rightarrow> (Inl MemoryFull, b)
                  | Some b' \<Rightarrow>
                      (Inr (rd\<lparr>rd_bytes := rd_bytes rd @ d,
                               rd_permit := (case rd_permit rd of Some n \<Rightarrow> Some (n + length d) | None \<Rightarrow> Some (length d))\<rparr>), b'))
               else (Inr (rd\<lparr>rd_bytes := rd_bytes rd @ d\<rparr>), b)))"

definition reader_drop :: "reader \<Rightarrow> string pool \<Rightarrow> string pool" where
  "reader_drop rd b = (case rd_permit rd of None \<Rightarrow> b | Some n \<Rightarrow> pool_release n b)"

text \<open>\<^verbatim>\<open>guarded_bytes\<close>: the finished body owns the permits of the reader.\<close>

definition guarded_bytes :: "reader \<Rightarrow> string pool \<Rightarrow> nat \<times> string pool" where
  "guarded_bytes rd b = arc_new (held_permit (rd_permit rd)) (rd_bytes rd) b"

definition stored_bytes :: "string pool \<Rightarrow> nat" where
  "stored_bytes b = TOTAL_STORED_LIMIT - p_avail b"

section \<open>Bodies in flight\<close>

record body_system =
  b_pool :: "string pool"
  b_readers :: "reader list"
  b_bodies :: "nat list"

datatype body_op = BStart | BFrame body_frame nat | BEnd nat | BCancel nat | BClone nat | BDrop nat

definition body_system_new :: body_system where
  "body_system_new = \<lparr>b_pool = pool_new TOTAL_STORED_LIMIT, b_readers = [], b_bodies = []\<rparr>"

fun body_exec :: "body_system \<Rightarrow> body_op \<Rightarrow> body_system" where
  "body_exec s BStart = s\<lparr>b_readers := b_readers s @ [reader_new]\<rparr>"
| "body_exec s (BFrame f n) =
     (if n < length (b_readers s) then
        (case read_frame f (b_readers s ! n) (b_pool s) of
           (Inr rd, b) \<Rightarrow> s\<lparr>b_pool := b, b_readers := (b_readers s)[n := rd]\<rparr>
         | (Inl _, b) \<Rightarrow> s\<lparr>b_pool := reader_drop (b_readers s ! n) b, b_readers := remove_at n (b_readers s)\<rparr>)
      else s)"
| "body_exec s (BEnd n) =
     (if n < length (b_readers s) then
        (let (a, b) = guarded_bytes (b_readers s ! n) (b_pool s)
         in s\<lparr>b_pool := b, b_readers := remove_at n (b_readers s), b_bodies := a # b_bodies s\<rparr>)
      else s)"
| "body_exec s (BCancel n) =
     (if n < length (b_readers s) then
        s\<lparr>b_pool := reader_drop (b_readers s ! n) (b_pool s), b_readers := remove_at n (b_readers s)\<rparr>
      else s)"
| "body_exec s (BClone n) =
     (if n < length (b_bodies s)
      then s\<lparr>b_pool := arc_clone (b_bodies s ! n) (b_pool s), b_bodies := (b_bodies s ! n) # b_bodies s\<rparr> else s)"
| "body_exec s (BDrop n) =
     (if n < length (b_bodies s)
      then s\<lparr>b_pool := arc_drop (b_bodies s ! n) (b_pool s), b_bodies := remove_at n (b_bodies s)\<rparr> else s)"

section \<open>The invariant\<close>

definition reader_ok :: "reader \<Rightarrow> bool" where
  "reader_ok rd = (held_permit (rd_permit rd) = length (rd_bytes rd) \<and> length (rd_bytes rd) \<le> PER_REQUEST_LIMIT)"

definition body_inv :: "body_system \<Rightarrow> bool" where
  "body_inv s =
     (pool_ok TOTAL_STORED_LIMIT (\<Sum>rd\<leftarrow>b_readers s. length (rd_bytes rd)) (mset (b_bodies s)) (b_pool s)
      \<and> list_all reader_ok (b_readers s)
      \<and> list_all (\<lambda>(_, sh). sh_permit sh = length (sh_value sh) \<and> length (sh_value sh) \<le> PER_REQUEST_LIMIT) (p_arcs (b_pool s)))"

text \<open>The sized values of the pool stay as they are.\<close>

abbreviation (input) bodies_ok :: "string pool \<Rightarrow> bool" where
  "bodies_ok b \<equiv> list_all (\<lambda>(_, sh). sh_permit sh = length (sh_value sh) \<and> length (sh_value sh) \<le> PER_REQUEST_LIMIT) (p_arcs b)"

lemma bodies_ok_ops:
  "bodies_ok b \<Longrightarrow> bodies_ok (arc_clone a b)" "bodies_ok b \<Longrightarrow> bodies_ok (arc_drop a b)"
  "bodies_ok (pool_release n b) = bodies_ok b" "pool_acquire n b = Some b' \<Longrightarrow> bodies_ok b' = bodies_ok b"
  by (auto simp: arc_clone_def arc_drop_def pool_release_def pool_acquire_def set_count_def list_all_iff
      split: option.splits if_splits)

lemma reader_drop_ok:
  assumes "reader_ok rd" "pool_ok T (h + length (rd_bytes rd)) R b"
  shows "pool_ok T h R (reader_drop rd b)" "bodies_ok (reader_drop rd b) = bodies_ok b"
  using assms budget.release_ok [of T h "length (rd_bytes rd)" R b]
  by (auto simp: reader_drop_def reader_ok_def bodies_ok_ops(3) split: option.splits)

lemma read_frame_ok:
  assumes "reader_ok rd" "pool_ok T (h + length (rd_bytes rd)) R b" "read_frame f rd b = (r, b')"
  shows "case r of
      Inl _ \<Rightarrow> b' = b
    | Inr rd' \<Rightarrow> reader_ok rd' \<and> pool_ok T (h + length (rd_bytes rd')) R b' \<and> bodies_ok b' = bodies_ok b
        \<and> rd_bytes rd' = rd_bytes rd @ (case f of DataFrame d \<Rightarrow> d | _ \<Rightarrow> [])"
proof (cases f)
  case (DataFrame d)
  show ?thesis
  proof (cases "pool_acquire (length d) b")
    case None
    with assms DataFrame show ?thesis
      by (auto simp: read_frame_def reader_ok_def checked_add_def split: if_splits)
  next
    case (Some b1)
    from budget.acquire_ok [OF assms(2) Some] bodies_ok_ops(4) [OF Some] assms DataFrame Some show ?thesis
      by (auto simp: read_frame_def reader_ok_def checked_add_def add.assoc split: if_splits option.splits)
  qed
qed (use assms in \<open>auto simp: read_frame_def\<close>)

lemma reader_at:
  assumes "n < length xs"
  shows "(\<Sum>rd\<leftarrow>xs. f rd) = (\<Sum>rd\<leftarrow>remove_at n xs. f rd) + f (xs ! n)"
    "(\<Sum>rd\<leftarrow>xs[n := y]. f rd) = (\<Sum>rd\<leftarrow>remove_at n xs. f rd) + (f y :: nat)"
    "list_all P xs = (P (xs ! n) \<and> list_all P (remove_at n xs))" "list_all P (xs[n := y]) = (P y \<and> list_all P (remove_at n xs))"
proof -
  obtain X Y where d: "xs = X @ xs ! n # Y" "remove_at n xs = X @ Y" "xs[n := y] = X @ y # Y"
    using nth_decomp [OF assms] by metis
  show "(\<Sum>rd\<leftarrow>xs. f rd) = (\<Sum>rd\<leftarrow>remove_at n xs. f rd) + f (xs ! n)" by (subst d(1)) (simp add: d(2))
  show "list_all P xs = (P (xs ! n) \<and> list_all P (remove_at n xs))" by (subst d(1)) (auto simp: d(2))
  show "(\<Sum>rd\<leftarrow>xs[n := y]. f rd) = (\<Sum>rd\<leftarrow>remove_at n xs. f rd) + f y" "list_all P (xs[n := y]) = (P y \<and> list_all P (remove_at n xs))"
    by (auto simp: d(2,3))
qed

lemma body_exec_inv:
  assumes inv: "body_inv s"
  shows "body_inv (body_exec s x)"
proof -
  let ?h = "\<lambda>n. \<Sum>rd\<leftarrow>remove_at n (b_readers s). length (rd_bytes rd)"
  have at: "pool_ok TOTAL_STORED_LIMIT (?h n + length (rd_bytes (b_readers s ! n))) (mset (b_bodies s)) (b_pool s)"
    "reader_ok (b_readers s ! n)" "list_all reader_ok (remove_at n (b_readers s))" if "n < length (b_readers s)" for n
    using inv reader_at [OF that] by (simp_all add: body_inv_def)
  have bo: "bodies_ok (b_pool s)" using inv by (simp add: body_inv_def)
  show ?thesis
  proof (cases x)
    case BStart
    with inv show ?thesis by (simp add: body_inv_def reader_new_def reader_ok_def)
  next
    case (BFrame f n)
    show ?thesis
    proof (cases "n < length (b_readers s)")
      case True
      obtain r b where r: "read_frame f (b_readers s ! n) (b_pool s) = (r, b)" by (cases "read_frame f (b_readers s ! n) (b_pool s)")
      from read_frame_ok [OF at(2,1) [OF True] r] reader_drop_ok [OF at(2,1) [OF True]] at(3) [OF True] reader_at [OF True] bo
      show ?thesis by (cases r) (auto simp: BFrame True r body_inv_def)
    qed (use BFrame inv in simp)
  next
    case (BEnd n)
    show ?thesis
    proof (cases "n < length (b_readers s)")
      case True
      obtain a b where g: "guarded_bytes (b_readers s ! n) (b_pool s) = (a, b)" by (cases "guarded_bytes (b_readers s ! n) (b_pool s)")
      then have nw: "arc_new (length (rd_bytes (b_readers s ! n))) (rd_bytes (b_readers s ! n)) (b_pool s) = (a, b)"
        using at(2) [OF True] by (simp add: guarded_bytes_def reader_ok_def)
      have "bodies_ok b" using nw bo at(2) [OF True] by (auto simp: arc_new_def reader_ok_def)
      with budget.new_ok [OF at(1) [OF True] nw] at(3) [OF True] show ?thesis by (simp add: BEnd True g body_inv_def)
    qed (use BEnd inv in simp)
  next
    case (BCancel n)
    with reader_drop_ok [OF at(2,1)] at(3) bo inv show ?thesis by (simp add: body_inv_def)
  next
    case (BClone n)
    with inv budget.clone_ok [of TOTAL_STORED_LIMIT _ "mset (b_bodies s)" "b_pool s" "b_bodies s ! n"] bodies_ok_ops(1) show ?thesis
      by (simp add: body_inv_def)
  next
    case (BDrop n)
    show ?thesis
    proof (cases "n < length (b_bodies s)")
      case True
      have "mset (b_bodies s) = add_mset (b_bodies s ! n) (mset (remove_at n (b_bodies s)))"
        using mset_remove_at [OF True] nth_mem [OF True] by simp
      with inv budget.discard_ok [of TOTAL_STORED_LIMIT _ "b_bodies s ! n" "mset (remove_at n (b_bodies s))" "b_pool s"] bodies_ok_ops(2)
      show ?thesis by (simp add: BDrop True body_inv_def)
    qed (use BDrop inv in simp)
  qed
qed

interpretation bodies: guarded_system body_exec "\<lambda>_. True" body_inv
  by unfold_locales (rule body_exec_inv)

lemma body_new_inv: "body_inv body_system_new"
  using pool_ok_new [of TOTAL_STORED_LIMIT] by (simp add: body_inv_def body_system_new_def pool_new_def)

text \<open>
  C36: request bodies never take more than their budget.  After any sequence of frames, ends,
  cancellations, clones and drops of any number of bodies, the bytes read so far and the bytes of all
  live bodies plus the free permits are exactly the budget of thirty-two mebibytes, so the figure
  reported as stored is exact; no body is longer than eight mebibytes; every live body can be read; and
  when all readers and bodies are gone the whole budget is free again.
\<close>

theorem body_budget_exact:
  assumes "s = foldl body_exec body_system_new xs"
  shows "p_avail (b_pool s) + (\<Sum>rd\<leftarrow>b_readers s. length (rd_bytes rd))
      + (\<Sum>(_, sh)\<leftarrow>p_arcs (b_pool s). length (sh_value sh)) = TOTAL_STORED_LIMIT
    \<and> stored_bytes (b_pool s) = (\<Sum>rd\<leftarrow>b_readers s. length (rd_bytes rd))
      + (\<Sum>(_, sh)\<leftarrow>p_arcs (b_pool s). length (sh_value sh))
    \<and> (\<forall>rd\<in>set (b_readers s). length (rd_bytes rd) \<le> PER_REQUEST_LIMIT)
    \<and> (\<forall>a\<in>set (b_bodies s). \<exists>v. arc_get a (b_pool s) = Some v \<and> length v \<le> PER_REQUEST_LIMIT)
    \<and> (b_readers s = [] \<and> b_bodies s = [] \<longrightarrow> p_avail (b_pool s) = TOTAL_STORED_LIMIT)"
proof -
  have inv: "body_inv s" unfolding assms by (rule bodies.run_inv [OF body_new_inv]) (simp add: list_all_iff)
  then have ok: "pool_ok TOTAL_STORED_LIMIT (\<Sum>rd\<leftarrow>b_readers s. length (rd_bytes rd)) (mset (b_bodies s)) (b_pool s)"
    and bo: "bodies_ok (b_pool s)" and rd: "list_all reader_ok (b_readers s)" by (auto simp: body_inv_def)
  have p: "permits (p_arcs (b_pool s)) = (\<Sum>(_, sh)\<leftarrow>p_arcs (b_pool s). length (sh_value sh))"
    unfolding permits_def by (rule arg_cong [of _ _ sum_list], rule map_cong) (use bo in \<open>auto simp: list_all_iff\<close>)
  have v: "\<exists>v. arc_get a (b_pool s) = Some v \<and> length v \<le> PER_REQUEST_LIMIT" if "a \<in> set (b_bodies s)" for a
  proof -
    from pool_ok_ref [OF ok, of a] that obtain sh where sh: "map_of (p_arcs (b_pool s)) a = Some sh" by auto
    with bo map_of_SomeD [OF sh] show ?thesis by (auto simp: arc_get_def list_all_iff)
  qed
  have e: "p_avail (b_pool s) = TOTAL_STORED_LIMIT" if "b_readers s = []" "b_bodies s = []"
    using pool_all_returned [of TOTAL_STORED_LIMIT "b_pool s"] ok that by simp
  from ok p have sum: "p_avail (b_pool s) + (\<Sum>rd\<leftarrow>b_readers s. length (rd_bytes rd))
      + (\<Sum>(_, sh)\<leftarrow>p_arcs (b_pool s). length (sh_value sh)) = TOTAL_STORED_LIMIT" by (simp add: pool_ok_def)
  with v e rd show ?thesis by (auto simp: stored_bytes_def list_all_iff reader_ok_def)
qed

definition demo_bodies :: "body_op list" where
  "demo_bodies = [BStart, BFrame (DataFrame ''ab'') 0, BFrame OtherFrame 0, BStart, BFrame (DataFrame ''c'') 1, BEnd 0, BClone 0]"

theorem body_budget_exact_witness:
  "stored_bytes (b_pool (foldl body_exec body_system_new demo_bodies)) = 3
   \<and> p_avail (b_pool (foldl body_exec body_system_new (demo_bodies @ [BDrop 0, BDrop 0, BCancel 0]))) = TOTAL_STORED_LIMIT"
proof -
  have "stored_bytes (b_pool (foldl body_exec body_system_new demo_bodies)) = 3" by code_simp
  moreover have "b_readers (foldl body_exec body_system_new (demo_bodies @ [BDrop 0, BDrop 0, BCancel 0])) = []"
    "b_bodies (foldl body_exec body_system_new (demo_bodies @ [BDrop 0, BDrop 0, BCancel 0])) = []" by code_simp+
  ultimately show ?thesis using body_budget_exact [OF refl, of "demo_bodies @ [BDrop 0, BDrop 0, BCancel 0]"] by simp
qed

end
