(* ===== verification/Request_Routing.thy ===== *)
theory Request_Routing
  imports Request_Inspection Transport_Headers Body_Budget
begin

text \<open>
  The way of a request before its body is read: routing and the upstream URL of \<^verbatim>\<open>protocol/mod.rs\<close>, the
  control interface of \<^verbatim>\<open>control.rs\<close>, and the checks at the start of \<^verbatim>\<open>handle_request\<close> with the secrets and
  start-up checks of \<^verbatim>\<open>server.rs\<close>.

  Of the \<^verbatim>\<open>url\<close> crate the two setters and the keys of an encoded query are the fields of \<open>url_libs\<close>.
  A method is its name, a response its status and body.
\<close>

section \<open>Routes\<close>

definition expected_path :: "root \<Rightarrow> endpoint \<Rightarrow> string" where
  "expected_path r ep = ''/r/'' @ root_id r @ ''/v1/'' @ endpoint_path ep"

definition method_matches :: "http_method \<Rightarrow> string \<Rightarrow> bool" where
  "method_matches configured actual =
     ((configured = Get \<and> actual = ''GET'') \<or> (configured = Post \<and> actual = ''POST''))"

fun route_from :: "nat \<Rightarrow> root list \<Rightarrow> string \<Rightarrow> string \<Rightarrow> protocol_error + data_route" where
  "route_from i [] method path = Inl (reject 404 ''route_not_found'')"
| "route_from i (r # rs) method path =
     (case List.find (\<lambda>ep. path = expected_path r ep) (root_endpoints r) of
        Some ep \<Rightarrow>
          if method_matches (endpoint_method ep) method then Inr \<lparr>dr_root_index = i, dr_endpoint = ep\<rparr>
          else Inl (reject 405 ''method_not_allowed'')
      | None \<Rightarrow> route_from (Suc i) rs method path)"

definition route :: "config \<Rightarrow> string \<Rightarrow> string \<Rightarrow> protocol_error + data_route" where
  "route config method path = route_from 0 (cfg_roots config) method path"

section \<open>The upstream URL\<close>

record url_libs =
  ul_set_path :: "string \<Rightarrow> url \<Rightarrow> url"
  ul_set_query :: "string option \<Rightarrow> url \<Rightarrow> url"
  ul_form_keys :: "string \<Rightarrow> string list"

definition queries_conflict :: "url_libs \<Rightarrow> string option \<Rightarrow> string option \<Rightarrow> bool" where
  "queries_conflict U base request =
     (case (base, request) of
        (Some b, Some r) \<Rightarrow> list_ex (\<lambda>k. k \<in> set (ul_form_keys U b)) (ul_form_keys U r)
      | _ \<Rightarrow> False)"

definition compose_query :: "string option \<Rightarrow> string option \<Rightarrow> protocol_error + string option" where
  "compose_query base request =
     (if base = Some [] \<or> request = Some [] then Inl (reject 400 ''unsupported_query_encoding'')
      else Inr (case (base, request) of
        (Some b, Some r) \<Rightarrow> Some (b @ ''&'' @ r)
      | (Some b, None) \<Rightarrow> Some b
      | (None, Some r) \<Rightarrow> Some r
      | (None, None) \<Rightarrow> None))"

definition raw_query :: "string \<Rightarrow> string option" where
  "raw_query v = map_option snd (split_once (CHR ''?'') v)"

definition trim_end_slashes :: "string \<Rightarrow> string" where
  "trim_end_slashes s = rev (dropWhile (\<lambda>c. c = CHR ''/'') (rev s))"

definition upstream_url ::
  "url_libs \<Rightarrow> url \<Rightarrow> data_route \<Rightarrow> string option \<Rightarrow> protocol_error + url" where
  "upstream_url U api_base r request_query =
     (if queries_conflict U (url_query api_base) request_query then Inl (reject 400 ''query_conflict'')
      else case compose_query (url_query api_base) request_query of
        Inl e \<Rightarrow> Inl e
      | Inr composed \<Rightarrow>
          let path = trim_end_slashes (url_path api_base) @ ''/'' @ endpoint_path (dr_endpoint r);
              u = ul_set_query U composed (ul_set_path U path api_base)
          in if url_query u \<noteq> composed \<or> raw_query (url_text u) \<noteq> composed
             then Inl (reject 400 ''unsupported_query_encoding'') else Inr u)"

section \<open>Error responses\<close>

type_synonym response = "nat \<times> string"

definition error_message :: "string \<Rightarrow> string option" where
  "error_message code =
     map_of
       [(''output_bound_required'',
           ''Known TPM requires a positive request output cap or configured model max_output_tokens.''),
        (''invalid_output_bound'',
           ''The inspected output cap must be a positive integer; null, zero, fractional and malformed values are unsupported.''),
        (''ambiguous_output_bound'', ''Use exactly one Chat output cap: max_completion_tokens or max_tokens.''),
        (''unsupported_output_bound_field'',
           ''Use max_tokens for Messages, max_output_tokens for Responses, or one of max_tokens and max_completion_tokens for Chat.''),
        (''unsupported_multimodal_estimate'',
           ''Known TPM supports the documented text input forms only. Media or unsupported content cannot be estimated; TPM unknown leaves TPM unenforced.''),
        (''unsupported_generation_count'', ''Known TPM supports one Chat generation per request; omit n or set n to 1.''),
        (''estimate_exceeds_budget'',
           ''The configured JSON input estimate plus output reservation exceeds the configured local TPM budget. This is an estimate, not an actual token count.'')]
       code"

abbreviation (input) dq :: string where
  "dq \<equiv> [CHR 0x22]"

definition error_response :: "nat \<Rightarrow> string \<Rightarrow> response" where
  "error_response status code =
     (status,
      case error_message code of
        Some message \<Rightarrow>
          ''{'' @ dq @ ''error'' @ dq @ '':{'' @ dq @ ''code'' @ dq @ '':'' @ dq @ code @ dq @ '','' @ dq @ ''message'' @ dq @ '':''
          @ dq @ message @ dq @ ''}}''
      | None \<Rightarrow> ''{'' @ dq @ ''error'' @ dq @ '':{'' @ dq @ ''code'' @ dq @ '':'' @ dq @ code @ dq @ ''}}'')"

definition into_response :: "protocol_error \<Rightarrow> response" where
  "into_response e = error_response (fst e) (snd e)"

section \<open>Secrets\<close>

text \<open>
  \<^verbatim>\<open>constant_time_equal\<close>: the accumulated difference is the bitwise union of the differences of the
  lengths and of all bytes, a missing byte counting as zero.
\<close>

unbundle bit_operations_syntax

definition byte_at :: "string \<Rightarrow> nat \<Rightarrow> nat" where
  "byte_at s i = (if i < length s then byte_of (s ! i) else 0)"

definition constant_time_equal :: "string \<Rightarrow> string \<Rightarrow> bool" where
  "constant_time_equal expected actual =
     (foldl (\<lambda>d i. d OR (byte_at expected i XOR byte_at actual i)) (length expected XOR length actual)
        [0..<max (length expected) (length actual)] = 0)"

definition matches_header :: "string \<Rightarrow> header_map \<Rightarrow> string \<Rightarrow> bool" where
  "matches_header secret h name =
     (case h name of [] \<Rightarrow> False | value # rest \<Rightarrow> constant_time_equal secret value \<and> rest = [])"

text \<open>The errors of the checks before the start; those of I/O have no place here.\<close>

datatype start_error =
    NonLoopbackListen | InvalidConcurrency | InvalidRoots | InvalidCredential string | InvalidStartupHold | InvalidCache
  | UnavailableInputEstimator input_estimator | MissingEnvironmentCredential | UnexpectedEnvironmentCredential
  | ReservedAuthenticationHeader

definition secret_new :: "header_libs \<Rightarrow> string \<Rightarrow> string \<Rightarrow> start_error + string" where
  "secret_new H value label =
     (if value = [] \<or> lib_header_value H value = None then Inl (InvalidCredential label) else Inr value)"

definition validate_for :: "string option \<Rightarrow> auth \<Rightarrow> start_error + unit" where
  "validate_for upstream_token a =
     (case a of
        Env header _ \<Rightarrow>
          if is_reserved_auth_target header then Inl ReservedAuthenticationHeader
          else if upstream_token = None then Inl MissingEnvironmentCredential else Inr ()
      | _ \<Rightarrow> if upstream_token \<noteq> None then Inl UnexpectedEnvironmentCredential else Inr ())"

definition validate_start_config :: "config_libs \<Rightarrow> config \<Rightarrow> start_error + unit" where
  "validate_start_config L c =
     (if \<not> is_loopback (fst (cfg_listen c)) then Inl NonLoopbackListen
      else if is_some_and (\<lambda>cache. \<not> cache_is_valid cache) (cfg_cache c) then Inl InvalidCache
      else if 3600 < cfg_startup_hold_secs c then Inl InvalidStartupHold
      else if \<not> (1 \<le> cfg_concurrency c \<and> cfg_concurrency c \<le> 16) then Inl InvalidConcurrency
      else if registered_root_ids (cfg_roots c) \<noteq> Inr () then Inl InvalidRoots
      else case List.find (\<lambda>m. \<not> is_available L (model_input_estimator m)) (cfg_models c) of
        Some m \<Rightarrow> Inl (UnavailableInputEstimator (model_input_estimator m))
      | None \<Rightarrow> Inr ())"

section \<open>The control interface\<close>

text \<open>The response, and whether the gateway is told to stop.\<close>

definition control_handle ::
  "string \<Rightarrow> string \<Rightarrow> header_map \<Rightarrow> bool \<Rightarrow> string option \<Rightarrow> string \<Rightarrow> response \<times> bool" where
  "control_handle method path h authenticated instance_nonce status_json =
     (let nonces = h ''x-llmgw-instance-nonce'' in
      if contains_key h ''origin'' then (error_response 403 ''control_origin_forbidden'', False)
      else if \<not> authenticated then (error_response 401 ''invalid_control_token'', False)
      else if path = ''/_llmgw/stop'' \<and> contains_key h ''x-llmgw-instance-nonce''
              \<and> (\<not> is_some_and (\<lambda>expected. case nonces of [] \<Rightarrow> False | value # _ \<Rightarrow> value = expected) instance_nonce
                 \<or> tl nonces \<noteq> [])
      then (error_response 409 ''instance_changed'', False)
      else if method = ''GET'' \<and> path \<in> {''/_llmgw/health'', ''/_llmgw/status''} then ((200, status_json), False)
      else if method = ''POST'' \<and> path = ''/_llmgw/stop''
      then ((200, ''{'' @ dq @ ''status'' @ dq @ '':'' @ dq @ ''stopping'' @ dq @ ''}''), True)
      else (error_response 404 ''control_route_not_found'', False))"

section \<open>The start of a request\<close>

record request_head =
  rh_method :: string
  rh_path :: string
  rh_query :: "string option"
  rh_headers :: hmap

record front =
  fr_config :: config
  fr_control_token :: string
  fr_nonce :: "string option"
  fr_stopping :: bool
  fr_status_json :: string

record front_libs =
  fl_http :: http_libs
  fl_header :: header_libs
  fl_url :: url_libs

definition HEADER_BYTES :: nat where "HEADER_BYTES = 32 * 1024"

datatype head_outcome = Respond response | Control response bool | ReadBody data_route url

definition starts_with :: "string \<Rightarrow> string \<Rightarrow> bool" where
  "starts_with p s = (take (length p) s = p)"

text \<open>\<^verbatim>\<open>handle_request\<close> up to reading the body.\<close>

definition handle_head :: "front_libs \<Rightarrow> front \<Rightarrow> request_head \<Rightarrow> head_outcome" where
  "handle_head F st q =
     (let h = get_all (rh_headers q); L = fl_http F in
      if HEADER_BYTES < stored_size (rh_headers q) then Respond (error_response 431 ''headers_too_large'')
      else if starts_with ''/_llmgw/'' (rh_path q) then
        (let (r, stop) = control_handle (rh_method q) (rh_path q) h
                           (matches_header (fr_control_token st) h CONTROL_TOKEN_HEADER) (fr_nonce st) (fr_status_json st)
         in Control r stop)
      else if fr_stopping st then Respond (error_response 503 ''gateway_stopping'')
      else case route (fr_config st) (rh_method q) (rh_path q) of
        Inl e \<Rightarrow> Respond (into_response e)
      | Inr r \<Rightarrow>
          (case validate_local_request L (fl_header F) h (rh_method q) (snd (cfg_listen (fr_config st))) of
             Inl (status, code) \<Rightarrow> Respond (error_response status code)
           | Inr () \<Rightarrow>
               if requests_upgrade L h then Respond (error_response 400 ''unsupported_upgrade'')
               else case upstream_url (fl_url F) (up_api_base (cfg_upstream (fr_config st))) r (rh_query q) of
                 Inl e \<Rightarrow> Respond (into_response e)
               | Inr u \<Rightarrow>
                   if is_some_and (\<lambda>n. PER_REQUEST_LIMIT < n)
                        (Option.bind (first_value L (h ''content-length'')) parse_u64)
                   then Respond (error_response 413 ''body_too_large'')
                   else ReadBody r u))"

end
