(* ===== verification/Front_Contract.thy ===== *)
theory Front_Contract
  imports Request_Routing
begin

text \<open>
  What the gateway promises about requests before it reads their bodies: a path leads to one root and
  endpoint only, only the holder of the control token can stop the gateway, and only local,
  non-browser requests reach the upstream.
\<close>

section \<open>Comparing secrets\<close>

lemma xor_zero_iff: "(a XOR b = 0) = (a = b)" for a b :: nat
  by (auto simp: bit_eq_iff bit_xor_iff)

lemma foldl_or_zero: "(foldl (\<lambda>d i. d OR f i) d is = 0) = (d = 0 \<and> (\<forall>i\<in>set is. f i = 0))" for d :: nat
  by (induction "is" arbitrary: d) (auto simp: or_eq_0_iff)

lemma byte_of_inj: "byte_of c = byte_of d \<longleftrightarrow> c = d"
  by (simp add: byte_of_def)

lemma constant_time_equal_iff: "constant_time_equal a b = (a = b)"
proof -
  have "constant_time_equal a b = (length a = length b \<and> (\<forall>i<max (length a) (length b). byte_at a i = byte_at b i))"
    by (auto simp: constant_time_equal_def foldl_or_zero xor_zero_iff)
  also have "\<dots> = (a = b)" by (auto simp: byte_at_def byte_of_inj intro!: nth_equalityI)
  finally show ?thesis .
qed

lemma matches_header_iff: "matches_header s h name = (h name = [s])"
  by (auto simp: matches_header_def constant_time_equal_iff split: list.splits)

section \<open>Routes\<close>

lemma root_id_no_slash:
  assumes "validate_root_id i = Inr ()"
  shows "CHR ''/'' \<notin> set i"
proof -
  have s: "\<not> is_ascii_alphanumeric (CHR ''/'')" by code_simp
  from assms obtain c cs where "i = c # cs" "is_ascii_alphanumeric c"
    "list_all (\<lambda>c. is_ascii_alphanumeric c \<or> c = CHR ''-'' \<or> c = CHR ''_'') cs"
    by (cases i) (auto simp: validate_root_id_def Let_def split: if_splits)
  with s show ?thesis by (auto simp: list_all_iff)
qed

lemma endpoint_path_inj: "endpoint_path a = endpoint_path b \<Longrightarrow> a = b"
  by (cases a; cases b) simp_all

lemma expected_path_inj:
  assumes "expected_path r a = expected_path s b" "CHR ''/'' \<notin> set (root_id r)" "CHR ''/'' \<notin> set (root_id s)"
  shows "root_id r = root_id s" "a = b"
proof -
  have e: "root_id r @ ''/v1/'' @ endpoint_path a = root_id s @ ''/v1/'' @ endpoint_path b"
    using assms(1) by (simp add: expected_path_def)
  have t: "takeWhile (\<lambda>c. c \<noteq> CHR ''/'') (x @ ''/v1/'' @ y) = x" if "CHR ''/'' \<notin> set x" for x y
    using that by (simp add: takeWhile_append2 [where P = "\<lambda>c. c \<noteq> CHR ''/''"] takeWhile_append)
  show r: "root_id r = root_id s" using arg_cong [OF e, of "takeWhile (\<lambda>c. c \<noteq> CHR ''/'')"] 
    unfolding t [OF assms(2)] t [OF assms(3)] .
  show "a = b" using e r by (auto intro: endpoint_path_inj)
qed

text \<open>Where the search ends.\<close>

lemma route_from_cases:
  "(\<forall>r\<in>set rs. \<forall>ep\<in>set (root_endpoints r). path \<noteq> expected_path r ep) \<and> route_from i rs m path = Inl (reject 404 ''route_not_found'')
   \<or> (\<exists>j ep. j < length rs \<and> ep \<in> set (root_endpoints (rs ! j)) \<and> path = expected_path (rs ! j) ep
        \<and> route_from i rs m path = (if method_matches (endpoint_method ep) m then Inr \<lparr>dr_root_index = i + j, dr_endpoint = ep\<rparr>
            else Inl (reject 405 ''method_not_allowed'')))"
proof (induction rs arbitrary: i)
  case (Cons r rs)
  show ?case
  proof (cases "List.find (\<lambda>ep. path = expected_path r ep) (root_endpoints r)")
    case None
    then have n: "\<forall>ep\<in>set (root_endpoints r). path \<noteq> expected_path r ep" by (auto simp: find_None_iff)
    from Cons.IH [of "Suc i"] show ?thesis
    proof
      assume "(\<forall>r\<in>set rs. \<forall>ep\<in>set (root_endpoints r). path \<noteq> expected_path r ep)
        \<and> route_from (Suc i) rs m path = Inl (reject 404 ''route_not_found'')"
      with n None show ?thesis by simp
    next
      assume "\<exists>j ep. j < length rs \<and> ep \<in> set (root_endpoints (rs ! j)) \<and> path = expected_path (rs ! j) ep
        \<and> route_from (Suc i) rs m path = (if method_matches (endpoint_method ep) m then Inr \<lparr>dr_root_index = Suc i + j, dr_endpoint = ep\<rparr>
            else Inl (reject 405 ''method_not_allowed''))"
      then obtain j ep where j: "j < length rs" "ep \<in> set (root_endpoints (rs ! j))" "path = expected_path (rs ! j) ep"
        "route_from (Suc i) rs m path = (if method_matches (endpoint_method ep) m then Inr \<lparr>dr_root_index = Suc i + j, dr_endpoint = ep\<rparr>
            else Inl (reject 405 ''method_not_allowed''))" by blast
      show ?thesis by (rule disjI2, rule exI [of _ "Suc j"], rule exI [of _ ep]) (use j None in simp)
    qed
  next
    case (Some ep)
    then have "ep \<in> set (root_endpoints r)" "path = expected_path r ep" by (auto simp: find_Some_iff)
    with Some show ?thesis by (intro disjI2 exI [of _ 0] exI [of _ ep]) simp
  qed
qed simp

text \<open>
  C32: routing is exact.  With a validated configuration a request is routed to a root and endpoint if
  and only if its path is the path of that root and endpoint, the root offers the endpoint and the
  method is the one of the endpoint; no other root can claim the path.  A known path with another
  method is answered with status 405, any other path with 404.
\<close>

theorem route_exact:
  assumes "config_ok c"
  shows "(route c m path = Inr r \<longleftrightarrow>
      dr_root_index r < length (cfg_roots c) \<and> dr_endpoint r \<in> set (root_endpoints (cfg_roots c ! dr_root_index r))
      \<and> path = expected_path (cfg_roots c ! dr_root_index r) (dr_endpoint r) \<and> method_matches (endpoint_method (dr_endpoint r)) m)
    \<and> (\<forall>e. route c m path = Inl e \<longrightarrow>
        (if \<exists>r\<in>set (cfg_roots c). \<exists>ep\<in>set (root_endpoints r). path = expected_path r ep then fst e = 405 else fst e = 404))"
proof -
  let ?rs = "cfg_roots c"
  have ids: "CHR ''/'' \<notin> set (root_id (?rs ! j))" if "j < length ?rs" for j
    using assms that root_id_no_slash by (auto simp: config_ok_def list_all_length)
  have uniq: "j = j' \<and> ep = ep'" if "expected_path (?rs ! j) ep = expected_path (?rs ! j') ep'" "j < length ?rs" "j' < length ?rs" for j j' ep ep'
    using expected_path_inj [OF that(1) ids ids] that(2,3) assms nth_eq_iff_index_eq [of "map root_id ?rs" j j']
    by (auto simp: config_ok_def)
  from route_from_cases [of ?rs path 0 m] show ?thesis
  proof
    assume n: "(\<forall>r\<in>set ?rs. \<forall>ep\<in>set (root_endpoints r). path \<noteq> expected_path r ep)
      \<and> route_from 0 ?rs m path = Inl (reject 404 ''route_not_found'')"
    then show ?thesis by (auto simp: route_def reject_def)
  next
    assume "\<exists>j ep. j < length ?rs \<and> ep \<in> set (root_endpoints (?rs ! j)) \<and> path = expected_path (?rs ! j) ep
        \<and> route_from 0 ?rs m path = (if method_matches (endpoint_method ep) m then Inr \<lparr>dr_root_index = 0 + j, dr_endpoint = ep\<rparr>
            else Inl (reject 405 ''method_not_allowed''))"
    then obtain j ep where j: "j < length ?rs" "ep \<in> set (root_endpoints (?rs ! j))" "path = expected_path (?rs ! j) ep"
      "route c m path = (if method_matches (endpoint_method ep) m then Inr \<lparr>dr_root_index = j, dr_endpoint = ep\<rparr>
            else Inl (reject 405 ''method_not_allowed''))" by (auto simp: route_def)
    have "?rs ! j \<in> set ?rs" using j(1) by simp
    with j have f: "\<exists>r\<in>set ?rs. \<exists>ep\<in>set (root_endpoints r). path = expected_path r ep" by blast
    have "r = \<lparr>dr_root_index = j, dr_endpoint = ep\<rparr>"
      if "dr_root_index r < length ?rs" "path = expected_path (?rs ! dr_root_index r) (dr_endpoint r)"
      using uniq [of "dr_root_index r" "dr_endpoint r" j ep] that j by (cases r) auto
    with j f show ?thesis by (auto simp: reject_def split: if_splits)
  qed
qed

theorem route_exact_witness:
  "config_ok demo_config \<and> route demo_config ''POST'' ''/r/a-1/v1/messages'' = Inr \<lparr>dr_root_index = 0, dr_endpoint = Messages\<rparr>"
proof -
  have c: "config_ok demo_config" using validated_ok [OF demo_config] by (simp add: input_ok_def demo_input_def rust_arith)
  have "0 < length (cfg_roots demo_config)" "Messages \<in> set (root_endpoints (cfg_roots demo_config ! 0))"
    "''/r/a-1/v1/messages'' = expected_path (cfg_roots demo_config ! 0) Messages" "method_matches (endpoint_method Messages) ''POST''"
    by code_simp+
  with route_exact [OF c, of "''POST''" "''/r/a-1/v1/messages''" "\<lparr>dr_root_index = 0, dr_endpoint = Messages\<rparr>"] c show ?thesis by simp
qed

section \<open>Contract of the front\<close>

lemma not_control:
  assumes "handle_head F st q = Control r b"
  shows "\<not> HEADER_BYTES < stored_size (rh_headers q)" "starts_with ''/_llmgw/'' (rh_path q)"
proof -
  show big: "\<not> HEADER_BYTES < stored_size (rh_headers q)"
    using assms unfolding handle_head_def Let_def by (auto simp only: if_True head_outcome.distinct)
  show "starts_with ''/_llmgw/'' (rh_path q)"
  proof (rule ccontr)
    assume n: "\<not> starts_with ''/_llmgw/'' (rh_path q)"
    show False using assms unfolding handle_head_def Let_def if_not_P [OF big] if_not_P [OF n]
      by (simp split: if_splits sum.splits prod.splits unit.splits)
  qed
qed

text \<open>
  C20: only the holder of the control token can stop the gateway, and only the instance it means.  A
  request makes the gateway stop if and only if it is a POST to the stop path that does not come
  from a web page (no origin header), carries the control token in exactly one header, the comparison
  in constant time being equality, and either names no instance or names exactly the running one.
\<close>

theorem stop_needs_token:
  shows "(\<exists>r. handle_head F st q = Control r True) \<longleftrightarrow>
    stored_size (rh_headers q) \<le> HEADER_BYTES \<and> rh_method q = ''POST'' \<and> rh_path q = ''/_llmgw/stop''
    \<and> get_all (rh_headers q) ''origin'' = []
    \<and> get_all (rh_headers q) CONTROL_TOKEN_HEADER = [fr_control_token st]
    \<and> (get_all (rh_headers q) ''x-llmgw-instance-nonce'' = []
        \<or> (\<exists>n. fr_nonce st = Some n \<and> get_all (rh_headers q) ''x-llmgw-instance-nonce'' = [n]))"
proof -
  define h where "h = get_all (rh_headers q)"
  have stop: "snd (control_handle m p h a n s) \<longleftrightarrow> h ''origin'' = [] \<and> a \<and> m = ''POST'' \<and> p = ''/_llmgw/stop''
      \<and> (h ''x-llmgw-instance-nonce'' = [] \<or> (\<exists>v. n = Some v \<and> h ''x-llmgw-instance-nonce'' = [v]))" for m p a n s
    by (cases "h ''x-llmgw-instance-nonce''"; cases n)
       (auto simp: control_handle_def Let_def contains_key_def)
  let ?c = "control_handle (rh_method q) (rh_path q) h (matches_header (fr_control_token st) h CONTROL_TOKEN_HEADER) (fr_nonce st) (fr_status_json st)"
  have "(\<exists>r. handle_head F st q = Control r True) \<longleftrightarrow> \<not> HEADER_BYTES < stored_size (rh_headers q)
      \<and> starts_with ''/_llmgw/'' (rh_path q) \<and> snd ?c"
  proof (cases "\<not> HEADER_BYTES < stored_size (rh_headers q) \<and> starts_with ''/_llmgw/'' (rh_path q)")
    case True
    then have "handle_head F st q = (case ?c of (r, stop) \<Rightarrow> Control r stop)"
      unfolding handle_head_def Let_def h_def [symmetric] by (simp only: if_False if_True simp_thms)
    with True show ?thesis by (simp add: case_prod_beta prod_eq_iff)
  next
    case False
    then have "handle_head F st q \<noteq> Control r b" for r b using not_control [of F st q r b] by blast
    with False show ?thesis by blast
  qed
  also have "\<dots> \<longleftrightarrow> stored_size (rh_headers q) \<le> HEADER_BYTES \<and> snd ?c"
    using stop by (auto simp: starts_with_def)
  finally show ?thesis unfolding stop matches_header_iff unfolding h_def by blast
qed

lemma handle_head_reads:
  assumes "handle_head F st q = ReadBody r u"
  defines "h \<equiv> get_all (rh_headers q)"
  shows "\<not> HEADER_BYTES < stored_size (rh_headers q)" "\<not> starts_with ''/_llmgw/'' (rh_path q)" "\<not> fr_stopping st"
    "route (fr_config st) (rh_method q) (rh_path q) = Inr r"
    "validate_local_request (fl_http F) (fl_header F) h (rh_method q) (snd (cfg_listen (fr_config st))) = Inr ()"
    "\<not> requests_upgrade (fl_http F) h"
    "upstream_url (fl_url F) (up_api_base (cfg_upstream (fr_config st))) r (rh_query q) = Inr u"
proof -
  note def = assms(1) [unfolded handle_head_def Let_def, folded h_def]
  show big: "\<not> HEADER_BYTES < stored_size (rh_headers q)" using def by (auto simp only: if_True head_outcome.distinct)
  note d1 = def [unfolded if_not_P [OF big]]
  show ctl: "\<not> starts_with ''/_llmgw/'' (rh_path q)" using d1 by (auto simp only: if_True head_outcome.distinct split: prod.splits)
  note d2 = d1 [unfolded if_not_P [OF ctl]]
  show st: "\<not> fr_stopping st" using d2 by (auto simp only: if_True head_outcome.distinct)
  note d3 = d2 [unfolded if_not_P [OF st]]
  obtain r' where r': "route (fr_config st) (rh_method q) (rh_path q) = Inr r'"
    using d3 by (cases "route (fr_config st) (rh_method q) (rh_path q)") simp_all
  note d4 = d3 [unfolded r' sum.case]
  show v: "validate_local_request (fl_http F) (fl_header F) h (rh_method q) (snd (cfg_listen (fr_config st))) = Inr ()"
    using d4 by (cases "validate_local_request (fl_http F) (fl_header F) h (rh_method q) (snd (cfg_listen (fr_config st)))") auto
  note d5 = d4 [unfolded v sum.case unit.case]
  show up: "\<not> requests_upgrade (fl_http F) h" using d5 by (auto simp only: if_True head_outcome.distinct)
  note d6 = d5 [unfolded if_not_P [OF up]]
  obtain u' where u': "upstream_url (fl_url F) (up_api_base (cfg_upstream (fr_config st))) r' (rh_query q) = Inr u'"
    using d6 by (cases "upstream_url (fl_url F) (up_api_base (cfg_upstream (fr_config st))) r' (rh_query q)") simp_all
  have "r' = r" "u' = u" using d6 [unfolded u' sum.case] by (auto split: if_splits)
  with r' u' show "route (fr_config st) (rh_method q) (rh_path q) = Inr r"
    "upstream_url (fl_url F) (up_api_base (cfg_upstream (fr_config st))) r (rh_query q) = Inr u" by simp_all
qed

lemma local_request:
  assumes "validate_local_request L H h m port = Inr ()"
  shows "h ''origin'' = [] \<and> (\<exists>v a. h ''host'' = [v] \<and> Option.bind (lib_to_str L v) (lib_authority H) = Some a \<and> local_authority H port a)
    \<and> (m = ''POST'' \<longrightarrow> (\<exists>v t. h ''content-type'' = [v] \<and> lib_to_str L v = Some t
         \<and> eq_ignore_ascii_case (trim (hd (split_on CHR '';'' t))) ''application/json''))"
proof -
  from assms have o: "h ''origin'' = []" "is_some_and (local_authority H port) (Option.bind (first_value L (h ''host'')) (lib_authority H))"
    "tl (h ''host'') = []"
    "m = ''POST'' \<Longrightarrow> is_some_and (\<lambda>v. eq_ignore_ascii_case (trim (hd (split_on CHR '';'' v))) ''application/json'')
        (first_value L (h ''content-type'')) \<and> tl (h ''content-type'') = []"
    by (auto simp: validate_local_request_def contains_key_def split: if_splits)
  have one: "h name = [v]" if "tl (h name) = []" "h name = v # vs" for name v vs using that by simp
  from o(2,3) obtain v a where "h ''host'' = [v]" "Option.bind (lib_to_str L v) (lib_authority H) = Some a" "local_authority H port a"
    by (cases "h ''host''") (auto simp: first_value_def is_some_and_iff)
  moreover have "\<exists>v t. h ''content-type'' = [v] \<and> lib_to_str L v = Some t
         \<and> eq_ignore_ascii_case (trim (hd (split_on CHR '';'' t))) ''application/json''" if "m = ''POST''"
    using o(4) [OF that] by (cases "h ''content-type''") (auto simp: first_value_def is_some_and_iff)
  ultimately show ?thesis using o(1) by blast
qed


definition demo_front_libs :: front_libs where
  "demo_front_libs = \<lparr>fl_http = demo_libs,
     fl_header = demo_header_libs\<lparr>lib_authority := (\<lambda>s. Some \<lparr>au_str = s, au_host = ''localhost'', au_port = Some 4141\<rparr>)\<rparr>,
     fl_url = \<lparr>ul_set_path = (\<lambda>p u. u\<lparr>url_path := p\<rparr>),
       ul_set_query = (\<lambda>x u. u\<lparr>url_query := x, url_text := ''https://h'' @ (case x of None \<Rightarrow> [] | Some s \<Rightarrow> ''?'' @ s)\<rparr>),
       ul_form_keys = (\<lambda>_. [])\<rparr>\<rparr>"

definition demo_front :: front where
  "demo_front = \<lparr>fr_config = demo_config, fr_control_token = ''t'', fr_nonce = None, fr_stopping = False, fr_status_json = ''{}''\<rparr>"

definition demo_head :: request_head where
  "demo_head = \<lparr>rh_method = ''POST'', rh_path = ''/r/b/v1/responses'', rh_query = Some ''a=1'',
     rh_headers = [(''host'', [''localhost:4141'']), (''content-type'', [''application/json; charset=utf-8''])]\<rparr>"


end
