(* ===== verification/Gateway_World.thy ===== *)
theory Gateway_World
  imports Admission_Contract Circuit_Contract Exact_Cache_Contract Metrics
begin

text \<open>
  The shared state of the gateway and what its tasks own of it.  The admission queue, the circuit
  breaker, the response cache and the counters are shared by every request; a task owns tickets,
  reservations, circuit attempts, cache entries under construction and so on.  \<open>world_ok\<close> says that
  each component satisfies its own invariant for exactly the things the tasks own, and the locale
  \<open>framed\<close> turns that into a small program logic: a step that is correct for what its task owns is
  correct whatever the other tasks own.
\<close>

section \<open>Steps that respect what other tasks own\<close>

text \<open>
  \<open>ok n M w\<close>: the world \<open>w\<close> is in order, its users own exactly the claims \<open>M\<close>, and at most \<open>n\<close>
  counted operations happened.  \<open>triple k M f Q\<close>: started with the claims \<open>M\<close>, the step \<open>f\<close> does not
  panic, counts at most \<open>k\<close> operations, and turns \<open>M\<close> into claims that \<open>Q\<close> allows; the claims of
  everybody else are untouched.
\<close>

locale framed =
  fixes ok :: "nat \<Rightarrow> 'c multiset \<Rightarrow> 'w \<Rightarrow> bool"
  assumes ok_mono: "ok n M w \<Longrightarrow> n \<le> m \<Longrightarrow> ok m M w"
begin

definition triple ::
  "nat \<Rightarrow> 'c multiset \<Rightarrow> ('w \<Rightarrow> ('a \<times> 'w) option) \<Rightarrow> ('a \<Rightarrow> 'c multiset \<Rightarrow> bool) \<Rightarrow> bool" where
  "triple k M f Q =
     (\<forall>n F w. ok n (M + F) w \<longrightarrow> n + k \<le> u64_max \<longrightarrow>
        holds (f w) (\<lambda>(x, w'). \<exists>M'. Q x M' \<and> ok (n + k) (M' + F) w'))"

lemma triple_return: "Q x M \<Longrightarrow> triple k M (\<lambda>w. Some (x, w)) Q"
  using ok_mono by (fastforce simp: triple_def)

lemma triple_weaken:
  assumes "triple k M f Q" "\<And>x M'. Q x M' \<Longrightarrow> Q' x M'" "k \<le> l"
  shows "triple l M f Q'"
proof (unfold triple_def, intro allI impI)
  fix n F w
  assume "ok n (M + F) w" "n + l \<le> u64_max"
  with assms(1,3) have "holds (f w) (\<lambda>(x, w'). \<exists>M'. Q x M' \<and> ok (n + k) (M' + F) w')" by (simp add: triple_def)
  then show "holds (f w) (\<lambda>(x, w'). \<exists>M'. Q' x M' \<and> ok (n + l) (M' + F) w')"
    by (rule holds_mono) (use assms(2,3) ok_mono in \<open>fastforce split: prod.splits\<close>)
qed

lemma triple_bind:
  assumes f: "triple k M f P" and g: "\<And>x N. P x N \<Longrightarrow> triple l N (g x) Q"
  shows "triple (k + l) M (\<lambda>w. Option.bind (f w) (\<lambda>(x, w1). g x w1)) Q"
proof (unfold triple_def, intro allI impI)
  fix n F w
  assume ok: "ok n (M + F) w" "n + (k + l) \<le> u64_max"
  with f have "holds (f w) (\<lambda>(x, w'). \<exists>N. P x N \<and> ok (n + k) (N + F) w')" by (simp add: triple_def)
  then show "holds (Option.bind (f w) (\<lambda>(x, w1). g x w1)) (\<lambda>(x, w'). \<exists>M'. Q x M' \<and> ok (n + (k + l)) (M' + F) w')"
  proof (rule holds_bind)
    fix y
    assume "(\<lambda>(x, w'). \<exists>N. P x N \<and> ok (n + k) (N + F) w') y"
    then obtain x w1 N where y: "y = (x, w1)" "P x N" "ok (n + k) (N + F) w1" by (cases y) auto
    have "n + k + l \<le> u64_max" using ok(2) by simp
    with g [OF y(2)] y(3) have "holds (g x w1) (\<lambda>(x, w'). \<exists>M'. Q x M' \<and> ok (n + k + l) (M' + F) w')"
      unfolding triple_def by blast
    then show "holds ((\<lambda>(x, w1). g x w1) y) (\<lambda>(x, w'). \<exists>M'. Q x M' \<and> ok (n + (k + l)) (M' + F) w')"
      by (simp add: y(1) add.assoc)
  qed
qed

lemma triple_step:
  assumes f: "triple k M0 f (\<lambda>x M. M = N x \<and> P x)" and M: "M = M0 + G" and m: "k + l \<le> m"
    and g: "\<And>x. P x \<Longrightarrow> triple l (N x + G) (g x) Q"
  shows "triple m M (\<lambda>w. Option.bind (f w) (\<lambda>(x, w1). g x w1)) Q"
proof -
  have "triple k M f (\<lambda>x M'. M' = N x + G \<and> P x)" using f by (simp add: triple_def M add.assoc)
  then have "triple (k + l) M (\<lambda>w. Option.bind (f w) (\<lambda>(x, w1). g x w1)) Q" by (rule triple_bind) (use g in auto)
  then show ?thesis by (rule triple_weaken) (use m in auto)
qed

lemma triple_step0:
  assumes f: "triple k M0 f (\<lambda>x M. M = N x)" and M: "M = M0 + G" and m: "k + l \<le> m"
    and g: "\<And>x. triple l (N x + G) (g x) Q"
  shows "triple m M (\<lambda>w. Option.bind (f w) (\<lambda>(x, w1). g x w1)) Q"
  by (rule triple_step [where P = "\<lambda>_. True" and N = N, OF _ M m g]) (use f in simp)

lemma triple_last:
  assumes f: "triple k M0 f (\<lambda>x M. M = N x \<and> P x)" and M: "M = M0 + G" and m: "k \<le> m"
    and g: "\<And>x. P x \<Longrightarrow> Q x (N x + G)"
  shows "triple m M f Q"
proof -
  have "triple k M f (\<lambda>x M'. M' = N x + G \<and> P x)" using f by (simp add: triple_def M add.assoc)
  then show ?thesis by (rule triple_weaken) (use m g in auto)
qed

lemma triple_if: "(c \<Longrightarrow> triple k M f Q) \<Longrightarrow> (\<not> c \<Longrightarrow> triple k M g Q) \<Longrightarrow> triple k M (\<lambda>w. if c then f w else g w) Q"
  by (cases c) simp_all

lemma triple_skip:
  assumes g: "triple k M (g x) Q"
  shows "triple k M (\<lambda>w. Option.bind (Some (x, w)) (\<lambda>(x, w1). g x w1)) Q"
  using g by simp

lemma triple_frame: "triple k M f (\<lambda>x M'. M' = N x) \<Longrightarrow> triple k (M + G) f (\<lambda>x M'. M' = N x + G)"
  by (simp add: triple_def add.assoc)

lemma triple_apply:
  assumes "triple k M f Q" "ok n (M + F) w" "n + k \<le> u64_max"
  obtains x w' M' where "f w = Some (x, w')" "Q x M'" "ok (n + k) (M' + F) w'"
  using assms unfolding triple_def holds_def by fastforce

text \<open>One client of many takes a step.\<close>

lemma clients_step:
  assumes i: "i < length cs" and c: "cs ! i = c"
    and t: "triple k (claims c) f (\<lambda>c' M'. M' = claims c' \<and> P c')"
    and w: "ok n (\<Sum>\<^sub># (image_mset claims (mset cs)) + G) w" and n: "n + k \<le> u64_max"
  obtains c' w' where "f w = Some (c', w')" "P c'" "ok (n + k) (\<Sum>\<^sub># (image_mset claims (mset (cs[i := c']))) + G) w'"
proof -
  let ?r = "\<Sum>\<^sub># (image_mset claims (mset (remove_at i cs)))"
  have s: "\<Sum>\<^sub># (image_mset claims (mset cs)) = claims c + ?r"
    "\<Sum>\<^sub># (image_mset claims (mset (cs[i := x]))) = claims x + ?r" for x
    using nth_mset(1,2) [OF i] c by simp_all
  from w have "ok n (claims c + (?r + G)) w" by (simp add: s add.assoc)
  from triple_apply [OF t this n] obtain c' w' where "f w = Some (c', w')" "P c'" "ok (n + k) (claims c' + (?r + G)) w'" by metis
  then show ?thesis by (intro that) (simp_all add: s add.assoc)
qed

end

section \<open>The shared state\<close>

record world =
  wd_queue :: queue
  wd_circuit :: circuit
  wd_cache :: exact_cache
  wd_metrics :: metrics

definition on_queue :: "(queue \<Rightarrow> ('a \<times> queue) option) \<Rightarrow> world \<Rightarrow> ('a \<times> world) option" where
  "on_queue f w = map_option (\<lambda>(x, q). (x, w\<lparr>wd_queue := q\<rparr>)) (f (wd_queue w))"

definition on_circuit :: "(circuit \<Rightarrow> ('a \<times> circuit) option) \<Rightarrow> world \<Rightarrow> ('a \<times> world) option" where
  "on_circuit f w = map_option (\<lambda>(x, c). (x, w\<lparr>wd_circuit := c\<rparr>)) (f (wd_circuit w))"

definition on_cache :: "(exact_cache \<Rightarrow> ('a \<times> exact_cache) option) \<Rightarrow> world \<Rightarrow> ('a \<times> world) option" where
  "on_cache f w = map_option (\<lambda>(x, c). (x, w\<lparr>wd_cache := c\<rparr>)) (f (wd_cache w))"

definition on_metrics :: "(metrics \<Rightarrow> metrics) \<Rightarrow> world \<Rightarrow> (unit \<times> world) option" where
  "on_metrics f w = Some ((), w\<lparr>wd_metrics := f (wd_metrics w)\<rparr>)"

section \<open>What tasks own\<close>

text \<open>
  \<open>CSize\<close> is not a thing but a piece of knowledge that nobody gives up: the concurrency and the number
  of roots of the queue, which no operation changes.
\<close>

datatype claim =
    CTicket pending
  | CHold hold
  | CAttempt attempt
  | CWait "ckey \<times> bool"
  | CPending xpending
  | CCapture capture
  | CReplay nat
  | CSize "nat \<times> nat"

fun ticket_claim :: "claim \<Rightarrow> pending list" where
  "ticket_claim (CTicket p) = [p]" | "ticket_claim _ = []"

fun hold_claim :: "claim \<Rightarrow> hold list" where
  "hold_claim (CHold h) = [h]" | "hold_claim _ = []"

fun attempt_claim :: "claim \<Rightarrow> attempt list" where
  "attempt_claim (CAttempt a) = [a]" | "attempt_claim _ = []"

fun wait_claim :: "claim \<Rightarrow> (ckey \<times> bool) list" where
  "wait_claim (CWait x) = [x]" | "wait_claim _ = []"

fun pending_claim :: "claim \<Rightarrow> xpending list" where
  "pending_claim (CPending p) = [p]" | "pending_claim _ = []"

fun capture_claim :: "claim \<Rightarrow> capture list" where
  "capture_claim (CCapture c) = [c]" | "capture_claim _ = []"

fun replay_claim :: "claim \<Rightarrow> nat list" where
  "replay_claim (CReplay a) = [a]" | "replay_claim _ = []"

fun size_claim :: "claim \<Rightarrow> (nat \<times> nat) list" where
  "size_claim (CSize x) = [x]" | "size_claim _ = []"

definition part :: "(claim \<Rightarrow> 'a list) \<Rightarrow> claim multiset \<Rightarrow> 'a multiset" where
  "part f M = \<Sum>\<^sub># (image_mset (\<lambda>c. mset (f c)) M)"

lemma part_simps [simp]:
  "part f {#} = {#}" "part f (add_mset c M) = mset (f c) + part f M" "part f (M + N) = part f M + part f N"
  by (simp_all add: part_def)

definition queue_ok :: "nat \<times> nat \<Rightarrow> pending multiset \<Rightarrow> hold multiset \<Rightarrow> queue \<Rightarrow> bool" where
  "queue_ok fx T H q =
     (fixed q = fx \<and> (\<exists>ts hs. mset ts = T \<and> mset hs = H \<and> sys_inv \<lparr>s_queue = q, s_tickets = ts, s_holds = hs\<rparr>))"

definition breaker_ok :: "attempt multiset \<Rightarrow> (ckey \<times> bool) multiset \<Rightarrow> circuit \<Rightarrow> bool" where
  "breaker_ok A W c =
     (\<exists>as ws. mset as = A \<and> mset ws = W \<and> circuit_inv \<lparr>k_circuit = c, k_attempts = as, k_waits = ws\<rparr>)"

definition store_books :: "nat \<Rightarrow> xpending multiset \<Rightarrow> capture multiset \<Rightarrow> nat multiset \<Rightarrow> exact_cache \<Rightarrow> bool" where
  "store_books n P C R c =
     (\<exists>ps cs rs. mset ps = P \<and> mset cs = C \<and> mset rs = R
        \<and> cache_inv n \<lparr>y_cache = c, y_pendings = ps, y_captures = cs, y_replays = rs\<rparr>)"

definition world_ok :: "nat \<Rightarrow> claim multiset \<Rightarrow> world \<Rightarrow> bool" where
  "world_ok n M w =
     (queue_ok (fixed (wd_queue w)) (part ticket_claim M) (part hold_claim M) (wd_queue w)
      \<and> (\<forall>x\<in>#part size_claim M. x = fixed (wd_queue w))
      \<and> breaker_ok (part attempt_claim M) (part wait_claim M) (wd_circuit w)
      \<and> store_books n (part pending_claim M) (part capture_claim M) (part replay_claim M) (wd_cache w))"

lemma store_books_mono: "store_books n P C R c \<Longrightarrow> n \<le> m \<Longrightarrow> store_books m P C R c"
  using books_mono by (fastforce simp: store_books_def cache_inv_def)

interpretation gw: framed world_ok
  by unfold_locales (auto simp: world_ok_def intro: store_books_mono)

section \<open>Calls of a task into the shared state\<close>

text \<open>
  Each call locks its component once, so it is one atomic operation.  Readings of the clocks come
  from a function: \<open>r i\<close> is the reading number \<open>i\<close> of a step.
\<close>

type_synonym readings = "nat \<Rightarrow> duration"

type_synonym 'a action = "world \<Rightarrow> ('a \<times> world) option"

definition do_hold_start :: "duration \<Rightarrow> hold \<Rightarrow> (bool \<times> hold) action" where
  "do_hold_start t h = on_queue (\<lambda>q. case hold_start t h q of (b, h', q') \<Rightarrow> Some ((b, h'), q'))"

definition do_hold_headers :: "http_libs \<Rightarrow> nat \<Rightarrow> header_map \<Rightarrow> duration \<Rightarrow> duration \<Rightarrow> hold \<Rightarrow> hold action" where
  "do_hold_headers L status headers observed_at t h = on_queue (\<lambda>q. Some (hold_headers L status headers observed_at t h q))"

definition do_hold_rejected ::
  "http_libs \<Rightarrow> nat \<Rightarrow> header_map \<Rightarrow> bool \<Rightarrow> duration \<Rightarrow> duration \<Rightarrow> hold \<Rightarrow> unit action" where
  "do_hold_rejected L jitter headers recognized system_now t h =
     on_queue (\<lambda>q. map_option (Pair ()) (hold_rejected L jitter headers recognized system_now t h q))"

definition do_hold_drop :: "duration \<Rightarrow> hold \<Rightarrow> unit action" where
  "do_hold_drop t h = on_queue (\<lambda>q. Some ((), hold_drop t h q))"

text \<open>
  A call of \<^verbatim>\<open>acquire_at\<close> that has not been polled yet only has its arguments; afterwards it has a
  ticket.
\<close>

record acquire_args =
  aa_root :: nat
  aa_cost :: request_cost
  aa_endpoint :: endpoint
  aa_now :: duration
  aa_deadline :: duration

datatype acquiring = Fresh acquire_args | Queued pending

definition retry_args :: "hold \<Rightarrow> acquire_args" where
  "retry_args h =
     \<lparr>aa_root = h_root h, aa_cost = h_cost h, aa_endpoint = h_endpoint h, aa_now = h_wait_started h,
      aa_deadline = h_queue_deadline h\<rparr>"

definition ticket_for :: "acquire_args \<Rightarrow> result_cell \<Rightarrow> pending" where
  "ticket_for a cell =
     \<lparr>p_ticket = \<lparr>t_root = aa_root a, t_result = cell, t_armed = True\<rparr>, p_cost = aa_cost a,
      p_endpoint = aa_endpoint a, p_now = aa_now a, p_deadline = aa_deadline a\<rparr>"

definition granted_hold :: "pending \<Rightarrow> reservation_id \<Rightarrow> hold" where
  "granted_hold p i = hold_new i (p_endpoint p) (p_now p) (p_deadline p) (t_root (p_ticket p)) (p_cost p)"

text \<open>One poll of \<^verbatim>\<open>acquire_at\<close>: an answer, or the call sleeps again.\<close>

fun do_acquire :: "readings \<Rightarrow> acquiring \<Rightarrow> ((acquire_error + hold) + acquiring) action" where
  "do_acquire r (Fresh a) =
     on_queue (\<lambda>q. map_option (\<lambda>(x, q'). (case x of Inl e \<Rightarrow> Inl (Inl e) | Inr cell \<Rightarrow> Inr (Queued (ticket_for a cell)), q'))
       (acquire_enqueue (r 0) (r 1) (aa_root a) (aa_cost a) (aa_now a) (aa_deadline a) q))"
| "do_acquire r (Queued p) =
     on_queue (\<lambda>q. map_option (\<lambda>(out, _, q').
         (case out of None \<Rightarrow> Inr (Queued p) | Some (Inl e) \<Rightarrow> Inl (Inl e) | Some (Inr i) \<Rightarrow> Inl (Inr (granted_hold p i)), q'))
       (acquire_poll (r 0) (t_result (p_ticket p)) q))"

fun do_acquire_drop :: "duration \<Rightarrow> acquiring \<Rightarrow> unit action" where
  "do_acquire_drop t (Fresh a) = (\<lambda>w. Some ((), w))"
| "do_acquire_drop t (Queued p) = on_queue (\<lambda>q. map_option (Pair ()) (ticket_drop t (p_ticket p) q))"

type_synonym scope_order = "(ckey \<times> centry) list \<Rightarrow> (ckey \<times> centry) list"

definition do_scope_start :: "scope_order \<Rightarrow> readings \<Rightarrow> ckey \<Rightarrow> (open_error + attempt) action" where
  "do_scope_start iter r key = on_circuit (\<lambda>c. Some (scope_start iter (r 0) (r 1) (r 2) key c))"

definition do_scope_wait :: "duration \<Rightarrow> ckey \<Rightarrow> bool \<Rightarrow> wait_outcome action" where
  "do_scope_wait t key waiter = on_circuit (scope_wait t key waiter)"

definition do_waiter_drop :: "bool \<Rightarrow> unit action" where
  "do_waiter_drop waiter = on_circuit (\<lambda>c. map_option (Pair ()) (drop_waiter waiter c))"

definition do_attempt_failure :: "readings \<Rightarrow> duration option \<Rightarrow> attempt \<Rightarrow> attempt action" where
  "do_attempt_failure r delay a = on_circuit (attempt_failure (r 0) (r 1) (r 2) (r 3) delay a)"

definition do_attempt_headers :: "http_libs \<Rightarrow> nat \<Rightarrow> header_map \<Rightarrow> readings \<Rightarrow> attempt \<Rightarrow> attempt action" where
  "do_attempt_headers L status headers r a =
     on_circuit (attempt_headers L status headers (r 0) (r 1) (r 2) (r 3) (r 4) (r 5) a)"

definition do_attempt_complete :: "readings \<Rightarrow> attempt \<Rightarrow> unit action" where
  "do_attempt_complete r a =
     on_circuit (\<lambda>c. map_option (Pair ()) (attempt_complete (r 0) (r 1) (r 2) (r 3) (r 4) a c))"

definition do_attempt_drop :: "duration \<Rightarrow> attempt \<Rightarrow> unit action" where
  "do_attempt_drop t a = on_circuit (\<lambda>c. map_option (Pair ()) (attempt_drop t a c))"

definition do_lookup :: "(xkey \<Rightarrow> duration) \<Rightarrow> xpending \<Rightarrow> (nat option \<times> xpending) action" where
  "do_lookup clk p = on_cache (\<lambda>c. map_option (\<lambda>(found, p', c'). ((found, p'), c')) (lookup_in clk p c))"

definition do_turn :: "(xkey \<Rightarrow> duration) \<Rightarrow> xpending \<Rightarrow> (turn \<times> xpending) action" where
  "do_turn clk p = on_cache (\<lambda>c. map_option (\<lambda>(x, p', c'). ((x, p'), c')) (wait_turn clk p c))"

definition do_pending_drop :: "xpending \<Rightarrow> unit action" where
  "do_pending_drop p = on_cache (\<lambda>c. map_option (Pair ()) (pending_drop p c))"

definition do_reject_status :: "xpending \<Rightarrow> unit action" where
  "do_reject_status p = on_cache (\<lambda>c. map_option (Pair ()) (reject_status p c))"

definition do_capture ::
  "http_libs \<Rightarrow> map_order \<Rightarrow> nat \<Rightarrow> header_map \<Rightarrow> header_map \<Rightarrow> xpending \<Rightarrow> capture option action" where
  "do_capture L iter status original forwarded p = on_cache (cache_capture L iter status original forwarded p)"

definition do_observe :: "string \<Rightarrow> capture \<Rightarrow> (bool \<times> capture) action" where
  "do_observe bytes cp = on_cache (\<lambda>c. map_option (\<lambda>(b, cp', c'). ((b, cp'), c')) (capture_observe bytes cp c))"

definition do_capture_drop :: "capture \<Rightarrow> unit action" where
  "do_capture_drop cp = on_cache (\<lambda>c. map_option (Pair ()) (capture_drop cp c))"

definition do_commit :: "map_order \<Rightarrow> duration \<Rightarrow> bool \<Rightarrow> capture \<Rightarrow> unit action" where
  "do_commit iter t complete cp = on_cache (\<lambda>c. map_option (Pair ()) (capture_commit iter t complete cp c))"

definition do_replay_drop :: "nat \<Rightarrow> unit action" where
  "do_replay_drop a = on_cache (\<lambda>c. Some ((), c\<lparr>xc_budget := arc_drop a (xc_budget c)\<rparr>))"

fun do_option :: "('a \<Rightarrow> unit action) \<Rightarrow> 'a option \<Rightarrow> unit action" where
  "do_option f None = (\<lambda>w. Some ((), w))"
| "do_option f (Some x) = f x"

end
