(* ===== verification/Forward_Worker.thy ===== *)
theory Forward_Worker
  imports Gateway_World Sse_Decoder Transport_Headers "HOL-Library.Monad_Syntax"
begin

text \<open>
  The worker of one request (\<^verbatim>\<open>forward\<close> in \<^verbatim>\<open>transport/stream.rs\<close>): it waits for the circuit and
  for its reservation, sends the request, reads a rejection to decide about one retry, and streams
  the response to the client while it is observed, captured for the cache and counted.

  The function is a state machine over its suspension points.  An event is the branch of a
  \<^verbatim>\<open>select!\<close> that becomes ready or the result of an awaited call; every order of events is
  allowed, which includes the orders the \<^verbatim>\<open>biased\<close> selections produce.  An event that the current
  phase does not wait for changes nothing.  \<open>None\<close> is a panic (an \<^verbatim>\<open>expect\<close> that fails, or one in
  a called component).  Returning, or dropping the future at any suspension point, drops what the
  worker owns.
\<close>

section \<open>Data\<close>

datatype head_error = HeadUpstream | HeadDeadline | HeadAdmission acquire_error | HeadCircuit open_error

datatype body_terminal = BodyEnd | BodyFailure string

record wire_request =
  wr_method :: string
  wr_url :: string
  wr_headers :: hmap
  wr_body :: string

record forward_request =
  rq_cache :: "xpending option"
  rq_scope :: ckey
  rq_wire :: wire_request
  rq_endpoint :: endpoint
  rq_cancel_policy :: cancel_policy
  rq_retry_transient_429 :: bool
  rq_queue_deadline :: duration
  rq_hold :: hold
  rq_gated :: bool

record upstream_response =
  ur_status :: nat
  ur_headers :: hmap
  ur_content_length :: "nat option"

record retry_prefix =
  rp_bytes :: string
  rp_extra :: "string option"
  rp_complete :: bool

definition prefix_default :: retry_prefix where
  "prefix_default = \<lparr>rp_bytes = [], rp_extra = None, rp_complete = False\<rparr>"

text \<open>The locals of the body loop.\<close>

record body_state =
  bd_capture :: "capture option"
  bd_observer :: response_observer
  bd_downstream_open :: bool
  bd_first_body_recorded :: bool
  bd_output_delta_recorded :: bool
  bd_terminal_marker_recorded :: bool
  bd_overflow_recorded :: bool
  bd_response_error_recorded :: bool
  bd_error_delay :: "duration option"
  bd_items :: "string list"

datatype phase =
    Unstarted
  | AtGate
  | AtStart
  | Armed attempt
  | Reacquiring acquiring
  | AwaitingProbe acquire_args bool
  | Sending
  | GotHeaders upstream_response
  | ReadingRejection upstream_response bool bool retry_prefix
  | Deciding upstream_response bool retry_prefix
  | RetryAcquiring acquiring
  | Streaming body_state
  | Delivering body_state
  | Ending
  | Ended

record worker_guard =
  gd_hold :: "hold option"
  gd_draining :: bool
  gd_reason :: terminal_reason
  gd_usage :: "observed_usage option"

text \<open>
  \<open>wk_head\<close> is what was sent to the client task, \<open>wk_terminal\<close> what the response body was told;
  \<open>wk_wires\<close>, \<open>wk_received\<close> and \<open>wk_offered\<close> are the histories of the requests sent, of the bytes read
  from the current response and of the bytes given to \<^verbatim>\<open>deliver\<close>.
\<close>

record worker =
  wk_cache :: "xpending option"
  wk_attempt :: "attempt option"
  wk_guard :: worker_guard
  wk_disconnected :: bool
  wk_retried :: bool
  wk_head :: "(head_error + nat \<times> hmap) option"
  wk_terminal :: "body_terminal option"
  wk_wires :: "wire_request list"
  wk_received :: string
  wk_offered :: string
  wk_phase :: phase

record forward_env =
  fe_libs :: http_libs
  fe_scope_order :: scope_order
  fe_map_order :: map_order

datatype fwd_event =
    EvBegin
  | EvDeadline
  | EvDisconnect
  | EvHeadClosed
  | EvBodyClosed
  | EvStop
  | EvQueueTimeout
  | EvGate
  | EvRun
  | EvPoll
  | EvResponse upstream_response
  | EvSendFailed bool
  | EvChunk string
  | EvEof bool bool
  | EvFailed bool
  | EvDelivered
  | EvAbort

section \<open>The worker guard\<close>

definition guard_new :: "hold \<Rightarrow> worker_guard" where
  "guard_new h = \<lparr>gd_hold = Some h, gd_draining = False, gd_reason = Shutdown, gd_usage = None\<rparr>"

definition guard_start_draining :: "worker_guard \<Rightarrow> worker_guard action" where
  "guard_start_draining g w =
     (if gd_draining g then Some (g, w)
      else map_option (\<lambda>(_, w1). (g\<lparr>gd_draining := True\<rparr>, w1)) (on_metrics draining_started w))"

definition guard_finish :: "terminal_reason \<Rightarrow> observed_usage option \<Rightarrow> worker_guard \<Rightarrow> worker_guard" where
  "guard_finish reason usage g = g\<lparr>gd_reason := reason, gd_usage := usage\<rparr>"

definition guard_drop :: "duration \<Rightarrow> worker_guard \<Rightarrow> unit action" where
  "guard_drop t g w =
     do {
       (_, w1) \<leftarrow> (if gd_draining g then on_metrics draining_finished w else Some ((), w));
       (_, w2) \<leftarrow> do_option (\<lambda>h. do_hold_drop t (hold_usage (gd_usage g) h)) (gd_hold g) w1;
       on_metrics (worker_finished (gd_reason g) (gd_usage g)) w2
     }"

section \<open>Returning\<close>

definition later :: "nat \<Rightarrow> readings \<Rightarrow> readings" where
  "later n r = (\<lambda>i. r (n + i))"

definition set_hold :: "hold option \<Rightarrow> worker \<Rightarrow> worker" where
  "set_hold h k = k\<lparr>wk_guard := (wk_guard k)\<lparr>gd_hold := h\<rparr>\<rparr>"

text \<open>A one-shot sender is consumed by sending; a second use could not be compiled.\<close>

definition head_send :: "head_error + nat \<times> hmap \<Rightarrow> worker \<Rightarrow> worker option" where
  "head_send x k = (if wk_head k = None then Some (k\<lparr>wk_head := Some x\<rparr>) else None)"

definition signal_body :: "body_terminal \<Rightarrow> worker \<Rightarrow> worker" where
  "signal_body t k = (if wk_terminal k = None then k\<lparr>wk_terminal := Some t\<rparr> else k)"

fun phase_drop :: "duration \<Rightarrow> phase \<Rightarrow> unit action" where
  "phase_drop t (Armed a) = do_attempt_drop t a"
| "phase_drop t (Reacquiring q) = do_acquire_drop t q"
| "phase_drop t (RetryAcquiring q) = do_acquire_drop t q"
| "phase_drop t (AwaitingProbe a g) = do_waiter_drop g"
| "phase_drop t (Streaming b) = do_option do_capture_drop (bd_capture b)"
| "phase_drop t (Delivering b) = do_option do_capture_drop (bd_capture b)"
| "phase_drop t _ = (\<lambda>w. Some ((), w))"

text \<open>Before its first poll the future has no guard yet: it only owns its arguments.\<close>

definition worker_return :: "readings \<Rightarrow> worker \<Rightarrow> worker action" where
  "worker_return r k w =
     do {
       (_, w1) \<leftarrow> phase_drop (r 0) (wk_phase k) w;
       (_, w2) \<leftarrow> do_option (do_attempt_drop (r 1)) (wk_attempt k) w1;
       (_, w3) \<leftarrow> (case wk_phase k of
                     Unstarted \<Rightarrow> do_option (do_hold_drop (r 2)) (gd_hold (wk_guard k)) w2
                   | _ \<Rightarrow> guard_drop (r 2) (wk_guard k) w2);
       (_, w4) \<leftarrow> do_option do_pending_drop (wk_cache k) w3;
       Some ((set_hold None k)\<lparr>wk_phase := Ended, wk_attempt := None, wk_cache := None\<rparr>, w4)
     }"

definition finish_return ::
  "readings \<Rightarrow> terminal_reason \<Rightarrow> observed_usage option \<Rightarrow> worker \<Rightarrow> worker action" where
  "finish_return r reason usage k = worker_return r (k\<lparr>wk_guard := guard_finish reason usage (wk_guard k)\<rparr>)"

fun head_reason :: "head_error \<Rightarrow> terminal_reason" where
  "head_reason (HeadAdmission Deadline) = DeadlineOver"
| "head_reason (HeadCircuit _) = AdmissionRejected"
| "head_reason (HeadAdmission _) = AdmissionRejected"
| "head_reason _ = UpstreamError"

definition head_failure :: "readings \<Rightarrow> head_error \<Rightarrow> worker \<Rightarrow> worker action" where
  "head_failure r e k w = do { k1 \<leftarrow> head_send (Inl e) k; finish_return r (head_reason e) None k1 w }"

definition head_deadline :: "readings \<Rightarrow> worker \<Rightarrow> worker action" where
  "head_deadline r k w = do { k1 \<leftarrow> head_send (Inl HeadDeadline) k; finish_return r DeadlineOver None k1 w }"

text \<open>\<^verbatim>\<open>attempt.failure\<close> on the attempt of the worker, if it has one.\<close>

definition fail_attempt :: "readings \<Rightarrow> duration option \<Rightarrow> worker \<Rightarrow> worker action" where
  "fail_attempt r delay k w =
     (case wk_attempt k of
        None \<Rightarrow> Some (k, w)
      | Some a \<Rightarrow> do { (a1, w1) \<leftarrow> do_attempt_failure r delay a w; Some (k\<lparr>wk_attempt := Some a1\<rparr>, w1) })"

definition drop_cache :: "worker \<Rightarrow> worker action" where
  "drop_cache k w =
     do { (_, w1) \<leftarrow> do_option do_pending_drop (wk_cache k) w; Some (k\<lparr>wk_cache := None\<rparr>, w1) }"

definition start_draining :: "worker \<Rightarrow> worker action" where
  "start_draining k w =
     do { (g, w1) \<leftarrow> guard_start_draining (wk_guard k) w; Some (k\<lparr>wk_guard := g\<rparr>, w1) }"

text \<open>The client is gone after the request was sent and before the response was passed on.\<close>

definition client_gone :: "forward_request \<Rightarrow> readings \<Rightarrow> worker \<Rightarrow> worker action" where
  "client_gone R r k w =
     (let k0 = k\<lparr>wk_disconnected := True\<rparr> in
      case rq_cancel_policy R of
        Close \<Rightarrow> finish_return r DownstreamClose None k0 w
      | Drain \<Rightarrow> do { (k1, w1) \<leftarrow> drop_cache k0 w; start_draining k1 w1 })"

section \<open>Before the request is sent\<close>

definition first_phase :: "forward_request \<Rightarrow> phase" where
  "first_phase R = (if rq_gated R then AtGate else AtStart)"

definition worker_new :: "forward_request \<Rightarrow> worker" where
  "worker_new R =
     \<lparr>wk_cache = rq_cache R, wk_attempt = None, wk_guard = guard_new (rq_hold R), wk_disconnected = False,
      wk_retried = False, wk_head = None, wk_terminal = None, wk_wires = [], wk_received = [], wk_offered = [],
      wk_phase = Unstarted\<rparr>"

text \<open>One round of the start loop: the deadline, then the circuit.\<close>

definition try_circuit :: "forward_env \<Rightarrow> forward_request \<Rightarrow> readings \<Rightarrow> worker \<Rightarrow> worker action" where
  "try_circuit E R r k w =
     (if rq_queue_deadline R \<le> r 0 then head_failure (later 5 r) (HeadAdmission Deadline) k w
      else do {
        (x, w1) \<leftarrow> do_scope_start (fe_scope_order E) (later 1 r) (rq_scope R) w;
        case x of
          Inr a \<Rightarrow> Some (k\<lparr>wk_phase := Armed a\<rparr>, w1)
        | Inl Probing \<Rightarrow>
            do {
              h \<leftarrow> gd_hold (wk_guard k);
              (_, w2) \<leftarrow> do_hold_drop (r 4) h w1;
              Some ((set_hold None k)\<lparr>wk_phase := AwaitingProbe (retry_args h) False\<rparr>, w2)
            }
        | Inl e \<Rightarrow> head_failure (later 5 r) (HeadCircuit e) k w1
      })"

text \<open>The circuit is closed: the quota has the last word before the request goes out.\<close>

definition try_hold :: "forward_request \<Rightarrow> readings \<Rightarrow> attempt \<Rightarrow> worker \<Rightarrow> worker action" where
  "try_hold R r a k w =
     do {
       h \<leftarrow> gd_hold (wk_guard k);
       ((started, h1), w1) \<leftarrow> do_hold_start (r 0) h w;
       if started then
         do {
           (_, w2) \<leftarrow> do_option (do_attempt_drop (r 1)) (wk_attempt k) w1;
           (_, w3) \<leftarrow> on_metrics record_upstream_attempt w2;
           Some ((set_hold (Some h1) k)\<lparr>wk_attempt := Some a, wk_phase := Sending,
                   wk_wires := wk_wires k @ [rq_wire R], wk_received := []\<rparr>, w3)
         }
       else
         do {
           (_, w2) \<leftarrow> do_attempt_drop (r 1) a w1;
           (_, w3) \<leftarrow> do_hold_drop (r 2) h1 w2;
           Some ((set_hold None k)\<lparr>wk_phase := Reacquiring (Fresh (retry_args h1))\<rparr>, w3)
         }
     }"

definition poll_reacquire :: "readings \<Rightarrow> acquiring \<Rightarrow> worker \<Rightarrow> worker action" where
  "poll_reacquire r q k w =
     do {
       (x, w1) \<leftarrow> do_acquire r q w;
       case x of
         Inr q' \<Rightarrow> Some (k\<lparr>wk_phase := Reacquiring q'\<rparr>, w1)
       | Inl (Inl e) \<Rightarrow> head_failure (later 2 r) (HeadAdmission e) (k\<lparr>wk_phase := Ending\<rparr>) w1
       | Inl (Inr h) \<Rightarrow> Some ((set_hold (Some h) k)\<lparr>wk_phase := AtStart\<rparr>, w1)
     }"

definition poll_probe :: "forward_request \<Rightarrow> readings \<Rightarrow> acquire_args \<Rightarrow> bool \<Rightarrow> worker \<Rightarrow> worker action" where
  "poll_probe R r a g k w =
     do {
       (x, w1) \<leftarrow> do_scope_wait (r 0) (rq_scope R) g w;
       case x of
         WaitAgain g' \<Rightarrow> Some (k\<lparr>wk_phase := AwaitingProbe a g'\<rparr>, w1)
       | WaitOk \<Rightarrow> Some (k\<lparr>wk_phase := Reacquiring (Fresh a)\<rparr>, w1)
       | WaitErr e \<Rightarrow> head_failure (later 1 r) (HeadCircuit e) (k\<lparr>wk_phase := Ending\<rparr>) w1
     }"

text \<open>The signals while nothing has been sent.\<close>

definition prestart_signal :: "readings \<Rightarrow> fwd_event \<Rightarrow> worker \<Rightarrow> worker action" where
  "prestart_signal r ev k w =
     (case ev of
        EvDeadline \<Rightarrow> head_deadline r k w
      | EvDisconnect \<Rightarrow> finish_return r DownstreamClose None (k\<lparr>wk_disconnected := True\<rparr>) w
      | EvHeadClosed \<Rightarrow> finish_return r DownstreamClose None (k\<lparr>wk_disconnected := True\<rparr>) w
      | EvStop \<Rightarrow> finish_return r Shutdown None k w
      | EvQueueTimeout \<Rightarrow> head_failure r (HeadAdmission Deadline) k w
      | EvAbort \<Rightarrow> worker_return r k w
      | _ \<Rightarrow> Some (k, w))"

section \<open>Waiting for the response\<close>

definition step_sending :: "forward_request \<Rightarrow> readings \<Rightarrow> fwd_event \<Rightarrow> worker \<Rightarrow> worker action" where
  "step_sending R r ev k w =
     (case ev of
        EvDeadline \<Rightarrow> do { (k1, w1) \<leftarrow> fail_attempt r None k w; head_deadline (later 4 r) k1 w1 }
      | EvDisconnect \<Rightarrow> if wk_disconnected k then Some (k, w) else client_gone R r k w
      | EvHeadClosed \<Rightarrow> if wk_disconnected k then Some (k, w) else client_gone R r k w
      | EvResponse resp \<Rightarrow> Some (k\<lparr>wk_phase := GotHeaders resp\<rparr>, w)
      | EvSendFailed builder \<Rightarrow>
          do {
            (k1, w1) \<leftarrow> (if builder then Some (k, w) else fail_attempt r None k w);
            head_failure (later 4 r) HeadUpstream k1 w1
          }
      | EvAbort \<Rightarrow> worker_return r k w
      | _ \<Rightarrow> Some (k, w))"

definition can_retry :: "forward_env \<Rightarrow> forward_request \<Rightarrow> duration \<Rightarrow> upstream_response \<Rightarrow> worker \<Rightarrow> bool" where
  "can_retry E R now resp k =
     (ur_status resp = 429 \<and> rq_retry_transient_429 R \<and> \<not> wk_retried k \<and> \<not> wk_disconnected k
      \<and> \<not> server_forbids_retry (fe_libs E) (get_all (ur_headers resp))
      \<and> timing_allows_retry (fe_libs E) (get_all (ur_headers resp)) now)"

definition got_headers :: "forward_env \<Rightarrow> forward_request \<Rightarrow> readings \<Rightarrow> upstream_response \<Rightarrow> worker \<Rightarrow> worker action" where
  "got_headers E R r resp k w =
     (let L = fe_libs E; status = ur_status resp; headers = get_all (ur_headers resp);
          retry = can_retry E R (r 8) resp k
      in do {
        a \<leftarrow> wk_attempt k;
        (a1, w1) \<leftarrow> do_attempt_headers L status headers r a w;
        h \<leftarrow> gd_hold (wk_guard k);
        (h1, w2) \<leftarrow> do_hold_headers L status headers (r 6) (r 7) h w1;
        let k1 = (set_hold (Some h1) k)\<lparr>wk_attempt := Some a1\<rparr>;
        (k2, w3) \<leftarrow> (if status \<noteq> 200 \<and> \<not> retry
                      then do {
                        (_, w') \<leftarrow> do_option do_reject_status (wk_cache k1) w2;
                        Some (k1\<lparr>wk_cache := None\<rparr>, w')
                      }
                      else Some (k1, w2));
        Some (k2\<lparr>wk_phase :=
                (if status = 429 then ReadingRejection resp retry (missing_timing headers \<or> retry) prefix_default
                 else Deciding resp retry prefix_default)\<rparr>, w3)
      })"

section \<open>Reading a rejection\<close>

text \<open>What \<^verbatim>\<open>probe_rejection\<close> looks at before it reads: other responses are only streamed.\<close>

definition probeable :: "http_libs \<Rightarrow> upstream_response \<Rightarrow> bool" where
  "probeable L resp =
     (let headers = get_all (ur_headers resp) in
      \<not> (\<not> classifiable_representation L headers
         \<or> is_some_and (\<lambda>n. MAX_ERROR_BODY < n) (ur_content_length resp)
         \<or> list_ex (\<lambda>h. h \<noteq> ''identity'') (headers ''content-encoding'')))"

text \<open>One chunk of the loop: go on reading (\<open>Inr\<close>) or stop with the chunk kept aside (\<open>Inl\<close>).\<close>

definition probe_chunk :: "string \<Rightarrow> retry_prefix \<Rightarrow> retry_prefix + retry_prefix" where
  "probe_chunk bytes p =
     (if saturating_add u64_max (length (rp_bytes p)) (length bytes) \<le> MAX_ERROR_BODY
      then Inr (p\<lparr>rp_bytes := rp_bytes p @ bytes\<rparr>)
      else Inl (p\<lparr>rp_extra := Some bytes\<rparr>))"

definition step_rejection ::
  "forward_env \<Rightarrow> forward_request \<Rightarrow> readings \<Rightarrow> fwd_event \<Rightarrow> upstream_response \<Rightarrow> bool \<Rightarrow> bool \<Rightarrow> retry_prefix
     \<Rightarrow> worker \<Rightarrow> worker action" where
  "step_rejection E R r ev resp retry needs_body p k w =
     (let reading = (needs_body \<and> probeable (fe_libs E) resp) in
      case ev of
        EvDeadline \<Rightarrow> head_deadline r k w
      | EvHeadClosed \<Rightarrow> if wk_disconnected k then Some (k, w) else client_gone R r k w
      | EvDisconnect \<Rightarrow> if wk_disconnected k then Some (k, w) else client_gone R r k w
      | EvRun \<Rightarrow> if reading then Some (k, w) else Some (k\<lparr>wk_phase := Deciding resp retry p\<rparr>, w)
      | EvChunk bytes \<Rightarrow>
          if \<not> reading then Some (k, w)
          else (case probe_chunk bytes p of
                  Inr p' \<Rightarrow> Some (k\<lparr>wk_received := wk_received k @ bytes,
                                  wk_phase := ReadingRejection resp retry needs_body p'\<rparr>, w)
                | Inl p' \<Rightarrow> Some (k\<lparr>wk_received := wk_received k @ bytes, wk_phase := Deciding resp retry p'\<rparr>, w))
      | EvEof _ _ \<Rightarrow>
          if \<not> reading then Some (k, w)
          else Some (k\<lparr>wk_phase := Deciding resp retry (p\<lparr>rp_complete := True\<rparr>)\<rparr>, w)
      | EvFailed timeout \<Rightarrow>
          if \<not> reading then Some (k, w)
          else do {
            (k1, w1) \<leftarrow> (if timeout then Some (k, w) else fail_attempt r None k w);
            head_failure (later 4 r) HeadUpstream k1 w1
          }
      | EvAbort \<Rightarrow> worker_return r k w
      | _ \<Rightarrow> Some (k, w))"

definition prefix_items :: "retry_prefix \<Rightarrow> string list" where
  "prefix_items p = (if rp_bytes p \<noteq> [] then [rp_bytes p] else []) @ (case rp_extra p of None \<Rightarrow> [] | Some x \<Rightarrow> [x])"

text \<open>The head goes to the client and the body loop starts.\<close>

definition begin_stream ::
  "forward_env \<Rightarrow> forward_request \<Rightarrow> readings \<Rightarrow> upstream_response \<Rightarrow> retry_prefix \<Rightarrow> worker \<Rightarrow> worker action" where
  "begin_stream E R r resp p k w =
     (let L = fe_libs E; status = ur_status resp; headers = get_all (ur_headers resp);
          forwarded = prepare_response L (ur_headers resp)
      in do {
        (capture, w1) \<leftarrow> (case wk_cache k of
                            None \<Rightarrow> Some (None, w)
                          | Some c \<Rightarrow>
                              if wk_disconnected k then map_option (\<lambda>(_, w'). (None, w')) (do_pending_drop c w)
                              else do_capture L (fe_map_order E) status headers (get_all forwarded) c w);
        k1 \<leftarrow> head_send (Inr (status, forwarded)) k;
        Some (k1\<lparr>wk_cache := None,
                wk_phase := Streaming
                  \<lparr>bd_capture = capture,
                   bd_observer = rob_new (rq_endpoint R) (observable_representation L status headers) (capture \<noteq> None),
                   bd_downstream_open = (\<not> wk_disconnected k),
                   bd_first_body_recorded = False, bd_output_delta_recorded = False,
                   bd_terminal_marker_recorded = False, bd_overflow_recorded = False,
                   bd_response_error_recorded = False,
                   bd_error_delay = failure_delay L headers (r 0) (r 1),
                   bd_items = prefix_items p\<rparr>\<rparr>, w1)
      })"

text \<open>A recognised transient rejection is retried once; everything else is passed on.\<close>

definition decide ::
  "forward_env \<Rightarrow> forward_request \<Rightarrow> readings \<Rightarrow> upstream_response \<Rightarrow> bool \<Rightarrow> retry_prefix \<Rightarrow> worker \<Rightarrow> worker action" where
  "decide E R r resp retry p k w =
     (let L = fe_libs E; headers = get_all (ur_headers resp);
          recognized = (rp_complete p \<and> transient L headers (rp_bytes p))
      in do {
        (_, w1) \<leftarrow> (if ur_status resp = 429
                     then do {
                       h \<leftarrow> gd_hold (wk_guard k);
                       do_hold_rejected L (r 0) headers recognized (r 1) (r 2) h w
                     }
                     else Some ((), w));
        if recognized \<and> retry \<and> \<not> wk_disconnected k
        then do {
          (_, w2) \<leftarrow> on_metrics record_response_body_eof w1;
          a \<leftarrow> wk_attempt k;
          (_, w3) \<leftarrow> do_attempt_complete (later 3 r) a w2;
          h \<leftarrow> gd_hold (wk_guard k);
          (_, w4) \<leftarrow> do_hold_drop (r 8) h w3;
          Some ((set_hold None k)\<lparr>wk_attempt := None, wk_phase := RetryAcquiring (Fresh (retry_args h))\<rparr>, w4)
        }
        else begin_stream E R (later 3 r) resp p k w1
      })"

definition step_retry :: "forward_request \<Rightarrow> readings \<Rightarrow> fwd_event \<Rightarrow> acquiring \<Rightarrow> worker \<Rightarrow> worker action" where
  "step_retry R r ev q k w =
     (case ev of
        EvDeadline \<Rightarrow> head_deadline r k w
      | EvStop \<Rightarrow> finish_return r Shutdown None k w
      | EvHeadClosed \<Rightarrow> finish_return r DownstreamClose None k w
      | EvDisconnect \<Rightarrow> finish_return r DownstreamClose None k w
      | EvPoll \<Rightarrow>
          do {
            (x, w1) \<leftarrow> do_acquire r q w;
            case x of
              Inr q' \<Rightarrow> Some (k\<lparr>wk_phase := RetryAcquiring q'\<rparr>, w1)
            | Inl (Inl e) \<Rightarrow> head_failure (later 2 r) (HeadAdmission e) (k\<lparr>wk_phase := Ending\<rparr>) w1
            | Inl (Inr h) \<Rightarrow> Some ((set_hold (Some h) k)\<lparr>wk_retried := True, wk_phase := first_phase R\<rparr>, w1)
          }
      | EvAbort \<Rightarrow> worker_return r k w
      | _ \<Rightarrow> Some (k, w))"

section \<open>The body loop\<close>

definition once :: "bool \<Rightarrow> (metrics \<Rightarrow> metrics) \<Rightarrow> unit action" where
  "once c f w = (if c then on_metrics f w else Some ((), w))"

text \<open>The client does not read any more: give up, or read on for the accounts only.\<close>

definition downstream_gone ::
  "forward_request \<Rightarrow> readings \<Rightarrow> string \<Rightarrow> body_state \<Rightarrow> worker \<Rightarrow> worker action" where
  "downstream_gone R r reason b k w =
     (case rq_cancel_policy R of
        Close \<Rightarrow> finish_return r DownstreamClose None (signal_body (BodyFailure reason) k) w
      | Drain \<Rightarrow>
          do {
            (_, w1) \<leftarrow> do_option do_capture_drop (bd_capture b) w;
            (k1, w2) \<leftarrow> start_draining k w1;
            Some (k1\<lparr>wk_phase := Streaming (b\<lparr>bd_capture := None, bd_downstream_open := False\<rparr>)\<rparr>, w2)
          })"

definition body_deadline :: "readings \<Rightarrow> worker \<Rightarrow> worker action" where
  "body_deadline r k w =
     finish_return r DeadlineOver None (signal_body (BodyFailure ''gateway request deadline'') k) w"

text \<open>An error the response reports: a server error counts against the circuit.\<close>

definition note_error :: "readings \<Rightarrow> duration option \<Rightarrow> response_error_class \<Rightarrow> worker \<Rightarrow> worker action" where
  "note_error r delay e k w =
     do {
       (_, w1) \<leftarrow> on_metrics (record_response_error e) w;
       if e = Server
       then do {
         a \<leftarrow> wk_attempt k;
         (a1, w2) \<leftarrow> do_attempt_failure r delay a w1;
         Some (k\<lparr>wk_attempt := Some a1\<rparr>, w2)
       }
       else Some (k, w1)
     }"

definition observe_capture :: "string \<Rightarrow> capture option \<Rightarrow> capture option action" where
  "observe_capture bytes c w =
     (case c of
        None \<Rightarrow> Some (None, w)
      | Some cp \<Rightarrow>
          do {
            ((fits, cp1), w1) \<leftarrow> do_observe bytes cp w;
            if fits then Some (Some cp1, w1)
            else do { (_, w2) \<leftarrow> do_capture_drop cp1 w1; Some (None, w2) }
          })"

definition stream_chunk :: "forward_env \<Rightarrow> readings \<Rightarrow> string \<Rightarrow> body_state \<Rightarrow> worker \<Rightarrow> worker action" where
  "stream_chunk E r bytes b k w =
     do {
       (_, w1) \<leftarrow> once (bytes \<noteq> [] \<and> \<not> bd_first_body_recorded b) record_first_body_byte w;
       (capture, w2) \<leftarrow> observe_capture bytes (bd_capture b) w1;
       let ob = rob_observe (lib_json (fe_libs E)) bytes (bd_observer b);
       let fresh = (if bd_response_error_recorded b then None else rob_response_error ob);
       (k1, w3) \<leftarrow> (case fresh of None \<Rightarrow> Some (k, w2) | Some e \<Rightarrow> note_error r (bd_error_delay b) e k w2);
       (_, w4) \<leftarrow> once (rob_first_output_delta ob \<and> \<not> bd_output_delta_recorded b) record_first_observed_output_delta w3;
       (_, w5) \<leftarrow> once (rob_terminal_marker ob \<and> \<not> bd_terminal_marker_recorded b) record_terminal_marker w4;
       (_, w6) \<leftarrow> once (rob_overflowed ob \<and> \<not> bd_overflow_recorded b) record_observer_overflow w5;
       let b1 = b\<lparr>bd_capture := capture, bd_observer := ob,
                  bd_first_body_recorded := bd_first_body_recorded b \<or> bytes \<noteq> [],
                  bd_output_delta_recorded := bd_output_delta_recorded b \<or> rob_first_output_delta ob,
                  bd_terminal_marker_recorded := bd_terminal_marker_recorded b \<or> rob_terminal_marker ob,
                  bd_overflow_recorded := bd_overflow_recorded b \<or> rob_overflowed ob,
                  bd_response_error_recorded := bd_response_error_recorded b \<or> fresh \<noteq> None\<rparr>;
       Some (if bd_downstream_open b
             then (k1\<lparr>wk_offered := wk_offered k1 @ bytes, wk_phase := Delivering b1\<rparr>, w6)
             else (k1\<lparr>wk_phase := Streaming b1\<rparr>, w6))
     }"

text \<open>
  The end of the response; \<open>closed\<close> and \<open>gone\<close> say whether the body channel is closed and whether
  the client has disconnected at that moment.
\<close>

definition settle_attempt ::
  "readings \<Rightarrow> body_state \<Rightarrow> response_error_class option \<Rightarrow> worker \<Rightarrow> worker action" where
  "settle_attempt r b error k w =
     (case error of
        Some e \<Rightarrow>
          do {
            (k1, w1) \<leftarrow> (if bd_response_error_recorded b then Some (k, w) else note_error r (bd_error_delay b) e k w);
            (_, w2) \<leftarrow> do_option (do_attempt_drop (r 4)) (wk_attempt k1) w1;
            Some (k1\<lparr>wk_attempt := None\<rparr>, w2)
          }
      | None \<Rightarrow>
          do {
            a \<leftarrow> wk_attempt k;
            (_, w1) \<leftarrow> do_attempt_complete r a w;
            Some (k\<lparr>wk_attempt := None\<rparr>, w1)
          })"

definition stream_eof :: "forward_env \<Rightarrow> readings \<Rightarrow> bool \<Rightarrow> bool \<Rightarrow> body_state \<Rightarrow> worker \<Rightarrow> worker action" where
  "stream_eof E r closed gone b k w =
     (case rob_finish (lib_json (fe_libs E)) (bd_observer b) of
        (usage, complete, error) \<Rightarrow>
          do {
            (_, w1) \<leftarrow> on_metrics record_response_body_eof w;
            (k1, w2) \<leftarrow> settle_attempt r b error k w1;
            (b1, w3) \<leftarrow> (if bd_downstream_open b \<and> \<not> closed \<and> \<not> gone
                          then do {
                            (_, w') \<leftarrow> do_option (do_commit (fe_map_order E) (r 5) complete) (bd_capture b) w2;
                            Some (b\<lparr>bd_capture := None\<rparr>, w')
                          }
                          else Some (b, w2));
            finish_return (later 6 r) BodyEof usage (signal_body BodyEnd (k1\<lparr>wk_phase := Streaming b1\<rparr>)) w3
          })"

definition step_streaming ::
  "forward_env \<Rightarrow> forward_request \<Rightarrow> readings \<Rightarrow> fwd_event \<Rightarrow> body_state \<Rightarrow> worker \<Rightarrow> worker action" where
  "step_streaming E R r ev b k w =
     (case ev of
        EvDeadline \<Rightarrow> body_deadline r k w
      | EvDisconnect \<Rightarrow>
          if bd_downstream_open b \<and> \<not> wk_disconnected k
          then downstream_gone R r ''downstream connection closed'' b (k\<lparr>wk_disconnected := True\<rparr>) w
          else Some (k, w)
      | EvBodyClosed \<Rightarrow>
          if bd_downstream_open b then downstream_gone R r ''downstream response body closed'' b k w
          else Some (k, w)
      | EvRun \<Rightarrow>
          (case bd_items b of
             [] \<Rightarrow> Some (k, w)
           | x # xs \<Rightarrow> stream_chunk E r x (b\<lparr>bd_items := xs\<rparr>) k w)
      | EvChunk bytes \<Rightarrow>
          if bd_items b \<noteq> [] then Some (k, w)
          else stream_chunk E r bytes b (k\<lparr>wk_received := wk_received k @ bytes\<rparr>) w
      | EvEof closed gone \<Rightarrow> if bd_items b \<noteq> [] then Some (k, w) else stream_eof E r closed gone b k w
      | EvFailed timeout \<Rightarrow>
          if bd_items b \<noteq> [] then Some (k, w)
          else do {
            (k1, w1) \<leftarrow> (if timeout then Some (k, w) else fail_attempt r None k w);
            finish_return (later 4 r) UpstreamError None
              (signal_body (BodyFailure ''upstream response stream failed'') k1) w1
          }
      | EvAbort \<Rightarrow> worker_return r k w
      | _ \<Rightarrow> Some (k, w))"

text \<open>The worker is inside \<^verbatim>\<open>deliver\<close>, which ends with one of three results.\<close>

definition step_delivering ::
  "forward_request \<Rightarrow> readings \<Rightarrow> fwd_event \<Rightarrow> body_state \<Rightarrow> worker \<Rightarrow> worker action" where
  "step_delivering R r ev b k w =
     (case ev of
        EvDelivered \<Rightarrow> Some (k\<lparr>wk_phase := Streaming b\<rparr>, w)
      | EvBodyClosed \<Rightarrow> downstream_gone R r ''downstream response body closed'' b k w
      | EvDeadline \<Rightarrow> body_deadline r k w
      | EvAbort \<Rightarrow> worker_return r k w
      | _ \<Rightarrow> Some (k, w))"

section \<open>The whole worker\<close>

definition forward_step ::
  "forward_env \<Rightarrow> forward_request \<Rightarrow> readings \<Rightarrow> fwd_event \<Rightarrow> worker \<Rightarrow> worker action" where
  "forward_step E R r ev k w =
     (case wk_phase k of
        Unstarted \<Rightarrow>
          (case ev of
             EvBegin \<Rightarrow> map_option (\<lambda>(_, w1). (k\<lparr>wk_phase := first_phase R\<rparr>, w1)) (on_metrics worker_started w)
           | EvAbort \<Rightarrow> worker_return r k w
           | _ \<Rightarrow> Some (k, w))
      | AtGate \<Rightarrow> (case ev of EvGate \<Rightarrow> Some (k\<lparr>wk_phase := AtStart\<rparr>, w) | _ \<Rightarrow> prestart_signal r ev k w)
      | AtStart \<Rightarrow> (case ev of EvRun \<Rightarrow> try_circuit E R r k w | _ \<Rightarrow> Some (k, w))
      | Armed a \<Rightarrow> (case ev of EvRun \<Rightarrow> try_hold R r a k w | _ \<Rightarrow> Some (k, w))
      | Reacquiring q \<Rightarrow> (case ev of EvPoll \<Rightarrow> poll_reacquire r q k w | _ \<Rightarrow> prestart_signal r ev k w)
      | AwaitingProbe a g \<Rightarrow> (case ev of EvPoll \<Rightarrow> poll_probe R r a g k w | _ \<Rightarrow> prestart_signal r ev k w)
      | Sending \<Rightarrow> step_sending R r ev k w
      | GotHeaders resp \<Rightarrow> (case ev of EvRun \<Rightarrow> got_headers E R r resp k w | _ \<Rightarrow> Some (k, w))
      | ReadingRejection resp retry needs_body p \<Rightarrow> step_rejection E R r ev resp retry needs_body p k w
      | Deciding resp retry p \<Rightarrow> (case ev of EvRun \<Rightarrow> decide E R r resp retry p k w | _ \<Rightarrow> Some (k, w))
      | RetryAcquiring q \<Rightarrow> step_retry R r ev q k w
      | Streaming b \<Rightarrow> step_streaming E R r ev b k w
      | Delivering b \<Rightarrow> step_delivering R r ev b k w
      | Ending \<Rightarrow> Some (k, w)
      | Ended \<Rightarrow> Some (k, w))"

end
