(* ===== verification/Request_Pipeline.thy ===== *)
theory Request_Pipeline
  imports Request_Routing Forward_Worker
begin

text \<open>
  The task of one connection (\<^verbatim>\<open>handle_request\<close> in \<^verbatim>\<open>server.rs\<close>): the answer to a request whose body
  was not accepted, the inspection and preparation of one that was, and the way of that request
  through the response cache, the circuit and the admission queue to its worker and back.

  As for the worker, an event is the branch of a \<^verbatim>\<open>select!\<close> that becomes ready; dropping the future
  at a suspension point drops what the task owns, and \<open>None\<close> is a panic.
\<close>

section \<open>Data\<close>

text \<open>How reading the body ended: the branches of the first \<^verbatim>\<open>select!\<close> and the match after it.\<close>

datatype body_result =
    BodyRead string
  | BodyRefused body_read_error
  | BodyTimeout
  | BodyStopped
  | BodyDisconnected
  | BodyDeadline

record gateway_env =
  ge_front :: front_libs
  ge_config_libs :: config_libs
  ge_walk :: "string \<Rightarrow> json option"
  ge_cache_sha :: "string \<Rightarrow> xkey"
  ge_scope_sha :: "string \<Rightarrow> ckey"
  ge_scope_order :: scope_order
  ge_map_order :: map_order
  ge_config :: config
  ge_control_token :: string
  ge_nonce :: "string option"
  ge_upstream_token :: "string option"
  ge_request_limit :: duration
  ge_capacity_wait :: duration
  ge_gated :: bool

abbreviation ge_http :: "gateway_env \<Rightarrow> http_libs" where
  "ge_http E \<equiv> fl_http (ge_front E)"

definition forward_env_of :: "gateway_env \<Rightarrow> forward_env" where
  "forward_env_of E = \<lparr>fe_libs = ge_http E, fe_scope_order = ge_scope_order E, fe_map_order = ge_map_order E\<rparr>"

text \<open>An inspected request; \<open>fq_wire\<close> is what will be sent.\<close>

record front_request =
  fq_root :: nat
  fq_endpoint :: endpoint
  fq_cost :: request_cost
  fq_scope :: ckey
  fq_wire :: wire_request
  fq_forbids :: bool
  fq_deadline :: duration

datatype reply =
    ReplyLocal response
  | ReplyOpen response nat
  | ReplyHit nat
  | ReplyHead nat hmap

datatype front_phase =
    FCache
  | FCircuit bool
  | FTurn
  | FCircuitAgain bool
  | FAcquire acquiring
  | FLook hold
  | FSpawn forward_request worker
  | FHead nat
  | FReplay nat
  | FLeaving
  | FDone

record front_task =
  ft_request :: front_request
  ft_cache :: "xpending option"
  ft_queue_deadline :: duration
  ft_reply :: "reply option"
  ft_phase :: front_phase

datatype front_event =
    FrRun
  | FrPoll
  | FrStop
  | FrDisconnect
  | FrQueueDeadline
  | FrSpawned
  | FrSpawnFailed
  | FrHead "(head_error + nat \<times> hmap) option"
  | FrDeadline
  | FrBodyDone
  | FrAbort

section \<open>Answers\<close>

definition local_error :: "nat \<Rightarrow> string \<Rightarrow> reply" where
  "local_error status code = ReplyLocal (error_response status code)"

definition stopping_reply :: reply where "stopping_reply = local_error 503 ''gateway_stopping''"
definition disconnected_reply :: reply where "disconnected_reply = local_error 400 ''downstream_disconnected''"
definition queue_deadline_reply :: reply where "queue_deadline_reply = local_error 504 ''gateway_queue_deadline''"

fun body_reply :: "body_result \<Rightarrow> reply + string" where
  "body_reply (BodyRead body) = Inr body"
| "body_reply (BodyRefused TooLarge) = Inl (local_error 413 ''body_too_large'')"
| "body_reply (BodyRefused MemoryFull) = Inl (local_error 429 ''gateway_memory_full'')"
| "body_reply (BodyRefused ReadFailed) = Inl (local_error 400 ''body_read_failed'')"
| "body_reply BodyTimeout = Inl (local_error 408 ''body_read_timeout'')"
| "body_reply BodyStopped = Inl stopping_reply"
| "body_reply BodyDisconnected = Inl disconnected_reply"
| "body_reply BodyDeadline = Inl (local_error 504 ''gateway_request_deadline'')"

fun admission_reply :: "acquire_error \<Rightarrow> reply" where
  "admission_reply EstimateExceedsBudget = local_error 400 ''estimate_exceeds_budget''"
| "admission_reply QueueFull = local_error 429 ''gateway_queue_full''"
| "admission_reply Deadline = queue_deadline_reply"
| "admission_reply InvalidRoot = local_error 404 ''route_not_found''"

definition open_reply :: "open_error \<Rightarrow> reply" where
  "open_reply e = ReplyOpen (error_response 503 ''upstream_circuit_open'') (retry_after_seconds e)"

text \<open>What the worker sent; nothing when it ended without sending.\<close>

fun head_reply :: "(head_error + nat \<times> hmap) option \<Rightarrow> reply" where
  "head_reply (Some (Inr (status, headers))) = ReplyHead status headers"
| "head_reply (Some (Inl HeadDeadline)) = local_error 504 ''upstream_deadline''"
| "head_reply (Some (Inl (HeadAdmission e))) = admission_reply e"
| "head_reply (Some (Inl (HeadCircuit e))) = open_reply e"
| "head_reply (Some (Inl HeadUpstream)) = local_error 502 ''upstream_transport_error''"
| "head_reply None = local_error 502 ''upstream_transport_error''"

section \<open>Preparing an accepted request\<close>

text \<open>The inspection of the body and the headers the upstream will see.\<close>

definition prepare_front ::
  "gateway_env \<Rightarrow> data_route \<Rightarrow> url \<Rightarrow> request_head \<Rightarrow> duration \<Rightarrow> string \<Rightarrow> (reply + front_request) option" where
  "prepare_front E rt u q deadline body =
     map_option (\<lambda>x.
       case x of
         Inl e \<Rightarrow> Inl (ReplyLocal (into_response e))
       | Inr (cost, model_index) \<Rightarrow>
           let up_auth' = up_auth (cfg_upstream (ge_config E));
               headers = prepare_request (ge_http E) (fl_header (ge_front E)) (rh_headers q) up_auth' (ge_upstream_token E)
           in Inr \<lparr>fq_root = dr_root_index rt, fq_endpoint = dr_endpoint rt, fq_cost = cost,
                fq_scope = circuit_scope (ge_scope_sha E) (dr_root_index rt) (url_text u) model_index (get_all headers) up_auth',
                fq_wire = \<lparr>wr_method = rh_method q, wr_url = url_text u, wr_headers = headers, wr_body = body\<rparr>,
                fq_forbids = (cfg_cache (ge_config E) \<noteq> None \<and> forbids_reuse (ge_http E) (get_all (rh_headers q))),
                fq_deadline = deadline\<rparr>)
       (inspect_body (ge_config_libs E) (ge_walk E) (ge_config E) rt body)"

definition front_new :: "front_request \<Rightarrow> front_task" where
  "front_new Q = \<lparr>ft_request = Q, ft_cache = None, ft_queue_deadline = 0, ft_reply = None, ft_phase = FCache\<rparr>"

definition forward_request_of :: "gateway_env \<Rightarrow> front_task \<Rightarrow> hold \<Rightarrow> forward_request" where
  "forward_request_of E f h =
     (let Q = ft_request f in
      \<lparr>rq_cache = ft_cache f, rq_scope = fq_scope Q, rq_wire = fq_wire Q, rq_endpoint = fq_endpoint Q,
       rq_cancel_policy = cfg_cancel_policy (ge_config E),
       rq_retry_transient_429 = cfg_retry_transient_429 (ge_config E),
       rq_queue_deadline = ft_queue_deadline f, rq_hold = h, rq_gated = ge_gated E\<rparr>)"

section \<open>Leaving\<close>

fun front_phase_drop :: "readings \<Rightarrow> front_phase \<Rightarrow> unit action" where
  "front_phase_drop r (FCircuit g) = do_waiter_drop g"
| "front_phase_drop r (FCircuitAgain g) = do_waiter_drop g"
| "front_phase_drop r (FAcquire q) = do_acquire_drop (r 0) q"
| "front_phase_drop r (FLook h) = do_hold_drop (r 0) h"
| "front_phase_drop r (FSpawn R k) = (\<lambda>w. map_option (\<lambda>(_, w1). ((), w1)) (worker_return r k w))"
| "front_phase_drop r (FReplay a) = do_replay_drop a"
| "front_phase_drop r _ = (\<lambda>w. Some ((), w))"

text \<open>Returning with a reply, or being dropped without one.\<close>

definition front_leave :: "readings \<Rightarrow> reply option \<Rightarrow> front_task \<Rightarrow> front_task action" where
  "front_leave r x f w =
     do {
       (_, w1) \<leftarrow> front_phase_drop r (ft_phase f) w;
       (_, w2) \<leftarrow> do_option do_pending_drop (ft_cache f) w1;
       Some (f\<lparr>ft_cache := None, ft_phase := FDone, ft_reply := x\<rparr>, w2)
     }"

text \<open>A hit: the rest is dropped, and the response body owns a reference to the entry.\<close>

definition front_hit :: "readings \<Rightarrow> nat \<Rightarrow> front_task \<Rightarrow> front_task action" where
  "front_hit r a f w =
     do {
       (f1, w1) \<leftarrow> front_leave r (Some (ReplyHit a)) f w;
       Some (f1\<lparr>ft_phase := FReplay a\<rparr>, w1)
     }"

section \<open>The way to the worker\<close>

definition do_request :: "gateway_env \<Rightarrow> front_request \<Rightarrow> xpending option action" where
  "do_request E Q =
     on_cache (\<lambda>c. Some (cache_request (lib_json (ge_http E)) (ge_cache_sha E) (fq_root Q) (wr_url (fq_wire Q))
       (wr_headers (fq_wire Q)) (fq_endpoint Q) (wr_body (fq_wire Q)) (fq_forbids Q) c))"

text \<open>A lookup of the pending entry, if there is one.\<close>

definition front_lookup :: "(xkey \<Rightarrow> duration) \<Rightarrow> front_task \<Rightarrow> (nat option \<times> front_task) action" where
  "front_lookup clk f w =
     (case ft_cache f of
        None \<Rightarrow> Some ((None, f), w)
      | Some p \<Rightarrow> do { ((found, p1), w1) \<leftarrow> do_lookup clk p w; Some ((found, f\<lparr>ft_cache := Some p1\<rparr>), w1) })"

definition front_cache :: "gateway_env \<Rightarrow> readings \<Rightarrow> (xkey \<Rightarrow> duration) \<Rightarrow> front_task \<Rightarrow> front_task action" where
  "front_cache E r clk f w =
     do {
       (c, w1) \<leftarrow> (if cfg_cache (ge_config E) \<noteq> None then do_request E (ft_request f) w else Some (None, w));
       ((found, f1), w2) \<leftarrow> front_lookup clk (f\<lparr>ft_cache := c\<rparr>) w1;
       case found of
         Some a \<Rightarrow> front_hit (later 1 r) a f1 w2
       | None \<Rightarrow>
           Some (f1\<lparr>ft_queue_deadline := min (r 0 + min (ge_capacity_wait E) (from_secs 120)) (fq_deadline (ft_request f)),
                   ft_phase := FCircuit False\<rparr>, w2)
     }"

definition enter_acquire :: "readings \<Rightarrow> front_task \<Rightarrow> front_task" where
  "enter_acquire r f =
     (let Q = ft_request f in
      f\<lparr>ft_phase := FAcquire (Fresh
          \<lparr>aa_root = fq_root Q, aa_cost = fq_cost Q, aa_endpoint = fq_endpoint Q, aa_now = r 1,
           aa_deadline = acquire_deadline (r 1) (ft_queue_deadline f - r 0)\<rparr>)\<rparr>)"

definition front_circuit ::
  "readings \<Rightarrow> (bool \<Rightarrow> front_phase) \<Rightarrow> bool \<Rightarrow> front_task \<Rightarrow> front_task action" where
  "front_circuit r again g f w =
     do {
       (x, w1) \<leftarrow> do_scope_wait (r 0) (fq_scope (ft_request f)) g w;
       case x of
         WaitAgain g' \<Rightarrow> Some (f\<lparr>ft_phase := again g'\<rparr>, w1)
       | WaitErr e \<Rightarrow> front_leave (later 1 r) (Some (open_reply e)) (f\<lparr>ft_phase := FLeaving\<rparr>) w1
       | WaitOk \<Rightarrow>
           Some (if ft_cache f \<noteq> None \<and> ft_phase f = FCircuit g then f\<lparr>ft_phase := FTurn\<rparr>
                 else enter_acquire (later 1 r) f, w1)
     }"

definition front_turn :: "readings \<Rightarrow> (xkey \<Rightarrow> duration) \<Rightarrow> front_task \<Rightarrow> front_task action" where
  "front_turn r clk f w =
     (case ft_cache f of
        None \<Rightarrow> Some (f, w)
      | Some p \<Rightarrow>
          do {
            ((x, p1), w1) \<leftarrow> do_turn clk p w;
            let f1 = f\<lparr>ft_cache := Some p1\<rparr>;
            case x of
              TurnWait \<Rightarrow> Some (f1, w1)
            | TurnGo \<Rightarrow> Some (f1\<lparr>ft_phase := FCircuitAgain False\<rparr>, w1)
            | TurnHit a \<Rightarrow> front_hit r a f1 w1
          })"

definition front_acquire :: "readings \<Rightarrow> acquiring \<Rightarrow> front_task \<Rightarrow> front_task action" where
  "front_acquire r q f w =
     do {
       (x, w1) \<leftarrow> do_acquire r q w;
       case x of
         Inr q' \<Rightarrow> Some (f\<lparr>ft_phase := FAcquire q'\<rparr>, w1)
       | Inl (Inl e) \<Rightarrow> front_leave (later 2 r) (Some (admission_reply e)) (f\<lparr>ft_phase := FLeaving\<rparr>) w1
       | Inl (Inr h) \<Rightarrow> Some (f\<lparr>ft_phase := FLook h\<rparr>, w1)
     }"

text \<open>
  The last lookup.  On a hit the reservation is dropped unstarted; otherwise the worker is built and
  takes over the pending entry and the reservation.
\<close>

definition front_look ::
  "gateway_env \<Rightarrow> readings \<Rightarrow> (xkey \<Rightarrow> duration) \<Rightarrow> hold \<Rightarrow> front_task \<Rightarrow> front_task action" where
  "front_look E r clk h f w =
     do {
       ((found, f1), w1) \<leftarrow> front_lookup clk f w;
       case found of
         Some a \<Rightarrow> front_hit r a f1 w1
       | None \<Rightarrow>
           let R = forward_request_of E f1 h in
           Some (f1\<lparr>ft_cache := None, ft_phase := FSpawn R (worker_new R)\<rparr>, w1)
     }"

text \<open>The signals every waiting phase before the worker listens to.\<close>

definition front_signal :: "readings \<Rightarrow> front_event \<Rightarrow> front_task \<Rightarrow> front_task action" where
  "front_signal r ev f w =
     (case ev of
        FrStop \<Rightarrow> front_leave r (Some stopping_reply) f w
      | FrDisconnect \<Rightarrow> front_leave r (Some disconnected_reply) f w
      | FrQueueDeadline \<Rightarrow> front_leave r (Some queue_deadline_reply) f w
      | FrAbort \<Rightarrow> front_leave r None f w
      | _ \<Rightarrow> Some (f, w))"

text \<open>
  One step of the task; \<open>next\<close> names the worker if this step hands it to the supervisor, which is
  the second result.
\<close>

definition front_step ::
  "gateway_env \<Rightarrow> nat \<Rightarrow> readings \<Rightarrow> (xkey \<Rightarrow> duration) \<Rightarrow> front_event \<Rightarrow> front_task
   \<Rightarrow> (front_task \<times> (forward_request \<times> worker) option) action" where
  "front_step E next r clk ev f w =
     (let stay = (\<lambda>x. map_option (\<lambda>(f', w'). ((f', None), w')) x) in
      case ft_phase f of
        FCache \<Rightarrow>
          stay (case ev of FrRun \<Rightarrow> front_cache E r clk f w | FrAbort \<Rightarrow> front_leave r None f w | _ \<Rightarrow> Some (f, w))
      | FCircuit g \<Rightarrow>
          stay (case ev of FrPoll \<Rightarrow> front_circuit r FCircuit g f w | _ \<Rightarrow> front_signal r ev f w)
      | FTurn \<Rightarrow> stay (case ev of FrPoll \<Rightarrow> front_turn r clk f w | _ \<Rightarrow> front_signal r ev f w)
      | FCircuitAgain g \<Rightarrow>
          stay (case ev of FrPoll \<Rightarrow> front_circuit r FCircuitAgain g f w | _ \<Rightarrow> front_signal r ev f w)
      | FAcquire q \<Rightarrow> stay (case ev of FrPoll \<Rightarrow> front_acquire r q f w | _ \<Rightarrow> front_signal r ev f w)
      | FLook h \<Rightarrow> stay (case ev of FrRun \<Rightarrow> front_look E r clk h f w | _ \<Rightarrow> Some (f, w))
      | FSpawn R k \<Rightarrow>
          (case ev of
             FrSpawned \<Rightarrow> Some ((f\<lparr>ft_phase := FHead next\<rparr>, Some (R, k)), w)
           | FrSpawnFailed \<Rightarrow> stay (front_leave r (Some stopping_reply) f w)
           | FrStop \<Rightarrow> stay (front_leave r (Some stopping_reply) f w)
           | FrAbort \<Rightarrow> stay (front_leave r None f w)
           | _ \<Rightarrow> Some ((f, None), w))
      | FHead j \<Rightarrow>
          stay (case ev of
             FrHead x \<Rightarrow> front_leave r (Some (head_reply x)) f w
           | FrDeadline \<Rightarrow> front_leave r (Some (local_error 504 ''upstream_deadline'')) f w
           | FrAbort \<Rightarrow> front_leave r None f w
           | _ \<Rightarrow> Some (f, w))
      | FReplay a \<Rightarrow>
          stay (case ev of
             FrBodyDone \<Rightarrow> front_leave r (ft_reply f) f w
           | FrAbort \<Rightarrow> front_leave r (ft_reply f) f w
           | _ \<Rightarrow> Some (f, w))
      | FLeaving \<Rightarrow> Some ((f, None), w)
      | FDone \<Rightarrow> Some ((f, None), w))"

end
