(* ===== verification/Gateway_World_Facts.thy ===== *)
theory Gateway_World_Facts
  imports Gateway_World
begin

text \<open>
  Every call of a task into the shared state as a triple: what the task must own, what it owns
  afterwards, and that the call does not panic.  The proofs reduce each call to the operation of
  the component's own system, with the task's object at the first position.
\<close>

section \<open>The position of an object does not matter\<close>

lemma granted_ids_mset: "mset C = mset C' \<Longrightarrow> mset (granted_ids C q) = mset (granted_ids C' q)"
proof -
  have "mset (granted_ids C q) = \<Sum>\<^sub># (image_mset (\<lambda>c. mset (case granted_id q (fst c) of None \<Rightarrow> [] | Some i \<Rightarrow> [i])) (mset C))" for C
    by (induction C) (auto simp: granted_ids_def List.map_filter_simps split: option.split)
  then show "mset C = mset C' \<Longrightarrow> ?thesis" by simp
qed

lemma owned_perm: "mset C = mset C' \<Longrightarrow> mset H = mset H' \<Longrightarrow> owned C H q \<Longrightarrow> owned C' H' q"
proof -
  assume m: "mset C = mset C'" "mset H = mset H'" and o: "owned C H q"
  have "mset (map fst H') = mset (map fst H)" using m(2) by simp
  moreover have "set H' = set H" "set C' = set C" using m mset_eq_setD by metis+
  moreover have "distinct (map fst C') = distinct (map fst C)" using m(1) by (intro mset_eq_imp_distinct_iff) simp
  moreover have "mset (granted_ids C' q) = mset (granted_ids C q)" using granted_ids_mset m(1) by metis
  moreover have "set (granted_ids C' q) = set (granted_ids C q)" using calculation(5) by (rule mset_eq_setD)
  ultimately show ?thesis using o unfolding owned_def by simp
qed

lemma sys_inv_perm:
  assumes "sys_inv \<lparr>s_queue = q, s_tickets = ts, s_holds = hs\<rparr>" "mset ts = mset ts'" "mset hs = mset hs'"
  shows "sys_inv \<lparr>s_queue = q, s_tickets = ts', s_holds = hs'\<rparr>"
proof -
  have s: "set ts' = set ts" "set hs' = set hs" using assms(2,3) mset_eq_setD by metis+
  have "mset (ticket_keys ts) = mset (ticket_keys ts')" "mset (hold_keys hs) = mset (hold_keys hs')"
    using assms(2,3) by (simp_all add: keys_defs)
  from owned_perm [OF this] assms(1) s show ?thesis by (simp add: sys_inv_def list_all_iff)
qed

lemma queue_ok_I: "sys_inv s \<Longrightarrow> mset (s_tickets s) = T \<Longrightarrow> mset (s_holds s) = H \<Longrightarrow> queue_ok (fixed (s_queue s)) T H (s_queue s)"
  by (cases s) (auto simp: queue_ok_def)

lemma queue_ok_lists:
  assumes "queue_ok fx (mset ts + T) (mset hs + H) q"
  obtains ts' hs' where "mset ts' = T" "mset hs' = H" "sys_inv \<lparr>s_queue = q, s_tickets = ts @ ts', s_holds = hs @ hs'\<rparr>"
proof -
  obtain ts' hs' where m: "mset ts' = T" "mset hs' = H" using ex_mset by metis
  obtain xs ys where x: "mset xs = mset ts + T" "mset ys = mset hs + H" and i: "sys_inv \<lparr>s_queue = q, s_tickets = xs, s_holds = ys\<rparr>"
    using assms by (auto simp: queue_ok_def)
  show ?thesis by (rule that [OF m sys_inv_perm [OF i]]) (simp_all add: m x)
qed

lemma circuit_inv_perm:
  assumes "circuit_inv \<lparr>k_circuit = c, k_attempts = as, k_waits = ws\<rparr>" "mset as = mset as'" "mset ws = mset ws'"
  shows "circuit_inv \<lparr>k_circuit = c, k_attempts = as', k_waits = ws'\<rparr>"
proof -
  have s: "set as' = set as" using assms(2) mset_eq_setD by metis
  have f: "flights k as' = flights k as" for k
    unfolding flights_def using assms(2) by (metis mset_filter size_mset)
  have "length (filter snd ws') = length (filter snd ws)" using assms(3) by (metis mset_filter size_mset)
  with assms(1) show ?thesis
    unfolding circuit_inv_def entries_ok_def entry_ok_def waiters_ok_def circuit_system.simps s f by metis
qed

lemma breaker_ok_I: "circuit_inv s \<Longrightarrow> mset (k_attempts s) = A \<Longrightarrow> mset (k_waits s) = W \<Longrightarrow> breaker_ok A W (k_circuit s)"
  by (cases s) (auto simp: breaker_ok_def)

lemma breaker_ok_lists:
  assumes "breaker_ok (mset as + A) (mset ws + W) c"
  obtains as' ws' where "mset as' = A" "mset ws' = W" "circuit_inv \<lparr>k_circuit = c, k_attempts = as @ as', k_waits = ws @ ws'\<rparr>"
proof -
  obtain as' ws' where m: "mset as' = A" "mset ws' = W" using ex_mset by metis
  obtain xs ys where x: "mset xs = mset as + A" "mset ys = mset ws + W" and i: "circuit_inv \<lparr>k_circuit = c, k_attempts = xs, k_waits = ys\<rparr>"
    using assms by (auto simp: breaker_ok_def)
  show ?thesis by (rule that [OF m circuit_inv_perm [OF i]]) (simp_all add: m x)
qed

lemma cache_inv_perm:
  assumes "cache_inv n \<lparr>y_cache = c, y_pendings = ps, y_captures = cs, y_replays = rs\<rparr>"
    "mset ps = mset ps'" "mset cs = mset cs'" "mset rs = mset rs'"
  shows "cache_inv n \<lparr>y_cache = c, y_pendings = ps', y_captures = cs', y_replays = rs'\<rparr>"
proof -
  have "set cs' = set cs" "length cs' = length cs" using assms(3) mset_eq_setD mset_eq_length by metis+
  moreover have "mset ps' = mset ps" "mset cs' = mset cs" "mset rs' = mset rs" using assms(2,3,4) by simp_all
  ultimately show ?thesis using assms(1) unfolding cache_inv_def all_pendings_def list_all_iff cache_system.simps by simp
qed

lemma store_books_I:
  "cache_inv n s \<Longrightarrow> mset (y_pendings s) = P \<Longrightarrow> mset (y_captures s) = C \<Longrightarrow> mset (y_replays s) = R \<Longrightarrow>
    store_books n P C R (y_cache s)"
  by (cases s) (auto simp: store_books_def)

lemma store_books_lists:
  assumes "store_books n (mset ps + P) (mset cs + C) (mset rs + R) c"
  obtains ps' cs' rs' where "mset ps' = P" "mset cs' = C" "mset rs' = R"
    "cache_inv n \<lparr>y_cache = c, y_pendings = ps @ ps', y_captures = cs @ cs', y_replays = rs @ rs'\<rparr>"
proof -
  obtain ps' cs' rs' where m: "mset ps' = P" "mset cs' = C" "mset rs' = R" using ex_mset by metis
  obtain xs ys zs where x: "mset xs = mset ps + P" "mset ys = mset cs + C" "mset zs = mset rs + R"
    and i: "cache_inv n \<lparr>y_cache = c, y_pendings = xs, y_captures = ys, y_replays = zs\<rparr>"
    using assms by (auto simp: store_books_def)
  show ?thesis by (rule that [OF m cache_inv_perm [OF i]]) (simp_all add: m x)
qed

section \<open>Calls into one component\<close>

lemma part_image [simp]:
  "(\<And>x. f (g x) = []) \<Longrightarrow> part f (image_mset g X) = {#}"
  "(\<And>x. f (h x) = [x]) \<Longrightarrow> part f (image_mset h Y) = Y"
  by (induction X, simp_all) (induction Y, simp_all)

lemma on_queue_triple:
  assumes "\<And>T H q fx. queue_ok fx (T0 + T) (H0 + H) q \<Longrightarrow>
    holds (f q) (\<lambda>(x, q'). queue_ok fx (T1 x + T) (H1 x + H) q' \<and> P x)"
  shows "gw.triple k (image_mset CTicket T0 + image_mset CHold H0) (on_queue f)
    (\<lambda>x M. M = image_mset CTicket (T1 x) + image_mset CHold (H1 x) \<and> P x)"
proof (unfold gw.triple_def, intro allI impI)
  fix n F w
  assume w: "world_ok n (image_mset CTicket T0 + image_mset CHold H0 + F) w"
  then have "queue_ok (fixed (wd_queue w)) (T0 + part ticket_claim F) (H0 + part hold_claim F) (wd_queue w)" by (simp add: world_ok_def)
  from assms [OF this] obtain x q' where x: "f (wd_queue w) = Some (x, q')" "P x"
    "queue_ok (fixed (wd_queue w)) (T1 x + part ticket_claim F) (H1 x + part hold_claim F) q'" by (auto simp: holds_def)
  have "world_ok (n + k) (image_mset CTicket (T1 x) + image_mset CHold (H1 x) + F) (w\<lparr>wd_queue := q'\<rparr>)"
    using w x(3) store_books_mono [of n _ _ _ _ "n + k"] by (simp add: world_ok_def queue_ok_def)
  with x show "holds (on_queue f w) (\<lambda>(x, w'). \<exists>M'. (M' = image_mset CTicket (T1 x) + image_mset CHold (H1 x) \<and> P x)
      \<and> world_ok (n + k) (M' + F) w')" by (simp add: on_queue_def)
qed

lemma on_circuit_triple:
  assumes "\<And>A W c. breaker_ok (A0 + A) (W0 + W) c \<Longrightarrow>
    holds (f c) (\<lambda>(x, c'). breaker_ok (A1 x + A) (W1 x + W) c' \<and> P x)"
  shows "gw.triple k (image_mset CAttempt A0 + image_mset CWait W0) (on_circuit f)
    (\<lambda>x M. M = image_mset CAttempt (A1 x) + image_mset CWait (W1 x) \<and> P x)"
proof (unfold gw.triple_def, intro allI impI)
  fix n F w
  assume w: "world_ok n (image_mset CAttempt A0 + image_mset CWait W0 + F) w"
  then have "breaker_ok (A0 + part attempt_claim F) (W0 + part wait_claim F) (wd_circuit w)" by (simp add: world_ok_def)
  from assms [OF this] obtain x c' where x: "f (wd_circuit w) = Some (x, c')" "P x"
    "breaker_ok (A1 x + part attempt_claim F) (W1 x + part wait_claim F) c'" by (auto simp: holds_def)
  have "world_ok (n + k) (image_mset CAttempt (A1 x) + image_mset CWait (W1 x) + F) (w\<lparr>wd_circuit := c'\<rparr>)"
    using w x(3) store_books_mono [of n _ _ _ _ "n + k"] by (simp add: world_ok_def)
  with x show "holds (on_circuit f w) (\<lambda>(x, w'). \<exists>M'. (M' = image_mset CAttempt (A1 x) + image_mset CWait (W1 x) \<and> P x)
      \<and> world_ok (n + k) (M' + F) w')" by (simp add: on_circuit_def)
qed

lemma on_cache_triple:
  assumes "\<And>n P C R c. store_books n (P0 + P) (C0 + C) (R0 + R) c \<Longrightarrow> n < u64_max \<Longrightarrow>
    holds (f c) (\<lambda>(x, c'). store_books (Suc n) (P1 x + P) (C1 x + C) (R1 x + R) c')"
  shows "gw.triple (Suc 0) (image_mset CPending P0 + image_mset CCapture C0 + image_mset CReplay R0) (on_cache f)
    (\<lambda>x M. M = image_mset CPending (P1 x) + image_mset CCapture (C1 x) + image_mset CReplay (R1 x))"
proof (unfold gw.triple_def, intro allI impI)
  fix n F w
  assume w: "world_ok n (image_mset CPending P0 + image_mset CCapture C0 + image_mset CReplay R0 + F) w" "n + Suc 0 \<le> u64_max"
  then have "store_books n (P0 + part pending_claim F) (C0 + part capture_claim F) (R0 + part replay_claim F) (wd_cache w)"
    by (simp add: world_ok_def)
  from assms [OF this] w(2) obtain x c' where x: "f (wd_cache w) = Some (x, c')"
    "store_books (Suc n) (P1 x + part pending_claim F) (C1 x + part capture_claim F) (R1 x + part replay_claim F) c'"
    by (auto simp: holds_def)
  have "world_ok (n + Suc 0) (image_mset CPending (P1 x) + image_mset CCapture (C1 x) + image_mset CReplay (R1 x) + F) (w\<lparr>wd_cache := c'\<rparr>)"
    using w x(2) by (simp add: world_ok_def)
  with x show "holds (on_cache f w) (\<lambda>(x, w'). \<exists>M'. M' = image_mset CPending (P1 x) + image_mset CCapture (C1 x) + image_mset CReplay (R1 x)
      \<and> world_ok (n + Suc 0) (M' + F) w')" by (simp add: on_cache_def)
qed

lemma on_metrics_triple: "gw.triple k M (on_metrics f) (\<lambda>_ M'. M' = M)"
  using store_books_mono by (fastforce simp: gw.triple_def on_metrics_def world_ok_def)

section \<open>Reservations\<close>

lemma queue_exec:
  assumes "queue_ok fx (mset ts + T) (mset hs + H) q" "op_ok x"
  obtains ts' hs' s where "mset ts' = T" "mset hs' = H" "sys_inv s" "fixed (s_queue s) = fx"
    "adm_exec L x \<lparr>s_queue = q, s_tickets = ts @ ts', s_holds = hs @ hs'\<rparr> = Some s"
proof -
  obtain ts' hs' where "mset ts' = T" "mset hs' = H" "sys_inv \<lparr>s_queue = q, s_tickets = ts @ ts', s_holds = hs @ hs'\<rparr>"
    using queue_ok_lists [OF assms(1)] .
  moreover from exec_inv [OF this(3) assms(2), of L] obtain s where
    "adm_exec L x \<lparr>s_queue = q, s_tickets = ts @ ts', s_holds = hs @ hs'\<rparr> = Some s" "sys_inv s" by blast
  moreover from exec_fixed [OF calculation(3,4)] assms(1) have "fixed (s_queue s) = fx" by (simp add: queue_ok_def)
  ultimately show ?thesis by (intro that)
qed

lemma hold_start_result: "hold_start t h q = (b, h', q') \<Longrightarrow> b = h_started h'"
  by (auto simp: hold_start_def split: if_splits prod.splits)

lemma queue_ok_after: "sys_inv s \<Longrightarrow> queue_ok (fixed (s_queue s)) (mset (s_tickets s)) (mset (s_holds s)) (s_queue s)"
  by (rule queue_ok_I) simp_all

lemma remove_first [simp]: "remove_at 0 (x # xs) = xs"
  by (simp add: remove_at_def)

lemma queue_hold_exec:
  assumes "queue_ok fx ({#} + T) ({#h#} + H) q" "op_ok x"
  shows "\<exists>ts hs s. mset ts = T \<and> mset hs = H \<and> adm_exec L x \<lparr>s_queue = q, s_tickets = ts, s_holds = h # hs\<rparr> = Some s
    \<and> queue_ok fx (mset (s_tickets s)) (mset (s_holds s)) (s_queue s)"
  using queue_exec [of fx "[]" T "[h]" H q x L] assms queue_ok_after by (metis append_Cons append_Nil mset.simps mset_zero_iff)

lemma queue_ticket_exec:
  assumes "queue_ok fx ({#p#} + T) ({#} + H) q" "op_ok x"
  shows "\<exists>ts hs s. mset ts = T \<and> mset hs = H \<and> adm_exec L x \<lparr>s_queue = q, s_tickets = p # ts, s_holds = hs\<rparr> = Some s
    \<and> queue_ok fx (mset (s_tickets s)) (mset (s_holds s)) (s_queue s)"
  using queue_exec [of fx "[p]" T "[]" H q x L] assms queue_ok_after by (metis append_Cons append_Nil mset.simps mset_zero_iff)

lemma do_hold_start_triple:
  "gw.triple k {#CHold h#} (do_hold_start t h) (\<lambda>x M. M = {#CHold (snd x)#} \<and> fst x = h_started (snd x))"
proof -
  have "holds (case hold_start t h q of (b, h', q') \<Rightarrow> Some ((b, h'), q'))
      (\<lambda>(x, q'). queue_ok fx ({#} + T) ({#snd x#} + H) q' \<and> fst x = h_started (snd x))"
    if "queue_ok fx ({#} + T) ({#h#} + H) q" for T H q fx
  proof -
    obtain b h' q' where e: "hold_start t h q = (b, h', q')" by (metis prod_cases3)
    from queue_hold_exec [OF that, of "OpStart t 0"] e show ?thesis
      by (auto simp: hold_start_result [OF e])
  qed
  from on_queue_triple [of "{#}" "{#h#}" _ "\<lambda>_. {#}" "\<lambda>x. {#snd x#}", OF this] show ?thesis by (simp add: do_hold_start_def)
qed

lemma hold_headers_frame: "h_started (fst (hold_headers L st hm ob t h q)) = h_started h"
  by (auto simp: hold_headers_def Let_def split: option.splits)

lemma do_hold_headers_triple:
  "gw.triple k {#CHold h#} (do_hold_headers L st hm ob t h) (\<lambda>h' M. M = {#CHold h'#} \<and> h_started h' = h_started h)"
proof -
  have "holds (Some (hold_headers L st hm ob t h q)) (\<lambda>(h', q'). queue_ok fx ({#} + T) ({#h'#} + H) q' \<and> h_started h' = h_started h)"
    if "queue_ok fx ({#} + T) ({#h#} + H) q" for T H q fx
  proof -
    obtain h' q' where e: "hold_headers L st hm ob t h q = (h', q')" by (metis surj_pair)
    from queue_hold_exec [OF that, of "OpHeaders st hm ob t 0" L] e show ?thesis
      using hold_headers_frame [of L st hm ob t h q] by auto
  qed
  from on_queue_triple [of "{#}" "{#h#}" _ "\<lambda>_. {#}" "\<lambda>x. {#x#}", OF this] show ?thesis by (simp add: do_hold_headers_def)
qed

lemma do_hold_rejected_triple:
  "gw.triple k {#CHold h#} (do_hold_rejected L j hm b sn t h) (\<lambda>_ M. M = {#CHold h#})"
proof -
  have "holds (map_option (Pair ()) (hold_rejected L j hm b sn t h q)) (\<lambda>(_, q'). queue_ok fx ({#} + T) ({#h#} + H) q' \<and> True)"
    if "queue_ok fx ({#} + T) ({#h#} + H) q" for T H q fx
    using queue_hold_exec [OF that, of "OpRejected j hm b sn t 0" L]
    by (cases "hold_rejected L j hm b sn t h q") auto
  from on_queue_triple [of "{#}" "{#h#}" _ "\<lambda>_. {#}" "\<lambda>_. {#h#}", OF this] show ?thesis by (simp add: do_hold_rejected_def)
qed

lemma do_hold_drop_triple: "gw.triple k {#CHold h#} (do_hold_drop t h) (\<lambda>_ M. M = {#})"
proof -
  have "holds (Some ((), hold_drop t h q)) (\<lambda>(_, q'). queue_ok fx ({#} + T) ({#} + H) q' \<and> True)"
    if "queue_ok fx ({#} + T) ({#h#} + H) q" for T H q fx
    using queue_hold_exec [OF that, of "OpDropHold t 0" undefined] by auto
  from on_queue_triple [of "{#}" "{#h#}" _ "\<lambda>_. {#}" "\<lambda>_. {#}", OF this] show ?thesis by (simp add: do_hold_drop_def)
qed

lemma hold_usage_triple: "gw.triple k {#CHold h#} (\<lambda>w. Some (hold_usage u h, w)) (\<lambda>h' M. M = {#CHold h'#} \<and> h' = hold_usage u h)"
proof -
  have "holds (Some (hold_usage u h, q)) (\<lambda>(h', q'). queue_ok fx ({#} + T) ({#h'#} + H) q' \<and> h' = hold_usage u h)"
    if "queue_ok fx ({#} + T) ({#h#} + H) q" for T H q fx
    using queue_hold_exec [OF that, of "OpUsage u 0"] by auto
  from on_queue_triple [of "{#}" "{#h#}" "\<lambda>q. Some (hold_usage u h, q)" "\<lambda>_. {#}" "\<lambda>x. {#x#}", OF this]
  have "gw.triple k {#CHold h#} (on_queue (\<lambda>q. Some (hold_usage u h, q))) (\<lambda>h' M. M = {#CHold h'#} \<and> h' = hold_usage u h)" by simp
  moreover have "on_queue (\<lambda>q. Some (hold_usage u h, q)) = (\<lambda>w. Some (hold_usage u h, w))" by (rule ext) (simp add: on_queue_def)
  ultimately show ?thesis by simp
qed

text \<open>The reservation of a task is sound: it can be retried.\<close>

definition args_ok :: "acquire_args \<Rightarrow> bool" where
  "args_ok a = (cost_ok (aa_cost a) \<and> in_time (aa_now a) (aa_deadline a))"

lemma world_hold_ok: "world_ok n (add_mset (CHold h) F) w \<Longrightarrow> args_ok (retry_args h)"
proof -
  assume "world_ok n (add_mset (CHold h) F) w"
  then have "queue_ok (fixed (wd_queue w)) (mset [] + part ticket_claim F) (mset [h] + part hold_claim F) (wd_queue w)" by (simp add: world_ok_def)
  then obtain ts hs where "sys_inv \<lparr>s_queue = wd_queue w, s_tickets = [] @ ts, s_holds = [h] @ hs\<rparr>"
    using queue_ok_lists by metis
  then show ?thesis by (simp add: sys_inv_def hold_ok_def args_ok_def retry_args_def)
qed

text \<open>What is known of an owned reservation may be used.\<close>

lemma triple_hold_ok:
  assumes h: "CHold h \<in># M" and t: "args_ok (retry_args h) \<Longrightarrow> gw.triple k M f Q"
  shows "gw.triple k M f Q"
proof (unfold gw.triple_def, intro allI impI)
  fix n F w
  assume w: "world_ok n (M + F) w" "n + k \<le> u64_max"
  from h obtain N where "M = add_mset (CHold h) N" by (metis multi_member_split)
  with w(1) world_hold_ok [of n h "N + F" w] have "args_ok (retry_args h)" by simp
  from t [OF this] w show "holds (f w) (\<lambda>(x, w'). \<exists>M'. Q x M' \<and> world_ok (n + k) (M' + F) w')"
    unfolding gw.triple_def by blast
qed

section \<open>Waiting for a reservation\<close>

fun acquiring_claims :: "acquiring \<Rightarrow> claim multiset" where
  "acquiring_claims (Fresh a) = {#}"
| "acquiring_claims (Queued p) = {#CTicket p#}"

fun acquiring_ok :: "acquiring \<Rightarrow> bool" where
  "acquiring_ok (Fresh a) = args_ok a"
| "acquiring_ok (Queued p) = True"

fun acquired_claims :: "(acquire_error + hold) + acquiring \<Rightarrow> claim multiset" where
  "acquired_claims (Inl (Inl e)) = {#}"
| "acquired_claims (Inl (Inr h)) = {#CHold h#}"
| "acquired_claims (Inr q) = acquiring_claims q"

fun acquired_ok :: "(acquire_error + hold) + acquiring \<Rightarrow> bool" where
  "acquired_ok (Inl (Inr h)) = (\<not> h_started h)"
| "acquired_ok (Inr q) = acquiring_ok q"
| "acquired_ok _ = True"

lemma do_acquire_triple:
  assumes "acquiring_ok q"
  shows "gw.triple k (acquiring_claims q) (do_acquire r q) (\<lambda>x M. M = acquired_claims x \<and> acquired_ok x)"
proof (cases q)
  case (Fresh a)
  let ?f = "\<lambda>q. map_option (\<lambda>(x, q'). (case x of Inl e \<Rightarrow> Inl (Inl e) | Inr cell \<Rightarrow> Inr (Queued (ticket_for a cell)), q'))
       (acquire_enqueue (r 0) (r 1) (aa_root a) (aa_cost a) (aa_now a) (aa_deadline a) q)"
  let ?T = "\<lambda>x. case x of Inr (Queued p) \<Rightarrow> {#p#} | _ \<Rightarrow> {#}"
  let ?P = "\<lambda>x. (case x of Inl (Inr h) \<Rightarrow> False | Inr (Fresh _) \<Rightarrow> False | _ \<Rightarrow> True)"
  have "holds (?f q) (\<lambda>(x, q'). queue_ok fx (?T x + T) ({#} + H) q' \<and> ?P x)" if qo: "queue_ok fx ({#} + T) ({#} + H) q" for T H q fx
  proof -
    obtain ts hs where m: "mset ts = T" "mset hs = H" "sys_inv \<lparr>s_queue = q, s_tickets = ts, s_holds = hs\<rparr>"
      using qo by (auto simp: queue_ok_def)
    from sys_inv_acquired [OF m(3), of "aa_cost a" "aa_now a" "aa_deadline a" "aa_root a" "aa_endpoint a" "r 0" "r 1"]
      assms Fresh
    obtain x q' where e: "acquire_enqueue (r 0) (r 1) (aa_root a) (aa_cost a) (aa_now a) (aa_deadline a) q = Some (x, q')"
      "sys_inv (enlist (aa_root a) (aa_cost a) (aa_endpoint a) (aa_now a) (aa_deadline a) \<lparr>s_queue = q, s_tickets = ts, s_holds = hs\<rparr> (x, q'))"
      by (auto simp: args_ok_def)
    have "fixed q' = fx"
      using fixed_acquire [OF _ e(1)] sys_inv_queueD [OF m(3)] qo by (simp add: queue_ok_def)
    with queue_ok_after [OF e(2)] m e(1) show ?thesis by (cases x) (auto simp: enlist_def ticket_for_def)
  qed
  from on_queue_triple [of "{#}" "{#}" ?f ?T "\<lambda>_. {#}", OF this] Fresh
  have "gw.triple k (acquiring_claims q) (do_acquire r q) (\<lambda>x M. M = image_mset CTicket (?T x) + {#} \<and> ?P x)" by simp
  then show ?thesis by (rule gw.triple_weaken) (auto split: sum.splits acquiring.splits)
next
  case (Queued p)
  let ?f = "\<lambda>q. map_option (\<lambda>(out, _, q').
         (case out of None \<Rightarrow> Inr (Queued p) | Some (Inl e) \<Rightarrow> Inl (Inl e) | Some (Inr i) \<Rightarrow> Inl (Inr (granted_hold p i)), q'))
       (acquire_poll (r 0) (t_result (p_ticket p)) q)"
  let ?T = "\<lambda>x. case x of Inr _ \<Rightarrow> {#p#} | _ \<Rightarrow> {#}" and ?H = "\<lambda>x. case x of Inl (Inr h) \<Rightarrow> {#h#} | _ \<Rightarrow> {#}"
  let ?P = "\<lambda>x. (case x of Inl (Inr h) \<Rightarrow> \<not> h_started h | Inr y \<Rightarrow> y = Queued p | _ \<Rightarrow> True)"
  have "holds (?f q) (\<lambda>(x, q'). queue_ok fx (?T x + T) (?H x + H) q' \<and> ?P x)" if qo: "queue_ok fx ({#p#} + T) ({#} + H) q" for T H q fx
  proof -
    have ok: "op_ok (OpPoll (r 0) 0)" by simp
    obtain ts hs s where m: "mset ts = T" "mset hs = H" "queue_ok fx (mset (s_tickets s)) (mset (s_holds s)) (s_queue s)"
      "adm_exec undefined (OpPoll (r 0) 0) \<lparr>s_queue = q, s_tickets = p # ts, s_holds = hs\<rparr> = Some s"
      using queue_ticket_exec [OF qo ok] by blast
    from m(4) obtain out wake q' where e: "acquire_poll (r 0) (t_result (p_ticket p)) q = Some (out, wake, q')"
      "s = resolve 0 out \<lparr>s_queue = q', s_tickets = p # ts, s_holds = hs\<rparr>"
      by (cases "acquire_poll (r 0) (t_result (p_ticket p)) q") auto
    show ?thesis
    proof (cases out)
      case None
      with m e show ?thesis by (simp add: resolve_def)
    next
      case (Some o')
      with m e show ?thesis by (cases o') (simp_all add: resolve_def granted_hold_def hold_new_def)
    qed
  qed
  from on_queue_triple [of "{#p#}" "{#}" ?f ?T ?H, OF this] Queued
  have "gw.triple k (acquiring_claims q) (do_acquire r q) (\<lambda>x M. M = image_mset CTicket (?T x) + image_mset CHold (?H x) \<and> ?P x)" by simp
  then show ?thesis by (rule gw.triple_weaken) (auto split: sum.splits)
qed

lemma do_acquire_drop_triple: "gw.triple k (acquiring_claims q) (do_acquire_drop t q) (\<lambda>_ M. M = {#})"
proof (cases q)
  case (Queued p)
  have "holds (map_option (Pair ()) (ticket_drop t (p_ticket p) q)) (\<lambda>(_, q'). queue_ok fx ({#} + T) ({#} + H) q' \<and> True)"
    if "queue_ok fx ({#p#} + T) ({#} + H) q" for T H q fx
    using queue_ticket_exec [OF that, of "OpDropTicket t 0" undefined] by (cases "ticket_drop t (p_ticket p) q") auto
  from on_queue_triple [of "{#p#}" "{#}" _ "\<lambda>_. {#}" "\<lambda>_. {#}", OF this] Queued show ?thesis by simp
qed (simp add: gw.triple_return)

section \<open>Circuit attempts\<close>

lemma breaker_exec:
  assumes "breaker_ok (mset as + A) (mset ws + W) c" "\<And>xs. mset (iter xs) = mset xs"
  shows "\<exists>as' ws' s. mset as' = A \<and> mset ws' = W
    \<and> circuit_exec L iter x \<lparr>k_circuit = c, k_attempts = as @ as', k_waits = ws @ ws'\<rparr> = Some s
    \<and> breaker_ok (mset (k_attempts s)) (mset (k_waits s)) (k_circuit s)"
proof -
  obtain as' ws' where m: "mset as' = A" "mset ws' = W" "circuit_inv \<lparr>k_circuit = c, k_attempts = as @ as', k_waits = ws @ ws'\<rparr>"
    using breaker_ok_lists [OF assms(1)] .
  from circuit_exec_inv [OF m(3) assms(2), of L x] obtain s where
    "circuit_exec L iter x \<lparr>k_circuit = c, k_attempts = as @ as', k_waits = ws @ ws'\<rparr> = Some s" "circuit_inv s" by blast
  with m breaker_ok_I [of s] show ?thesis by blast
qed

lemma breaker_attempt_exec:
  assumes "breaker_ok ({#a#} + A) ({#} + W) c"
  shows "\<exists>as ws s. mset as = A \<and> mset ws = W
    \<and> circuit_exec L id x \<lparr>k_circuit = c, k_attempts = a # as, k_waits = ws\<rparr> = Some s
    \<and> breaker_ok (mset (k_attempts s)) (mset (k_waits s)) (k_circuit s)"
  using breaker_exec [of "[a]" A "[]" W c id L x] assms by auto

lemma breaker_wait_exec:
  assumes "breaker_ok ({#} + A) ({#y#} + W) c"
  shows "\<exists>as ws s. mset as = A \<and> mset ws = W
    \<and> circuit_exec L id x \<lparr>k_circuit = c, k_attempts = as, k_waits = y # ws\<rparr> = Some s
    \<and> breaker_ok (mset (k_attempts s)) (mset (k_waits s)) (k_circuit s)"
  using breaker_exec [of "[]" A "[y]" W c id L x] assms by auto

fun started_claims :: "open_error + attempt \<Rightarrow> claim multiset" where
  "started_claims (Inl e) = {#}"
| "started_claims (Inr a) = {#CAttempt a#}"

lemma do_scope_start_triple:
  assumes it: "\<And>xs. mset (iter xs) = mset xs"
  shows "gw.triple k {#} (do_scope_start iter r key) (\<lambda>x M. M = started_claims x)"
proof -
  let ?A = "\<lambda>x. case x of Inl _ \<Rightarrow> {#} | Inr a \<Rightarrow> {#a#}"
  have "holds (Some (scope_start iter (r 0) (r 1) (r 2) key c)) (\<lambda>(x, c'). breaker_ok (?A x + A) ({#} + W) c' \<and> True)"
    if b: "breaker_ok ({#} + A) ({#} + W) c" for A W c
  proof -
    obtain x c' where e: "scope_start iter (r 0) (r 1) (r 2) key c = (x, c')" by (metis surj_pair)
    have b': "breaker_ok (mset [] + A) (mset [] + W) c" using b by simp
    from breaker_exec [OF b' it, of undefined "KStart (r 0) (r 1) (r 2) key"] e show ?thesis by (cases x) auto
  qed
  from on_circuit_triple [of "{#}" "{#}" _ ?A "\<lambda>_. {#}", OF this]
  have "gw.triple k {#} (do_scope_start iter r key) (\<lambda>x M. M = image_mset CAttempt (?A x) + {#} \<and> True)"
    by (simp add: do_scope_start_def)
  then show ?thesis by (rule gw.triple_weaken) (auto split: sum.splits)
qed

lemma attempt_update_triple:
  assumes "\<And>A W c. breaker_ok ({#a#} + A) ({#} + W) c \<Longrightarrow> \<exists>a' c'. f c = Some (a', c') \<and> breaker_ok ({#a'#} + A) ({#} + W) c'"
  shows "gw.triple k {#CAttempt a#} (on_circuit f) (\<lambda>a' M. M = {#CAttempt a'#})"
proof -
  have "holds (f c) (\<lambda>(a', c'). breaker_ok ({#a'#} + A) ({#} + W) c' \<and> True)" if "breaker_ok ({#a#} + A) ({#} + W) c" for A W c
    using assms [OF that] by (auto simp: holds_def)
  from on_circuit_triple [of "{#a#}" "{#}" f "\<lambda>x. {#x#}" "\<lambda>_. {#}", OF this] show ?thesis by simp
qed

lemma attempt_end_triple:
  assumes "\<And>A W c. breaker_ok ({#a#} + A) ({#} + W) c \<Longrightarrow> \<exists>c'. f c = Some c' \<and> breaker_ok A W c'"
  shows "gw.triple k {#CAttempt a#} (on_circuit (\<lambda>c. map_option (Pair ()) (f c))) (\<lambda>_ M. M = {#})"
proof -
  have "holds (map_option (Pair ()) (f c)) (\<lambda>(_, c'). breaker_ok ({#} + A) ({#} + W) c' \<and> True)"
    if "breaker_ok ({#a#} + A) ({#} + W) c" for A W c
    using assms [OF that] by (auto simp: holds_def)
  from on_circuit_triple [of "{#a#}" "{#}" _ "\<lambda>_. {#}" "\<lambda>_. {#}", OF this] show ?thesis by simp
qed

lemma do_attempt_failure_triple: "gw.triple k {#CAttempt a#} (do_attempt_failure r d a) (\<lambda>a' M. M = {#CAttempt a'#})"
  unfolding do_attempt_failure_def
proof (rule attempt_update_triple)
  fix A W c
  assume "breaker_ok ({#a#} + A) ({#} + W) c"
  from breaker_attempt_exec [OF this, of undefined "KFailure (r 0) (r 1) (r 2) (r 3) d 0"]
  show "\<exists>a' c'. attempt_failure (r 0) (r 1) (r 2) (r 3) d a c = Some (a', c') \<and> breaker_ok ({#a'#} + A) ({#} + W) c'"
    by (cases "attempt_failure (r 0) (r 1) (r 2) (r 3) d a c") auto
qed

lemma do_attempt_headers_triple: "gw.triple k {#CAttempt a#} (do_attempt_headers L st hm r a) (\<lambda>a' M. M = {#CAttempt a'#})"
  unfolding do_attempt_headers_def
proof (rule attempt_update_triple)
  fix A W c
  assume "breaker_ok ({#a#} + A) ({#} + W) c"
  from breaker_attempt_exec [OF this, of L "KHeaders st hm (r 0) (r 1) (r 2) (r 3) (r 4) (r 5) 0"]
  show "\<exists>a' c'. attempt_headers L st hm (r 0) (r 1) (r 2) (r 3) (r 4) (r 5) a c = Some (a', c') \<and> breaker_ok ({#a'#} + A) ({#} + W) c'"
    by (cases "attempt_headers L st hm (r 0) (r 1) (r 2) (r 3) (r 4) (r 5) a c") auto
qed

lemma do_attempt_complete_triple: "gw.triple k {#CAttempt a#} (do_attempt_complete r a) (\<lambda>_ M. M = {#})"
  unfolding do_attempt_complete_def
proof (rule attempt_end_triple)
  fix A W c
  assume "breaker_ok ({#a#} + A) ({#} + W) c"
  from breaker_attempt_exec [OF this, of undefined "KComplete (r 0) (r 1) (r 2) (r 3) (r 4) 0"]
  show "\<exists>c'. attempt_complete (r 0) (r 1) (r 2) (r 3) (r 4) a c = Some c' \<and> breaker_ok A W c'"
    by (cases "attempt_complete (r 0) (r 1) (r 2) (r 3) (r 4) a c") auto
qed

lemma do_attempt_drop_triple: "gw.triple k {#CAttempt a#} (do_attempt_drop t a) (\<lambda>_ M. M = {#})"
  unfolding do_attempt_drop_def
proof (rule attempt_end_triple)
  fix A W c
  assume "breaker_ok ({#a#} + A) ({#} + W) c"
  from breaker_attempt_exec [OF this, of undefined "KDrop t 0"]
  show "\<exists>c'. attempt_drop t a c = Some c' \<and> breaker_ok A W c'" by (cases "attempt_drop t a c") auto
qed

section \<open>Waiting for a circuit probe\<close>

fun watch_claims :: "ckey \<Rightarrow> wait_outcome \<Rightarrow> claim multiset" where
  "watch_claims key (WaitAgain g) = {#CWait (key, g)#}"
| "watch_claims key _ = {#}"

lemma do_scope_wait_triple: "gw.triple k {#CWait (key, g)#} (do_scope_wait t key g) (\<lambda>x M. M = watch_claims key x)"
proof -
  let ?W = "\<lambda>x. case x of WaitAgain g' \<Rightarrow> {#(key, g')#} | _ \<Rightarrow> {#}"
  have "holds (scope_wait t key g c) (\<lambda>(x, c'). breaker_ok ({#} + A) (?W x + W) c' \<and> True)"
    if b: "breaker_ok ({#} + A) ({#(key, g)#} + W) c" for A W c
  proof -
    from breaker_wait_exec [OF b, of undefined "KPoll t 0"] obtain x c' where "scope_wait t key g c = Some (x, c')"
      by (cases "scope_wait t key g c") auto
    with breaker_wait_exec [OF b, of undefined "KPoll t 0"] show ?thesis by (cases x) auto
  qed
  from on_circuit_triple [of "{#}" "{#(key, g)#}" _ "\<lambda>_. {#}" ?W, OF this]
  have "gw.triple k {#CWait (key, g)#} (do_scope_wait t key g) (\<lambda>x M. M = {#} + image_mset CWait (?W x) \<and> True)"
    by (simp add: do_scope_wait_def)
  then show ?thesis by (rule gw.triple_weaken) (auto split: wait_outcome.splits)
qed

lemma do_waiter_drop_triple: "gw.triple k {#CWait (key, g)#} (do_waiter_drop g) (\<lambda>_ M. M = {#})"
proof -
  have "holds (map_option (Pair ()) (drop_waiter g c)) (\<lambda>(_, c'). breaker_ok ({#} + A) ({#} + W) c' \<and> True)"
    if b: "breaker_ok ({#} + A) ({#(key, g)#} + W) c" for A W c
    using breaker_wait_exec [OF b, of undefined "KCancel 0"] by (cases "drop_waiter g c") auto
  from on_circuit_triple [of "{#}" "{#(key, g)#}" _ "\<lambda>_. {#}" "\<lambda>_. {#}", OF this] show ?thesis by (simp add: do_waiter_drop_def)
qed

text \<open>A call that has not looked at the gate yet owns nothing, so it may be started at any time.\<close>

lemma world_wait: "world_ok n M w \<Longrightarrow> world_ok n (add_mset (CWait (key, False)) M) w"
proof -
  assume w: "world_ok n M w"
  then have "breaker_ok (mset [] + part attempt_claim M) (mset [] + part wait_claim M) (wd_circuit w)" by (simp add: world_ok_def)
  then have "breaker_ok (part attempt_claim M) (add_mset (key, False) (part wait_claim M)) (wd_circuit w)"
    using breaker_exec [of "[]" _ "[]" _ "wd_circuit w" id undefined "KWait key"] by fastforce
  with w show ?thesis by (simp add: world_ok_def)
qed

lemma triple_wait: "gw.triple k (add_mset (CWait (key, False)) M) f Q \<Longrightarrow> gw.triple k M f Q"
proof (unfold gw.triple_def, intro allI impI)
  fix n F w
  assume t: "\<forall>n F w. world_ok n (add_mset (CWait (key, False)) M + F) w \<longrightarrow> n + k \<le> u64_max \<longrightarrow>
      holds (f w) (\<lambda>(x, w'). \<exists>M'. Q x M' \<and> world_ok (n + k) (M' + F) w')"
    and w: "world_ok n (M + F) w" "n + k \<le> u64_max"
  from world_wait [OF w(1), of key] have "world_ok n (add_mset (CWait (key, False)) M + F) w" by simp
  with t w(2) show "holds (f w) (\<lambda>(x, w'). \<exists>M'. Q x M' \<and> world_ok (n + k) (M' + F) w')" by blast
qed

section \<open>The response cache\<close>

lemma store_exec:
  assumes "store_books n (mset ps + P) (mset cs + C) (mset rs + R) c" "n < u64_max" "\<And>xs. mset (ce_iter E xs) = mset xs"
  shows "\<exists>ps' cs' rs' s. mset ps' = P \<and> mset cs' = C \<and> mset rs' = R
    \<and> cache_exec E x \<lparr>y_cache = c, y_pendings = ps @ ps', y_captures = cs @ cs', y_replays = rs @ rs'\<rparr> = Some s
    \<and> store_books (Suc n) (mset (y_pendings s)) (mset (y_captures s)) (mset (y_replays s)) (y_cache s)"
proof -
  obtain ps' cs' rs' where m: "mset ps' = P" "mset cs' = C" "mset rs' = R"
    "cache_inv n \<lparr>y_cache = c, y_pendings = ps @ ps', y_captures = cs @ cs', y_replays = rs @ rs'\<rparr>"
    using store_books_lists [OF assms(1)] .
  from cache_exec_inv [OF m(4) assms(2,3), of x] obtain s where
    "cache_exec E x \<lparr>y_cache = c, y_pendings = ps @ ps', y_captures = cs @ cs', y_replays = rs @ rs'\<rparr> = Some s" "cache_inv (Suc n) s"
    by (auto simp: holds_def)
  with m store_books_I [of "Suc n" s] show ?thesis by blast
qed

definition cache_libs :: "http_libs \<Rightarrow> (string \<Rightarrow> xkey) \<Rightarrow> map_order \<Rightarrow> cache_env" where
  "cache_libs L sha iter = \<lparr>ce_libs = L, ce_sha256 = sha, ce_iter = iter\<rparr>"

lemma cache_libs_simps [simp]: "ce_libs (cache_libs L sha iter) = L" "ce_sha256 (cache_libs L sha iter) = sha" "ce_iter (cache_libs L sha iter) = iter"
  by (simp_all add: cache_libs_def)

lemma store_pending_exec:
  assumes "store_books n ({#p#} + P) ({#} + C) ({#} + R) c" "n < u64_max" "\<And>xs. mset (iter xs) = mset xs"
  shows "\<exists>ps cs rs s. mset ps = P \<and> mset cs = C \<and> mset rs = R
    \<and> cache_exec (cache_libs L sha iter) x \<lparr>y_cache = c, y_pendings = p # ps, y_captures = cs, y_replays = rs\<rparr> = Some s
    \<and> store_books (Suc n) (mset (y_pendings s)) (mset (y_captures s)) (mset (y_replays s)) (y_cache s)"
  using store_exec [of n "[p]" P "[]" C "[]" R c "cache_libs L sha iter" x] assms by auto

lemma store_capture_exec:
  assumes "store_books n ({#} + P) ({#cp#} + C) ({#} + R) c" "n < u64_max" "\<And>xs. mset (iter xs) = mset xs"
  shows "\<exists>ps cs rs s. mset ps = P \<and> mset cs = C \<and> mset rs = R
    \<and> cache_exec (cache_libs L sha iter) x \<lparr>y_cache = c, y_pendings = ps, y_captures = cp # cs, y_replays = rs\<rparr> = Some s
    \<and> store_books (Suc n) (mset (y_pendings s)) (mset (y_captures s)) (mset (y_replays s)) (y_cache s)"
  using store_exec [of n "[]" P "[cp]" C "[]" R c "cache_libs L sha iter" x] assms by auto

lemma id_perm: "mset (id xs) = mset xs"
  by simp

fun replay_claims :: "nat option \<Rightarrow> claim multiset" where
  "replay_claims None = {#}"
| "replay_claims (Some a) = {#CReplay a#}"

lemma do_lookup_triple:
  "gw.triple (Suc 0) {#CPending p#} (do_lookup clk p) (\<lambda>x M. M = add_mset (CPending (snd x)) (replay_claims (fst x)))"
proof -
  let ?f = "\<lambda>c. map_option (\<lambda>(found, p', c'). ((found, p'), c')) (lookup_in clk p c)"
  let ?R = "\<lambda>x. case fst x of None \<Rightarrow> {#} | Some a \<Rightarrow> {#a#}"
  have "holds (?f c) (\<lambda>(x, c'). store_books (Suc n) ({#snd x#} + P) ({#} + C) (?R x + R) c')"
    if b: "store_books n ({#p#} + P) ({#} + C) ({#} + R) c" "n < u64_max" for n P C R c
    using store_pending_exec [OF b id_perm, of undefined undefined "XLookup clk 0"]
    by (cases "lookup_in clk p c") (auto split: option.splits)
  from on_cache_triple [of "{#p#}" "{#}" "{#}" ?f "\<lambda>x. {#snd x#}" "\<lambda>_. {#}" ?R, OF this]
  have "gw.triple (Suc 0) {#CPending p#} (do_lookup clk p) (\<lambda>x M. M = {#CPending (snd x)#} + {#} + image_mset CReplay (?R x))"
    by (simp add: do_lookup_def)
  then show ?thesis by (rule gw.triple_weaken) (auto split: option.splits)
qed

fun turn_claims :: "turn \<Rightarrow> claim multiset" where
  "turn_claims (TurnHit a) = {#CReplay a#}"
| "turn_claims _ = {#}"

lemma do_turn_triple:
  "gw.triple (Suc 0) {#CPending p#} (do_turn clk p) (\<lambda>x M. M = add_mset (CPending (snd x)) (turn_claims (fst x)))"
proof -
  let ?f = "\<lambda>c. map_option (\<lambda>(x, p', c'). ((x, p'), c')) (wait_turn clk p c)"
  let ?R = "\<lambda>x. case fst x of TurnHit a \<Rightarrow> {#a#} | _ \<Rightarrow> {#}"
  have "holds (?f c) (\<lambda>(x, c'). store_books (Suc n) ({#snd x#} + P) ({#} + C) (?R x + R) c')"
    if b: "store_books n ({#p#} + P) ({#} + C) ({#} + R) c" "n < u64_max" for n P C R c
    using store_pending_exec [OF b id_perm, of undefined undefined "XTurn clk 0"]
    by (cases "wait_turn clk p c") (auto split: turn.splits)
  from on_cache_triple [of "{#p#}" "{#}" "{#}" ?f "\<lambda>x. {#snd x#}" "\<lambda>_. {#}" ?R, OF this]
  have "gw.triple (Suc 0) {#CPending p#} (do_turn clk p) (\<lambda>x M. M = {#CPending (snd x)#} + {#} + image_mset CReplay (?R x))"
    by (simp add: do_turn_def)
  then show ?thesis by (rule gw.triple_weaken) (auto split: turn.splits)
qed

lemma pending_end_triple:
  assumes "\<And>n P C R c. store_books n ({#p#} + P) ({#} + C) ({#} + R) c \<Longrightarrow> n < u64_max \<Longrightarrow>
    \<exists>c'. f c = Some c' \<and> store_books (Suc n) P C R c'"
  shows "gw.triple (Suc 0) {#CPending p#} (on_cache (\<lambda>c. map_option (Pair ()) (f c))) (\<lambda>_ M. M = {#})"
proof -
  have "holds (map_option (Pair ()) (f c)) (\<lambda>(_, c'). store_books (Suc n) ({#} + P) ({#} + C) ({#} + R) c')"
    if "store_books n ({#p#} + P) ({#} + C) ({#} + R) c" "n < u64_max" for n P C R c
    using assms [OF that] by (auto simp: holds_def)
  from on_cache_triple [of "{#p#}" "{#}" "{#}" _ "\<lambda>_. {#}" "\<lambda>_. {#}" "\<lambda>_. {#}", OF this] show ?thesis by simp
qed

lemma do_pending_drop_triple: "gw.triple (Suc 0) {#CPending p#} (do_pending_drop p) (\<lambda>_ M. M = {#})"
  unfolding do_pending_drop_def
proof (rule pending_end_triple)
  fix n P C R c
  assume b: "store_books n ({#p#} + P) ({#} + C) ({#} + R) c" "n < u64_max"
  from store_pending_exec [OF b id_perm, of undefined undefined "XDropPending 0"]
  show "\<exists>c'. pending_drop p c = Some c' \<and> store_books (Suc n) P C R c'" by (cases "pending_drop p c") auto
qed

lemma do_reject_status_triple: "gw.triple (Suc 0) {#CPending p#} (do_reject_status p) (\<lambda>_ M. M = {#})"
  unfolding do_reject_status_def
proof (rule pending_end_triple)
  fix n P C R c
  assume b: "store_books n ({#p#} + P) ({#} + C) ({#} + R) c" "n < u64_max"
  from store_pending_exec [OF b id_perm, of undefined undefined "XReject 0"]
  show "\<exists>c'. reject_status p c = Some c' \<and> store_books (Suc n) P C R c'" by (cases "reject_status p c") auto
qed

fun capture_claims :: "capture option \<Rightarrow> claim multiset" where
  "capture_claims None = {#}"
| "capture_claims (Some cp) = {#CCapture cp#}"

lemma do_capture_triple:
  assumes it: "\<And>xs. mset (iter xs) = mset xs"
  shows "gw.triple (Suc 0) {#CPending p#} (do_capture L iter st orig fwd p) (\<lambda>x M. M = capture_claims x)"
proof -
  let ?C = "\<lambda>x. case x of None \<Rightarrow> {#} | Some cp \<Rightarrow> {#cp#}"
  have "holds (cache_capture L iter st orig fwd p c) (\<lambda>(x, c'). store_books (Suc n) ({#} + P) (?C x + C) ({#} + R) c')"
    if b: "store_books n ({#p#} + P) ({#} + C) ({#} + R) c" "n < u64_max" for n P C R c
    using store_pending_exec [OF b it, of L undefined "XCapture st orig fwd 0"]
    by (cases "cache_capture L iter st orig fwd p c") (auto split: option.splits)
  from on_cache_triple [of "{#p#}" "{#}" "{#}" _ "\<lambda>_. {#}" ?C "\<lambda>_. {#}", OF this]
  have "gw.triple (Suc 0) {#CPending p#} (do_capture L iter st orig fwd p) (\<lambda>x M. M = {#} + image_mset CCapture (?C x) + {#})"
    by (simp add: do_capture_def)
  then show ?thesis by (rule gw.triple_weaken) (auto split: option.splits)
qed

lemma do_observe_triple: "gw.triple (Suc 0) {#CCapture cp#} (do_observe bytes cp) (\<lambda>x M. M = {#CCapture (snd x)#})"
proof -
  let ?f = "\<lambda>c. map_option (\<lambda>(b, cp', c'). ((b, cp'), c')) (capture_observe bytes cp c)"
  have "holds (?f c) (\<lambda>(x, c'). store_books (Suc n) ({#} + P) ({#snd x#} + C) ({#} + R) c')"
    if b: "store_books n ({#} + P) ({#cp#} + C) ({#} + R) c" "n < u64_max" for n P C R c
    using store_capture_exec [OF b id_perm, of undefined undefined "XObserve bytes 0"]
    by (cases "capture_observe bytes cp c") auto
  from on_cache_triple [of "{#}" "{#cp#}" "{#}" ?f "\<lambda>_. {#}" "\<lambda>x. {#snd x#}" "\<lambda>_. {#}", OF this] show ?thesis
    by (simp add: do_observe_def)
qed

lemma capture_end_triple:
  assumes "\<And>n P C R c. store_books n ({#} + P) ({#cp#} + C) ({#} + R) c \<Longrightarrow> n < u64_max \<Longrightarrow>
    \<exists>c'. f c = Some c' \<and> store_books (Suc n) P C R c'"
  shows "gw.triple (Suc 0) {#CCapture cp#} (on_cache (\<lambda>c. map_option (Pair ()) (f c))) (\<lambda>_ M. M = {#})"
proof -
  have "holds (map_option (Pair ()) (f c)) (\<lambda>(_, c'). store_books (Suc n) ({#} + P) ({#} + C) ({#} + R) c')"
    if "store_books n ({#} + P) ({#cp#} + C) ({#} + R) c" "n < u64_max" for n P C R c
    using assms [OF that] by (auto simp: holds_def)
  from on_cache_triple [of "{#}" "{#cp#}" "{#}" _ "\<lambda>_. {#}" "\<lambda>_. {#}" "\<lambda>_. {#}", OF this] show ?thesis by simp
qed

lemma do_capture_drop_triple: "gw.triple (Suc 0) {#CCapture cp#} (do_capture_drop cp) (\<lambda>_ M. M = {#})"
  unfolding do_capture_drop_def
proof (rule capture_end_triple)
  fix n P C R c
  assume b: "store_books n ({#} + P) ({#cp#} + C) ({#} + R) c" "n < u64_max"
  from store_capture_exec [OF b id_perm, of undefined undefined "XDropCapture 0"]
  show "\<exists>c'. capture_drop cp c = Some c' \<and> store_books (Suc n) P C R c'" by (cases "capture_drop cp c") auto
qed

lemma do_commit_triple:
  assumes it: "\<And>xs. mset (iter xs) = mset xs"
  shows "gw.triple (Suc 0) {#CCapture cp#} (do_commit iter t b cp) (\<lambda>_ M. M = {#})"
  unfolding do_commit_def
proof (rule capture_end_triple)
  fix n P C R c
  assume b: "store_books n ({#} + P) ({#cp#} + C) ({#} + R) c" "n < u64_max"
  from store_capture_exec [OF b it, of undefined undefined "XCommit t b 0"]
  show "\<exists>c'. capture_commit iter t b cp c = Some c' \<and> store_books (Suc n) P C R c'" by (cases "capture_commit iter t b cp c") auto
qed

lemma do_replay_drop_triple: "gw.triple (Suc 0) {#CReplay a#} (do_replay_drop a) (\<lambda>_ M. M = {#})"
proof -
  have "holds (Some ((), c\<lparr>xc_budget := arc_drop a (xc_budget c)\<rparr>)) (\<lambda>(_, c'). store_books (Suc n) ({#} + P) ({#} + C) ({#} + R) c')"
    if b: "store_books n ({#} + P) ({#} + C) ({#a#} + R) c" "n < u64_max" for n P C R c
    using store_exec [of n "[]" P "[]" C "[a]" R c "cache_libs undefined undefined id" "XDropReplay 0"] b by auto
  from on_cache_triple [of "{#}" "{#}" "{#a#}" _ "\<lambda>_. {#}" "\<lambda>_. {#}" "\<lambda>_. {#}", OF this] show ?thesis
    by (simp add: do_replay_drop_def)
qed

lemma do_option_triple:
  assumes "\<And>x. y = Some x \<Longrightarrow> gw.triple k (N x) (f x) (\<lambda>_ M. M = {#})"
  shows "gw.triple k (case y of None \<Rightarrow> {#} | Some x \<Rightarrow> N x) (do_option f y) (\<lambda>_ M. M = {#})"
  using assms by (cases y) (auto intro: gw.triple_return)

end
