(* ===== verification/Forward_Facts.thy ===== *)
theory Forward_Facts
  imports Forward_Worker Gateway_World_Facts
begin

text \<open>
  What a worker owns in each phase, and that every step of it is correct: no \<^verbatim>\<open>expect\<close> fails, no
  component panics, and the worker always owns exactly what its phase says.
\<close>

section \<open>What a worker owns\<close>

definition opt_claim :: "('a \<Rightarrow> claim) \<Rightarrow> 'a option \<Rightarrow> claim multiset" where
  "opt_claim C x = (case x of None \<Rightarrow> {#} | Some y \<Rightarrow> {#C y#})"

lemma opt_claim_simps [simp]: "opt_claim C None = {#}" "opt_claim C (Some y) = {#C y#}"
  by (simp_all add: opt_claim_def)

fun phase_claims :: "ckey \<Rightarrow> phase \<Rightarrow> claim multiset" where
  "phase_claims key (Armed a) = {#CAttempt a#}"
| "phase_claims key (Reacquiring q) = acquiring_claims q"
| "phase_claims key (RetryAcquiring q) = acquiring_claims q"
| "phase_claims key (AwaitingProbe a g) = {#CWait (key, g)#}"
| "phase_claims key (Streaming b) = opt_claim CCapture (bd_capture b)"
| "phase_claims key (Delivering b) = opt_claim CCapture (bd_capture b)"
| "phase_claims key _ = {#}"

definition worker_claims :: "forward_request \<Rightarrow> worker \<Rightarrow> claim multiset" where
  "worker_claims R k =
     phase_claims (rq_scope R) (wk_phase k) + opt_claim CHold (gd_hold (wk_guard k))
     + opt_claim CAttempt (wk_attempt k) + opt_claim CPending (wk_cache k)"

text \<open>The phases in which a request is on the wire, and those in which only a reservation is owned.\<close>

fun on_wire :: "phase \<Rightarrow> bool" where
  "on_wire Sending = True"
| "on_wire (GotHeaders _) = True"
| "on_wire (ReadingRejection _ _ _ _) = True"
| "on_wire (Deciding _ _ _) = True"
| "on_wire (Streaming _) = True"
| "on_wire (Delivering _) = True"
| "on_wire _ = False"

fun reserved :: "phase \<Rightarrow> bool" where
  "reserved Unstarted = True"
| "reserved AtGate = True"
| "reserved AtStart = True"
| "reserved (Armed _) = True"
| "reserved _ = False"

fun phase_ok :: "phase \<Rightarrow> bool" where
  "phase_ok (Reacquiring q) = acquiring_ok q"
| "phase_ok (RetryAcquiring q) = acquiring_ok q"
| "phase_ok (AwaitingProbe a g) = args_ok a"
| "phase_ok Ending = False"
| "phase_ok _ = True"

fun answered :: "phase \<Rightarrow> bool" where
  "answered (Streaming _) = True"
| "answered (Delivering _) = True"
| "answered _ = False"

definition worker_inv :: "worker \<Rightarrow> bool" where
  "worker_inv k =
     (phase_ok (wk_phase k)
      \<and> (on_wire (wk_phase k) \<longrightarrow> (\<exists>h. gd_hold (wk_guard k) = Some h \<and> h_started h) \<and> wk_attempt k \<noteq> None)
      \<and> (reserved (wk_phase k) \<longrightarrow> (\<exists>h. gd_hold (wk_guard k) = Some h \<and> \<not> h_started h))
      \<and> (\<not> on_wire (wk_phase k) \<longrightarrow> wk_attempt k = None)
      \<and> (\<not> on_wire (wk_phase k) \<and> \<not> reserved (wk_phase k) \<longrightarrow> gd_hold (wk_guard k) = None)
      \<and> (wk_phase k = Ended \<longrightarrow> wk_cache k = None)
      \<and> (wk_phase k \<noteq> Ended \<longrightarrow>
           (if answered (wk_phase k) then \<exists>x. wk_head k = Some (Inr x) else wk_head k = None)))"

definition keeps :: "forward_request \<Rightarrow> worker \<Rightarrow> claim multiset \<Rightarrow> bool" where
  "keeps R k M = (M = worker_claims R k \<and> worker_inv k)"

lemma keepsI: "M = worker_claims R k \<Longrightarrow> worker_inv k \<Longrightarrow> keeps R k M"
  by (simp add: keeps_def)

lemma head_unsent: "worker_inv k \<Longrightarrow> \<not> answered (wk_phase k) \<Longrightarrow> wk_phase k \<noteq> Ended \<Longrightarrow> wk_head k = None"
  by (simp add: worker_inv_def)

lemma set_hold_simps [simp]:
  "wk_cache (set_hold h k) = wk_cache k" "wk_attempt (set_hold h k) = wk_attempt k"
  "wk_phase (set_hold h k) = wk_phase k" "wk_head (set_hold h k) = wk_head k"
  "wk_disconnected (set_hold h k) = wk_disconnected k" "wk_retried (set_hold h k) = wk_retried k"
  "wk_terminal (set_hold h k) = wk_terminal k" "wk_wires (set_hold h k) = wk_wires k"
  "wk_received (set_hold h k) = wk_received k" "wk_offered (set_hold h k) = wk_offered k"
  "wk_guard (set_hold h k) = (wk_guard k)\<lparr>gd_hold := h\<rparr>"
  by (simp_all add: set_hold_def)

section \<open>Returning\<close>

lemma do_option_claim:
  assumes "\<And>x. gw.triple k {#C x#} (f x) (\<lambda>_ M. M = {#})"
  shows "gw.triple k (opt_claim C y) (do_option f y) (\<lambda>_ M. M = {#})"
  using assms by (cases y) (simp_all add: gw.triple_return)

lemma hold_usage_drop: "gw.triple k {#CHold h#} (do_hold_drop t (hold_usage u h)) (\<lambda>_ M. M = {#})"
proof -
  have "gw.triple (k + 0) {#CHold h#} (\<lambda>w. Option.bind (Some (hold_usage u h, w)) (\<lambda>(h', w1). do_hold_drop t h' w1)) (\<lambda>_ M. M = {#})"
    by (rule gw.triple_bind [OF hold_usage_triple]) (auto intro: do_hold_drop_triple)
  then show ?thesis by simp
qed

lemma guard_drop_triple: "gw.triple k (opt_claim CHold (gd_hold g)) (guard_drop t g) (\<lambda>_ M. M = {#})"
proof -
  have a: "gw.triple 0 {#} (\<lambda>w. if gd_draining g then on_metrics draining_finished w else Some ((), w)) (\<lambda>_ M. M = {#})"
    by (rule gw.triple_if) (auto intro: on_metrics_triple gw.triple_return)
  have b: "gw.triple 0 (opt_claim CHold (gd_hold g)) (do_option (\<lambda>h. do_hold_drop t (hold_usage (gd_usage g) h)) (gd_hold g)) (\<lambda>_ M. M = {#})"
    by (rule do_option_claim) (rule hold_usage_drop)
  show ?thesis unfolding guard_drop_def [abs_def]
    apply (rule gw.triple_step0 [OF a, where l = k and G = "opt_claim CHold (gd_hold g)"], simp, simp)
    apply (rule gw.triple_step0 [OF b, where l = k and G = "{#}"], simp, simp)
    by (simp add: on_metrics_triple)
qed

lemma phase_drop_triple: "gw.triple (Suc 0) (phase_claims key ph) (phase_drop t ph) (\<lambda>_ M. M = {#})"
  by (cases ph) (simp_all add: do_attempt_drop_triple do_acquire_drop_triple do_waiter_drop_triple gw.triple_return
    do_option_claim [OF do_capture_drop_triple])

lemma worker_return_triple:
  "gw.triple 2 (worker_claims R k) (worker_return r k)
     (\<lambda>k' M. M = {#} \<and> k' = (set_hold None k)\<lparr>wk_phase := Ended, wk_attempt := None, wk_cache := None\<rparr>)"
proof -
  let ?H = "opt_claim CHold (gd_hold (wk_guard k))" and ?A = "opt_claim CAttempt (wk_attempt k)"
    and ?P = "opt_claim CPending (wk_cache k)"
  have a: "gw.triple 0 ?A (do_option (do_attempt_drop (r 1)) (wk_attempt k)) (\<lambda>_ M. M = {#})"
    by (rule do_option_claim) (rule do_attempt_drop_triple)
  have h: "gw.triple 0 ?H (\<lambda>w. case wk_phase k of Unstarted \<Rightarrow> do_option (do_hold_drop (r 2)) (gd_hold (wk_guard k)) w
                   | _ \<Rightarrow> guard_drop (r 2) (wk_guard k) w) (\<lambda>_ M. M = {#})"
    by (cases "wk_phase k") (simp_all add: guard_drop_triple do_option_claim [OF do_hold_drop_triple])
  have p: "gw.triple 1 ?P (do_option do_pending_drop (wk_cache k)) (\<lambda>_ M. M = {#})"
    by (rule do_option_claim) (simp add: do_pending_drop_triple)
  show ?thesis unfolding worker_return_def [abs_def] worker_claims_def
    apply (rule gw.triple_step0 [OF phase_drop_triple, where l = 1 and G = "?H + ?A + ?P"], simp, simp)
    apply (rule gw.triple_step0 [OF a, where l = 1 and G = "?H + ?P"], simp, simp)
    apply (rule gw.triple_step0 [OF h, where l = 1 and G = "?P"], simp, simp)
    apply (rule gw.triple_step0 [OF p, where l = 0 and G = "{#}"], simp, simp)
    by (rule gw.triple_return) simp
qed

lemma claims_frame [simp]:
  "worker_claims R (k\<lparr>wk_head := x\<rparr>) = worker_claims R k"
  "worker_claims R (k\<lparr>wk_disconnected := b\<rparr>) = worker_claims R k"
  "worker_claims R (k\<lparr>wk_received := y\<rparr>) = worker_claims R k"
  "worker_claims R (signal_body t k) = worker_claims R k"
  "worker_claims R (k\<lparr>wk_guard := guard_finish reason u (wk_guard k)\<rparr>) = worker_claims R k"
  by (simp_all add: worker_claims_def signal_body_def guard_finish_def)

lemma signal_body_simps [simp]:
  "wk_cache (signal_body t k) = wk_cache k" "wk_attempt (signal_body t k) = wk_attempt k"
  "wk_phase (signal_body t k) = wk_phase k" "wk_head (signal_body t k) = wk_head k"
  "wk_guard (signal_body t k) = wk_guard k" "wk_wires (signal_body t k) = wk_wires k"
  "wk_received (signal_body t k) = wk_received k" "wk_retried (signal_body t k) = wk_retried k"
  "wk_disconnected (signal_body t k) = wk_disconnected k" "wk_offered (signal_body t k) = wk_offered k"
  by (simp_all add: signal_body_def)

lemma ended_keeps: "keeps R ((set_hold None k)\<lparr>wk_phase := Ended, wk_attempt := None, wk_cache := None\<rparr>) {#}"
  by (simp add: keeps_def worker_claims_def worker_inv_def)

lemma worker_return_keeps: "gw.triple 2 (worker_claims R k) (worker_return r k) (keeps R)"
  by (rule gw.triple_weaken [OF worker_return_triple]) (use ended_keeps in auto)

lemma finish_return_keeps: "gw.triple 2 (worker_claims R k) (finish_return r reason u k) (keeps R)"
  using worker_return_keeps [of R "k\<lparr>wk_guard := guard_finish reason u (wk_guard k)\<rparr>" r] by (simp add: finish_return_def)

lemma head_failure_keeps:
  assumes "wk_head k = None"
  shows "gw.triple 2 (worker_claims R k) (head_failure r e k) (keeps R)"
  using finish_return_keeps [of R "k\<lparr>wk_head := Some (Inl e)\<rparr>"] assms by (simp add: head_failure_def [abs_def] head_send_def)

lemma head_deadline_keeps:
  assumes "wk_head k = None"
  shows "gw.triple 2 (worker_claims R k) (head_deadline r k) (keeps R)"
  using finish_return_keeps [of R "k\<lparr>wk_head := Some (Inl HeadDeadline)\<rparr>"] assms
  by (simp add: head_deadline_def [abs_def] head_send_def)

lemma body_deadline_keeps: "gw.triple 2 (worker_claims R k) (body_deadline r k) (keeps R)"
  using finish_return_keeps [of R "signal_body (BodyFailure ''gateway request deadline'') k"] by (simp add: body_deadline_def [abs_def])

section \<open>Small steps\<close>

lemma fail_attempt_keeps:
  "gw.triple 0 (worker_claims R k) (fail_attempt r d k)
     (\<lambda>k' M. M = worker_claims R k' \<and> (\<exists>a. k' = k\<lparr>wk_attempt := a\<rparr> \<and> (a = None \<longleftrightarrow> wk_attempt k = None)))"
proof (cases "wk_attempt k")
  case None
  then have "k = k\<lparr>wk_attempt := None\<rparr>" by simp
  with None show ?thesis by (auto simp: fail_attempt_def [abs_def] intro!: gw.triple_return)
next
  case (Some a)
  let ?G = "phase_claims (rq_scope R) (wk_phase k) + opt_claim CHold (gd_hold (wk_guard k)) + opt_claim CPending (wk_cache k)"
  show ?thesis unfolding fail_attempt_def [abs_def] Some option.case
    apply (rule gw.triple_step0 [OF do_attempt_failure_triple, where l = 0 and G = ?G], simp add: worker_claims_def Some, simp)
    by (rule gw.triple_return) (use Some in \<open>auto simp: worker_claims_def\<close>)
qed

lemma drop_cache_keeps:
  "gw.triple 1 (worker_claims R k) (drop_cache k) (\<lambda>k' M. M = worker_claims R k' \<and> k' = k\<lparr>wk_cache := None\<rparr>)"
proof -
  let ?G = "phase_claims (rq_scope R) (wk_phase k) + opt_claim CHold (gd_hold (wk_guard k)) + opt_claim CAttempt (wk_attempt k)"
  have p: "gw.triple 1 (opt_claim CPending (wk_cache k)) (do_option do_pending_drop (wk_cache k)) (\<lambda>_ M. M = {#})"
    by (rule do_option_claim) (simp add: do_pending_drop_triple)
  show ?thesis unfolding drop_cache_def [abs_def]
    apply (rule gw.triple_step0 [OF p, where l = 0 and G = ?G], simp add: worker_claims_def, simp)
    by (rule gw.triple_return) (simp add: worker_claims_def)
qed

lemma start_draining_keeps:
  "gw.triple k0 (worker_claims R k) (start_draining k)
     (\<lambda>k' M. M = worker_claims R k' \<and> k' = k\<lparr>wk_guard := (wk_guard k)\<lparr>gd_draining := True\<rparr>\<rparr>)"
proof (cases "gd_draining (wk_guard k)")
  case True
  then have "k\<lparr>wk_guard := (wk_guard k)\<lparr>gd_draining := True\<rparr>\<rparr> = k" by simp
  with True show ?thesis
    by (simp add: start_draining_def [abs_def] guard_start_draining_def) (rule gw.triple_return, simp)
next
  case False
  have e: "start_draining k = (\<lambda>w. Option.bind (on_metrics draining_started w)
      (\<lambda>(_, w1). Some (k\<lparr>wk_guard := (wk_guard k)\<lparr>gd_draining := True\<rparr>\<rparr>, w1)))"
    using False by (auto simp: start_draining_def guard_start_draining_def on_metrics_def)
  show ?thesis unfolding e
    apply (rule gw.triple_step0 [OF on_metrics_triple, where k = 0 and l = k0 and M = "worker_claims R k" and G = "{#}"], simp, simp)
    by (rule gw.triple_return) (simp add: worker_claims_def)
qed

lemma client_gone_keeps:
  assumes inv: "worker_inv k" and ph: "phase_claims (rq_scope R) (wk_phase k) = {#}" "\<not> answered (wk_phase k)" "on_wire (wk_phase k)"
  shows "gw.triple 2 (worker_claims R k) (client_gone R r k) (keeps R)"
proof (cases "rq_cancel_policy R")
  case Close
  then show ?thesis using finish_return_keeps [of R "k\<lparr>wk_disconnected := True\<rparr>"] by (simp add: client_gone_def [abs_def])
next
  case Drain
  let ?k = "k\<lparr>wk_disconnected := True\<rparr>"
  have "gw.triple 2 (worker_claims R ?k) (\<lambda>w. Option.bind (drop_cache ?k w) (\<lambda>(k1, w1). start_draining k1 w1)) (keeps R)"
  proof (rule gw.triple_step [OF drop_cache_keeps, where l = 1 and G = "{#}"], simp, simp)
    fix k1 assume "k1 = ?k\<lparr>wk_cache := None\<rparr>"
    with inv ph(3) show "gw.triple 1 (worker_claims R k1 + {#}) (start_draining k1) (keeps R)"
      by (intro gw.triple_last [OF start_draining_keeps, where G = "{#}"]) (auto simp: keeps_def worker_inv_def)
  qed
  with Drain show ?thesis by (simp add: client_gone_def [abs_def])
qed

section \<open>Before the request is sent\<close>

lemma same_keeps: "worker_inv k \<Longrightarrow> gw.triple n (worker_claims R k) (\<lambda>w. Some (k, w)) (keeps R)"
  by (rule gw.triple_return) (simp add: keeps_def)

lemma prestart_signal_keeps:
  assumes "worker_inv k" "\<not> answered (wk_phase k)" "wk_phase k \<noteq> Ended"
  shows "gw.triple 2 (worker_claims R k) (prestart_signal r ev k) (keeps R)"
  using assms(1) head_unsent [OF assms] finish_return_keeps [of R "k\<lparr>wk_disconnected := True\<rparr>"]
  by (cases ev) (simp_all add: prestart_signal_def [abs_def] same_keeps finish_return_keeps worker_return_keeps
    head_deadline_keeps head_failure_keeps)

lemma claims_parts:
  "worker_claims R k = phase_claims (rq_scope R) (wk_phase k) + opt_claim CHold (gd_hold (wk_guard k))
     + opt_claim CAttempt (wk_attempt k) + opt_claim CPending (wk_cache k)"
  by (simp add: worker_claims_def)

lemma reserved_parts:
  assumes "worker_inv k" "reserved (wk_phase k)"
  obtains h where "gd_hold (wk_guard k) = Some h" "\<not> h_started h" "wk_attempt k = None" "wk_head k = None"
    "worker_claims R k = phase_claims (rq_scope R) (wk_phase k) + {#CHold h#} + opt_claim CPending (wk_cache k)"
proof -
  have "\<not> on_wire (wk_phase k)" "\<not> answered (wk_phase k)" "wk_phase k \<noteq> Ended" using assms(2) by (cases "wk_phase k"; simp)+
  with assms that show ?thesis by (auto simp: worker_inv_def claims_parts)
qed

text \<open>Giving the reservation back and waiting for a circuit probe, or for a new reservation.\<close>

lemma await_probe_keeps:
  assumes "worker_inv k" "wk_attempt k = None" "wk_head k = None"
  shows "gw.triple n ({#CHold h#} + opt_claim CPending (wk_cache k)) (\<lambda>w1. Option.bind (do_hold_drop t h w1)
     (\<lambda>(_, w2). Some ((set_hold None k)\<lparr>wk_phase := AwaitingProbe (retry_args h) False\<rparr>, w2))) (keeps R)"
proof (rule triple_hold_ok [of h], simp, rule gw.triple_step0 [OF do_hold_drop_triple, where k = 0 and l = n and G = "opt_claim CPending (wk_cache k)"], simp, simp)
  assume "args_ok (retry_args h)"
  with assms show "gw.triple n ({#} + opt_claim CPending (wk_cache k))
      (\<lambda>w2. Some ((set_hold None k)\<lparr>wk_phase := AwaitingProbe (retry_args h) False\<rparr>, w2)) (keeps R)"
    by (intro triple_wait [of _ "rq_scope R" "{#} + opt_claim CPending (wk_cache k)"], intro gw.triple_return keepsI)
      (simp_all add: claims_parts worker_inv_def)
qed

lemma try_circuit_keeps:
  assumes inv: "worker_inv k" and ph: "wk_phase k = AtStart" and it: "\<And>xs. mset (fe_scope_order E xs) = mset xs"
  shows "gw.triple 2 (worker_claims R k) (try_circuit E R r k) (keeps R)"
proof -
  have "reserved (wk_phase k)" by (simp add: ph)
  from reserved_parts [OF inv this, of R] obtain h where h: "gd_hold (wk_guard k) = Some h" "\<not> h_started h"
    and a: "wk_attempt k = None" "wk_head k = None" and c: "worker_claims R k = {#CHold h#} + opt_claim CPending (wk_cache k)"
    by (auto simp: ph)
  have armed: "keeps R (k\<lparr>wk_phase := Armed b\<rparr>) ({#CAttempt b#} + worker_claims R k)" for b
    using inv h a ph by (intro keepsI) (simp_all add: claims_parts worker_inv_def)
  show ?thesis unfolding try_circuit_def [abs_def]
    apply (rule gw.triple_if, rule head_failure_keeps [OF a(2)])
    apply (rule gw.triple_step0 [OF do_scope_start_triple [OF it], where k = 0 and l = 2 and G = "worker_claims R k"], simp, simp)
    subgoal for x
      apply (cases x)
      subgoal for e
        using head_failure_keeps [OF a(2), of R "later 5 r" "HeadCircuit e"] await_probe_keeps [OF inv a, of 2 h "r 4" R]
        by (cases e) (simp_all add: h(1) c)
      subgoal for b using gw.triple_return [of "keeps R", OF armed [of b], of 2] by simp
      done
    done
qed

lemma try_hold_keeps:
  assumes inv: "worker_inv k" and ph: "wk_phase k = Armed a"
  shows "gw.triple 2 (worker_claims R k) (try_hold R r a k) (keeps R)"
proof -
  let ?P = "opt_claim CPending (wk_cache k)"
  have "reserved (wk_phase k)" by (simp add: ph)
  from reserved_parts [OF inv this, of R] obtain h where h: "gd_hold (wk_guard k) = Some h" "\<not> h_started h"
    and k: "wk_attempt k = None" "wk_head k = None" and c: "worker_claims R k = {#CAttempt a#} + {#CHold h#} + ?P"
    by (auto simp: ph)
  have sent: "keeps R ((set_hold (Some h') k)\<lparr>wk_attempt := Some a, wk_phase := Sending, wk_wires := x, wk_received := []\<rparr>)
      ({#CAttempt a#} + {#CHold h'#} + ?P)" if "h_started h'" for h' x
    using inv k that by (intro keepsI) (simp_all add: claims_parts worker_inv_def)
  have given: "keeps R ((set_hold None k)\<lparr>wk_phase := Reacquiring (Fresh (retry_args h'))\<rparr>) ?P" if "args_ok (retry_args h')" for h'
    using inv k that by (intro keepsI) (simp_all add: claims_parts worker_inv_def)
  have wired: "gw.triple 2 ({#CHold h'#} + ({#CAttempt a#} + ?P)) (\<lambda>w. Option.bind (do_option (do_attempt_drop (r 1)) (wk_attempt k) w)
      (\<lambda>(_, w2). Option.bind (on_metrics record_upstream_attempt w2)
      (\<lambda>(_, w3). Some ((set_hold (Some h') k)\<lparr>wk_attempt := Some a, wk_phase := Sending,
         wk_wires := wk_wires k @ [rq_wire R], wk_received := []\<rparr>, w3)))) (keeps R)" if "h_started h'" for h'
    unfolding k(1) do_option.simps Option.bind.simps prod.case
    apply (rule gw.triple_step0 [OF on_metrics_triple, where k = 0 and l = 0 and G = "{#}"], simp, simp)
    by (rule gw.triple_return) (use sent [OF that] in \<open>simp add: add_mset_commute\<close>)
  have undone: "gw.triple 2 ({#CHold h'#} + ({#CAttempt a#} + ?P)) (\<lambda>w. Option.bind (do_attempt_drop (r 1) a w)
      (\<lambda>(_, w2). Option.bind (do_hold_drop (r 2) h' w2)
        (\<lambda>(_, w3). Some ((set_hold None k)\<lparr>wk_phase := Reacquiring (Fresh (retry_args h'))\<rparr>, w3)))) (keeps R)" for h'
    apply (rule triple_hold_ok [of h'], simp)
    apply (rule gw.triple_step0 [OF do_attempt_drop_triple, where k = 0 and l = 2 and G = "{#CHold h'#} + ?P"], simp, simp)
    apply (rule gw.triple_step0 [OF do_hold_drop_triple, where k = 0 and l = 2 and G = "?P"], simp, simp)
    by (rule gw.triple_return) (use given in simp)
  show ?thesis unfolding try_hold_def [abs_def] h(1) Option.bind.simps
    apply (rule gw.triple_step [OF do_hold_start_triple, where k = 0 and l = 2 and G = "{#CAttempt a#} + ?P"], simp add: c, simp)
    subgoal for x
      by (cases x) (simp only: prod.case fst_conv snd_conv gw.triple_if [OF wired undone])
    done
qed

lemma acquired_keeps:
  assumes inv: "worker_inv k" and q: "acquiring_ok q" and c: "wk_attempt k = None" "gd_hold (wk_guard k) = None" "wk_head k = None"
    and again: "\<And>q'. acquiring_ok q' \<Longrightarrow> keeps R (k\<lparr>wk_phase := F q'\<rparr>) (acquiring_claims q' + opt_claim CPending (wk_cache k))"
    and got: "\<And>h. \<not> h_started h \<Longrightarrow> keeps R (G h) ({#CHold h#} + opt_claim CPending (wk_cache k))"
    and ph: "phase_claims (rq_scope R) (wk_phase k) = acquiring_claims q"
  shows "gw.triple 2 (worker_claims R k) (\<lambda>w. Option.bind (do_acquire r q w) (\<lambda>(x, w1). case x of
        Inl (Inl e) \<Rightarrow> head_failure (later 2 r) (HeadAdmission e) (k\<lparr>wk_phase := Ending\<rparr>) w1
      | Inl (Inr h) \<Rightarrow> Some (G h, w1)
      | Inr q' \<Rightarrow> Some (k\<lparr>wk_phase := F q'\<rparr>, w1))) (keeps R)"
  apply (rule gw.triple_step [OF do_acquire_triple [OF q], where k = 0 and l = 2 and G = "opt_claim CPending (wk_cache k)"])
    apply (simp add: claims_parts c ph, simp)
  subgoal for x
  proof (induction x rule: acquired_ok.induct)
    case (1 h)
    then show ?case using gw.triple_return [of "keeps R", OF got [of h], of 2] by simp
  next
    case (2 q')
    then show ?case using gw.triple_return [of "keeps R", OF again [of q'], of 2] by simp
  next
    case (3 e)
    have "worker_claims R (k\<lparr>wk_phase := Ending\<rparr>) = opt_claim CPending (wk_cache k)" by (simp add: claims_parts c)
    with head_failure_keeps [of "k\<lparr>wk_phase := Ending\<rparr>" R "later 2 r" "HeadAdmission e"] c show ?case by simp
  qed
  done

lemma poll_reacquire_keeps:
  assumes inv: "worker_inv k" and ph: "wk_phase k = Reacquiring q"
  shows "gw.triple 2 (worker_claims R k) (poll_reacquire r q k) (keeps R)"
proof -
  have c: "wk_attempt k = None" "gd_hold (wk_guard k) = None" "wk_head k = None" "acquiring_ok q"
    using inv by (auto simp: worker_inv_def ph)
  show ?thesis unfolding poll_reacquire_def [abs_def]
    by (rule acquired_keeps [OF inv c(4,1-3), where F = Reacquiring])
      (use c in \<open>auto intro!: keepsI simp: claims_parts worker_inv_def ph\<close>)
qed

lemma poll_probe_keeps:
  assumes inv: "worker_inv k" and ph: "wk_phase k = AwaitingProbe a g"
  shows "gw.triple 2 (worker_claims R k) (poll_probe R r a g k) (keeps R)"
proof -
  have c: "wk_attempt k = None" "gd_hold (wk_guard k) = None" "wk_head k = None" "args_ok a"
    using inv by (auto simp: worker_inv_def ph)
  let ?P = "opt_claim CPending (wk_cache k)"
  have k: "keeps R (k\<lparr>wk_phase := AwaitingProbe a g'\<rparr>) ({#CWait (rq_scope R, g')#} + ?P)"
    "keeps R (k\<lparr>wk_phase := Reacquiring (Fresh a)\<rparr>) ?P" for g'
    using c by (auto intro!: keepsI simp: claims_parts worker_inv_def)
  have e: "worker_claims R (k\<lparr>wk_phase := Ending\<rparr>) = ?P" by (simp add: claims_parts c)
  show ?thesis unfolding poll_probe_def [abs_def]
    apply (rule gw.triple_step0 [OF do_scope_wait_triple, where k = 0 and l = 2 and G = ?P], simp add: claims_parts c ph, simp)
    subgoal for x
      using gw.triple_return [of "keeps R", OF k(1), of 2] gw.triple_return [of "keeps R", OF k(2), of 2]
        head_failure_keeps [of "k\<lparr>wk_phase := Ending\<rparr>" R "later 1 r"] c(3)
      by (cases x) (simp_all add: e)
    done
qed

section \<open>Waiting for the response\<close>

lemma wire_parts:
  assumes "worker_inv k" "on_wire (wk_phase k)"
  obtains h a where "gd_hold (wk_guard k) = Some h" "h_started h" "wk_attempt k = Some a"
    "worker_claims R k = phase_claims (rq_scope R) (wk_phase k) + {#CHold h#} + {#CAttempt a#} + opt_claim CPending (wk_cache k)"
  using assms that by (auto simp: worker_inv_def claims_parts)

text \<open>A failure is reported to the circuit, then the worker returns.\<close>

lemma fail_then:
  assumes "\<And>k1. (\<exists>a. k1 = k\<lparr>wk_attempt := a\<rparr>) \<Longrightarrow> gw.triple 2 (worker_claims R k1) (F k1) (keeps R)"
  shows "gw.triple 2 (worker_claims R k) (\<lambda>w. Option.bind (fail_attempt r d k w) (\<lambda>(k1, w1). F k1 w1)) (keeps R)"
  by (rule gw.triple_step [OF fail_attempt_keeps, where l = 2 and G = "{#}"]) (use assms in auto)

lemma maybe_fail_then:
  assumes "\<And>k1. (\<exists>a. k1 = k\<lparr>wk_attempt := a\<rparr>) \<Longrightarrow> gw.triple 2 (worker_claims R k1) (F k1) (keeps R)"
  shows "gw.triple 2 (worker_claims R k) (\<lambda>w. Option.bind (if c then Some (k, w) else fail_attempt r d k w) (\<lambda>(k1, w1). F k1 w1)) (keeps R)"
proof (cases c)
  case True
  have "k = k\<lparr>wk_attempt := wk_attempt k\<rparr>" by simp
  then have "\<exists>a. k = k\<lparr>wk_attempt := a\<rparr>" by blast
  from assms [OF this] True show ?thesis by simp
qed (use fail_then [OF assms] in simp)

lemma step_sending_keeps:
  assumes inv: "worker_inv k" and ph: "wk_phase k = Sending"
  shows "gw.triple 2 (worker_claims R k) (step_sending R r ev k) (keeps R)"
proof -
  have h: "wk_head k = None" using head_unsent [OF inv] by (simp add: ph)
  have "gw.triple 2 (worker_claims R k) (client_gone R r k) (keeps R)" by (rule client_gone_keeps [OF inv]) (simp_all add: ph)
  note g = gw.triple_if [OF same_keeps [OF inv] this, of "wk_disconnected k"]
  show ?thesis
  proof (cases ev)
    case EvDeadline
    have "gw.triple 2 (worker_claims R k) (\<lambda>w. Option.bind (fail_attempt r None k w) (\<lambda>(k1, w1). head_deadline (later 4 r) k1 w1)) (keeps R)"
      by (rule fail_then) (use h in \<open>auto intro: head_deadline_keeps\<close>)
    with EvDeadline show ?thesis by (simp add: step_sending_def [abs_def])
  next
    case (EvResponse resp)
    have "keeps R (k\<lparr>wk_phase := GotHeaders resp\<rparr>) (worker_claims R k)"
      using inv ph by (intro keepsI) (simp_all add: claims_parts worker_inv_def)
    with EvResponse show ?thesis by (simp add: step_sending_def [abs_def] gw.triple_return)
  next
    case (EvSendFailed b)
    have "gw.triple 2 (worker_claims R k) (\<lambda>w. Option.bind (if b then Some (k, w) else fail_attempt r None k w)
        (\<lambda>(k1, w1). head_failure (later 4 r) HeadUpstream k1 w1)) (keeps R)"
      by (rule maybe_fail_then) (use h in \<open>auto intro: head_failure_keeps\<close>)
    with EvSendFailed show ?thesis by (simp add: step_sending_def [abs_def])
  qed (use inv g in \<open>simp_all add: step_sending_def [abs_def] same_keeps worker_return_keeps\<close>)
qed

lemma headers_end_keeps:
  assumes k: "worker_inv k" "on_wire (wk_phase k)" "phase_claims (rq_scope R) (wk_phase k) = {#}" "wk_head k = None"
    and ph: "on_wire ph" "phase_claims (rq_scope R) ph = {#}" "\<not> answered ph" "phase_ok ph"
  shows "gw.triple 1 (worker_claims R k) (\<lambda>w. Option.bind
        (if c then Option.bind (do_option do_reject_status (wk_cache k) w) (\<lambda>(_, w'). Some (k\<lparr>wk_cache := None\<rparr>, w')) else Some (k, w))
        (\<lambda>(k2, w3). Some (k2\<lparr>wk_phase := ph\<rparr>, w3))) (keeps R)"
proof -
  let ?G = "opt_claim CHold (gd_hold (wk_guard k)) + opt_claim CAttempt (wk_attempt k)"
  have ph1: "\<not> reserved ph" "ph \<noteq> Ended" using ph(1) by (cases ph; simp)+
  have e: "keeps R (k\<lparr>wk_cache := None, wk_phase := ph\<rparr>) ?G" "keeps R (k\<lparr>wk_phase := ph\<rparr>) (worker_claims R k)"
    using k ph ph1 by (auto intro!: keepsI simp: claims_parts worker_inv_def)
  have p: "gw.triple 1 (opt_claim CPending (wk_cache k)) (do_option do_reject_status (wk_cache k)) (\<lambda>_ M. M = {#})"
    by (rule do_option_claim) (simp add: do_reject_status_triple)
  have "gw.triple 1 (worker_claims R k) (\<lambda>w. if c then Option.bind (do_option do_reject_status (wk_cache k) w) (\<lambda>(_, w'). Some (k\<lparr>wk_cache := None\<rparr>, w')) else Some (k, w))
      (\<lambda>k' M. M = worker_claims R k' \<and> (k' = k\<lparr>wk_cache := None\<rparr> \<or> k' = k))"
    apply (rule gw.triple_if)
     apply (rule gw.triple_step0 [OF p, where l = 0 and G = ?G], simp add: claims_parts k, simp)
    by (rule gw.triple_return, simp add: claims_parts k)+
  then show ?thesis
    apply (rule gw.triple_step [where l = 0 and G = "{#}"], simp, simp)
    by (rule gw.triple_return) (use e in \<open>auto simp: claims_parts k\<close>)
qed

lemma got_headers_keeps:
  assumes inv: "worker_inv k" and ph: "wk_phase k = GotHeaders resp"
  shows "gw.triple 2 (worker_claims R k) (got_headers E R r resp k) (keeps R)"
proof -
  have "on_wire (wk_phase k)" by (simp add: ph)
  from wire_parts [OF inv this, of R] obtain h a where h: "gd_hold (wk_guard k) = Some h" "h_started h" "wk_attempt k = Some a"
    and c: "worker_claims R k = {#CHold h#} + {#CAttempt a#} + opt_claim CPending (wk_cache k)" by (auto simp: ph)
  have hd: "wk_head k = None" using head_unsent [OF inv] by (simp add: ph)
  let ?retry = "can_retry E R (r 8) resp k" and ?P = "opt_claim CPending (wk_cache k)"
  let ?ph = "if ur_status resp = 429 then ReadingRejection resp ?retry (missing_timing (get_all (ur_headers resp)) \<or> ?retry) prefix_default
             else Deciding resp ?retry prefix_default"
  have k1: "worker_inv ((set_hold (Some h1) k)\<lparr>wk_attempt := Some a1\<rparr>)"
    "worker_claims R ((set_hold (Some h1) k)\<lparr>wk_attempt := Some a1\<rparr>) = {#CHold h1#} + ({#CAttempt a1#} + ?P)" if "h_started h1" for h1 a1
    using inv that by (auto simp: worker_inv_def ph claims_parts)
  note last = headers_end_keeps [OF k1(1), where ph = ?ph and c = "ur_status resp \<noteq> 200 \<and> \<not> ?retry"]
  show ?thesis unfolding got_headers_def [abs_def] Let_def h(1,3) Option.bind.simps
    apply (rule gw.triple_step0 [OF do_attempt_headers_triple, where k = 0 and l = 2 and G = "{#CHold h#} + ?P"])
      apply (simp add: c, simp)
    subgoal for a1
      apply (rule gw.triple_step [OF do_hold_headers_triple, where k = 0 and l = 2 and G = "{#CAttempt a1#} + ?P"])
        apply (simp, simp)
      subgoal for h1
        by (subst k1(2) [symmetric, of _ a1], simp add: h(2), rule gw.triple_weaken [OF last])
          (simp_all add: ph hd h(2))
      done
    done
qed

section \<open>Rejections and the retry\<close>

lemma rephase_keeps:
  assumes "worker_inv k" "on_wire (wk_phase k)" "phase_claims (rq_scope R) (wk_phase k) = {#}" "\<not> answered (wk_phase k)"
    "on_wire ph" "phase_claims (rq_scope R) ph = {#}" "\<not> answered ph" "phase_ok ph"
  shows "keeps R (k\<lparr>wk_received := x, wk_phase := ph\<rparr>) (worker_claims R k)" "keeps R (k\<lparr>wk_phase := ph\<rparr>) (worker_claims R k)"
proof -
  have "wk_phase k \<noteq> Ended" using assms(2) by auto
  moreover have "\<not> reserved ph" "ph \<noteq> Ended" using assms(2,5) by (cases ph; simp)+
  ultimately show "keeps R (k\<lparr>wk_received := x, wk_phase := ph\<rparr>) (worker_claims R k)" "keeps R (k\<lparr>wk_phase := ph\<rparr>) (worker_claims R k)"
    using assms by (auto intro!: keepsI simp: claims_parts worker_inv_def)
qed

lemma step_rejection_keeps:
  assumes inv: "worker_inv k" and ph: "wk_phase k = ReadingRejection resp retry nb p"
  shows "gw.triple 2 (worker_claims R k) (step_rejection E R r ev resp retry nb p k) (keeps R)"
proof -
  let ?reading = "nb \<and> probeable (fe_libs E) resp"
  have h: "wk_head k = None" using head_unsent [OF inv] by (simp add: ph)
  have "gw.triple 2 (worker_claims R k) (client_gone R r k) (keeps R)" by (rule client_gone_keeps [OF inv]) (simp_all add: ph)
  note g = gw.triple_if [OF same_keeps [OF inv] this, of "wk_disconnected k"]
  note same = same_keeps [OF inv, of 2 R]
  note re = rephase_keeps [OF inv, of R, unfolded ph, simplified]
  have d: "gw.triple 2 (worker_claims R k) (\<lambda>w. Some (k\<lparr>wk_phase := Deciding resp retry p'\<rparr>, w)) (keeps R)"
    "gw.triple 2 (worker_claims R k) (\<lambda>w. Some (k\<lparr>wk_received := x, wk_phase := Deciding resp retry p'\<rparr>, w)) (keeps R)"
    "gw.triple 2 (worker_claims R k) (\<lambda>w. Some (k\<lparr>wk_received := x, wk_phase := ReadingRejection resp retry nb p'\<rparr>, w)) (keeps R)" for p' x
    by (rule gw.triple_return, rule re, simp_all)+
  have f: "gw.triple 2 (worker_claims R k) (\<lambda>w. Option.bind (if b then Some (k, w) else fail_attempt r None k w)
        (\<lambda>(k1, w1). head_failure (later 4 r) HeadUpstream k1 w1)) (keeps R)" for b
    by (rule maybe_fail_then) (use h in \<open>auto intro: head_failure_keeps\<close>)
  show ?thesis
  proof (cases ev)
    case EvRun
    with gw.triple_if [OF same d(1), of ?reading p] show ?thesis by (simp add: step_rejection_def [abs_def] Let_def)
  next
    case (EvChunk bytes)
    have "gw.triple 2 (worker_claims R k) (\<lambda>w. case probe_chunk bytes p of
        Inl p' \<Rightarrow> Some (k\<lparr>wk_received := wk_received k @ bytes, wk_phase := Deciding resp retry p'\<rparr>, w)
      | Inr p' \<Rightarrow> Some (k\<lparr>wk_received := wk_received k @ bytes, wk_phase := ReadingRejection resp retry nb p'\<rparr>, w)) (keeps R)"
      by (cases "probe_chunk bytes p") (simp_all add: d)
    from gw.triple_if [OF same this, of "\<not> ?reading"] EvChunk show ?thesis by (simp add: step_rejection_def [abs_def] Let_def)
  next
    case (EvEof c e)
    with gw.triple_if [OF same d(1), of "\<not> ?reading"] show ?thesis by (simp add: step_rejection_def [abs_def] Let_def)
  next
    case (EvFailed b)
    from gw.triple_if [OF same f [of b], of "\<not> ?reading"] EvFailed show ?thesis by (simp add: step_rejection_def [abs_def] Let_def)
  qed (use same g h in \<open>simp_all add: step_rejection_def [abs_def] Let_def worker_return_keeps head_deadline_keeps\<close>)
qed

lemma capture_claims_eq: "capture_claims x = opt_claim CCapture x"
  by (cases x) simp_all

lemma begin_stream_keeps:
  assumes inv: "worker_inv k" and ph: "wk_phase k = Deciding resp' retry p'" and it: "\<And>xs. mset (fe_map_order E xs) = mset xs"
  shows "gw.triple 1 (worker_claims R k) (begin_stream E R r resp p k) (keeps R)"
proof -
  have "on_wire (wk_phase k)" by (simp add: ph)
  from wire_parts [OF inv this, of R] obtain h a where h: "gd_hold (wk_guard k) = Some h" "h_started h" "wk_attempt k = Some a"
    and c: "worker_claims R k = {#CHold h#} + {#CAttempt a#} + opt_claim CPending (wk_cache k)" by (auto simp: ph)
  have hd: "wk_head k = None" using head_unsent [OF inv] by (simp add: ph)
  let ?hs = "get_all (ur_headers resp)" and ?fw = "prepare_response (fe_libs E) (ur_headers resp)"
  have drop: "gw.triple 1 {#CPending p#} (\<lambda>w. map_option (\<lambda>(_, w'). (None, w')) (do_pending_drop p w)) (\<lambda>x M. M = opt_claim CCapture x)" for p
    using do_pending_drop_triple [of p] by (auto simp: gw.triple_def holds_def)
  have cap: "gw.triple 1 (opt_claim CPending (wk_cache k)) (\<lambda>w. case wk_cache k of None \<Rightarrow> Some (None, w)
      | Some c \<Rightarrow> if wk_disconnected k then map_option (\<lambda>(_, w'). (None, w')) (do_pending_drop c w)
          else do_capture (fe_libs E) (fe_map_order E) (ur_status resp) ?hs (get_all ?fw) c w) (\<lambda>x M. M = opt_claim CCapture x)"
  proof (cases "wk_cache k")
    case None
    then show ?thesis by (simp add: gw.triple_return)
  next
    case (Some c)
    have "gw.triple 1 {#CPending c#} (do_capture (fe_libs E) (fe_map_order E) (ur_status resp) ?hs (get_all ?fw) c) (\<lambda>x M. M = opt_claim CCapture x)"
      by (rule gw.triple_weaken [OF do_capture_triple [OF it]]) (simp_all add: capture_claims_eq)
    from gw.triple_if [OF drop this, of "wk_disconnected k"] Some show ?thesis by simp
  qed
  have st: "keeps R (k\<lparr>wk_head := Some (Inr x), wk_cache := None, wk_phase := Streaming b\<rparr>)
      (opt_claim CCapture y + ({#CHold h#} + {#CAttempt a#}))" if "bd_capture b = y" for x b y
    using inv h that by (intro keepsI) (simp_all add: claims_parts worker_inv_def)
  show ?thesis unfolding begin_stream_def [abs_def] Let_def head_send_def hd if_P [OF refl] Option.bind.simps
    apply (rule gw.triple_step0 [OF cap, where l = 0 and G = "{#CHold h#} + {#CAttempt a#}"], simp add: c, simp)
    by (rule gw.triple_return, rule st) simp
qed

lemma decide_keeps:
  assumes inv: "worker_inv k" and ph: "wk_phase k = Deciding resp retry p" and it: "\<And>xs. mset (fe_map_order E xs) = mset xs"
  shows "gw.triple 2 (worker_claims R k) (decide E R r resp retry p k) (keeps R)"
proof -
  have "on_wire (wk_phase k)" by (simp add: ph)
  from wire_parts [OF inv this, of R] obtain h a where h: "gd_hold (wk_guard k) = Some h" "h_started h" "wk_attempt k = Some a"
    and c: "worker_claims R k = {#CHold h#} + {#CAttempt a#} + opt_claim CPending (wk_cache k)" by (auto simp: ph)
  have hd: "wk_head k = None" using head_unsent [OF inv] by (simp add: ph)
  let ?P = "opt_claim CPending (wk_cache k)" and ?hs = "get_all (ur_headers resp)"
  let ?rec = "rp_complete p \<and> transient (fe_libs E) ?hs (rp_bytes p)"
  have rej: "gw.triple 0 {#CHold h#} (\<lambda>w. if ur_status resp = 429
      then do_hold_rejected (fe_libs E) (r 0) ?hs ?rec (r 1) (r 2) h w else Some ((), w)) (\<lambda>_ M. M = {#CHold h#})"
    by (rule gw.triple_if) (auto intro: do_hold_rejected_triple gw.triple_return)
  have again: "keeps R ((set_hold None k)\<lparr>wk_attempt := None, wk_phase := RetryAcquiring (Fresh (retry_args h))\<rparr>) ?P"
    if "args_ok (retry_args h)" using inv hd that by (intro keepsI) (simp_all add: claims_parts worker_inv_def)
  have retry: "gw.triple 2 (worker_claims R k) (\<lambda>w1. Option.bind (on_metrics record_response_body_eof w1) (\<lambda>(_, w2).
      Option.bind (do_attempt_complete (later 3 r) a w2) (\<lambda>(_, w3). Option.bind (do_hold_drop (r 8) h w3) (\<lambda>(_, w4).
        Some ((set_hold None k)\<lparr>wk_attempt := None, wk_phase := RetryAcquiring (Fresh (retry_args h))\<rparr>, w4))))) (keeps R)"
    apply (rule triple_hold_ok [of h], simp add: c)
    apply (rule gw.triple_step0 [OF on_metrics_triple, where k = 0 and l = 2 and M = "worker_claims R k" and G = "{#}"], simp, simp)
    apply (rule gw.triple_step0 [OF do_attempt_complete_triple, where k = 0 and l = 2 and G = "{#CHold h#} + ?P"], simp add: c, simp)
    apply (rule gw.triple_step0 [OF do_hold_drop_triple, where k = 0 and l = 2 and G = "?P"], simp, simp)
    by (rule gw.triple_return) (use again in simp)
  show ?thesis unfolding decide_def [abs_def] Let_def h(1,3) Option.bind.simps
    apply (rule gw.triple_step0 [OF rej, where l = 2 and G = "{#CAttempt a#} + ?P"], simp add: c, simp)
    apply (rule gw.triple_if)
    subgoal using retry by (simp add: c add_mset_commute)
    subgoal using gw.triple_weaken [OF begin_stream_keeps [OF inv ph it, of R "later 3 r" resp p], of "keeps R" 2]
      by (simp add: c add_mset_commute)
    done
qed

lemma step_retry_keeps:
  assumes inv: "worker_inv k" and ph: "wk_phase k = RetryAcquiring q"
  shows "gw.triple 2 (worker_claims R k) (step_retry R r ev q k) (keeps R)"
proof -
  have c: "wk_attempt k = None" "gd_hold (wk_guard k) = None" "wk_head k = None" "acquiring_ok q"
    using inv by (auto simp: worker_inv_def ph)
  have "gw.triple 2 (worker_claims R k) (\<lambda>w. Option.bind (do_acquire r q w) (\<lambda>(x, w1). case x of
        Inl (Inl e) \<Rightarrow> head_failure (later 2 r) (HeadAdmission e) (k\<lparr>wk_phase := Ending\<rparr>) w1
      | Inl (Inr h) \<Rightarrow> Some ((set_hold (Some h) k)\<lparr>wk_retried := True, wk_phase := first_phase R\<rparr>, w1)
      | Inr q' \<Rightarrow> Some (k\<lparr>wk_phase := RetryAcquiring q'\<rparr>, w1))) (keeps R)"
    by (rule acquired_keeps [OF inv c(4,1-3), where F = RetryAcquiring])
      (use c in \<open>auto intro!: keepsI simp: claims_parts worker_inv_def ph first_phase_def\<close>)
  with inv c(3) show ?thesis
    by (cases ev) (simp_all add: step_retry_def [abs_def] same_keeps finish_return_keeps worker_return_keeps head_deadline_keeps)
qed

section \<open>The body loop\<close>

lemma once_triple: "gw.triple n M (once c f) (\<lambda>_ M'. M' = M)"
  unfolding once_def [abs_def] by (rule gw.triple_if) (auto intro: on_metrics_triple gw.triple_return)

lemma downstream_gone_keeps:
  assumes inv: "worker_inv k" and b: "answered (wk_phase k)" "phase_claims (rq_scope R) (wk_phase k) = opt_claim CCapture (bd_capture b)"
  shows "gw.triple 2 (worker_claims R k) (downstream_gone R r reason b k) (keeps R)"
proof (cases "rq_cancel_policy R")
  case Close
  then show ?thesis using finish_return_keeps [of R "signal_body (BodyFailure reason) k"] by (simp add: downstream_gone_def [abs_def])
next
  case Drain
  have wire: "on_wire (wk_phase k)" using b(1) by (cases "wk_phase k") simp_all
  let ?G = "opt_claim CHold (gd_hold (wk_guard k)) + opt_claim CAttempt (wk_attempt k) + opt_claim CPending (wk_cache k)"
  let ?b = "b\<lparr>bd_capture := None, bd_downstream_open := False\<rparr>"
  have d: "gw.triple 1 (opt_claim CCapture (bd_capture b)) (do_option do_capture_drop (bd_capture b)) (\<lambda>_ M. M = {#})"
    by (rule do_option_claim) (simp add: do_capture_drop_triple)
  have s: "gw.triple 1 ?G (start_draining k) (\<lambda>k' M. M = ?G \<and> k' = k\<lparr>wk_guard := (wk_guard k)\<lparr>gd_draining := True\<rparr>\<rparr>)"
    by (auto simp: start_draining_def [abs_def] guard_start_draining_def on_metrics_def gw.triple_def world_ok_def intro: store_books_mono)
  have e: "keeps R (k\<lparr>wk_guard := (wk_guard k)\<lparr>gd_draining := True\<rparr>, wk_phase := Streaming ?b\<rparr>) ?G"
    using inv wire b(1) by (intro keepsI) (auto simp: claims_parts worker_inv_def)
  show ?thesis unfolding downstream_gone_def [abs_def] Drain cancel_policy.case
    apply (rule gw.triple_step0 [OF d, where l = 1 and G = ?G], simp add: claims_parts b, simp)
    apply (rule gw.triple_step [OF s, where l = 0 and G = "{#}"], simp, simp)
    by (rule gw.triple_return) (use e in simp)
qed

lemma note_error_triple:
  assumes "wk_attempt k = Some a"
  shows "gw.triple n {#CAttempt a#} (note_error r d e k)
    (\<lambda>k' M. M = opt_claim CAttempt (wk_attempt k') \<and> (\<exists>a'. k' = k\<lparr>wk_attempt := Some a'\<rparr>))"
proof -
  have "k = k\<lparr>wk_attempt := Some a\<rparr>" using assms by simp
  then have same: "\<exists>a'. k = k\<lparr>wk_attempt := Some a'\<rparr>" by blast
  show ?thesis unfolding note_error_def [abs_def] assms Option.bind.simps
    apply (rule gw.triple_step0 [OF on_metrics_triple, where k = 0 and l = n and M = "{#CAttempt a#}" and G = "{#}"], simp, simp)
    apply (rule gw.triple_if)
     apply (rule gw.triple_step0 [OF do_attempt_failure_triple, where k = 0 and l = n and G = "{#}"], simp, simp)
    by (rule gw.triple_return, use assms same in auto)+
qed

lemma observe_capture_triple:
  "gw.triple 2 (opt_claim CCapture c) (observe_capture bytes c) (\<lambda>x M. M = opt_claim CCapture x)"
proof (cases c)
  case None
  then show ?thesis by (simp add: observe_capture_def [abs_def] gw.triple_return)
next
  case (Some cp)
  have d: "gw.triple (Suc 0) {#CCapture cp1#} (\<lambda>w. Option.bind (do_capture_drop cp1 w) (\<lambda>(_, w2). Some (None, w2))) (\<lambda>x M. M = opt_claim CCapture x)" for cp1
    apply (rule gw.triple_step0 [OF do_capture_drop_triple, where l = 0 and G = "{#}"], simp, simp)
    by (rule gw.triple_return) simp
  show ?thesis unfolding observe_capture_def [abs_def] Some option.case
    apply (rule gw.triple_step0 [OF do_observe_triple, where l = "Suc 0" and G = "{#}"], simp, simp)
    subgoal for x
      by (cases x, simp, rule gw.triple_if) (use d [of "snd x"] in \<open>simp_all add: gw.triple_return\<close>)
    done
qed

lemma answered_parts:
  assumes "worker_inv k" "wk_phase k = Streaming b"
  obtains h a where "gd_hold (wk_guard k) = Some h" "h_started h" "wk_attempt k = Some a" "\<exists>x. wk_head k = Some (Inr x)"
    "worker_claims R k = opt_claim CCapture (bd_capture b) + {#CHold h#} + {#CAttempt a#} + opt_claim CPending (wk_cache k)"
  using assms that by (auto simp: worker_inv_def claims_parts)

lemma stream_chunk_keeps:
  assumes inv: "worker_inv k" and ph: "wk_phase k = Streaming b0" and b: "bd_capture b = bd_capture b0"
  shows "gw.triple 2 (worker_claims R k) (stream_chunk E r bytes b k) (keeps R)"
proof -
  let ?P = "opt_claim CPending (wk_cache k)"
  from answered_parts [OF inv ph, of R] obtain h a where h: "gd_hold (wk_guard k) = Some h" "h_started h" "wk_attempt k = Some a"
    "\<exists>x. wk_head k = Some (Inr x)" and c: "worker_claims R k = opt_claim CCapture (bd_capture b) + {#CHold h#} + {#CAttempt a#} + ?P"
    by (metis b)
  have "k = k\<lparr>wk_attempt := Some a\<rparr>" using h(3) by simp
  then have same: "\<exists>a'. k = k\<lparr>wk_attempt := Some a'\<rparr>" by blast
  have note_err: "gw.triple 0 {#CAttempt a#} (\<lambda>w. case fresh of None \<Rightarrow> Some (k, w) | Some e \<Rightarrow> note_error r d e k w)
      (\<lambda>k' M. M = opt_claim CAttempt (wk_attempt k') \<and> (\<exists>a'. k' = k\<lparr>wk_attempt := Some a'\<rparr>))" for fresh d
  proof (cases fresh)
    case None
    with h(3) show ?thesis by (simp, intro gw.triple_return conjI [OF _ same]) simp
  qed (simp add: note_error_triple [OF h(3)])
  have e: "keeps R (k1\<lparr>wk_offered := y, wk_phase := Delivering b1\<rparr>) M" "keeps R (k1\<lparr>wk_phase := Streaming b1\<rparr>) M"
    if "\<exists>a'. k1 = k\<lparr>wk_attempt := Some a'\<rparr>" "M = opt_claim CAttempt (wk_attempt k1) + (opt_claim CCapture x + {#CHold h#} + ?P)"
      "bd_capture b1 = x" for k1 M y b1 x
    using inv h that by (auto intro!: keepsI simp: claims_parts worker_inv_def)
  show ?thesis unfolding stream_chunk_def [abs_def] Let_def
    apply (rule gw.triple_step0 [OF once_triple, where k = 0 and l = 2 and M = "worker_claims R k" and G = "{#}"], simp, simp)
    apply (rule gw.triple_step0 [OF observe_capture_triple, where l = 0 and G = "{#CHold h#} + {#CAttempt a#} + ?P"], simp add: c, simp)
    subgoal for _ x
      apply (rule gw.triple_step [OF note_err, where l = 0 and G = "opt_claim CCapture x + {#CHold h#} + ?P"], simp, simp)
      apply (rule gw.triple_step0 [OF once_triple, where k = 0 and l = 0 and G = "{#}"], simp, simp)
      apply (rule gw.triple_step0 [OF once_triple, where k = 0 and l = 0 and G = "{#}"], simp, simp)
      apply (rule gw.triple_step0 [OF once_triple, where k = 0 and l = 0 and G = "{#}"], simp, simp)
      apply (cases "bd_downstream_open b")
       apply (simp only: if_True, rule gw.triple_return, rule e(1), assumption, simp, simp)
      by (simp only: if_False, rule gw.triple_return, rule e(2), assumption, simp, simp)
    done
qed

lemma settle_attempt_triple:
  assumes k: "wk_attempt k = Some a"
  shows "gw.triple 0 {#CAttempt a#} (settle_attempt r b error k) (\<lambda>k' M. M = {#} \<and> k' = k\<lparr>wk_attempt := None\<rparr>)"
proof (cases error)
  case None
  show ?thesis unfolding settle_attempt_def [abs_def] None option.case k Option.bind.simps
    apply (rule gw.triple_step0 [OF do_attempt_complete_triple, where k = 0 and l = 0 and G = "{#}"], simp, simp)
    by (rule gw.triple_return) simp
next
  case (Some e)
  have "k = k\<lparr>wk_attempt := Some a\<rparr>" using k by simp
  then have same: "\<exists>a'. k = k\<lparr>wk_attempt := Some a'\<rparr>" by blast
  have n: "gw.triple 0 {#CAttempt a#} (\<lambda>w. if bd_response_error_recorded b then Some (k, w) else note_error r (bd_error_delay b) e k w)
      (\<lambda>k' M. M = opt_claim CAttempt (wk_attempt k') \<and> (\<exists>a'. k' = k\<lparr>wk_attempt := Some a'\<rparr>))"
    by (rule gw.triple_if, rule gw.triple_return, rule conjI [OF _ same], simp add: k, rule note_error_triple [OF k])
  have d: "gw.triple 0 (opt_claim CAttempt x) (do_option (do_attempt_drop t) x) (\<lambda>_ M. M = {#})" for x t
    by (rule do_option_claim) (rule do_attempt_drop_triple)
  show ?thesis unfolding settle_attempt_def [abs_def] Some option.case
    apply (rule gw.triple_step [OF n, where l = 0 and G = "{#}"], simp, simp)
    apply (rule gw.triple_step0 [OF d, where l = 0 and G = "{#}"], simp, simp)
    by (rule gw.triple_return) auto
qed

lemma stream_eof_keeps:
  assumes inv: "worker_inv k" and ph: "wk_phase k = Streaming b" and it: "\<And>xs. mset (fe_map_order E xs) = mset xs"
  shows "gw.triple 3 (worker_claims R k) (stream_eof E r closed gone b k) (keeps R)"
proof -
  let ?P = "opt_claim CPending (wk_cache k)" and ?C = "opt_claim CCapture (bd_capture b)"
  from answered_parts [OF inv ph, of R] obtain h a where h: "gd_hold (wk_guard k) = Some h" "wk_attempt k = Some a"
    and c: "worker_claims R k = ?C + {#CHold h#} + {#CAttempt a#} + ?P" by metis
  obtain usage complete error where f: "rob_finish (lib_json (fe_libs E)) (bd_observer b) = (usage, complete, error)" by (metis prod_cases3)
  let ?k = "k\<lparr>wk_attempt := None\<rparr>"
  have d: "gw.triple 1 ?C (do_option (do_commit (fe_map_order E) (r 5) complete) (bd_capture b)) (\<lambda>_ M. M = {#})"
    by (rule do_option_claim) (simp add: do_commit_triple [OF it])
  have m: "gw.triple 1 ?C (\<lambda>w2. if bd_downstream_open b \<and> \<not> closed \<and> \<not> gone
        then Option.bind (do_option (do_commit (fe_map_order E) (r 5) complete) (bd_capture b) w2) (\<lambda>(_, w'). Some (b\<lparr>bd_capture := None\<rparr>, w'))
        else Some (b, w2)) (\<lambda>b' M. M = opt_claim CCapture (bd_capture b'))"
    apply (rule gw.triple_if, rule gw.triple_step0 [OF d, where l = 0 and G = "{#}"], simp, simp)
    by (rule gw.triple_return, simp)+
  have e: "gw.triple 2 (opt_claim CCapture (bd_capture b') + ({#CHold h#} + ?P))
      (finish_return (later 6 r) BodyEof usage (signal_body BodyEnd (?k\<lparr>wk_phase := Streaming b'\<rparr>))) (keeps R)" for b'
    using finish_return_keeps [of R "signal_body BodyEnd (?k\<lparr>wk_phase := Streaming b'\<rparr>)" "later 6 r" BodyEof usage]
    by (simp add: claims_parts h)
  show ?thesis unfolding stream_eof_def [abs_def] f prod.case
    apply (rule gw.triple_step0 [OF on_metrics_triple, where k = 0 and l = 3 and M = "worker_claims R k" and G = "{#}"], simp, simp)
    apply (rule gw.triple_step [OF settle_attempt_triple [OF h(2)], where l = 3 and G = "?C + {#CHold h#} + ?P"], simp add: c, simp)
    apply (rule gw.triple_step0 [OF m, where l = 2 and G = "{#CHold h#} + ?P"], simp, simp)
    by (simp only: e)
qed

lemma step_streaming_keeps:
  assumes inv: "worker_inv k" and ph: "wk_phase k = Streaming b" and it: "\<And>xs. mset (fe_map_order E xs) = mset xs"
  shows "gw.triple 3 (worker_claims R k) (step_streaming E R r ev b k) (keeps R)"
proof -
  note w = gw.triple_weaken [where Q = "keeps R" and Q' = "keeps R" and k = 2 and l = 3, simplified]
  note same = same_keeps [OF inv, of 3 R]
  have gone: "gw.triple 3 (worker_claims R k) (downstream_gone R r reason b k) (keeps R)"
    "gw.triple 3 (worker_claims R k) (downstream_gone R r reason b (k\<lparr>wk_disconnected := True\<rparr>)) (keeps R)" for reason
    using downstream_gone_keeps [OF inv, of R b r reason] downstream_gone_keeps [of "k\<lparr>wk_disconnected := True\<rparr>" R b r reason] inv
    by (auto simp: ph worker_inv_def intro: w)
  have chunk: "gw.triple 3 (worker_claims R k) (stream_chunk E r x (b\<lparr>bd_items := xs\<rparr>) k) (keeps R)" for x xs
    by (rule w, rule stream_chunk_keeps [OF inv ph]) simp
  have chunk': "gw.triple 3 (worker_claims R k) (stream_chunk E r x b (k\<lparr>wk_received := y\<rparr>)) (keeps R)" for x y
    using stream_chunk_keeps [of "k\<lparr>wk_received := y\<rparr>" b b R E r x] inv by (auto simp: ph worker_inv_def intro: w)
  show ?thesis
  proof (cases ev)
    case EvDisconnect
    with gw.triple_if [OF gone(2) same] show ?thesis by (simp add: step_streaming_def [abs_def])
  next
    case EvBodyClosed
    with gw.triple_if [OF gone(1) same] show ?thesis by (simp add: step_streaming_def [abs_def])
  next
    case EvRun
    with chunk same show ?thesis by (cases "bd_items b") (simp_all add: step_streaming_def [abs_def])
  next
    case (EvChunk bytes)
    with gw.triple_if [OF same chunk', of "bd_items b \<noteq> []"] show ?thesis by (simp add: step_streaming_def [abs_def])
  next
    case (EvEof c g)
    with gw.triple_if [OF same stream_eof_keeps [OF inv ph it], of "bd_items b \<noteq> []"] show ?thesis
      by (simp add: step_streaming_def [abs_def])
  next
    case (EvFailed t)
    have "gw.triple 2 (worker_claims R k) (\<lambda>w. Option.bind (if t then Some (k, w) else fail_attempt r None k w)
        (\<lambda>(k1, w1). finish_return (later 4 r) UpstreamError None (signal_body (BodyFailure ''upstream response stream failed'') k1) w1)) (keeps R)"
    proof (rule maybe_fail_then)
      fix k1
      show "gw.triple 2 (worker_claims R k1) (finish_return (later 4 r) UpstreamError None
          (signal_body (BodyFailure ''upstream response stream failed'') k1)) (keeps R)"
        using finish_return_keeps [of R "signal_body (BodyFailure ''upstream response stream failed'') k1"] by simp
    qed
    with gw.triple_if [OF same w, of "bd_items b \<noteq> []"] EvFailed show ?thesis by (simp add: step_streaming_def [abs_def])
  qed (use same w [OF worker_return_keeps] w [OF body_deadline_keeps] in \<open>simp_all add: step_streaming_def [abs_def]\<close>)
qed

lemma step_delivering_keeps:
  assumes inv: "worker_inv k" and ph: "wk_phase k = Delivering b"
  shows "gw.triple 2 (worker_claims R k) (step_delivering R r ev b k) (keeps R)"
proof -
  have "keeps R (k\<lparr>wk_phase := Streaming b\<rparr>) (worker_claims R k)"
    using inv by (intro keepsI) (auto simp: claims_parts worker_inv_def ph)
  then show ?thesis using downstream_gone_keeps [OF inv, of R b r]
    by (cases ev) (simp_all add: ph step_delivering_def [abs_def] same_keeps [OF inv] worker_return_keeps body_deadline_keeps gw.triple_return)
qed

section \<open>Every step\<close>

theorem forward_step_keeps:
  assumes inv: "worker_inv k"
    and it: "\<And>xs. mset (fe_scope_order E xs) = mset xs" "\<And>xs. mset (fe_map_order E xs) = mset xs"
  shows "gw.triple 3 (worker_claims R k) (forward_step E R r ev k) (keeps R)"
proof -
  note w = gw.triple_weaken [where Q = "keeps R" and Q' = "keeps R" and k = 2 and l = 3, simplified]
  note same = same_keeps [OF inv, of 3 R]
  have pre: "gw.triple 3 (worker_claims R k) (prestart_signal r ev k) (keeps R)" if "\<not> answered (wk_phase k)" "wk_phase k \<noteq> Ended"
    by (rule w, rule prestart_signal_keeps [OF inv that])
  have ret: "gw.triple 3 (worker_claims R k) (worker_return r k) (keeps R)" by (rule w, rule worker_return_keeps)
  show ?thesis
  proof (cases "wk_phase k")
    case Unstarted
    have k: "keeps R (k\<lparr>wk_phase := first_phase R\<rparr>) (worker_claims R k)"
      using inv by (intro keepsI) (auto simp: claims_parts worker_inv_def Unstarted first_phase_def)
    have "gw.triple 3 (worker_claims R k) (\<lambda>w. map_option (\<lambda>(_, w1). (k\<lparr>wk_phase := first_phase R\<rparr>, w1)) (on_metrics worker_started w)) (keeps R)"
      using on_metrics_triple [of 3 "worker_claims R k" worker_started] k by (auto simp: gw.triple_def on_metrics_def)
    with Unstarted same ret show ?thesis by (cases ev) (simp_all add: forward_step_def [abs_def])
  next
    case AtGate
    have "keeps R (k\<lparr>wk_phase := AtStart\<rparr>) (worker_claims R k)"
      using inv by (intro keepsI) (auto simp: claims_parts worker_inv_def AtGate)
    with AtGate pre show ?thesis by (cases ev) (simp_all add: forward_step_def [abs_def] gw.triple_return)
  next
    case AtStart
    from w [OF try_circuit_keeps [OF inv AtStart it(1)]] AtStart same show ?thesis by (cases ev) (simp_all add: forward_step_def [abs_def])
  next
    case (Armed a)
    from w [OF try_hold_keeps [OF inv Armed]] Armed same show ?thesis by (cases ev) (simp_all add: forward_step_def [abs_def])
  next
    case (Reacquiring q)
    from w [OF poll_reacquire_keeps [OF inv Reacquiring]] Reacquiring pre show ?thesis by (cases ev) (simp_all add: forward_step_def [abs_def])
  next
    case (AwaitingProbe a g)
    from w [OF poll_probe_keeps [OF inv AwaitingProbe]] AwaitingProbe pre show ?thesis by (cases ev) (simp_all add: forward_step_def [abs_def])
  next
    case Sending
    from w [OF step_sending_keeps [OF inv Sending]] Sending show ?thesis by (simp add: forward_step_def [abs_def])
  next
    case (GotHeaders resp)
    from w [OF got_headers_keeps [OF inv GotHeaders]] GotHeaders same show ?thesis by (cases ev) (simp_all add: forward_step_def [abs_def])
  next
    case (ReadingRejection resp b1 b2 p)
    from w [OF step_rejection_keeps [OF inv ReadingRejection]] ReadingRejection show ?thesis by (simp add: forward_step_def [abs_def])
  next
    case (Deciding resp b1 p)
    from w [OF decide_keeps [OF inv Deciding it(2)]] Deciding same show ?thesis by (cases ev) (simp_all add: forward_step_def [abs_def])
  next
    case (RetryAcquiring q)
    from w [OF step_retry_keeps [OF inv RetryAcquiring]] RetryAcquiring show ?thesis by (simp add: forward_step_def [abs_def])
  next
    case (Streaming b)
    from step_streaming_keeps [OF inv Streaming it(2)] Streaming show ?thesis by (simp add: forward_step_def [abs_def])
  next
    case (Delivering b)
    from w [OF step_delivering_keeps [OF inv Delivering]] Delivering show ?thesis by (simp add: forward_step_def [abs_def])
  qed (use same in \<open>simp_all add: forward_step_def [abs_def]\<close>)
qed

end
