(* ===== verification/Forward_Trace.thy ===== *)
theory Forward_Trace
  imports Forward_Facts
begin

text \<open>
  What a worker leaves behind: how often and what it sends, which bytes it passes on, what it tells
  the client task and the response body, and what it reports when it ends.  These facts hold
  whatever the shared state answers, so they are proved for every successful step.
\<close>

section \<open>The invariant of the histories\<close>

fun retry_flag :: "phase \<Rightarrow> bool" where
  "retry_flag (ReadingRejection _ retry _ _) = retry"
| "retry_flag (Deciding _ retry _) = retry"
| "retry_flag (RetryAcquiring _) = True"
| "retry_flag _ = False"

fun on_air :: "phase \<Rightarrow> nat" where
  "on_air (RetryAcquiring _) = 1"
| "on_air ph = (if on_wire ph then 1 else 0)"

text \<open>The bytes of a response that were read and not yet offered to the client.\<close>

fun unread :: "phase \<Rightarrow> string" where
  "unread (ReadingRejection _ _ _ p) = rp_bytes p"
| "unread (Deciding _ _ p) = rp_bytes p @ (case rp_extra p of None \<Rightarrow> [] | Some x \<Rightarrow> x)"
| "unread (Streaming b) = concat (bd_items b)"
| "unread (Delivering b) = concat (bd_items b)"
| "unread _ = []"

fun drains :: "phase \<Rightarrow> bool" where
  "drains (Streaming b) = (\<not> bd_downstream_open b)"
| "drains (Delivering b) = (\<not> bd_downstream_open b)"
| "drains _ = False"

fun delivers :: "phase \<Rightarrow> bool" where
  "delivers (Delivering b) = bd_downstream_open b"
| "delivers (ReadingRejection _ _ _ p) = (rp_extra p = None)"
| "delivers _ = True"

definition live_ok :: "forward_request \<Rightarrow> worker \<Rightarrow> bool" where
  "live_ok R k =
     (let ph = wk_phase k in
      gd_reason (wk_guard k) = Shutdown \<and> gd_usage (wk_guard k) = None \<and> wk_terminal k = None
      \<and> (answered ph \<or> wk_head k = None) \<and> (answered ph \<longrightarrow> (\<exists>x. wk_head k = Some (Inr x)))
      \<and> length (wk_wires k) = (if wk_retried k then 1 else 0) + on_air ph
      \<and> (wk_retried k \<or> retry_flag ph \<longrightarrow> rq_retry_transient_429 R) \<and> \<not> (wk_retried k \<and> retry_flag ph)
      \<and> (on_wire ph \<and> \<not> drains ph \<longrightarrow> wk_received k = wk_offered k @ unread ph)
      \<and> prefix (wk_offered k) (wk_received k) \<and> (\<not> answered ph \<longrightarrow> wk_offered k = [])
      \<and> (wk_disconnected k \<longrightarrow> on_wire ph \<and> gd_draining (wk_guard k))
      \<and> (\<not> answered ph \<longrightarrow> (gd_draining (wk_guard k) \<longleftrightarrow> wk_disconnected k))
      \<and> (answered ph \<longrightarrow> (drains ph \<longleftrightarrow> gd_draining (wk_guard k))) \<and> delivers ph)"

definition ended_ok :: "forward_request \<Rightarrow> worker \<Rightarrow> bool" where
  "ended_ok R k =
     (let g = wk_guard k in
      (wk_terminal k = Some BodyEnd \<longleftrightarrow> gd_reason g = BodyEof) \<and> (gd_usage g \<noteq> None \<longrightarrow> gd_reason g = BodyEof)
      \<and> (wk_head k = None \<longrightarrow> gd_reason g = DownstreamClose \<or> gd_reason g = Shutdown)
      \<and> (wk_terminal k \<noteq> None \<longrightarrow> (\<exists>x. wk_head k = Some (Inr x)))
      \<and> length (wk_wires k) \<le> 2 \<and> (length (wk_wires k) = 2 \<longrightarrow> rq_retry_transient_429 R)
      \<and> prefix (wk_offered k) (wk_received k)
      \<and> (wk_terminal k = Some BodyEnd \<and> \<not> gd_draining g \<longrightarrow> wk_offered k = wk_received k))"

definition traced :: "forward_request \<Rightarrow> worker \<Rightarrow> bool" where
  "traced R k =
     (set (wk_wires k) \<subseteq> {rq_wire R} \<and> (if wk_phase k = Ended then ended_ok R k else live_ok R k))"

lemma traced_new: "traced R (worker_new R)"
  by (simp add: traced_def worker_new_def live_ok_def guard_new_def)

section \<open>What the calls return\<close>

text \<open>The state of a worker after it returned.\<close>

definition over :: "worker \<Rightarrow> worker" where
  "over k = (set_hold None k)\<lparr>wk_phase := Ended, wk_attempt := None, wk_cache := None\<rparr>"

lemma worker_return_result: "worker_return r k w = Some (k', w') \<Longrightarrow> k' = over k"
  by (auto simp: worker_return_def over_def Option.bind_eq_Some_conv)

lemma finish_return_result:
  "finish_return r reason u k w = Some (k', w') \<Longrightarrow> k' = over (k\<lparr>wk_guard := guard_finish reason u (wk_guard k)\<rparr>)"
  unfolding finish_return_def by (rule worker_return_result)

lemma head_failure_result:
  "head_failure r e k w = Some (k', w') \<Longrightarrow> wk_head k = None
     \<and> k' = over (k\<lparr>wk_head := Some (Inl e), wk_guard := guard_finish (head_reason e) None (wk_guard k)\<rparr>)"
  by (auto simp: head_failure_def head_send_def Option.bind_eq_Some_conv dest!: finish_return_result split: if_splits)

lemma head_deadline_result:
  "head_deadline r k w = Some (k', w') \<Longrightarrow> wk_head k = None
     \<and> k' = over (k\<lparr>wk_head := Some (Inl HeadDeadline), wk_guard := guard_finish DeadlineOver None (wk_guard k)\<rparr>)"
  by (auto simp: head_deadline_def head_send_def Option.bind_eq_Some_conv dest!: finish_return_result split: if_splits)

lemma fail_attempt_result: "fail_attempt r d k w = Some (k', w') \<Longrightarrow> \<exists>a. k' = k\<lparr>wk_attempt := a\<rparr>"
  by (auto simp: fail_attempt_def Option.bind_eq_Some_conv split: option.splits intro: exI [of _ "wk_attempt k"])

lemma drop_cache_result: "drop_cache k w = Some (k', w') \<Longrightarrow> k' = k\<lparr>wk_cache := None\<rparr>"
  by (auto simp: drop_cache_def Option.bind_eq_Some_conv)

lemma start_draining_result: "start_draining k w = Some (k', w') \<Longrightarrow> k' = k\<lparr>wk_guard := (wk_guard k)\<lparr>gd_draining := True\<rparr>\<rparr>"
  by (auto simp: start_draining_def guard_start_draining_def on_metrics_def split: if_splits)

lemma client_gone_result:
  "client_gone R r k w = Some (k', w') \<Longrightarrow>
     k' = over (k\<lparr>wk_disconnected := True, wk_guard := guard_finish DownstreamClose None (wk_guard k)\<rparr>)
     \<or> k' = k\<lparr>wk_disconnected := True, wk_cache := None, wk_guard := (wk_guard k)\<lparr>gd_draining := True\<rparr>\<rparr>"
  by (auto simp: client_gone_def Let_def Option.bind_eq_Some_conv dest!: finish_return_result drop_cache_result start_draining_result
    split: cancel_policy.splits)

section \<open>Endings\<close>

lemma on_air_bound: "on_air ph \<le> 1"
  by (cases ph) simp_all

lemma live_wires: "live_ok R k \<Longrightarrow> length (wk_wires k) \<le> 2 \<and> (length (wk_wires k) = 2 \<longrightarrow> rq_retry_transient_429 R)"
  using on_air_bound [of "wk_phase k"] by (auto simp: live_ok_def Let_def split: if_splits)

lemma traced_live: "traced R k \<Longrightarrow> wk_phase k \<noteq> Ended \<Longrightarrow> live_ok R k \<and> set (wk_wires k) \<subseteq> {rq_wire R}"
  by (simp add: traced_def)

lemma traced_over:
  assumes k: "traced R k" "wk_phase k \<noteq> Ended"
    and k1: "wk_wires k1 = wk_wires k" "wk_received k1 = wk_received k" "wk_offered k1 = wk_offered k"
    and t: "wk_terminal k1 = Some BodyEnd \<longleftrightarrow> gd_reason (wk_guard k1) = BodyEof"
      "gd_usage (wk_guard k1) \<noteq> None \<longrightarrow> gd_reason (wk_guard k1) = BodyEof"
      "wk_head k1 = None \<longrightarrow> gd_reason (wk_guard k1) = DownstreamClose \<or> gd_reason (wk_guard k1) = Shutdown"
      "wk_terminal k1 \<noteq> None \<longrightarrow> (\<exists>x. wk_head k1 = Some (Inr x))"
      "wk_terminal k1 = Some BodyEnd \<and> \<not> gd_draining (wk_guard k1) \<longrightarrow> wk_offered k = wk_received k"
  shows "traced R (over k1)"
  using live_wires [of R k] traced_live [OF k] k1 t by (auto simp: traced_def over_def ended_ok_def Let_def live_ok_def)

text \<open>Leaving before the head was sent.\<close>

lemma unanswered_over:
  assumes k: "traced R k" "wk_phase k \<noteq> Ended" "\<not> answered (wk_phase k)"
  shows "traced R (over (k\<lparr>wk_head := Some (Inl e), wk_guard := guard_finish reason None (wk_guard k)\<rparr>)) \<longleftrightarrow> reason \<noteq> BodyEof"
    "traced R (over (k\<lparr>wk_guard := guard_finish Shutdown None (wk_guard k)\<rparr>))"
    "traced R (over (k\<lparr>wk_guard := guard_finish DownstreamClose None (wk_guard k)\<rparr>))"
    "traced R (over (k\<lparr>wk_disconnected := True, wk_guard := guard_finish DownstreamClose None (wk_guard k)\<rparr>))"
    "traced R (over k)"
proof -
  have l: "live_ok R k" using traced_live k by blast
  then have t: "wk_terminal k = None" "wk_head k = None" "gd_reason (wk_guard k) = Shutdown" "gd_usage (wk_guard k) = None"
    using k(3) by (auto simp: live_ok_def Let_def)
  show "traced R (over (k\<lparr>wk_head := Some (Inl e), wk_guard := guard_finish reason None (wk_guard k)\<rparr>)) \<longleftrightarrow> reason \<noteq> BodyEof"
  proof
    assume "traced R (over (k\<lparr>wk_head := Some (Inl e), wk_guard := guard_finish reason None (wk_guard k)\<rparr>))"
    with t show "reason \<noteq> BodyEof" by (auto simp: traced_def over_def ended_ok_def guard_finish_def)
  qed (rule traced_over [OF k(1,2)], use t in \<open>simp_all add: guard_finish_def\<close>)
  show "traced R (over (k\<lparr>wk_guard := guard_finish Shutdown None (wk_guard k)\<rparr>))"
    "traced R (over (k\<lparr>wk_guard := guard_finish DownstreamClose None (wk_guard k)\<rparr>))"
    "traced R (over (k\<lparr>wk_disconnected := True, wk_guard := guard_finish DownstreamClose None (wk_guard k)\<rparr>))" "traced R (over k)"
    by (rule traced_over [OF k(1,2)], use t in \<open>simp_all add: guard_finish_def\<close>)+
qed

lemma head_reason_ne [simp]: "head_reason e \<noteq> BodyEof"
  by (cases e rule: head_reason.cases) simp_all

text \<open>Leaving while the body is streamed.\<close>

lemma answered_over:
  assumes k: "traced R k" "answered (wk_phase k)"
  shows "reason \<noteq> BodyEof \<Longrightarrow> traced R (over ((signal_body (BodyFailure m) k)\<lparr>wk_guard := guard_finish reason None (wk_guard k)\<rparr>))"
    "traced R (over k)"
proof -
  have e: "wk_phase k \<noteq> Ended" using k(2) by auto
  from traced_live [OF k(1) this] k(2) have t: "wk_terminal k = None" "\<exists>x. wk_head k = Some (Inr x)"
    "gd_reason (wk_guard k) = Shutdown" "gd_usage (wk_guard k) = None" by (auto simp: live_ok_def Let_def)
  show "reason \<noteq> BodyEof \<Longrightarrow> traced R (over ((signal_body (BodyFailure m) k)\<lparr>wk_guard := guard_finish reason None (wk_guard k)\<rparr>))"
    "traced R (over k)"
    by (rule traced_over [OF k(1) e], use t in \<open>auto simp: guard_finish_def signal_body_def\<close>)+
qed

section \<open>Steps before the head is sent\<close>

lemma prestart_traced:
  assumes k: "traced R k" "wk_phase k \<noteq> Ended" "\<not> answered (wk_phase k)" and s: "prestart_signal r ev k w = Some (k', w')"
  shows "traced R k'"
proof -
  note u = unanswered_over [OF k]
  show ?thesis
  proof (cases ev)
    case EvDeadline
    with s head_deadline_result [of r k w k' w'] u(1) show ?thesis by (simp add: prestart_signal_def)
  next
    case EvDisconnect
    with s finish_return_result [of r _ _ _ w k' w'] u(4) show ?thesis by (fastforce simp: prestart_signal_def)
  next
    case EvHeadClosed
    with s finish_return_result [of r _ _ _ w k' w'] u(4) show ?thesis by (fastforce simp: prestart_signal_def)
  next
    case EvStop
    with s finish_return_result [of r Shutdown None k w k' w'] u(2) show ?thesis by (simp add: prestart_signal_def)
  next
    case EvQueueTimeout
    with s head_failure_result [of r "HeadAdmission Deadline" k w k' w'] u(1) show ?thesis by (simp add: prestart_signal_def)
  next
    case EvAbort
    with s worker_return_result [of r k w k' w'] u(5) show ?thesis by (simp add: prestart_signal_def)
  qed (use s k(1) in \<open>simp_all add: prestart_signal_def\<close>)
qed

lemma live_rephase:
  assumes "traced R k" "wk_phase k \<noteq> Ended" "\<not> answered (wk_phase k)" "ph \<noteq> Ended" "\<not> answered ph"
    "on_air ph = on_air (wk_phase k)" "retry_flag ph \<longrightarrow> retry_flag (wk_phase k)" "on_wire ph = on_wire (wk_phase k)" "on_wire ph \<longrightarrow> unread ph = unread (wk_phase k)"
    "delivers ph"
  shows "traced R ((set_hold h k)\<lparr>wk_phase := ph\<rparr>)" "traced R (k\<lparr>wk_phase := ph\<rparr>)"
proof -
  have "\<not> drains ph" using assms(5) by (cases ph; simp)
  moreover have "\<not> drains (wk_phase k)" using assms(3) by (cases "wk_phase k"; simp)
  ultimately show "traced R ((set_hold h k)\<lparr>wk_phase := ph\<rparr>)" "traced R (k\<lparr>wk_phase := ph\<rparr>)"
    using assms unfolding traced_def live_ok_def Let_def by (simp_all, blast+)
qed

lemma head_failure_traced:
  assumes "head_failure r e k w = Some (k', w')" "traced R k" "wk_phase k \<noteq> Ended" "\<not> answered (wk_phase k)"
  shows "traced R k'"
  using head_failure_result [OF assms(1)] unanswered_over(1) [OF assms(2-4)] by simp

lemma ending_over: "over (k\<lparr>wk_phase := Ending\<rparr>) = over k" "over (k\<lparr>wk_attempt := a\<rparr>) = over k"
  by (simp_all add: over_def set_hold_def)

lemma head_failure_ending_traced:
  assumes "head_failure r e (k\<lparr>wk_phase := Ending\<rparr>) w = Some (k', w')" "traced R k" "wk_phase k \<noteq> Ended" "\<not> answered (wk_phase k)"
  shows "traced R k'"
proof -
  have "k' = over (k\<lparr>wk_phase := Ending, wk_head := Some (Inl e), wk_guard := guard_finish (head_reason e) None (wk_guard k)\<rparr>)"
    using head_failure_result [OF assms(1)] by simp
  also have "\<dots> = over (k\<lparr>wk_head := Some (Inl e), wk_guard := guard_finish (head_reason e) None (wk_guard k)\<rparr>)"
    by (simp add: over_def set_hold_def)
  finally show ?thesis using unanswered_over(1) [OF assms(2-4)] by simp
qed

lemma try_circuit_traced:
  assumes s: "try_circuit E R r k w = Some (k', w')" and k: "traced R k" and ph: "wk_phase k = AtStart"
  shows "traced R k'"
proof -
  have e: "wk_phase k \<noteq> Ended" "\<not> answered (wk_phase k)" by (simp_all add: ph)
  show ?thesis
  proof (cases "rq_queue_deadline R \<le> r 0")
    case True
    with s have "head_failure (later 5 r) (HeadAdmission Deadline) k w = Some (k', w')" by (simp add: try_circuit_def)
    from head_failure_traced [OF this k e] show ?thesis .
  next
    case False
    with s obtain x w1 where x: "do_scope_start (fe_scope_order E) (later 1 r) (rq_scope R) w = Some (x, w1)"
      by (auto simp: try_circuit_def Option.bind_eq_Some_conv)
    show ?thesis
    proof (cases x)
      case (Inl y)
      show ?thesis
      proof (cases y)
        case (Cooling d)
        with Inl x s False have "head_failure (later 5 r) (HeadCircuit y) k w1 = Some (k', w')" by (simp add: try_circuit_def)
        from head_failure_traced [OF this k e] show ?thesis .
      next
        case Probing
        with Inl x s False obtain h where "k' = (set_hold None k)\<lparr>wk_phase := AwaitingProbe (retry_args h) False\<rparr>"
          by (auto simp: try_circuit_def Option.bind_eq_Some_conv)
        with live_rephase [OF k e] show ?thesis by (simp add: ph)
      qed
    next
      case (Inr a)
      with x s False have "k' = k\<lparr>wk_phase := Armed a\<rparr>" by (auto simp: try_circuit_def)
      with live_rephase [OF k e] show ?thesis by (simp add: ph)
    qed
  qed
qed

lemma try_hold_traced:
  assumes s: "try_hold R r a k w = Some (k', w')" and k: "traced R k" and ph: "wk_phase k = Armed a"
  shows "traced R k'"
proof -
  have e: "wk_phase k \<noteq> Ended" "\<not> answered (wk_phase k)" by (simp_all add: ph)
  from s obtain h1 where "k' = (set_hold (Some h1) k)\<lparr>wk_attempt := Some a, wk_phase := Sending, wk_wires := wk_wires k @ [rq_wire R], wk_received := []\<rparr>
      \<or> k' = (set_hold None k)\<lparr>wk_phase := Reacquiring (Fresh (retry_args h1))\<rparr>"
    by (auto simp: try_hold_def Option.bind_eq_Some_conv split: if_splits)
  then show ?thesis
  proof
    assume "k' = (set_hold (Some h1) k)\<lparr>wk_attempt := Some a, wk_phase := Sending, wk_wires := wk_wires k @ [rq_wire R], wk_received := []\<rparr>"
    then show ?thesis using k ph by (auto simp: traced_def live_ok_def Let_def)
  qed (use live_rephase [OF k e] in \<open>simp add: ph\<close>)
qed

lemma poll_reacquire_traced:
  assumes s: "poll_reacquire r q k w = Some (k', w')" and k: "traced R k" and ph: "wk_phase k = Reacquiring q"
  shows "traced R k'"
proof -
  have e: "wk_phase k \<noteq> Ended" "\<not> answered (wk_phase k)" by (simp_all add: ph)
  note re = live_rephase [OF k e]
  from s obtain x w1 where x: "do_acquire r q w = Some (x, w1)" by (auto simp: poll_reacquire_def Option.bind_eq_Some_conv)
  show ?thesis
  proof (cases x)
    case (Inl y)
    with s x re(1) head_failure_ending_traced [OF _ k e] show ?thesis by (cases y) (auto simp: poll_reacquire_def ph)
  qed (use s x re(2) in \<open>auto simp: poll_reacquire_def ph\<close>)
qed

lemma poll_probe_traced:
  assumes s: "poll_probe R r a g k w = Some (k', w')" and k: "traced R k" and ph: "wk_phase k = AwaitingProbe a g"
  shows "traced R k'"
proof -
  have e: "wk_phase k \<noteq> Ended" "\<not> answered (wk_phase k)" by (simp_all add: ph)
  note re = live_rephase(2) [OF k e]
  from s obtain x w1 where x: "do_scope_wait (r 0) (rq_scope R) g w = Some (x, w1)" by (auto simp: poll_probe_def Option.bind_eq_Some_conv)
  with s re head_failure_ending_traced [OF _ k e] show ?thesis by (cases x) (auto simp: poll_probe_def ph)
qed

lemma fail_then_traced:
  assumes "Option.bind (if c then Some (k, w) else fail_attempt r d k w) (\<lambda>(k1, w1). head_failure r' e k1 w1) = Some (k', w')"
    "traced R k" "wk_phase k \<noteq> Ended" "\<not> answered (wk_phase k)"
  shows "traced R k'"
proof -
  from assms(1) obtain k1 w1 where "(if c then Some (k, w) else fail_attempt r d k w) = Some (k1, w1)" and h: "head_failure r' e k1 w1 = Some (k', w')"
    by (auto simp: Option.bind_eq_Some_conv)
  then have "\<exists>a. k1 = k\<lparr>wk_attempt := a\<rparr>" using fail_attempt_result by (auto split: if_splits intro: exI [of _ "wk_attempt k"])
  then obtain a where a: "k1 = k\<lparr>wk_attempt := a\<rparr>" ..
  have "k' = over (k\<lparr>wk_head := Some (Inl e), wk_guard := guard_finish (head_reason e) None (wk_guard k)\<rparr>)"
    using head_failure_result [OF h] by (simp add: a over_def set_hold_def)
  with unanswered_over(1) [OF assms(2-4)] show ?thesis by simp
qed

lemma client_gone_traced:
  assumes s: "client_gone R' r k w = Some (k', w')" and k: "traced R k" and ph: "on_wire (wk_phase k)" "\<not> answered (wk_phase k)"
  shows "traced R k'"
proof -
  have e: "wk_phase k \<noteq> Ended" "\<not> drains (wk_phase k)" using ph by (auto, cases "wk_phase k") auto
  from client_gone_result [OF s] show ?thesis
  proof
    assume "k' = k\<lparr>wk_disconnected := True, wk_cache := None, wk_guard := (wk_guard k)\<lparr>gd_draining := True\<rparr>\<rparr>"
    with k e ph show ?thesis by (auto simp: traced_def live_ok_def Let_def)
  qed (use unanswered_over(4) [OF k e(1) ph(2)] in simp)
qed

lemma step_sending_traced:
  assumes s: "step_sending R r ev k w = Some (k', w')" and k: "traced R k" and ph: "wk_phase k = Sending"
  shows "traced R k'"
proof -
  have e: "wk_phase k \<noteq> Ended" "\<not> answered (wk_phase k)" "on_wire (wk_phase k)" by (simp_all add: ph)
  note gone = client_gone_traced [OF _ k e(3,2)]
  show ?thesis
  proof (cases ev)
    case EvDeadline
    with s obtain k1 w1 where "fail_attempt r None k w = Some (k1, w1)" and h: "head_deadline (later 4 r) k1 w1 = Some (k', w')"
      by (auto simp: step_sending_def Option.bind_eq_Some_conv)
    then obtain a where a: "k1 = k\<lparr>wk_attempt := a\<rparr>" using fail_attempt_result by blast
    have "k' = over (k\<lparr>wk_head := Some (Inl HeadDeadline), wk_guard := guard_finish DeadlineOver None (wk_guard k)\<rparr>)"
      using head_deadline_result [OF h] by (simp add: a over_def set_hold_def)
    with unanswered_over(1) [OF k e(1,2)] show ?thesis by simp
  next
    case EvDisconnect
    with s k gone show ?thesis by (auto simp: step_sending_def split: if_splits)
  next
    case EvHeadClosed
    with s k gone show ?thesis by (auto simp: step_sending_def split: if_splits)
  next
    case (EvResponse resp)
    with s live_rephase(2) [OF k e(1,2), of "GotHeaders resp"] show ?thesis by (simp add: step_sending_def ph)
  next
    case (EvSendFailed b)
    with s have "Option.bind (if b then Some (k, w) else fail_attempt r None k w) (\<lambda>(k1, w1). head_failure (later 4 r) HeadUpstream k1 w1) = Some (k', w')"
      by (simp add: step_sending_def)
    then show ?thesis by (rule fail_then_traced [OF _ k e(1,2)])
  next
    case EvAbort
    with s worker_return_result [of r k w] unanswered_over(5) [OF k e(1,2)] show ?thesis by (auto simp: step_sending_def)
  qed (use s k in \<open>simp_all add: step_sending_def\<close>)
qed

lemma headers_rephase:
  assumes k: "traced R k" "wk_phase k = GotHeaders resp"
    and k1: "k1 = (set_hold h k)\<lparr>wk_attempt := a, wk_cache := None\<rparr> \<or> k1 = (set_hold h k)\<lparr>wk_attempt := a\<rparr>"
    and ph: "ph \<noteq> Ended" "\<not> answered ph" "on_wire ph" "on_air ph = 1" "unread ph = []" "\<not> drains ph" "delivers ph"
      "retry_flag ph \<longrightarrow> rq_retry_transient_429 R \<and> \<not> wk_retried k"
  shows "traced R (k1\<lparr>wk_phase := ph\<rparr>)"
  using k1
proof
  assume "k1 = (set_hold h k)\<lparr>wk_attempt := a, wk_cache := None\<rparr>"
  then show ?thesis using k ph unfolding traced_def live_ok_def Let_def by (simp, blast)
next
  assume "k1 = (set_hold h k)\<lparr>wk_attempt := a\<rparr>"
  then show ?thesis using k ph unfolding traced_def live_ok_def Let_def by (simp, blast)
qed

lemma got_headers_traced:
  assumes s: "got_headers E R r resp k w = Some (k', w')" and k: "traced R k" and ph: "wk_phase k = GotHeaders resp"
  shows "traced R k'"
proof -
  let ?ph = "if ur_status resp = 429
        then ReadingRejection resp (can_retry E R (r 8) resp k) (missing_timing (get_all (ur_headers resp)) \<or> can_retry E R (r 8) resp k) prefix_default
        else Deciding resp (can_retry E R (r 8) resp k) prefix_default"
  let ?gave_up = "ur_status resp \<noteq> 200 \<and> \<not> can_retry E R (r 8) resp k"
  from s obtain h1 a1 w2 w3 k2 where
    "(if ?gave_up
      then do { (_, w') \<leftarrow> do_option do_reject_status (wk_cache ((set_hold (Some h1) k)\<lparr>wk_attempt := Some a1\<rparr>)) w2;
                Some ((set_hold (Some h1) k)\<lparr>wk_attempt := Some a1, wk_cache := None\<rparr>, w') }
      else Some ((set_hold (Some h1) k)\<lparr>wk_attempt := Some a1\<rparr>, w2)) = Some (k2, w3)"
    and k2: "k2\<lparr>wk_phase := ?ph\<rparr> = k'"
    unfolding got_headers_def Let_def by (simp add: Option.bind_eq_Some_conv del: if_split) blast
  then have k': "k2 = (set_hold (Some h1) k)\<lparr>wk_attempt := Some a1, wk_cache := None\<rparr>
      \<or> k2 = (set_hold (Some h1) k)\<lparr>wk_attempt := Some a1\<rparr>"
    by (cases ?gave_up) (auto simp: Option.bind_eq_Some_conv)
  have "traced R (k2\<lparr>wk_phase := ?ph\<rparr>)"
    by (rule headers_rephase [OF k ph k']) (simp_all add: prefix_default_def can_retry_def)
  with k2 show ?thesis by simp
qed

lemma step_rejection_traced:
  assumes s: "step_rejection E R r ev resp retry nb p k w = Some (k', w')" and k: "traced R k"
    and ph: "wk_phase k = ReadingRejection resp retry nb p"
  shows "traced R k'"
proof -
  have p: "rp_extra p = None" using k by (simp add: traced_def live_ok_def ph)
  have e: "wk_phase k \<noteq> Ended" "\<not> answered (wk_phase k)" "on_wire (wk_phase k)" by (simp_all add: ph)
  note gone = client_gone_traced [OF _ k e(3,2)]
  let ?reading = "nb \<and> probeable (fe_libs E) resp"
  note re = live_rephase(2) [OF k e(1,2)]
  show ?thesis
  proof (cases ev)
    case EvDeadline
    with s head_deadline_result [of r k w k' w'] unanswered_over(1) [OF k e(1,2)] show ?thesis by (simp add: step_rejection_def)
  next
    case EvDisconnect
    with s k gone show ?thesis by (auto simp: step_rejection_def split: if_splits)
  next
    case EvHeadClosed
    with s k gone show ?thesis by (auto simp: step_rejection_def split: if_splits)
  next
    case EvRun
    with s k re [of "Deciding resp retry p"] p show ?thesis by (auto simp: step_rejection_def Let_def ph split: if_splits)
  next
    case (EvChunk bytes)
    show ?thesis
    proof (cases "?reading")
      case True
      have "traced R (k\<lparr>wk_received := wk_received k @ bytes, wk_phase := ph'\<rparr>)"
        if "ph' = Deciding resp retry p' \<or> ph' = ReadingRejection resp retry nb p'" "unread ph' = rp_bytes p @ bytes" "delivers ph'" for ph' p'
        using k that unfolding traced_def live_ok_def Let_def ph by auto
      with EvChunk s True p show ?thesis
        by (auto simp: step_rejection_def Let_def probe_chunk_def split: if_splits)
    qed (use EvChunk s k in \<open>auto simp: step_rejection_def Let_def\<close>)
  next
    case (EvEof c g)
    with s k re [of "Deciding resp retry (p\<lparr>rp_complete := True\<rparr>)"] p show ?thesis
      by (auto simp: step_rejection_def Let_def ph split: if_splits)
  next
    case (EvFailed b)
    show ?thesis
    proof (cases "?reading")
      case True
      with EvFailed s have "Option.bind (if b then Some (k, w) else fail_attempt r None k w) (\<lambda>(k1, w1). head_failure (later 4 r) HeadUpstream k1 w1) = Some (k', w')"
        by (simp add: step_rejection_def)
      then show ?thesis by (rule fail_then_traced [OF _ k e(1,2)])
    qed (use EvFailed s k in \<open>auto simp: step_rejection_def Let_def\<close>)
  next
    case EvAbort
    with s worker_return_result [of r k w] unanswered_over(5) [OF k e(1,2)] show ?thesis by (auto simp: step_rejection_def)
  qed (use s k in \<open>simp_all add: step_rejection_def\<close>)
qed

lemma prefix_items_concat: "concat (prefix_items p) = rp_bytes p @ (case rp_extra p of None \<Rightarrow> [] | Some x \<Rightarrow> x)"
  by (simp add: prefix_items_def split: option.split)

lemma begin_stream_traced:
  assumes s: "begin_stream E R r resp p k w = Some (k', w')" and k: "traced R k" and ph: "wk_phase k = Deciding resp retry p"
  shows "traced R k'"
proof -
  from s obtain x b where "k' = k\<lparr>wk_head := Some (Inr x), wk_cache := None, wk_phase := Streaming b\<rparr>"
    "bd_downstream_open b = (\<not> wk_disconnected k)" "bd_items b = prefix_items p"
    by (auto simp: begin_stream_def Let_def head_send_def Option.bind_eq_Some_conv split: if_splits)
  with k show ?thesis unfolding traced_def live_ok_def Let_def ph by (auto simp: prefix_items_concat)
qed

lemma decide_traced:
  assumes s: "decide E R r resp retry p k w = Some (k', w')" and k: "traced R k" and ph: "wk_phase k = Deciding resp retry p"
  shows "traced R k'"
proof (cases "(rp_complete p \<and> transient (fe_libs E) (get_all (ur_headers resp)) (rp_bytes p)) \<and> retry \<and> \<not> wk_disconnected k")
  case True
  with s obtain h where "k' = (set_hold None k)\<lparr>wk_attempt := None, wk_phase := RetryAcquiring (Fresh (retry_args h))\<rparr>"
    by (auto simp: decide_def Let_def Option.bind_eq_Some_conv)
  with k True show ?thesis unfolding traced_def live_ok_def Let_def ph by auto
next
  case False
  from s obtain w1 where "begin_stream E R (later 3 r) resp p k w1 = Some (k', w')"
    unfolding decide_def Let_def if_not_P [OF False] by (auto simp: Option.bind_eq_Some_conv split: if_splits)
  then show ?thesis by (rule begin_stream_traced [OF _ k ph])
qed

lemma step_retry_traced:
  assumes s: "step_retry R r ev q k w = Some (k', w')" and k: "traced R k" and ph: "wk_phase k = RetryAcquiring q"
  shows "traced R k'"
proof -
  have e: "wk_phase k \<noteq> Ended" "\<not> answered (wk_phase k)" by (simp_all add: ph)
  note u = unanswered_over [OF k e]
  show ?thesis
  proof (cases ev)
    case EvPoll
    with s obtain x w1 where x: "do_acquire r q w = Some (x, w1)" by (auto simp: step_retry_def Option.bind_eq_Some_conv)
    have again: "traced R ((set_hold h k)\<lparr>wk_retried := True, wk_phase := first_phase R\<rparr>)" for h
      using k unfolding traced_def live_ok_def Let_def ph by (auto simp: first_phase_def)
    show ?thesis
    proof (cases x)
      case (Inl y)
      with EvPoll s x again head_failure_ending_traced [OF _ k e] show ?thesis by (cases y) (auto simp: step_retry_def)
    qed (use EvPoll s x live_rephase(2) [OF k e] in \<open>auto simp: step_retry_def ph\<close>)
  next
    case EvDeadline
    with s head_deadline_result [of r k w k' w'] u(1) show ?thesis by (simp add: step_retry_def)
  next
    case EvStop
    with s finish_return_result [of r Shutdown None k w k' w'] u(2) show ?thesis by (simp add: step_retry_def)
  next
    case EvHeadClosed
    with s finish_return_result [of r DownstreamClose None k w k' w'] u(3) show ?thesis by (simp add: step_retry_def)
  next
    case EvDisconnect
    with s finish_return_result [of r DownstreamClose None k w k' w'] u(3) show ?thesis by (simp add: step_retry_def)
  next
    case EvAbort
    with s worker_return_result [of r k w k' w'] u(5) show ?thesis by (simp add: step_retry_def)
  qed (use s k in \<open>simp_all add: step_retry_def\<close>)
qed

section \<open>Steps while the body is streamed\<close>

lemma downstream_gone_traced:
  assumes s: "downstream_gone R' r m b k w = Some (k', w')" and k: "traced R k"
    and ph: "wk_phase k = Streaming b \<or> wk_phase k = Delivering b"
  shows "traced R k'"
proof (cases "rq_cancel_policy R'")
  case Close
  have a: "answered (wk_phase k)" using ph by auto
  from Close s finish_return_result [of r DownstreamClose None "signal_body (BodyFailure m) k" w k' w']
  have "k' = over ((signal_body (BodyFailure m) k)\<lparr>wk_guard := guard_finish DownstreamClose None (wk_guard k)\<rparr>)"
    by (simp add: downstream_gone_def signal_body_def split: if_splits)
  with answered_over(1) [OF k a] show ?thesis by simp
next
  case Drain
  with s obtain k1 w1 w2 where "start_draining k w1 = Some (k1, w2)"
    and k': "k' = k1\<lparr>wk_phase := Streaming (b\<lparr>bd_capture := None, bd_downstream_open := False\<rparr>)\<rparr>"
    by (auto simp: downstream_gone_def Option.bind_eq_Some_conv)
  from start_draining_result [OF this(1)] k k' ph show ?thesis
    by (auto simp: traced_def live_ok_def Let_def)
qed

lemma body_deadline_traced:
  assumes s: "body_deadline r k w = Some (k', w')" and k: "traced R k" "answered (wk_phase k)"
  shows "traced R k'"
proof -
  have "k' = over ((signal_body (BodyFailure ''gateway request deadline'') k)\<lparr>wk_guard := guard_finish DeadlineOver None (wk_guard k)\<rparr>)"
    using finish_return_result [OF s [unfolded body_deadline_def]] by (simp add: signal_body_def split: if_splits)
  with answered_over(1) [OF k] show ?thesis by simp
qed

lemma note_error_result: "note_error r d e k w = Some (k', w') \<Longrightarrow> \<exists>a. k' = k\<lparr>wk_attempt := a\<rparr>"
  by (auto simp: note_error_def Option.bind_eq_Some_conv split: if_splits intro: exI [of _ "wk_attempt k"])

lemma stream_chunk_result:
  assumes "stream_chunk E r bytes b k w = Some (k', w')"
  shows "\<exists>a b1. bd_items b1 = bd_items b \<and> bd_downstream_open b1 = bd_downstream_open b
     \<and> k' = (if bd_downstream_open b then k\<lparr>wk_attempt := a, wk_offered := wk_offered k @ bytes, wk_phase := Delivering b1\<rparr>
             else k\<lparr>wk_attempt := a, wk_phase := Streaming b1\<rparr>)"
proof -
  define ob where "ob = rob_observe (lib_json (fe_libs E)) bytes (bd_observer b)"
  define fresh where "fresh = (if bd_response_error_recorded b then None else rob_response_error ob)"
  define b1 where "b1 = (\<lambda>cp. b\<lparr>bd_capture := cp, bd_observer := ob,
                  bd_first_body_recorded := bd_first_body_recorded b \<or> bytes \<noteq> [],
                  bd_output_delta_recorded := bd_output_delta_recorded b \<or> rob_first_output_delta ob,
                  bd_terminal_marker_recorded := bd_terminal_marker_recorded b \<or> rob_terminal_marker ob,
                  bd_overflow_recorded := bd_overflow_recorded b \<or> rob_overflowed ob,
                  bd_response_error_recorded := bd_response_error_recorded b \<or> fresh \<noteq> None\<rparr>)"
  have b1: "bd_items (b1 cp) = bd_items b" "bd_downstream_open (b1 cp) = bd_downstream_open b" for cp by (simp_all add: b1_def)
  from assms obtain w2 k1 w3 cp w6 where
    1: "(case fresh of None \<Rightarrow> Some (k, w2) | Some e \<Rightarrow> note_error r (bd_error_delay b) e k w2) = Some (k1, w3)"
    and 2: "(if bd_downstream_open b then (k1\<lparr>wk_offered := wk_offered k1 @ bytes, wk_phase := Delivering (b1 cp)\<rparr>, w6)
             else (k1\<lparr>wk_phase := Streaming (b1 cp)\<rparr>, w6)) = (k', w')"
    unfolding stream_chunk_def Let_def ob_def [symmetric] fresh_def [symmetric] b1_def
    by (auto simp: Option.bind_eq_Some_conv simp del: split_paired_Ex)
  from 1 note_error_result have "\<exists>a. k1 = k\<lparr>wk_attempt := a\<rparr>" by (auto split: option.splits intro: exI [of _ "wk_attempt k"])
  then obtain a where "k1 = k\<lparr>wk_attempt := a\<rparr>" ..
  with b1 2 show ?thesis by (intro exI [of _ a] exI [of _ "b1 cp"]) (auto split: if_splits)
qed

lemma stream_chunk_traced:
  assumes s: "stream_chunk E r bytes (b\<lparr>bd_items := xs\<rparr>) (k\<lparr>wk_received := rec\<rparr>) w = Some (k', w')"
    and k: "traced R k" and ph: "wk_phase k = Streaming b"
    and here: "rec = wk_received k \<and> bd_items b = bytes # xs \<or> rec = wk_received k @ bytes \<and> bd_items b = [] \<and> xs = []"
  shows "traced R k'"
proof -
  from stream_chunk_result [OF s] obtain a b1 where b1: "bd_items b1 = xs" "bd_downstream_open b1 = bd_downstream_open b"
    and k': "k' = (if bd_downstream_open b
        then k\<lparr>wk_received := rec, wk_attempt := a, wk_offered := wk_offered k @ bytes, wk_phase := Delivering b1\<rparr>
        else k\<lparr>wk_received := rec, wk_attempt := a, wk_phase := Streaming b1\<rparr>)" by auto
  show ?thesis
  proof (cases "bd_downstream_open b")
    case True
    with k b1 k' here show ?thesis unfolding traced_def live_ok_def Let_def ph by auto
  next
    case False
    with k b1 k' here show ?thesis unfolding traced_def live_ok_def Let_def ph by (auto intro: prefix_order.trans)
  qed
qed

lemma settle_attempt_result: "settle_attempt r b e k w = Some (k', w') \<Longrightarrow> k' = k\<lparr>wk_attempt := None\<rparr>"
  by (auto simp: settle_attempt_def Option.bind_eq_Some_conv dest!: note_error_result split: option.splits if_splits)

lemma stream_eof_traced:
  assumes s: "stream_eof E r closed gone b k w = Some (k', w')" and k: "traced R k"
    and ph: "wk_phase k = Streaming b" "bd_items b = []"
  shows "traced R k'"
proof -
  obtain usage complete error where f: "rob_finish (lib_json (fe_libs E)) (bd_observer b) = (usage, complete, error)"
    by (metis prod_cases3)
  from s obtain w1 k1 w2 b1 w3 where "settle_attempt r b error k w1 = Some (k1, w2)"
    and 2: "finish_return (later 6 r) BodyEof usage (signal_body BodyEnd (k1\<lparr>wk_phase := Streaming b1\<rparr>)) w3 = Some (k', w')"
    unfolding stream_eof_def f by (auto simp: Option.bind_eq_Some_conv)
  from settle_attempt_result [OF this(1)] finish_return_result [OF 2]
  have k': "k' = over ((signal_body BodyEnd k)\<lparr>wk_guard := guard_finish BodyEof usage (wk_guard k)\<rparr>)"
    by (simp add: signal_body_def over_def set_hold_def)
  have e: "wk_phase k \<noteq> Ended" by (simp add: ph)
  from traced_live [OF k e] have t: "wk_terminal k = None" "\<exists>x. wk_head k = Some (Inr x)"
    "drains (wk_phase k) \<longleftrightarrow> gd_draining (wk_guard k)" "\<not> drains (wk_phase k) \<longrightarrow> wk_offered k = wk_received k"
    by (auto simp: live_ok_def Let_def ph)
  show ?thesis unfolding k'
    by (rule traced_over [OF k e], use t in \<open>auto simp: guard_finish_def signal_body_def\<close>)
qed

lemma step_streaming_traced:
  assumes s: "step_streaming E R r ev b k w = Some (k', w')" and k: "traced R k" and ph: "wk_phase k = Streaming b"
  shows "traced R k'"
proof -
  have a: "answered (wk_phase k)" by (simp add: ph)
  show ?thesis
  proof (cases ev)
    case EvDeadline
    with s body_deadline_traced [OF _ k a] show ?thesis by (simp add: step_streaming_def)
  next
    case EvDisconnect
    show ?thesis
    proof (cases "bd_downstream_open b \<and> \<not> wk_disconnected k")
      case True
      let ?k = "k\<lparr>wk_disconnected := True\<rparr>"
      from True EvDisconnect s have g: "downstream_gone R r ''downstream connection closed'' b ?k w = Some (k', w')"
        by (simp add: step_streaming_def)
      show ?thesis
      proof (cases "rq_cancel_policy R")
        case Close
        from Close g finish_return_result [of r DownstreamClose None "signal_body (BodyFailure ''downstream connection closed'') ?k" w k' w']
        have k': "k' = over ((signal_body (BodyFailure ''downstream connection closed'') ?k)\<lparr>wk_guard := guard_finish DownstreamClose None (wk_guard k)\<rparr>)"
          by (simp add: downstream_gone_def signal_body_def split: if_splits)
        from traced_live [OF k] ph have t: "wk_terminal k = None" "\<exists>x. wk_head k = Some (Inr x)"
          by (auto simp: live_ok_def Let_def)
        show ?thesis unfolding k'
          by (rule traced_over [OF k], use t in \<open>auto simp: guard_finish_def signal_body_def ph\<close>)
      next
        case Drain
        with g obtain k1 w1 w2 where "start_draining ?k w1 = Some (k1, w2)"
          and k': "k' = k1\<lparr>wk_phase := Streaming (b\<lparr>bd_capture := None, bd_downstream_open := False\<rparr>)\<rparr>"
          by (auto simp: downstream_gone_def Option.bind_eq_Some_conv)
        from start_draining_result [OF this(1)] k k' ph show ?thesis by (auto simp: traced_def live_ok_def Let_def)
      qed
    qed (use EvDisconnect s k in \<open>auto simp: step_streaming_def\<close>)
  next
    case EvBodyClosed
    with s k downstream_gone_traced [OF _ k, of R] ph show ?thesis by (auto simp: step_streaming_def split: if_splits)
  next
    case EvRun
    with s k stream_chunk_traced [where rec = "wk_received k", OF _ k ph] show ?thesis
      by (auto simp: step_streaming_def split: list.splits)
  next
    case (EvChunk bytes)
    show ?thesis
    proof (cases "bd_items b = []")
      case True
      then have b: "b\<lparr>bd_items := []\<rparr> = b" by simp
      from True EvChunk s have "stream_chunk E r bytes b (k\<lparr>wk_received := wk_received k @ bytes\<rparr>) w = Some (k', w')"
        by (simp add: step_streaming_def)
      from stream_chunk_traced [where xs = "[]" and b = b, unfolded b, OF this k ph] True show ?thesis by simp
    qed (use EvChunk s k in \<open>simp add: step_streaming_def\<close>)
  next
    case (EvEof c g)
    with s k stream_eof_traced [OF _ k ph] show ?thesis by (auto simp: step_streaming_def split: if_splits)
  next
    case (EvFailed t)
    show ?thesis
    proof (cases "bd_items b = []")
      case True
      let ?m = "''upstream response stream failed''"
      from True EvFailed s obtain k1 w1 where "(if t then Some (k, w) else fail_attempt r None k w) = Some (k1, w1)"
        and f: "finish_return (later 4 r) UpstreamError None (signal_body (BodyFailure ?m) k1) w1 = Some (k', w')"
        by (auto simp: step_streaming_def Option.bind_eq_Some_conv)
      then have "\<exists>a. k1 = k\<lparr>wk_attempt := a\<rparr>" using fail_attempt_result by (auto split: if_splits intro: exI [of _ "wk_attempt k"])
      then obtain a' where a': "k1 = k\<lparr>wk_attempt := a'\<rparr>" ..
      have "k' = over ((signal_body (BodyFailure ?m) k)\<lparr>wk_guard := guard_finish UpstreamError None (wk_guard k)\<rparr>)"
        using finish_return_result [OF f] by (simp add: a' over_def set_hold_def signal_body_def split: if_splits)
      with answered_over(1) [OF k a] show ?thesis by simp
    qed (use EvFailed s k in \<open>auto simp: step_streaming_def\<close>)
  next
    case EvAbort
    with s worker_return_result [of r k w] answered_over(2) [OF k a] show ?thesis by (auto simp: step_streaming_def)
  qed (use s k in \<open>simp_all add: step_streaming_def\<close>)
qed

lemma step_delivering_traced:
  assumes s: "step_delivering R r ev b k w = Some (k', w')" and k: "traced R k" and ph: "wk_phase k = Delivering b"
  shows "traced R k'"
proof -
  have a: "answered (wk_phase k)" by (simp add: ph)
  show ?thesis
  proof (cases ev)
    case EvDelivered
    with s k ph show ?thesis by (auto simp: step_delivering_def traced_def live_ok_def Let_def)
  next
    case EvBodyClosed
    with s downstream_gone_traced [OF _ k, of R] ph show ?thesis by (auto simp: step_delivering_def)
  next
    case EvDeadline
    with s body_deadline_traced [OF _ k a] show ?thesis by (simp add: step_delivering_def)
  next
    case EvAbort
    with s worker_return_result [of r k w] answered_over(2) [OF k a] show ?thesis by (auto simp: step_delivering_def)
  qed (use s k in \<open>simp_all add: step_delivering_def\<close>)
qed

section \<open>Every step\<close>

lemma forward_step_traced:
  assumes s: "forward_step E R r ev k w = Some (k', w')" and k: "traced R k"
  shows "traced R k'"
proof (cases "wk_phase k")
  case Unstarted
  have e: "wk_phase k \<noteq> Ended" "\<not> answered (wk_phase k)" by (simp_all add: Unstarted)
  show ?thesis
  proof (cases ev)
    case EvBegin
    with s have "k' = k\<lparr>wk_phase := first_phase R\<rparr>" by (auto simp: forward_step_def Unstarted)
    with live_rephase(2) [OF k e] show ?thesis by (auto simp: Unstarted first_phase_def)
  next
    case EvAbort
    with s worker_return_result [of r k w] unanswered_over(5) [OF k e] show ?thesis by (auto simp: forward_step_def Unstarted)
  qed (use s k in \<open>simp_all add: forward_step_def Unstarted\<close>)
next
  case AtGate
  show ?thesis
  proof (cases "ev = EvGate")
    case True
    with s have "k' = k\<lparr>wk_phase := AtStart\<rparr>" by (simp add: forward_step_def AtGate)
    with live_rephase(2) [OF k] show ?thesis by (simp add: AtGate)
  next
    case False
    with s have "prestart_signal r ev k w = Some (k', w')" by (cases ev) (simp_all add: forward_step_def AtGate)
    from prestart_traced [OF k _ _ this] show ?thesis by (simp add: AtGate)
  qed
next
  case AtStart
  with s k try_circuit_traced [OF _ k AtStart] show ?thesis by (cases ev) (auto simp: forward_step_def)
next
  case (Armed a)
  with s k try_hold_traced [OF _ k Armed] show ?thesis by (cases ev) (auto simp: forward_step_def)
next
  case (Reacquiring q)
  with s k poll_reacquire_traced [OF _ k Reacquiring] prestart_traced [OF k, of r ev w k' w'] show ?thesis
    by (cases ev) (auto simp: forward_step_def)
next
  case (AwaitingProbe a g)
  with s k poll_probe_traced [OF _ k AwaitingProbe] prestart_traced [OF k, of r ev w k' w'] show ?thesis
    by (cases ev) (auto simp: forward_step_def)
next
  case Sending
  with s step_sending_traced [OF _ k Sending] show ?thesis by (auto simp: forward_step_def)
next
  case (GotHeaders resp)
  with s k got_headers_traced [OF _ k GotHeaders] show ?thesis by (cases ev) (auto simp: forward_step_def)
next
  case (ReadingRejection resp retry nb p)
  with s step_rejection_traced [OF _ k ReadingRejection] show ?thesis by (auto simp: forward_step_def)
next
  case (Deciding resp retry p)
  with s k decide_traced [OF _ k Deciding] show ?thesis by (cases ev) (auto simp: forward_step_def)
next
  case (RetryAcquiring q)
  with s step_retry_traced [OF _ k RetryAcquiring] show ?thesis by (auto simp: forward_step_def)
next
  case (Streaming b)
  with s step_streaming_traced [OF _ k Streaming] show ?thesis by (auto simp: forward_step_def)
next
  case (Delivering b)
  with s step_delivering_traced [OF _ k Delivering] show ?thesis by (auto simp: forward_step_def)
qed (use s k in \<open>simp_all add: forward_step_def\<close>)

end
