(* ===== verification/Request_Pipeline_Facts.thy ===== *)
theory Request_Pipeline_Facts
  imports Request_Pipeline Forward_Trace Request_Contract
begin

text \<open>
  What the task of a connection owns in each phase, and that every step of it is correct: nothing
  panics, and what it owned before is owned by it, by the worker it hands over, or released.
\<close>

section \<open>What a connection task owns\<close>

fun front_phase_claims :: "ckey \<Rightarrow> front_phase \<Rightarrow> claim multiset" where
  "front_phase_claims key (FCircuit g) = {#CWait (key, g)#}"
| "front_phase_claims key (FCircuitAgain g) = {#CWait (key, g)#}"
| "front_phase_claims key (FAcquire q) = acquiring_claims q"
| "front_phase_claims key (FLook h) = {#CHold h#}"
| "front_phase_claims key (FSpawn R k) = worker_claims R k"
| "front_phase_claims key (FReplay a) = {#CReplay a#}"
| "front_phase_claims key _ = {#}"

definition front_claims :: "front_task \<Rightarrow> claim multiset" where
  "front_claims f = front_phase_claims (fq_scope (ft_request f)) (ft_phase f) + opt_claim CPending (ft_cache f)"

fun front_phase_ok :: "gateway_env \<Rightarrow> front_phase \<Rightarrow> bool" where
  "front_phase_ok E (FAcquire q) = acquiring_ok q"
| "front_phase_ok E (FLook h) = (\<not> h_started h)"
| "front_phase_ok E (FSpawn R k) =
     (k = worker_new R \<and> \<not> h_started (rq_hold R)
      \<and> (rq_retry_transient_429 R \<longrightarrow> cfg_retry_transient_429 (ge_config E)))"
| "front_phase_ok E _ = True"

definition front_inv :: "gateway_env \<Rightarrow> front_task \<Rightarrow> bool" where
  "front_inv E f = (cost_ok (fq_cost (ft_request f)) \<and> front_phase_ok E (ft_phase f) 
      \<and> (ft_phase f = FCache \<or> ft_phase f = FDone \<longrightarrow> ft_cache f = None))"

definition front_keeps :: "gateway_env \<Rightarrow> front_task \<Rightarrow> claim multiset \<Rightarrow> bool" where
  "front_keeps E f M = (M = front_claims f \<and> front_inv E f)"

lemma front_keepsI: "M = front_claims f \<Longrightarrow> front_inv E f \<Longrightarrow> front_keeps E f M"
  by (simp add: front_keeps_def)

section \<open>Leaving\<close>

fun drop_count :: "front_phase \<Rightarrow> nat" where
  "drop_count (FSpawn _ _) = 2"
| "drop_count (FReplay _) = 1"
| "drop_count _ = 0"

lemma worker_drop_triple: "gw.triple 2 (worker_claims R k) (\<lambda>w. map_option (\<lambda>(_, w1). ((), w1)) (worker_return r k w)) (\<lambda>_ M. M = {#})"
  using worker_return_triple [of R k r] by (fastforce simp: gw.triple_def holds_def)

lemma front_phase_drop_triple: "gw.triple (drop_count ph) (front_phase_claims key ph) (front_phase_drop r ph) (\<lambda>_ M. M = {#})"
  by (cases ph) (simp_all add: do_acquire_drop_triple do_waiter_drop_triple do_hold_drop_triple do_replay_drop_triple
    worker_drop_triple gw.triple_return)

lemma front_leave_triple:
  "gw.triple (Suc (drop_count (ft_phase f))) (front_claims f) (front_leave r x f)
     (\<lambda>f' M. M = {#} \<and> f' = f\<lparr>ft_cache := None, ft_phase := FDone, ft_reply := x\<rparr>)"
proof -
  have p: "gw.triple 1 (opt_claim CPending (ft_cache f)) (do_option do_pending_drop (ft_cache f)) (\<lambda>_ M. M = {#})"
    by (rule do_option_claim) (simp add: do_pending_drop_triple)
  show ?thesis unfolding front_leave_def [abs_def] front_claims_def
    apply (rule gw.triple_step0 [OF front_phase_drop_triple, where l = 1 and G = "opt_claim CPending (ft_cache f)"], simp, simp)
    apply (rule gw.triple_step0 [OF p, where l = 0 and G = "{#}"], simp, simp)
    by (rule gw.triple_return) simp
qed

lemma front_leave_keeps:
  assumes "front_inv E f" "Suc (drop_count (ft_phase f)) \<le> n"
  shows "gw.triple n (front_claims f) (front_leave r x f) (front_keeps E)"
  by (rule gw.triple_weaken [OF front_leave_triple]) (use assms in \<open>auto simp: front_keeps_def front_claims_def front_inv_def\<close>)

lemma front_hit_keeps:
  assumes "front_inv E f" "Suc (drop_count (ft_phase f)) \<le> n"
  shows "gw.triple n (add_mset (CReplay a) (front_claims f)) (front_hit r a f) (front_keeps E)"
  unfolding front_hit_def [abs_def]
  apply (rule gw.triple_step [OF front_leave_triple, where l = 0 and G = "{#CReplay a#}"], simp, use assms(2) in simp)
  by (rule gw.triple_return) (use assms(1) in \<open>simp add: front_keeps_def front_claims_def front_inv_def\<close>)

section \<open>The way to the worker\<close>

lemma do_request_triple:
  "gw.triple (Suc 0) {#} (do_request E Q) (\<lambda>x M. M = opt_claim CPending x)"
proof -
  let ?f = "\<lambda>c. Some (cache_request (lib_json (ge_http E)) (ge_cache_sha E) (fq_root Q) (wr_url (fq_wire Q))
       (wr_headers (fq_wire Q)) (fq_endpoint Q) (wr_body (fq_wire Q)) (fq_forbids Q) c)"
  let ?P = "\<lambda>x. case x of None \<Rightarrow> {#} | Some p \<Rightarrow> {#p#}"
  have "holds (?f c) (\<lambda>(x, c'). store_books (Suc n) (?P x + P) ({#} + C) ({#} + R) c')"
    if b: "store_books n ({#} + P) ({#} + C) ({#} + R) c" "n < u64_max" for n P C R c
    using store_exec [of n "[]" P "[]" C "[]" R c "cache_libs (ge_http E) (ge_cache_sha E) id"
        "XRequest (fq_root Q) (wr_url (fq_wire Q)) (wr_headers (fq_wire Q)) (fq_endpoint Q) (wr_body (fq_wire Q)) (fq_forbids Q)"] b
    by (auto split: option.splits prod.splits)
  from on_cache_triple [of "{#}" "{#}" "{#}" ?f ?P "\<lambda>_. {#}" "\<lambda>_. {#}", OF this]
  have "gw.triple (Suc 0) {#} (do_request E Q) (\<lambda>x M. M = image_mset CPending (?P x) + {#} + {#})"
    by (simp add: do_request_def)
  then show ?thesis by (rule gw.triple_weaken) (auto split: option.splits)
qed

lemma front_lookup_triple:
  "gw.triple (Suc 0) (front_claims f) (front_lookup clk f)
     (\<lambda>x M. M = replay_claims (fst x) + front_claims (snd x) \<and> (\<exists>c. snd x = f\<lparr>ft_cache := c\<rparr>))"
proof (cases "ft_cache f")
  case None
  have "\<exists>c. f = f\<lparr>ft_cache := c\<rparr>" by (rule exI [of _ "ft_cache f"]) simp
  with None show ?thesis unfolding front_lookup_def [abs_def] by (auto intro!: gw.triple_return)
next
  case (Some p)
  let ?G = "front_phase_claims (fq_scope (ft_request f)) (ft_phase f)"
  have "gw.triple (Suc 0) (front_claims f)
      (\<lambda>w. Option.bind (do_lookup clk p w) (\<lambda>(x, w1). Some ((fst x, f\<lparr>ft_cache := Some (snd x)\<rparr>), w1)))
      (\<lambda>x M. M = replay_claims (fst x) + front_claims (snd x) \<and> (\<exists>c. snd x = f\<lparr>ft_cache := c\<rparr>))"
    apply (rule gw.triple_step0 [OF do_lookup_triple, where l = 0 and G = ?G], simp add: front_claims_def Some, simp)
    by (rule gw.triple_return) (auto simp: front_claims_def Some)
  moreover have "front_lookup clk f = (\<lambda>w. Option.bind (do_lookup clk p w) (\<lambda>(x, w1). Some ((fst x, f\<lparr>ft_cache := Some (snd x)\<rparr>), w1)))"
    by (rule ext) (simp add: front_lookup_def Some split_def)
  ultimately show ?thesis by simp
qed

lemma front_cache_keeps:
  assumes inv: "front_inv E f" and ph: "ft_phase f = FCache"
  shows "gw.triple 3 (front_claims f) (front_cache E r clk f) (front_keeps E)"
proof -
  have c: "front_claims f = {#}" using inv ph by (simp add: front_claims_def front_inv_def)
  have req: "gw.triple 1 {#} (\<lambda>w. if cfg_cache (ge_config E) \<noteq> None then do_request E (ft_request f) w else Some (None, w))
      (\<lambda>x M. M = opt_claim CPending x)"
    by (rule gw.triple_if) (use do_request_triple in \<open>auto intro: gw.triple_return\<close>)
  have hit: "gw.triple 1 (replay_claims x + front_claims f1)
      (\<lambda>w2. case x of Some a \<Rightarrow> front_hit (later 1 r) a f1 w2
         | None \<Rightarrow> Some (f1\<lparr>ft_queue_deadline := min (r 0 + min (ge_capacity_wait E) (from_secs 120)) (fq_deadline (ft_request f)),
                   ft_phase := FCircuit False\<rparr>, w2)) (front_keeps E)"
    if f1: "f1 = f\<lparr>ft_cache := c\<rparr>" for x f1 c
  proof (cases x)
    case None
    have "gw.triple 1 (front_claims f1) (\<lambda>w2. Some (f1\<lparr>ft_queue_deadline := min (r 0 + min (ge_capacity_wait E) (from_secs 120)) (fq_deadline (ft_request f)),
                   ft_phase := FCircuit False\<rparr>, w2)) (front_keeps E)"
      by (rule triple_wait [of _ "fq_scope (ft_request f)"], rule gw.triple_return, rule front_keepsI)
         (use inv ph f1 in \<open>auto simp: front_claims_def front_inv_def\<close>)
    with None show ?thesis by simp
  next
    case (Some a)
    have "gw.triple 1 (add_mset (CReplay a) (front_claims f1)) (front_hit (later 1 r) a f1) (front_keeps E)"
    proof -
      let ?f = "f1\<lparr>ft_phase := FTurn\<rparr>"
      have "front_inv E ?f" using inv f1 by (simp add: front_inv_def)
      from front_hit_keeps [OF this, of 1 a "later 1 r"] have "gw.triple 1 (add_mset (CReplay a) (front_claims ?f)) (front_hit (later 1 r) a ?f) (front_keeps E)" by simp
      moreover have "front_claims ?f = front_claims f1" "front_hit (later 1 r) a ?f = front_hit (later 1 r) a f1"
        using f1 ph by (simp_all add: front_claims_def front_hit_def [abs_def] front_leave_def [abs_def])
      ultimately show ?thesis by simp
    qed
    with Some show ?thesis by simp
  qed
  show ?thesis unfolding front_cache_def [abs_def] c
    apply (rule gw.triple_step0 [OF req, where l = 2 and G = "{#}"], simp, simp)
    subgoal for x
      apply (rule gw.triple_step [OF front_lookup_triple [of "f\<lparr>ft_cache := x\<rparr>"], where l = 1 and G = "{#}"])
      subgoal by (simp add: front_claims_def ph)
      subgoal by simp
      subgoal for y using hit [of "snd y" "ft_cache (snd y)" "fst y"] by (auto simp: split_def)
      done
    done
qed

lemma front_circuit_keeps:
  assumes inv: "front_inv E f" and ph: "ft_phase f = again g" and again: "again = FCircuit \<or> again = FCircuitAgain"
  shows "gw.triple 1 (front_claims f) (front_circuit r again g f) (front_keeps E)"
proof -
  have c: "front_claims f = {#CWait (fq_scope (ft_request f), g)#} + opt_claim CPending (ft_cache f)"
    using ph again by (auto simp: front_claims_def)
  show ?thesis unfolding front_circuit_def [abs_def]
    apply (rule gw.triple_step0 [OF do_scope_wait_triple [where k = 0], where l = 1 and G = "opt_claim CPending (ft_cache f)"], rule c, simp)
    subgoal for x
    proof (cases x)
      case (WaitErr e)
      have i: "front_inv E (f\<lparr>ft_phase := FLeaving\<rparr>)" using inv by (simp add: front_inv_def)
      from front_leave_keeps [OF i, of 1 "later 1 r" "Some (open_reply e)"] show ?thesis
        by (simp add: WaitErr front_claims_def)
    next
      case WaitOk
      show ?thesis unfolding WaitOk wait_outcome.case
        by (rule gw.triple_return, rule front_keepsI)
           (use inv in \<open>auto simp: front_claims_def front_inv_def enter_acquire_def Let_def args_ok_def in_time_acquire\<close>)
    next
      case (WaitAgain g')
      show ?thesis unfolding WaitAgain wait_outcome.case
        by (rule gw.triple_return, rule front_keepsI) (use inv again in \<open>auto simp: front_claims_def front_inv_def\<close>)
    qed
    done
qed

lemma front_turn_keeps:
  assumes inv: "front_inv E f" and ph: "ft_phase f = FTurn"
  shows "gw.triple 2 (front_claims f) (front_turn r clk f) (front_keeps E)"
proof (cases "ft_cache f")
  case None
  with inv show ?thesis unfolding front_turn_def [abs_def] by (auto intro!: gw.triple_return simp: front_keeps_def)
next
  case (Some p)
  have c: "front_claims f = {#CPending p#} + {#}" by (simp add: front_claims_def ph Some)
  show ?thesis unfolding front_turn_def [abs_def] Some option.case Let_def
    apply (rule gw.triple_step0 [OF do_turn_triple, where l = 1 and G = "{#}"], rule c, simp)
    subgoal for x
    proof (cases "fst x")
      case (TurnHit a)
      have i: "front_inv E (f\<lparr>ft_cache := Some (snd x)\<rparr>)" using inv ph by (simp add: front_inv_def)
      from front_hit_keeps [OF i, of 1 a r] TurnHit show ?thesis by (simp add: split_def front_claims_def ph add_mset_commute)
    next
      case TurnGo
      have "gw.triple 1 {#CPending (snd x)#} (\<lambda>w. Some (f\<lparr>ft_cache := Some (snd x), ft_phase := FCircuitAgain False\<rparr>, w)) (front_keeps E)"
        by (rule triple_wait [of _ "fq_scope (ft_request f)"], rule gw.triple_return, rule front_keepsI)
           (use inv in \<open>auto simp: front_claims_def front_inv_def\<close>)
      with TurnGo show ?thesis by (simp add: split_def)
    next
      case TurnWait
      have "gw.triple 1 {#CPending (snd x)#} (\<lambda>w. Some (f\<lparr>ft_cache := Some (snd x)\<rparr>, w)) (front_keeps E)"
        by (rule gw.triple_return, rule front_keepsI) (use inv ph in \<open>auto simp: front_claims_def front_inv_def\<close>)
      with TurnWait show ?thesis by (simp add: split_def)
    qed
    done
qed

lemma front_acquire_keeps:
  assumes inv: "front_inv E f" and ph: "ft_phase f = FAcquire q"
  shows "gw.triple 1 (front_claims f) (front_acquire r q f) (front_keeps E)"
proof -
  have q: "acquiring_ok q" using inv by (simp add: front_inv_def ph)
  let ?G = "opt_claim CPending (ft_cache f)"
  have c: "front_claims f = acquiring_claims q + ?G" by (simp add: front_claims_def ph)
  show ?thesis unfolding front_acquire_def [abs_def]
    apply (rule gw.triple_step [OF do_acquire_triple [OF q, where k = 0], where l = 1 and G = ?G], rule c, simp)
    subgoal premises ok for x
    proof (cases x)
      case (Inl y)
      show ?thesis
      proof (cases y)
        case e: (Inl e)
        have i: "front_inv E (f\<lparr>ft_phase := FLeaving\<rparr>)" using inv by (simp add: front_inv_def)
        from front_leave_keeps [OF i, of 1 "later 2 r" "Some (admission_reply e)"] show ?thesis
          by (simp add: Inl e front_claims_def)
      next
        case h: (Inr h)
        show ?thesis unfolding Inl h sum.case
          by (rule gw.triple_return, rule front_keepsI) (use inv ok in \<open>auto simp: front_claims_def front_inv_def Inl h\<close>)
      qed
    next
      case (Inr q')
      show ?thesis unfolding Inr sum.case
        by (rule gw.triple_return, rule front_keepsI) (use inv ok in \<open>auto simp: front_claims_def front_inv_def Inr\<close>)
    qed
    done
qed

lemma front_look_keeps:
  assumes inv: "front_inv E f" and ph: "ft_phase f = FLook h"
  shows "gw.triple 2 (front_claims f) (front_look E r clk h f) (front_keeps E)"
  unfolding front_look_def [abs_def]
  apply (rule gw.triple_step [OF front_lookup_triple [of f], where l = 1 and G = "{#}"], simp, simp)
  subgoal premises p for y
  proof -
    from p obtain c where c: "snd y = f\<lparr>ft_cache := c\<rparr>" by blast
    show ?thesis
    proof (cases "fst y")
      case None
      have "gw.triple 1 (front_claims (snd y))
          (\<lambda>w. Some ((snd y)\<lparr>ft_cache := None, ft_phase := FSpawn (forward_request_of E (snd y) h) (worker_new (forward_request_of E (snd y) h))\<rparr>, w)) (front_keeps E)"
        by (rule gw.triple_return, rule front_keepsI)
           (use inv ph c in \<open>auto simp: front_claims_def front_inv_def worker_claims_def worker_new_def guard_new_def forward_request_of_def Let_def\<close>)
      with None show ?thesis by (simp add: split_def Let_def)
    next
      case (Some a)
      have i: "front_inv E (snd y)" using inv ph c by (simp add: front_inv_def)
      from front_hit_keeps [OF i, of 1 a r] Some c ph show ?thesis by (simp add: split_def)
    qed
  qed
  done

lemma front_stay: "front_inv E f \<Longrightarrow> gw.triple n (front_claims f) (\<lambda>w. Some (f, w)) (front_keeps E)"
  by (rule gw.triple_return) (simp add: front_keeps_def)

lemma front_signal_keeps:
  assumes "front_inv E f" "drop_count (ft_phase f) = 0"
  shows "gw.triple 1 (front_claims f) (front_signal r ev f) (front_keeps E)"
  using assms by (cases ev) (simp_all add: front_signal_def [abs_def] front_leave_keeps front_stay)

section \<open>Every step\<close>

definition spawned_claims :: "(forward_request \<times> worker) option \<Rightarrow> claim multiset" where
  "spawned_claims x = (case x of None \<Rightarrow> {#} | Some (R, k) \<Rightarrow> worker_claims R k)"

definition spawned_ok :: "gateway_env \<Rightarrow> (forward_request \<times> worker) option \<Rightarrow> bool" where
  "spawned_ok E x = (case x of None \<Rightarrow> True | Some (R, k) \<Rightarrow> front_phase_ok E (FSpawn R k))"

definition front_result :: "gateway_env \<Rightarrow> front_task \<times> (forward_request \<times> worker) option \<Rightarrow> claim multiset \<Rightarrow> bool" where
  "front_result E x M = (M = front_claims (fst x) + spawned_claims (snd x) \<and> front_inv E (fst x) \<and> spawned_ok E (snd x))"

lemma stay_triple:
  assumes "gw.triple k M f (front_keeps E)" "k \<le> n"
  shows "gw.triple n M (\<lambda>w. map_option (\<lambda>(f', w'). ((f', None), w')) (f w)) (front_result E)"
proof -
  have "gw.triple n M f (front_keeps E)" by (rule gw.triple_weaken [OF assms(1)]) (use assms(2) in auto)
  then show ?thesis
    by (fastforce simp: gw.triple_def holds_def front_keeps_def front_result_def spawned_claims_def spawned_ok_def)
qed

lemma front_step_keeps:
  assumes inv: "front_inv E f"
  shows "gw.triple 3 (front_claims f) (front_step E next r clk ev f) (front_result E)"
proof -
  note stay = stay_triple [OF front_stay [OF inv, of 0], of 3, simplified]
  have leave: "gw.triple 3 (front_claims f) (\<lambda>w. map_option (\<lambda>(f', w'). ((f', None), w')) (front_leave r x f w)) (front_result E)"
    if "drop_count (ft_phase f) \<le> 2" for x
    by (rule stay_triple [OF front_leave_keeps [OF inv order_refl]]) (use that in simp)
  have signal: "gw.triple 3 (front_claims f) (\<lambda>w. map_option (\<lambda>(f', w'). ((f', None), w')) (front_signal r ev f w)) (front_result E)"
    if "drop_count (ft_phase f) = 0"
    by (rule stay_triple [OF front_signal_keeps [OF inv that]]) simp
  note d = front_step_def [abs_def] Let_def
  show ?thesis
  proof (cases "ft_phase f")
    case FCache
    from stay_triple [OF front_cache_keeps [OF inv FCache], of 3] stay leave FCache show ?thesis by (cases ev) (simp_all add: d)
  next
    case (FCircuit g)
    from stay_triple [OF front_circuit_keeps [where again = FCircuit, OF inv FCircuit], of 3] signal FCircuit show ?thesis by (cases ev) (simp_all add: d)
  next
    case FTurn
    from stay_triple [OF front_turn_keeps [OF inv FTurn], of 3] signal FTurn show ?thesis by (cases ev) (simp_all add: d)
  next
    case (FCircuitAgain g)
    from stay_triple [OF front_circuit_keeps [where again = FCircuitAgain, OF inv FCircuitAgain], of 3] signal FCircuitAgain show ?thesis by (cases ev) (simp_all add: d)
  next
    case (FAcquire q)
    from stay_triple [OF front_acquire_keeps [OF inv FAcquire], of 3] signal FAcquire show ?thesis by (cases ev) (simp_all add: d)
  next
    case (FLook h)
    from stay_triple [OF front_look_keeps [OF inv FLook], of 3] stay FLook show ?thesis by (cases ev) (simp_all add: d)
  next
    case (FSpawn R k)
    have "gw.triple 3 (front_claims f) (\<lambda>w. Some ((f\<lparr>ft_phase := FHead next\<rparr>, Some (R, k)), w)) (front_result E)"
      by (rule gw.triple_return)
         (use inv FSpawn in \<open>auto simp: front_result_def front_claims_def front_inv_def spawned_claims_def spawned_ok_def\<close>)
    with stay leave FSpawn show ?thesis by (cases ev) (simp_all add: d)
  next
    case (FHead j)
    with stay leave show ?thesis by (cases ev) (simp_all add: d)
  next
    case (FReplay a)
    with stay leave show ?thesis by (cases ev) (simp_all add: d)
  qed (use stay in \<open>simp_all add: d\<close>)
qed

end
