(* ===== verification/Forward_Books.thy ===== *)
theory Forward_Books
  imports Forward_Trace
begin

text \<open>
  The counters of the gateway and its workers: what each worker contributes to each counter, and
  that every step changes a counter by exactly the change of the contribution.  Counters wrap
  around, so all sums are sums of 64-bit words.
\<close>

section \<open>Contributions\<close>

datatype book = BActive | BDraining | BAttempts | BKnown | BReason terminal_reason

fun reason_counter :: "terminal_reason \<Rightarrow> metrics \<Rightarrow> 64 word" where
  "reason_counter BodyEof m = m_terminal_body_eof m"
| "reason_counter UpstreamError m = m_terminal_upstream_error m"
| "reason_counter DeadlineOver m = m_terminal_deadline m"
| "reason_counter DownstreamClose m = m_terminal_downstream_close m"
| "reason_counter Shutdown m = m_terminal_shutdown m"
| "reason_counter AdmissionRejected m = m_terminal_admission_rejected m"

fun counter :: "book \<Rightarrow> metrics \<Rightarrow> 64 word" where
  "counter BActive m = m_active m"
| "counter BDraining m = m_draining m"
| "counter BAttempts m = m_upstream_attempts m"
| "counter BKnown m = m_usage_known m"
| "counter (BReason reason) m = reason_counter reason m"

definition at_work :: "phase \<Rightarrow> bool" where
  "at_work ph = (ph \<noteq> Unstarted \<and> ph \<noteq> Ended)"

fun share :: "book \<Rightarrow> worker \<Rightarrow> 64 word" where
  "share BActive k = of_bool (at_work (wk_phase k))"
| "share BDraining k = of_bool (wk_phase k \<noteq> Ended \<and> gd_draining (wk_guard k))"
| "share BAttempts k = of_nat (length (wk_wires k))"
| "share BKnown k = of_bool (wk_phase k = Ended \<and> gd_usage (wk_guard k) \<noteq> None)"
| "share (BReason reason) k = of_bool (wk_phase k = Ended \<and> gd_reason (wk_guard k) = reason)"

text \<open>
  A worker whose future is dropped before it is first polled is not counted at all, and its reason
  is \<open>Shutdown\<close>; so that one counter does not count ended workers exactly.
\<close>

definition exact_books :: "book set" where
  "exact_books = - {BReason Shutdown}"

text \<open>The counters of finished workers add up, by reason and by whether their usage is known.\<close>

definition balanced :: "metrics \<Rightarrow> bool" where
  "balanced m =
     (m_terminal_total m = m_terminal_body_eof m + m_terminal_upstream_error m + m_terminal_deadline m
        + m_terminal_downstream_close m + m_terminal_shutdown m + m_terminal_admission_rejected m
      \<and> m_terminal_total m = m_usage_known m + m_usage_unknown m)"

lemma balanced_new [simp]: "balanced metrics_new" "counter b metrics_new = 0"
proof -
  show "balanced metrics_new" by (simp add: balanced_def metrics_new_def)
  show "counter b metrics_new = 0"
  proof (cases b)
    case (BReason x)
    then show ?thesis by (cases x) (simp_all add: metrics_new_def)
  qed (simp_all add: metrics_new_def)
qed

definition same_books :: "metrics \<Rightarrow> metrics \<Rightarrow> bool" where
  "same_books m m' = ((\<forall>b. counter b m' = counter b m) \<and> balanced m' = balanced m)"

definition booked :: "worker \<times> metrics \<Rightarrow> worker \<times> metrics \<Rightarrow> bool" where
  "booked x y =
     ((\<forall>b\<in>exact_books. counter b (snd y) - share b (fst y) = counter b (snd x) - share b (fst x))
      \<and> (balanced (snd x) \<longrightarrow> balanced (snd y)))"

definition same_share :: "worker \<Rightarrow> worker \<Rightarrow> bool" where
  "same_share k k' = (\<forall>b\<in>exact_books. share b k' = share b k)"

definition neutral :: "'a action \<Rightarrow> bool" where
  "neutral f = (\<forall>w x w'. f w = Some (x, w') \<longrightarrow> same_books (wd_metrics w) (wd_metrics w'))"

definition settles :: "worker \<Rightarrow> worker action \<Rightarrow> bool" where
  "settles k f = (\<forall>w k' w'. f w = Some (k', w') \<longrightarrow> booked (k, wd_metrics w) (k', wd_metrics w'))"

lemma booked_trans: "booked x y \<Longrightarrow> booked y z \<Longrightarrow> booked x z"
  by (auto simp: booked_def)

lemma same_shareI:
  assumes "at_work (wk_phase k') = at_work (wk_phase k)" "wk_phase k' \<noteq> Ended" "wk_phase k \<noteq> Ended"
    "gd_draining (wk_guard k') = gd_draining (wk_guard k)" "length (wk_wires k') = length (wk_wires k)"
  shows "same_share k k'"
proof -
  have "share b k' = share b k" for b by (cases b) (use assms in simp_all)
  then show ?thesis by (simp add: same_share_def)
qed

section \<open>Composition\<close>

lemma neutral_return [simp]: "neutral (\<lambda>w. Some (x, w))" "neutral (\<lambda>w. None)"
  by (simp_all add: neutral_def same_books_def)

lemma neutralD: "neutral f \<Longrightarrow> f w = Some (x, w') \<Longrightarrow> same_books (wd_metrics w) (wd_metrics w')"
  by (simp add: neutral_def)

lemma neutral_bind:
  assumes "neutral f" "\<And>x. neutral (g x)"
  shows "neutral (\<lambda>w. Option.bind (f w) (\<lambda>(x, w1). g x w1))"
  using assms unfolding neutral_def same_books_def by (auto simp: Option.bind_eq_Some_conv)

lemma neutral_calls [simp]:
  "neutral (on_queue f)" "neutral (on_circuit g)" "neutral (on_cache h)"
  by (auto simp: neutral_def same_books_def on_queue_def on_circuit_def on_cache_def)

lemma neutral_do [simp]:
  "neutral (do_hold_start t h)" "neutral (do_hold_headers L st hs o' t h)" "neutral (do_hold_rejected L j hs rc sn t h)"
  "neutral (do_hold_drop t h)" "neutral (do_scope_start it r key)" "neutral (do_scope_wait t key wt)" "neutral (do_waiter_drop wt)"
  "neutral (do_attempt_failure r d a)" "neutral (do_attempt_headers L st hs r a)" "neutral (do_attempt_complete r a)"
  "neutral (do_attempt_drop t a)" "neutral (do_pending_drop p)" "neutral (do_reject_status p)"
  "neutral (do_capture L iter st orig fwd p)" "neutral (do_observe bs cp)" "neutral (do_capture_drop cp)"
  "neutral (do_commit iter t b cp)"
  by (simp_all add: do_hold_start_def do_hold_headers_def do_hold_rejected_def do_hold_drop_def do_scope_start_def do_scope_wait_def
    do_waiter_drop_def do_attempt_failure_def do_attempt_headers_def do_attempt_complete_def do_attempt_drop_def do_pending_drop_def
    do_reject_status_def do_capture_def do_observe_def do_capture_drop_def do_commit_def)

lemma neutral_acquire [simp]: "neutral (do_acquire r q)" "neutral (do_acquire_drop t q)"
  by (cases q; simp)+

lemma neutral_option [simp]: "(\<And>x. neutral (f x)) \<Longrightarrow> neutral (do_option f y)"
  by (cases y) simp_all

lemma neutral_phase_drop [simp]: "neutral (phase_drop t ph)"
  by (cases ph) simp_all

lemma neutral_metrics: "(\<And>m. same_books m (f m)) \<Longrightarrow> neutral (on_metrics f)"
  by (simp add: neutral_def on_metrics_def)

lemma same_booksI:
  assumes "\<And>b. counter b m' = counter b m" "m_terminal_total m' = m_terminal_total m" "m_usage_unknown m' = m_usage_unknown m"
  shows "same_books m m'"
proof -
  from assms(1) [of "BReason BodyEof"] assms(1) [of "BReason UpstreamError"] assms(1) [of "BReason DeadlineOver"]
    assms(1) [of "BReason DownstreamClose"] assms(1) [of "BReason Shutdown"] assms(1) [of "BReason AdmissionRejected"]
    assms(1) [of BKnown] assms(2,3)
  have "balanced m' = balanced m" by (simp add: balanced_def)
  with assms(1) show ?thesis by (simp add: same_books_def)
qed

lemma counter_frame:
  assumes "m_active m' = m_active m" "m_draining m' = m_draining m" "m_upstream_attempts m' = m_upstream_attempts m"
    "m_usage_known m' = m_usage_known m" "m_terminal_body_eof m' = m_terminal_body_eof m"
    "m_terminal_upstream_error m' = m_terminal_upstream_error m" "m_terminal_deadline m' = m_terminal_deadline m"
    "m_terminal_downstream_close m' = m_terminal_downstream_close m" "m_terminal_shutdown m' = m_terminal_shutdown m"
    "m_terminal_admission_rejected m' = m_terminal_admission_rejected m" "m_terminal_total m' = m_terminal_total m"
    "m_usage_unknown m' = m_usage_unknown m"
  shows "same_books m m'"
proof (rule same_booksI)
  have "reason_counter x m' = reason_counter x m" for x using assms by (cases x) simp_all
  with assms show "counter b m' = counter b m" for b by (cases b) simp_all
qed (use assms in simp_all)

lemma neutral_records [simp]:
  "neutral (on_metrics record_first_body_byte)" "neutral (on_metrics record_first_observed_output_delta)"
  "neutral (on_metrics record_terminal_marker)" "neutral (on_metrics record_response_body_eof)"
  "neutral (on_metrics record_observer_overflow)" "neutral (on_metrics (record_response_error e))"
proof -
  show "neutral (on_metrics (record_response_error e))"
    by (cases e; rule neutral_metrics; rule counter_frame) simp_all
  show "neutral (on_metrics record_first_body_byte)" "neutral (on_metrics record_first_observed_output_delta)"
    "neutral (on_metrics record_terminal_marker)" "neutral (on_metrics record_response_body_eof)"
    "neutral (on_metrics record_observer_overflow)"
    by (rule neutral_metrics, rule counter_frame;
        simp add: record_first_body_byte_def record_first_observed_output_delta_def record_terminal_marker_def
          record_response_body_eof_def record_observer_overflow_def)+
qed

lemma neutral_once [simp]: "neutral (on_metrics f) \<Longrightarrow> neutral (once c f)"
  by (cases c) (simp_all add: once_def [abs_def])

lemma settles_return: "same_share k k' \<Longrightarrow> settles k (\<lambda>w. Some (k', w))"
  by (auto simp: settles_def booked_def same_share_def)

lemma settles_same [simp]: "settles k (\<lambda>w. Some (k, w))"
  by (rule settles_return) (simp add: same_share_def)

lemma settles_bind:
  assumes "neutral f" "\<And>x. settles k (g x)"
  shows "settles k (\<lambda>w. Option.bind (f w) (\<lambda>(x, w1). g x w1))"
  unfolding settles_def
proof (intro allI impI)
  fix w k' w'
  assume "Option.bind (f w) (\<lambda>(x, w1). g x w1) = Some (k', w')"
  then obtain x w1 where "f w = Some (x, w1)" "g x w1 = Some (k', w')" by (auto simp: Option.bind_eq_Some_conv)
  with assms have "same_books (wd_metrics w) (wd_metrics w1)" "booked (k, wd_metrics w1) (k', wd_metrics w')"
    by (auto simp: neutral_def settles_def)
  then show "booked (k, wd_metrics w) (k', wd_metrics w')" by (simp add: same_books_def booked_def)
qed

lemma settles_option: "(\<And>x. y = Some x \<Longrightarrow> settles k (g x)) \<Longrightarrow> settles k (\<lambda>w. Option.bind y (\<lambda>x. g x w))"
  by (cases y) (auto simp: settles_def)

lemma settles_seq:
  assumes "settles k f" "\<And>w k1 w1. f w = Some (k1, w1) \<Longrightarrow> settles k1 (g k1)"
  shows "settles k (\<lambda>w. Option.bind (f w) (\<lambda>(k1, w1). g k1 w1))"
  unfolding settles_def
proof (intro allI impI)
  fix w k' w'
  assume "Option.bind (f w) (\<lambda>(k1, w1). g k1 w1) = Some (k', w')"
  then obtain k1 w1 where s: "f w = Some (k1, w1)" "g k1 w1 = Some (k', w')" by (auto simp: Option.bind_eq_Some_conv)
  with assms(1) assms(2) [OF s(1)] have "booked (k, wd_metrics w) (k1, wd_metrics w1)" "booked (k1, wd_metrics w1) (k', wd_metrics w')"
    unfolding settles_def by blast+
  then show "booked (k, wd_metrics w) (k', wd_metrics w')" by (rule booked_trans)
qed

lemma settles_if: "(c \<Longrightarrow> settles k f) \<Longrightarrow> (\<not> c \<Longrightarrow> settles k g) \<Longrightarrow> settles k (\<lambda>w. if c then f w else g w)"
  by (cases c) simp_all

lemma settles_pre: "same_share k k1 \<Longrightarrow> settles k1 f \<Longrightarrow> settles k f"
  by (auto simp: settles_def booked_def same_share_def)

section \<open>Returning\<close>

lemma settle_finished:
  assumes "at_work (wk_phase k)" "m1 = (if gd_draining (wk_guard k) then draining_finished m else m)"
  shows "booked (k, m) (over k, worker_finished (gd_reason (wk_guard k)) (gd_usage (wk_guard k)) m1)"
proof -
  define m2 where "m2 = worker_finished (gd_reason (wk_guard k)) (gd_usage (wk_guard k)) m1"
  note d = m2_def assms(2) worker_finished_def count_usage_def draining_finished_def
  have f: "m_active m2 = m_active m - 1" "m_draining m2 = (if gd_draining (wk_guard k) then m_draining m - 1 else m_draining m)"
    "m_upstream_attempts m2 = m_upstream_attempts m" "m_usage_known m2 = m_usage_known m + of_bool (gd_usage (wk_guard k) \<noteq> None)"
    "m_usage_unknown m2 = m_usage_unknown m + of_bool (gd_usage (wk_guard k) = None)" "m_terminal_total m2 = m_terminal_total m + 1"
    by (cases "gd_reason (wk_guard k)"; auto simp: d split: option.split)+
  have r: "reason_counter x m2 = reason_counter x m + of_bool (gd_reason (wk_guard k) = x)" for x
    by (cases x; cases "gd_reason (wk_guard k)") (auto simp: d split: option.split)
  have "counter b m2 - share b (over k) = counter b m - share b k" for b
    by (cases b) (use assms(1) in \<open>auto simp: f r over_def at_work_def\<close>)
  moreover have "balanced m \<longrightarrow> balanced m2"
    using r [of BodyEof] r [of UpstreamError] r [of DeadlineOver] r [of DownstreamClose] r [of Shutdown] r [of AdmissionRejected]
    by (cases "gd_reason (wk_guard k)") (auto simp: balanced_def f)
  ultimately show ?thesis by (simp add: booked_def m2_def)
qed

lemma guard_drop_metrics:
  assumes "guard_drop t g w = Some (x, w')"
  shows "wd_metrics w' = worker_finished (gd_reason g) (gd_usage g) (if gd_draining g then draining_finished (wd_metrics w) else wd_metrics w)"
proof -
  have q: "do_option (\<lambda>h. do_hold_drop t (hold_usage (gd_usage g) h)) y w1 = Some (u, w2) \<Longrightarrow> wd_metrics w2 = wd_metrics w1" for y w1 u w2
    by (cases y) (auto simp: do_hold_drop_def on_queue_def)
  from assms show ?thesis
    by (auto simp: guard_drop_def Option.bind_eq_Some_conv on_metrics_def dest!: q split: if_splits)
qed

lemma worker_return_settles:
  assumes "at_work (wk_phase k)"
  shows "settles k (worker_return r k)"
  unfolding settles_def
proof (intro allI impI)
  fix w k' w'
  assume s: "worker_return r k w = Some (k', w')"
  have ph: "(case wk_phase k of Unstarted \<Rightarrow> a | _ \<Rightarrow> b) = b" for a b :: "(unit \<times> world) option"
    using assms by (cases "wk_phase k") (simp_all add: at_work_def)
  from s obtain x1 w1 x2 w2 x3 w3 x4 where 1: "phase_drop (r 0) (wk_phase k) w = Some (x1, w1)"
    "do_option (do_attempt_drop (r 1)) (wk_attempt k) w1 = Some (x2, w2)" "guard_drop (r 2) (wk_guard k) w2 = Some (x3, w3)"
    "do_option do_pending_drop (wk_cache k) w3 = Some (x4, w')"
    unfolding worker_return_def ph by (auto simp: Option.bind_eq_Some_conv)
  have n: "same_books (wd_metrics w) (wd_metrics w1)" "same_books (wd_metrics w1) (wd_metrics w2)" "same_books (wd_metrics w3) (wd_metrics w')"
    using neutralD [of "phase_drop (r 0) (wk_phase k)" w x1 w1] neutralD [of "do_option (do_attempt_drop (r 1)) (wk_attempt k)" w1 x2 w2]
      neutralD [of "do_option do_pending_drop (wk_cache k)" w3 x4 w'] 1 by simp_all
  have "booked (k, wd_metrics w2) (over k, wd_metrics w3)"
    unfolding guard_drop_metrics [OF 1(3)] by (rule settle_finished [OF assms refl])
  with n show "booked (k, wd_metrics w) (k', wd_metrics w')"
    unfolding worker_return_result [OF s] by (simp add: same_books_def booked_def)
qed

lemma finish_return_settles:
  assumes "at_work (wk_phase k)"
  shows "settles k (finish_return r reason u k)"
  unfolding finish_return_def
  by (rule settles_pre [OF same_shareI worker_return_settles]) (use assms in \<open>simp_all add: guard_finish_def at_work_def\<close>)

lemma settles_other:
  assumes "at_work (wk_phase k)" "at_work (wk_phase k1)" "gd_draining (wk_guard k1) = gd_draining (wk_guard k)" "wk_wires k1 = wk_wires k" "settles k1 f"
  shows "settles k f"
  by (rule settles_pre [OF same_shareI assms(5)]) (use assms in \<open>simp_all add: at_work_def\<close>)

lemma settles_set:
  assumes "at_work (wk_phase k)" "at_work (wk_phase k1)" "gd_draining (wk_guard k1) = gd_draining (wk_guard k)" "wk_wires k1 = wk_wires k"
  shows "settles k (\<lambda>w. Some (k1, w))"
  by (rule settles_other [OF assms]) simp

lemma head_send_settles:
  assumes "at_work (wk_phase k)" "settles (k\<lparr>wk_head := Some x\<rparr>) (g (k\<lparr>wk_head := Some x\<rparr>))"
  shows "settles k (\<lambda>w. Option.bind (head_send x k) (\<lambda>k1. g k1 w))"
proof (rule settles_option)
  fix k1
  assume "head_send x k = Some k1"
  then have k1: "k1 = k\<lparr>wk_head := Some x\<rparr>" by (simp add: head_send_def split: if_splits)
  show "settles k (g k1)" unfolding k1 by (rule settles_other [OF assms(1) _ _ _ assms(2)]) (use assms(1) in simp_all)
qed

lemma head_failure_settles: "at_work (wk_phase k) \<Longrightarrow> settles k (head_failure r e k)"
  unfolding head_failure_def [abs_def] by (rule head_send_settles) (simp_all add: finish_return_settles)

lemma head_deadline_settles: "at_work (wk_phase k) \<Longrightarrow> settles k (head_deadline r k)"
  unfolding head_deadline_def [abs_def] by (rule head_send_settles) (simp_all add: finish_return_settles)

lemma body_deadline_settles:
  assumes "at_work (wk_phase k)"
  shows "settles k (body_deadline r k)"
  unfolding body_deadline_def [abs_def]
  by (rule settles_other [OF assms _ _ _ finish_return_settles]) (use assms in simp_all)

lemma fail_attempt_settles: "at_work (wk_phase k) \<Longrightarrow> settles k (fail_attempt r d k)"
  unfolding fail_attempt_def [abs_def]
  by (cases "wk_attempt k") (auto intro!: settles_bind settles_set)

lemma fail_attempt_live: "fail_attempt r d k w = Some (k1, w1) \<Longrightarrow> wk_phase k1 = wk_phase k"
  using fail_attempt_result by fastforce

lemma maybe_fail_settles:
  assumes "at_work (wk_phase k)" "\<And>k1. at_work (wk_phase k1) \<Longrightarrow> settles k1 (g k1)"
  shows "settles k (\<lambda>w. Option.bind (if c then Some (k, w) else fail_attempt r d k w) (\<lambda>(k1, w1). g k1 w1))"
proof (rule settles_seq)
  show "settles k (\<lambda>w. if c then Some (k, w) else fail_attempt r d k w)"
    by (rule settles_if) (simp_all add: fail_attempt_settles assms(1))
  fix w k1 w1
  assume "(if c then Some (k, w) else fail_attempt r d k w) = Some (k1, w1)"
  then have "wk_phase k1 = wk_phase k" using fail_attempt_live by (auto split: if_splits)
  with assms show "settles k1 (g k1)" by simp
qed

lemma start_draining_settles:
  assumes "at_work (wk_phase k)"
  shows "settles k (start_draining k)"
  unfolding settles_def
proof (intro allI impI)
  fix w k' w'
  assume s: "start_draining k w = Some (k', w')"
  have m: "wd_metrics w' = (if gd_draining (wk_guard k) then wd_metrics w else draining_started (wd_metrics w))"
    using s by (auto simp: start_draining_def guard_start_draining_def on_metrics_def split: if_splits)
  have r: "reason_counter x (draining_started m) = reason_counter x m" for x m by (cases x) (simp_all add: draining_started_def)
  have "counter b (wd_metrics w') - share b k' = counter b (wd_metrics w) - share b k" for b
    using start_draining_result [OF s] assms by (cases b) (auto simp: m r at_work_def, simp_all add: draining_started_def)
  moreover have "balanced (wd_metrics w) \<longrightarrow> balanced (wd_metrics w')" by (auto simp: m balanced_def draining_started_def)
  ultimately show "booked (k, wd_metrics w) (k', wd_metrics w')" by (simp add: booked_def)
qed

lemma drop_cache_settles: "at_work (wk_phase k) \<Longrightarrow> settles k (drop_cache k)"
  unfolding drop_cache_def [abs_def] by (rule settles_bind) (auto intro: settles_set)

lemma client_gone_settles:
  assumes "at_work (wk_phase k)"
  shows "settles k (client_gone R r k)"
proof (cases "rq_cancel_policy R")
  case Close
  then show ?thesis unfolding client_gone_def [abs_def] Let_def
    using settles_other [OF assms _ _ _ finish_return_settles] assms by simp
next
  case Drain
  have "settles (k\<lparr>wk_disconnected := True\<rparr>) (\<lambda>w. Option.bind (drop_cache (k\<lparr>wk_disconnected := True\<rparr>) w) (\<lambda>(k1, w1). start_draining k1 w1))"
  proof (rule settles_seq)
    fix w k1 w1
    assume "drop_cache (k\<lparr>wk_disconnected := True\<rparr>) w = Some (k1, w1)"
    from drop_cache_result [OF this] assms show "settles k1 (start_draining k1)" by (intro start_draining_settles) simp
  qed (use assms in \<open>simp add: drop_cache_settles\<close>)
  from settles_other [OF assms _ _ _ this] assms Drain show ?thesis unfolding client_gone_def [abs_def] Let_def by simp
qed

lemma prestart_settles:
  assumes "at_work (wk_phase k)"
  shows "settles k (prestart_signal r ev k)"
proof -
  have "settles k (finish_return r DownstreamClose None (k\<lparr>wk_disconnected := True\<rparr>))"
    by (rule settles_other [OF assms _ _ _ finish_return_settles]) (use assms in simp_all)
  with assms show ?thesis
    by (cases ev) (simp_all add: prestart_signal_def [abs_def] head_deadline_settles finish_return_settles head_failure_settles worker_return_settles)
qed

section \<open>The phases\<close>

lemma settles_sum: "(\<And>x. y = Inl x \<Longrightarrow> settles k (f x)) \<Longrightarrow> (\<And>x. y = Inr x \<Longrightarrow> settles k (g x)) \<Longrightarrow>
    settles k (\<lambda>w. case y of Inl x \<Rightarrow> f x w | Inr x \<Rightarrow> g x w)"
  by (cases y) simp_all

lemma try_circuit_settles:
  assumes ph: "wk_phase k = AtStart"
  shows "settles k (try_circuit E R r k)"
proof -
  have l: "at_work (wk_phase k)" by (simp add: ph at_work_def)
  have probing: "settles k (\<lambda>w1. do { h \<leftarrow> gd_hold (wk_guard k); (_, w2) \<leftarrow> do_hold_drop (r 4) h w1;
        Some ((set_hold None k)\<lparr>wk_phase := AwaitingProbe (retry_args h) False\<rparr>, w2) })"
    by (intro settles_option settles_bind settles_set) (simp_all add: at_work_def ph)
  have armed: "settles k (\<lambda>w. Some (k\<lparr>wk_phase := Armed a\<rparr>, w))" for a
    by (rule settles_set) (simp_all add: at_work_def ph)
  show ?thesis unfolding try_circuit_def [abs_def]
    apply (rule settles_if, rule head_failure_settles [OF l])
    apply (rule settles_bind, simp)
    subgoal for x
    proof (cases x)
      case (Inl y)
      with probing head_failure_settles [OF l] show ?thesis by (cases y) simp_all
    qed (simp add: armed)
    done
qed

lemma try_hold_settles:
  assumes ph: "wk_phase k = Armed a"
  shows "settles k (try_hold R r a k)"
proof -
  have send: "settles k (\<lambda>w. Option.bind (on_metrics record_upstream_attempt w) (\<lambda>(_, w3).
      Some ((set_hold (Some h1) k)\<lparr>wk_attempt := Some a, wk_phase := Sending, wk_wires := wk_wires k @ [rq_wire R], wk_received := []\<rparr>, w3)))" for h1
    unfolding settles_def
  proof (intro allI impI)
    fix w k' w'
    assume "Option.bind (on_metrics record_upstream_attempt w) (\<lambda>(_, w3).
      Some ((set_hold (Some h1) k)\<lparr>wk_attempt := Some a, wk_phase := Sending, wk_wires := wk_wires k @ [rq_wire R], wk_received := []\<rparr>, w3)) = Some (k', w')"
    then have k': "k' = (set_hold (Some h1) k)\<lparr>wk_attempt := Some a, wk_phase := Sending, wk_wires := wk_wires k @ [rq_wire R], wk_received := []\<rparr>"
      and m: "wd_metrics w' = record_upstream_attempt (wd_metrics w)" by (auto simp: on_metrics_def)
    have r: "reason_counter x (record_upstream_attempt m) = reason_counter x m" for x m by (cases x) (simp_all add: record_upstream_attempt_def)
    have "counter b (wd_metrics w') - share b k' = counter b (wd_metrics w) - share b k" for b
      unfolding k' by (cases b) (auto simp: m r ph at_work_def, simp_all add: record_upstream_attempt_def)
    moreover have "balanced (wd_metrics w) \<longrightarrow> balanced (wd_metrics w')" by (auto simp: m balanced_def record_upstream_attempt_def)
    ultimately show "booked (k, wd_metrics w) (k', wd_metrics w')" by (simp add: booked_def)
  qed
  show ?thesis unfolding try_hold_def [abs_def]
    apply (rule settles_option, rule settles_bind, simp)
    subgoal for h x
      apply (cases x, simp)
      apply (rule settles_if)
      subgoal by (rule settles_bind, simp, rule send)
      by (intro settles_bind settles_set) (simp_all add: at_work_def ph)
    done
qed

lemma poll_reacquire_settles:
  assumes ph: "wk_phase k = Reacquiring q"
  shows "settles k (poll_reacquire r q k)"
proof -
  have l: "at_work (wk_phase k)" by (simp add: ph at_work_def)
  have fail: "settles k (head_failure (later 2 r) (HeadAdmission e) (k\<lparr>wk_phase := Ending\<rparr>))" for e
    by (rule settles_other [OF l _ _ _ head_failure_settles]) (simp_all add: at_work_def)
  have set: "settles k (\<lambda>w. Some ((set_hold h k)\<lparr>wk_phase := AtStart\<rparr>, w))" "settles k (\<lambda>w. Some (k\<lparr>wk_phase := Reacquiring q'\<rparr>, w))" for h q'
    by (rule settles_set [OF l], simp_all add: at_work_def)+
  show ?thesis unfolding poll_reacquire_def [abs_def]
    apply (rule settles_bind, simp)
    subgoal for x
    proof (cases x)
      case (Inl y)
      with fail set show ?thesis by (cases y) simp_all
    qed (simp add: set)
    done
qed

lemma poll_probe_settles:
  assumes ph: "wk_phase k = AwaitingProbe a g"
  shows "settles k (poll_probe R r a g k)"
proof -
  have l: "at_work (wk_phase k)" by (simp add: ph at_work_def)
  have fail: "settles k (head_failure (later 1 r) (HeadCircuit e) (k\<lparr>wk_phase := Ending\<rparr>))" for e
    by (rule settles_other [OF l _ _ _ head_failure_settles]) (simp_all add: at_work_def)
  have set: "settles k (\<lambda>w. Some (k\<lparr>wk_phase := AwaitingProbe a g'\<rparr>, w))" "settles k (\<lambda>w. Some (k\<lparr>wk_phase := Reacquiring q'\<rparr>, w))" for g' q'
    by (rule settles_set [OF l], simp_all add: at_work_def)+
  show ?thesis unfolding poll_probe_def [abs_def]
    apply (rule settles_bind, simp)
    subgoal for x using fail set by (cases x) simp_all
    done
qed

lemma step_sending_settles:
  assumes ph: "wk_phase k = Sending"
  shows "settles k (step_sending R r ev k)"
proof -
  have l: "at_work (wk_phase k)" by (simp add: ph at_work_def)
  have deadline: "settles k (\<lambda>w. Option.bind (fail_attempt r None k w) (\<lambda>(k1, w1). head_deadline (later 4 r) k1 w1))"
    using maybe_fail_settles [OF l head_deadline_settles, of False] by simp
  have set: "settles k (\<lambda>w. Some (k\<lparr>wk_phase := GotHeaders resp\<rparr>, w))" for resp
    by (rule settles_set [OF l]) (simp_all add: at_work_def)
  have failed: "settles k (\<lambda>w. Option.bind (if b then Some (k, w) else fail_attempt r None k w) (\<lambda>(k1, w1). head_failure (later 4 r) HeadUpstream k1 w1))" for b
    by (rule maybe_fail_settles [OF l head_failure_settles])
  show ?thesis
    using deadline set failed worker_return_settles [OF l] client_gone_settles [OF l]
    by (cases ev) (simp_all add: step_sending_def [abs_def] settles_if)
qed

lemma got_headers_settles:
  assumes ph: "wk_phase k = GotHeaders resp"
  shows "settles k (got_headers E R r resp k)"
proof -
  have l: "at_work (wk_phase k)" by (simp add: ph at_work_def)
  show ?thesis unfolding got_headers_def [abs_def] Let_def
    apply (rule settles_option, rule settles_bind, simp, rule settles_option, rule settles_bind, simp)
    subgoal for a a1 h h1
      apply (rule settles_seq [where k = k])
      subgoal
        apply (rule settles_if)
        subgoal by (rule settles_bind, simp, rule settles_set [OF l]) (use l in simp_all)
        subgoal by (rule settles_set [OF l]) (use l in simp_all)
        done
      subgoal for w k1 w1
        by (rule settles_set) (use l in \<open>auto simp: at_work_def Option.bind_eq_Some_conv split: if_splits\<close>)
      done
    done
qed

lemma step_rejection_settles:
  assumes ph: "wk_phase k = ReadingRejection resp retry nb p"
  shows "settles k (step_rejection E R r ev resp retry nb p k)"
proof -
  have l: "at_work (wk_phase k)" by (simp add: ph at_work_def)
  have set: "settles k (\<lambda>w. Some (k\<lparr>wk_phase := Deciding resp retry p'\<rparr>, w))"
    "settles k (\<lambda>w. Some (k\<lparr>wk_received := b, wk_phase := Deciding resp retry p'\<rparr>, w))"
    "settles k (\<lambda>w. Some (k\<lparr>wk_received := b, wk_phase := ReadingRejection resp retry nb p'\<rparr>, w))" for p' b
    by (rule settles_set [OF l], simp_all add: at_work_def)+
  have failed: "settles k (\<lambda>w. Option.bind (if b then Some (k, w) else fail_attempt r None k w) (\<lambda>(k1, w1). head_failure (later 4 r) HeadUpstream k1 w1))" for b
    by (rule maybe_fail_settles [OF l head_failure_settles])
  show ?thesis
    using set failed worker_return_settles [OF l] client_gone_settles [OF l] head_deadline_settles [OF l]
    by (cases ev) (simp_all add: step_rejection_def [abs_def] Let_def settles_if probe_chunk_def)
qed

lemma begin_stream_settles:
  assumes ph: "at_work (wk_phase k)"
  shows "settles k (begin_stream E R r resp p k)"
proof -
  have n: "neutral (\<lambda>w. case wk_cache k of None \<Rightarrow> Some (None, w)
      | Some c \<Rightarrow> if wk_disconnected k then map_option (\<lambda>(_, w'). (None, w')) (do_pending_drop c w)
          else do_capture L it st hs fs c w)" for L it st hs fs
    using neutral_do(12,14) by (cases "wk_cache k") (auto simp: neutral_def)
  show ?thesis unfolding begin_stream_def [abs_def] Let_def
    apply (rule settles_bind [OF n])
    apply (rule head_send_settles [OF ph])
    by (rule settles_set) (use ph in \<open>simp_all add: at_work_def\<close>)
qed

lemma decide_settles:
  assumes ph: "wk_phase k = Deciding resp retry p"
  shows "settles k (decide E R r resp retry p k)"
proof -
  have l: "at_work (wk_phase k)" by (simp add: ph at_work_def)
  have n: "neutral (\<lambda>w. if c then Option.bind h (\<lambda>h. do_hold_rejected L a b rc d e h w) else Some ((), w))" for c h L a b rc d e
    using neutral_do(3) by (cases h) (auto simp: neutral_def same_books_def)
  show ?thesis unfolding decide_def [abs_def] Let_def
    apply (rule settles_bind [OF n])
    apply (rule settles_if)
    subgoal
      apply (intro settles_bind settles_option settles_set [OF l])
      by (simp_all add: at_work_def)
    by (rule begin_stream_settles [OF l])
qed

lemma step_retry_settles:
  assumes ph: "wk_phase k = RetryAcquiring q"
  shows "settles k (step_retry R r ev q k)"
proof -
  have l: "at_work (wk_phase k)" by (simp add: ph at_work_def)
  have fail: "settles k (head_failure (later 2 r) (HeadAdmission e) (k\<lparr>wk_phase := Ending\<rparr>))" for e
    by (rule settles_other [OF l _ _ _ head_failure_settles]) (simp_all add: at_work_def)
  have set: "settles k (\<lambda>w. Some ((set_hold h k)\<lparr>wk_retried := True, wk_phase := first_phase R\<rparr>, w))" "settles k (\<lambda>w. Some (k\<lparr>wk_phase := RetryAcquiring q'\<rparr>, w))" for h q'
    by (rule settles_set [OF l], simp_all add: at_work_def first_phase_def)+
  have poll: "settles k (\<lambda>w. Option.bind (do_acquire r q w) (\<lambda>(x, w1). case x of
              Inr q' \<Rightarrow> Some (k\<lparr>wk_phase := RetryAcquiring q'\<rparr>, w1)
            | Inl (Inl e) \<Rightarrow> head_failure (later 2 r) (HeadAdmission e) (k\<lparr>wk_phase := Ending\<rparr>) w1
            | Inl (Inr h) \<Rightarrow> Some ((set_hold (Some h) k)\<lparr>wk_retried := True, wk_phase := first_phase R\<rparr>, w1)))"
    apply (rule settles_bind, simp)
    subgoal for x
    proof (cases x)
      case (Inl y)
      with fail set show ?thesis by (cases y) simp_all
    qed (simp add: set)
    done
  show ?thesis using poll head_deadline_settles [OF l] finish_return_settles [OF l] worker_return_settles [OF l]
    by (cases ev) (simp_all add: step_retry_def [abs_def])
qed

section \<open>The body loop\<close>

lemma downstream_gone_settles:
  assumes l: "at_work (wk_phase k)"
  shows "settles k (downstream_gone R r m b k)"
proof (cases "rq_cancel_policy R")
  case Close
  have "settles k (finish_return r DownstreamClose None (signal_body (BodyFailure m) k))"
    by (rule settles_other [OF l _ _ _ finish_return_settles]) (use l in simp_all)
  with Close show ?thesis by (simp add: downstream_gone_def [abs_def])
next
  case Drain
  have "settles k (\<lambda>w. Option.bind (do_option do_capture_drop (bd_capture b) w) (\<lambda>(_, w1).
      Option.bind (start_draining k w1) (\<lambda>(k1, w2).
        Some (k1\<lparr>wk_phase := Streaming (b\<lparr>bd_capture := None, bd_downstream_open := False\<rparr>)\<rparr>, w2))))"
    apply (rule settles_bind, simp)
    apply (rule settles_seq [OF start_draining_settles [OF l]])
    subgoal for _ w k1 w1 by (rule settles_set) (use l in \<open>auto simp: at_work_def dest!: start_draining_result\<close>)
    done
  with Drain show ?thesis by (simp add: downstream_gone_def [abs_def])
qed

lemma note_error_settles: "at_work (wk_phase k) \<Longrightarrow> settles k (note_error r d e k)"
  unfolding note_error_def [abs_def] by (intro settles_bind settles_if settles_option settles_set) simp_all

lemma note_error_frame: "note_error r d e k w = Some (k1, w1) \<Longrightarrow> wk_phase k1 = wk_phase k"
  using note_error_result by fastforce

lemma observe_capture_neutral [simp]: "neutral (observe_capture bytes c)"
proof (cases c)
  case (Some cp)
  have "neutral (\<lambda>w. Option.bind (do_observe bytes cp w) (\<lambda>(x, w1). (case x of (fits, cp1) \<Rightarrow>
      \<lambda>w1. if fits then Some (Some cp1, w1) else Option.bind (do_capture_drop cp1 w1) (\<lambda>(_, w2). Some (None, w2))) w1))"
    apply (rule neutral_bind, simp)
    subgoal for x
    proof (cases x)
      case (Pair fits cp1)
      show ?thesis unfolding Pair prod.case by (cases fits) (simp_all add: neutral_bind)
    qed
    done
  then show ?thesis by (simp add: observe_capture_def [abs_def] Some split_def)
qed (simp add: observe_capture_def [abs_def])

lemma stream_chunk_settles:
  assumes l: "at_work (wk_phase k)"
  shows "settles k (stream_chunk E r bytes b k)"
  unfolding stream_chunk_def [abs_def] Let_def
  apply (rule settles_bind, simp, rule settles_bind, simp)
  subgoal for _ cp
    apply (rule settles_seq)
    subgoal by (cases "if bd_response_error_recorded b then None else rob_response_error (rob_observe (lib_json (fe_libs E)) bytes (bd_observer b))")
        (simp_all add: note_error_settles [OF l])
    subgoal premises p for w k1 w1
    proof -
      have "wk_phase k1 = wk_phase k" using p note_error_frame by (fastforce split: option.splits)
      then have k1: "at_work (wk_phase k1)" using l by simp
      show ?thesis
        apply (rule settles_bind, simp, rule settles_bind, simp, rule settles_bind, simp)
        by (cases "bd_downstream_open b") (auto intro!: settles_set [OF k1] simp: at_work_def)
    qed
    done
  done

lemma settle_attempt_settles:
  assumes l: "at_work (wk_phase k)"
  shows "settles k (settle_attempt r b error k)"
proof (cases error)
  case None
  have "settles k (\<lambda>w. Option.bind (wk_attempt k) (\<lambda>a. Option.bind (do_attempt_complete r a w) (\<lambda>(_, w1). Some (k\<lparr>wk_attempt := None\<rparr>, w1))))"
    by (intro settles_option settles_bind settles_set) (use l in simp_all)
  with None show ?thesis by (simp add: settle_attempt_def [abs_def])
next
  case (Some e)
  have "settles k (\<lambda>w. Option.bind (if bd_response_error_recorded b then Some (k, w) else note_error r (bd_error_delay b) e k w) (\<lambda>(k1, w1).
      Option.bind (do_option (do_attempt_drop (r 4)) (wk_attempt k1) w1) (\<lambda>(_, w2). Some (k1\<lparr>wk_attempt := None\<rparr>, w2))))"
    apply (rule settles_seq)
    subgoal by (rule settles_if) (simp_all add: note_error_settles [OF l])
    subgoal premises p for w k1 w1
    proof -
      have "wk_phase k1 = wk_phase k" using p note_error_frame by (fastforce split: if_splits)
      then show ?thesis using l by (intro settles_bind settles_set) simp_all
    qed
    done
  with Some show ?thesis by (simp add: settle_attempt_def [abs_def])
qed

lemma stream_eof_settles:
  assumes l: "at_work (wk_phase k)"
  shows "settles k (stream_eof E r closed gone b k)"
proof -
  obtain usage complete error where f: "rob_finish (lib_json (fe_libs E)) (bd_observer b) = (usage, complete, error)"
    by (metis prod_cases3)
  have n: "neutral (\<lambda>w. if c then Option.bind (do_option (do_commit it t cm) (bd_capture b) w) (\<lambda>(_, w'). Some (b\<lparr>bd_capture := None\<rparr>, w')) else Some (b, w))" for c it t cm
    by (cases c) (simp_all add: neutral_bind)
  show ?thesis unfolding stream_eof_def [abs_def] f prod.case
    apply (rule settles_bind, simp)
    apply (rule settles_seq [OF settle_attempt_settles [OF l]])
    subgoal premises p for _ w k1 w1
    proof -
      have k1: "at_work (wk_phase k1)" "wk_wires k1 = wk_wires k" "wk_guard k1 = wk_guard k" using settle_attempt_result [OF p] l by simp_all
      show ?thesis
        by (rule settles_bind [OF n], rule settles_other [OF k1(1) _ _ _ finish_return_settles]) (simp_all add: at_work_def)
    qed
    done
qed

lemma step_streaming_settles:
  assumes ph: "wk_phase k = Streaming b"
  shows "settles k (step_streaming E R r ev b k)"
proof -
  have l: "at_work (wk_phase k)" by (simp add: ph at_work_def)
  have gone: "settles k (downstream_gone R r m b (k\<lparr>wk_disconnected := True\<rparr>))" for m
    by (rule settles_other [OF l _ _ _ downstream_gone_settles]) (use l in simp_all)
  have chunk: "settles k (stream_chunk E r x b' (k\<lparr>wk_received := bs\<rparr>))" for x b' bs
    by (rule settles_other [OF l _ _ _ stream_chunk_settles]) (use l in simp_all)
  have failed: "settles k (\<lambda>w. Option.bind (if t then Some (k, w) else fail_attempt r None k w) (\<lambda>(k1, w1).
      finish_return (later 4 r) UpstreamError None (signal_body (BodyFailure ''upstream response stream failed'') k1) w1))" for t
    by (rule maybe_fail_settles [OF l], rule settles_other [OF _ _ _ _ finish_return_settles]) simp_all
  show ?thesis
  proof (cases ev)
    case EvRun
    with stream_chunk_settles [OF l] show ?thesis by (cases "bd_items b") (simp_all add: step_streaming_def [abs_def])
  qed (use gone chunk failed downstream_gone_settles [OF l] stream_eof_settles [OF l] body_deadline_settles [OF l] worker_return_settles [OF l]
      in \<open>simp_all add: step_streaming_def [abs_def] settles_if\<close>)
qed

lemma step_delivering_settles:
  assumes ph: "wk_phase k = Delivering b"
  shows "settles k (step_delivering R r ev b k)"
proof -
  have l: "at_work (wk_phase k)" by (simp add: ph at_work_def)
  have "settles k (\<lambda>w. Some (k\<lparr>wk_phase := Streaming b\<rparr>, w))" by (rule settles_set [OF l]) (simp_all add: at_work_def)
  with downstream_gone_settles [OF l] body_deadline_settles [OF l] worker_return_settles [OF l] show ?thesis
    by (cases ev) (simp_all add: step_delivering_def [abs_def])
qed

section \<open>Every step\<close>

lemma begin_settles:
  assumes ph: "wk_phase k = Unstarted"
  shows "settles k (\<lambda>w. map_option (\<lambda>(_, w1). (k\<lparr>wk_phase := first_phase R\<rparr>, w1)) (on_metrics worker_started w))"
proof -
  have r: "reason_counter x (worker_started m) = reason_counter x m" for x m by (cases x) (simp_all add: worker_started_def)
  have "counter b (worker_started m) - share b (k\<lparr>wk_phase := first_phase R\<rparr>) = counter b m - share b k" for b m
    by (cases b) (auto simp: r ph at_work_def first_phase_def, simp_all add: worker_started_def)
  moreover have "balanced m \<longrightarrow> balanced (worker_started m)" for m by (auto simp: balanced_def worker_started_def)
  ultimately show ?thesis by (simp add: settles_def booked_def on_metrics_def)
qed

text \<open>A future dropped before its first poll has neither counted nor promised anything.\<close>

lemma unstarted_drop_neutral:
  assumes ph: "wk_phase k = Unstarted"
  shows "neutral (worker_return r k)"
  unfolding neutral_def
proof (intro allI impI)
  fix w k' w'
  assume "worker_return r k w = Some (k', w')"
  then obtain x1 w1 x2 w2 x3 where 1: "do_option (do_attempt_drop (r 1)) (wk_attempt k) w = Some (x1, w1)"
    "do_option (do_hold_drop (r 2)) (gd_hold (wk_guard k)) w1 = Some (x2, w2)" "do_option do_pending_drop (wk_cache k) w2 = Some (x3, w')"
    unfolding worker_return_def ph by (auto simp: Option.bind_eq_Some_conv)
  have "same_books (wd_metrics w) (wd_metrics w1)" "same_books (wd_metrics w1) (wd_metrics w2)" "same_books (wd_metrics w2) (wd_metrics w')"
    using neutralD [of "do_option (do_attempt_drop (r 1)) (wk_attempt k)" w x1 w1]
      neutralD [of "do_option (do_hold_drop (r 2)) (gd_hold (wk_guard k))" w1 x2 w2]
      neutralD [of "do_option do_pending_drop (wk_cache k)" w2 x3 w'] 1 by simp_all
  then show "same_books (wd_metrics w) (wd_metrics w')" by (simp add: same_books_def)
qed

lemma unstarted_drop_settles:
  assumes ph: "wk_phase k = Unstarted" and k: "traced R k"
  shows "settles k (worker_return r k)"
  unfolding settles_def
proof (intro allI impI)
  fix w k' w'
  assume s: "worker_return r k w = Some (k', w')"
  have "gd_reason (wk_guard k) = Shutdown" "gd_usage (wk_guard k) = None" "\<not> gd_draining (wk_guard k)"
    using k by (auto simp: traced_def live_ok_def Let_def ph)
  then have "share b (over k) = share b k" if "b \<in> exact_books" for b
    using that by (cases b) (auto simp: over_def ph at_work_def exact_books_def)
  with neutralD [OF unstarted_drop_neutral [OF ph] s] show "booked (k, wd_metrics w) (k', wd_metrics w')"
    unfolding worker_return_result [OF s] by (simp add: same_books_def booked_def)
qed

lemma forward_step_settles:
  assumes k: "traced R k"
  shows "settles k (forward_step E R r ev k)"
proof (cases "wk_phase k")
  case Unstarted
  with begin_settles [OF Unstarted] unstarted_drop_settles [OF Unstarted k] show ?thesis
    by (cases ev) (simp_all add: forward_step_def [abs_def])
next
  case AtGate
  then have l: "at_work (wk_phase k)" by (simp add: at_work_def)
  have "settles k (\<lambda>w. Some (k\<lparr>wk_phase := AtStart\<rparr>, w))" by (rule settles_set [OF l]) (simp_all add: at_work_def)
  with prestart_settles [OF l] AtGate show ?thesis by (cases ev) (simp_all add: forward_step_def [abs_def])
next
  case AtStart
  with try_circuit_settles [OF AtStart] show ?thesis by (cases ev) (simp_all add: forward_step_def [abs_def])
next
  case (Armed a)
  with try_hold_settles [OF Armed] show ?thesis by (cases ev) (simp_all add: forward_step_def [abs_def])
next
  case (Reacquiring q)
  with poll_reacquire_settles [OF Reacquiring] prestart_settles [of k] show ?thesis
    by (cases ev) (simp_all add: forward_step_def [abs_def] at_work_def)
next
  case (AwaitingProbe a g)
  with poll_probe_settles [OF AwaitingProbe] prestart_settles [of k] show ?thesis
    by (cases ev) (simp_all add: forward_step_def [abs_def] at_work_def)
next
  case Sending
  with step_sending_settles [OF Sending] show ?thesis by (simp add: forward_step_def [abs_def])
next
  case (GotHeaders resp)
  with got_headers_settles [OF GotHeaders] show ?thesis by (cases ev) (simp_all add: forward_step_def [abs_def])
next
  case (ReadingRejection resp retry nb p)
  with step_rejection_settles [OF ReadingRejection] show ?thesis by (simp add: forward_step_def [abs_def])
next
  case (Deciding resp retry p)
  with decide_settles [OF Deciding] show ?thesis by (cases ev) (simp_all add: forward_step_def [abs_def])
next
  case (RetryAcquiring q)
  with step_retry_settles [OF RetryAcquiring] show ?thesis by (simp add: forward_step_def [abs_def])
next
  case (Streaming b)
  with step_streaming_settles [OF Streaming] show ?thesis by (simp add: forward_step_def [abs_def])
next
  case (Delivering b)
  with step_delivering_settles [OF Delivering] show ?thesis by (simp add: forward_step_def [abs_def])
qed (simp_all add: forward_step_def [abs_def])

end
