(* ===== verification/Gateway_System.thy ===== *)
theory Gateway_System
  imports Request_Pipeline_Facts Forward_Books Front_Contract
begin

text \<open>
  The whole gateway (\<^verbatim>\<open>server.rs\<close>): the shared state, the tasks of its connections, and the workers
  that outlive them.  A step is the arrival of a request or one event of one task, in any order.
  The invariant composes what the components promise: every step is correct for what its task owns,
  so it is correct in the presence of all the others.
\<close>

section \<open>State and steps\<close>

text \<open>\<open>gt_answers\<close> are the replies to requests that never got past their head or body.\<close>

record gateway =
  gt_world :: world
  gt_stop :: bool
  gt_answers :: "reply list"
  gt_fronts :: "front_task list"
  gt_workers :: "(forward_request \<times> worker) list"

datatype gateway_op =
    GStop
  | GRequest request_head string body_result duration
  | GFront nat readings "xkey \<Rightarrow> duration" front_event
  | GHead nat readings
  | GWorker nat readings fwd_event

text \<open>Without a configured cache the cache component is never called.\<close>

definition gateway_new :: "gateway_env \<Rightarrow> admission \<Rightarrow> gateway" where
  "gateway_new E a =
     \<lparr>gt_world = \<lparr>wd_queue = ad_queue a, wd_circuit = circuit_default,
        wd_cache = cache_new (case cfg_cache (ge_config E) of Some c \<Rightarrow> c | None \<Rightarrow> \<lparr>cc_ttl_secs = 0, cc_max_history = 0\<rparr>),
        wd_metrics = metrics_new\<rparr>,
      gt_stop = False, gt_answers = [], gt_fronts = [], gt_workers = []\<rparr>"

definition front_of :: "gateway_env \<Rightarrow> bool \<Rightarrow> string \<Rightarrow> front" where
  "front_of E stopping status =
     \<lparr>fr_config = ge_config E, fr_control_token = ge_control_token E, fr_nonce = ge_nonce E,
      fr_stopping = stopping, fr_status_json = status\<rparr>"

text \<open>\<^verbatim>\<open>handle\<close> up to the point where the request is inspected and prepared.\<close>

definition gateway_request ::
  "gateway_env \<Rightarrow> request_head \<Rightarrow> string \<Rightarrow> body_result \<Rightarrow> duration \<Rightarrow> gateway \<Rightarrow> gateway option" where
  "gateway_request E q status b now s =
     (let answer = (\<lambda>x s. s\<lparr>gt_answers := gt_answers s @ [x]\<rparr>) in
      do {
        (_, w1) \<leftarrow> on_metrics record_request (gt_world s);
        let s1 = s\<lparr>gt_world := w1\<rparr>;
        case handle_head (ge_front E) (front_of E (gt_stop s) status) q of
          Respond x \<Rightarrow> Some (answer (ReplyLocal x) s1)
        | Control x stop \<Rightarrow> Some (answer (ReplyLocal x) (s1\<lparr>gt_stop := gt_stop s \<or> stop\<rparr>))
        | ReadBody rt u \<Rightarrow>
            (case body_reply b of
               Inl x \<Rightarrow> Some (answer x s1)
             | Inr body \<Rightarrow>
                 do {
                   x \<leftarrow> prepare_front E rt u q (now + ge_request_limit E) body;
                   case x of
                     Inl e \<Rightarrow> Some (answer e s1)
                   | Inr Q \<Rightarrow> Some (s1\<lparr>gt_fronts := gt_fronts s @ [front_new Q]\<rparr>)
                 })
      })"

definition run_front :: "gateway_env \<Rightarrow> nat \<Rightarrow> readings \<Rightarrow> (xkey \<Rightarrow> duration) \<Rightarrow> front_event \<Rightarrow> gateway \<Rightarrow> gateway option" where
  "run_front E i r clk ev s =
     do {
       ((f, spawned), w) \<leftarrow> front_step E (length (gt_workers s)) r clk ev (gt_fronts s ! i) (gt_world s);
       Some (s\<lparr>gt_world := w, gt_fronts := (gt_fronts s)[i := f],
              gt_workers := gt_workers s @ (case spawned of None \<Rightarrow> [] | Some x \<Rightarrow> [x])\<rparr>)
     }"

definition run_worker :: "gateway_env \<Rightarrow> nat \<Rightarrow> readings \<Rightarrow> fwd_event \<Rightarrow> gateway \<Rightarrow> gateway option" where
  "run_worker E j r ev s =
     (case gt_workers s ! j of
        (R, k) \<Rightarrow>
          do {
            (k', w) \<leftarrow> forward_step (forward_env_of E) R r ev k (gt_world s);
            Some (s\<lparr>gt_world := w, gt_workers := (gt_workers s)[j := (R, k')]\<rparr>)
          })"

text \<open>
  What a connection hears from its worker is what the worker sent, or that it ended without sending;
  the stop signal is seen only after the gateway was told to stop.
\<close>

fun gateway_exec :: "gateway_env \<Rightarrow> gateway_op \<Rightarrow> gateway \<Rightarrow> gateway option" where
  "gateway_exec E GStop s = Some (s\<lparr>gt_stop := True\<rparr>)"
| "gateway_exec E (GRequest q status b now) s = gateway_request E q status b now s"
| "gateway_exec E (GFront i r clk ev) s =
     (if i < length (gt_fronts s) \<and> (case ev of FrHead _ \<Rightarrow> False | _ \<Rightarrow> True) \<and> (ev = FrStop \<longrightarrow> gt_stop s)
      then run_front E i r clk ev s else Some s)"
| "gateway_exec E (GHead i r) s =
     (if i < length (gt_fronts s) then
        (case ft_phase (gt_fronts s ! i) of
           FHead j \<Rightarrow>
             (let k = snd (gt_workers s ! j) in
              if j < length (gt_workers s) \<and> (wk_head k \<noteq> None \<or> wk_phase k = Ended)
              then run_front E i r (\<lambda>_. 0) (FrHead (wk_head k)) s else Some s)
         | _ \<Rightarrow> Some s)
      else Some s)"
| "gateway_exec E (GWorker j r ev) s =
     (if j < length (gt_workers s) \<and> (ev = EvStop \<longrightarrow> gt_stop s) then run_worker E j r ev s else Some s)"

inductive gateway_run :: "gateway_env \<Rightarrow> admission \<Rightarrow> nat \<Rightarrow> gateway \<Rightarrow> bool" for E a where
  gateway_initial: "gateway_run E a 0 (gateway_new E a)"
| gateway_step: "gateway_run E a n s \<Longrightarrow> gateway_exec E x s = Some s' \<Longrightarrow> gateway_run E a (Suc n) s'"

section \<open>The invariant\<close>

definition all_claims :: "gateway \<Rightarrow> claim multiset" where
  "all_claims s =
     \<Sum>\<^sub># (image_mset front_claims (mset (gt_fronts s)))
     + \<Sum>\<^sub># (image_mset (\<lambda>(R, k). worker_claims R k) (mset (gt_workers s)))"

definition worker_good :: "gateway_env \<Rightarrow> forward_request \<times> worker \<Rightarrow> bool" where
  "worker_good E x =
     (case x of (R, k) \<Rightarrow> worker_inv k \<and> traced R k \<and> (rq_retry_transient_429 R \<longrightarrow> cfg_retry_transient_429 (ge_config E)))"

definition books_kept :: "gateway \<Rightarrow> bool" where
  "books_kept s =
     ((\<forall>b\<in>exact_books. counter b (wd_metrics (gt_world s)) = sum_list (map (\<lambda>x. share b (snd x)) (gt_workers s)))
      \<and> balanced (wd_metrics (gt_world s)))"

definition configured :: "gateway_env \<Rightarrow> nat \<times> nat" where
  "configured E = (cfg_concurrency (ge_config E), length (cfg_roots (ge_config E)))"

definition gateway_inv :: "gateway_env \<Rightarrow> nat \<Rightarrow> gateway \<Rightarrow> bool" where
  "gateway_inv E n s =
     (world_ok (3 * n) (add_mset (CSize (configured E)) (all_claims s)) (gt_world s) \<and> list_all (front_inv E) (gt_fronts s)
      \<and> list_all (worker_good E) (gt_workers s) \<and> books_kept s)"

text \<open>What is assumed of the code the model does not define: hash maps iterate over all their entries.\<close>

definition env_ok :: "gateway_env \<Rightarrow> bool" where
  "env_ok E =
     (config_ok (ge_config E) \<and> (\<forall>xs. mset (ge_scope_order E xs) = mset xs) \<and> (\<forall>xs. mset (ge_map_order E xs) = mset xs))"

subsection \<open>The first state\<close>

lemma gateway_new_inv:
  assumes E: "env_ok E" and a: "admission_new (ge_config E) t = Some a"
  shows "gateway_inv E 0 (gateway_new E a)"
proof -
  have c: "config_ok (ge_config E)" using E by (simp add: env_ok_def)
  have r: "reachable undefined (ad_queue a) (system_new (ad_queue a))" by (rule reachable.initial)
  have q: "queue_ok (fixed (ad_queue a)) {#} {#} (ad_queue a)"
    using queue_ok_after [OF gateway_reachable(1) [OF c a r]] by (simp add: system_new_def)
  have b: "breaker_ok {#} {#} circuit_default"
    using circuit_new_inv by (auto simp: breaker_ok_def circuit_system_new_def)
  have s: "store_books 0 {#} {#} {#} (cache_new x)" for x
    using cache_new_inv [of x] by (auto simp: store_books_def cache_system_new_def)
  have f: "fixed (ad_queue a) = configured E"
    using gateway_reachable(2) [OF c a r] by (simp add: configured_def system_new_def)
  show ?thesis
    using q b s f by (simp add: gateway_inv_def gateway_new_def all_claims_def world_ok_def books_kept_def)
qed

end
