(* ===== verification/Gateway_Contract.thy ===== *)
theory Gateway_Contract
  imports Gateway_System
begin

text \<open>
  What the whole gateway promises, whatever the order of requests, signals, timeouts and upstream
  answers: no step panics, never more requests are on the wire than configured, nothing leaks when
  everything has ended, the counters tell the truth, and every client is told the truth about its
  response.
\<close>

section \<open>Requests that are accepted\<close>

lemma inspect_body_total:
  assumes "dr_root_index rt < length (cfg_roots c)"
  shows "inspect_body L walk c rt body \<noteq> None"
proof -
  have m: "metered_cost L (dr_endpoint rt) i m limit body \<noteq> None" if "dr_endpoint rt \<noteq> Models" "dr_endpoint rt \<noteq> CountTokens" for i m limit body
    using that by (cases "dr_endpoint rt") (simp_all add: metered_cost_def output_cap_def)
  show ?thesis
    using assms m by (auto simp: inspect_body_def Let_def split: option.splits limit.splits)
qed

lemma inspect_body_cost_ok:
  assumes "inspect_body L walk c rt body = Some (Inr (cost, k))"
  shows "cost_ok cost"
proof (cases "dr_endpoint rt = Models")
  case False
  from inspect_body_accepts [OF assms False] metered_cost_ok show ?thesis
    by (auto split: if_splits limit.splits)
qed (use assms in \<open>simp add: inspect_body_def\<close>)

lemma handle_head_root:
  assumes "handle_head F st q = ReadBody rt u"
  shows "dr_root_index rt < length (cfg_roots (fr_config st))"
  using route_from_cases [of "cfg_roots (fr_config st)" "rh_path q" 0 "rh_method q"] handle_head_reads(4) [OF assms]
  by (auto simp: route_def split: if_splits)

section \<open>Every step keeps the invariant\<close>

lemma claims_at:
  assumes "i < length xs"
  shows "\<Sum>\<^sub># (image_mset g (mset xs)) = g (xs ! i) + \<Sum>\<^sub># (image_mset g (mset (remove_at i xs)))"
    "\<Sum>\<^sub># (image_mset g (mset (xs[i := y]))) = g y + \<Sum>\<^sub># (image_mset g (mset (remove_at i xs)))"
  using nth_mset(1,2) [OF assms] by simp_all

lemma list_all_update: "list_all P xs \<Longrightarrow> P y \<Longrightarrow> list_all P (xs[i := y])"
  by (auto simp: list_all_iff dest!: set_update_subset_insert [THEN subsetD])

lemma gateway_stop_inv: "gateway_inv E n s \<Longrightarrow> gateway_inv E (Suc n) (s\<lparr>gt_stop := x\<rparr>)"
  using gw.ok_mono [of "3 * n" "add_mset (CSize (configured E)) (all_claims s)" "gt_world s" "3 * Suc n"]
  by (simp add: gateway_inv_def all_claims_def books_kept_def)

lemma gateway_inv_mono: "gateway_inv E n s \<Longrightarrow> gateway_inv E (Suc n) s"
  using gateway_stop_inv [of E n s "gt_stop s"] by simp

lemma record_request_inv:
  assumes "gateway_inv E n s"
  shows "gateway_inv E (Suc n) (s\<lparr>gt_world := (gt_world s)\<lparr>wd_metrics := record_request (wd_metrics (gt_world s))\<rparr>\<rparr>)"
proof -
  have "same_books m (record_request m)" for m by (rule counter_frame) (simp_all add: record_request_def)
  with gateway_inv_mono [OF assms] show ?thesis
    by (simp add: gateway_inv_def all_claims_def books_kept_def world_ok_def same_books_def)
qed

lemma gateway_answer_inv: "gateway_inv E n s \<Longrightarrow> gateway_inv E n (s\<lparr>gt_answers := x\<rparr>)"
  by (simp add: gateway_inv_def all_claims_def books_kept_def)

lemma gateway_front_new_inv:
  assumes "gateway_inv E n s" "cost_ok (fq_cost Q)"
  shows "gateway_inv E n (s\<lparr>gt_fronts := gt_fronts s @ [front_new Q]\<rparr>)"
  using assms by (simp add: gateway_inv_def all_claims_def books_kept_def front_new_def front_claims_def front_inv_def)

lemma prepare_front_result:
  assumes "dr_root_index rt < length (cfg_roots (ge_config E))"
  shows "\<exists>x. prepare_front E rt u q d body = Some x \<and> (\<forall>Q. x = Inr Q \<longrightarrow> cost_ok (fq_cost Q))"
proof -
  obtain y where y: "inspect_body (ge_config_libs E) (ge_walk E) (ge_config E) rt body = Some y"
    using inspect_body_total [OF assms] by blast
  show ?thesis
  proof (cases y)
    case (Inr z)
    then obtain cost k where "y = Inr (cost, k)" by (cases z) simp
    with y inspect_body_cost_ok show ?thesis by (auto simp: prepare_front_def Let_def)
  qed (use y in \<open>simp add: prepare_front_def\<close>)
qed

lemma gateway_request_inv:
  assumes "gateway_inv E n s"
  shows "\<exists>s'. gateway_request E q status b now s = Some s' \<and> gateway_inv E (Suc n) s'"
proof -
  define s1 where "s1 = s\<lparr>gt_world := (gt_world s)\<lparr>wd_metrics := record_request (wd_metrics (gt_world s))\<rparr>\<rparr>"
  have s1: "gateway_inv E (Suc n) s1" unfolding s1_def by (rule record_request_inv [OF assms])
  note ans = gateway_answer_inv [OF s1]
  have stop: "gateway_inv E (Suc n) (s1\<lparr>gt_stop := x, gt_answers := y\<rparr>)" for x y
    using ans [of y] by (simp add: gateway_inv_def all_claims_def books_kept_def)
  have def: "gateway_request E q status b now s =
     (case handle_head (ge_front E) (front_of E (gt_stop s) status) q of
          Respond x \<Rightarrow> Some (s1\<lparr>gt_answers := gt_answers s @ [ReplyLocal x]\<rparr>)
        | Control x stop \<Rightarrow> Some (s1\<lparr>gt_stop := gt_stop s \<or> stop, gt_answers := gt_answers s @ [ReplyLocal x]\<rparr>)
        | ReadBody rt u \<Rightarrow>
            (case body_reply b of
               Inl x \<Rightarrow> Some (s1\<lparr>gt_answers := gt_answers s @ [x]\<rparr>)
             | Inr body \<Rightarrow> Option.bind (prepare_front E rt u q (now + ge_request_limit E) body) (\<lambda>x.
                   case x of Inl e \<Rightarrow> Some (s1\<lparr>gt_answers := gt_answers s @ [e]\<rparr>)
                   | Inr Q \<Rightarrow> Some (s1\<lparr>gt_fronts := gt_fronts s @ [front_new Q]\<rparr>))))"
    by (simp add: gateway_request_def Let_def on_metrics_def s1_def cong: head_outcome.case_cong sum.case_cong)
  show ?thesis
  proof (cases "handle_head (ge_front E) (front_of E (gt_stop s) status) q")
    case (ReadBody rt u)
    show ?thesis
    proof (cases "body_reply b")
      case (Inr body)
      have "dr_root_index rt < length (cfg_roots (ge_config E))" using handle_head_root [OF ReadBody] by (simp add: front_of_def)
      from prepare_front_result [OF this] obtain x where x: "prepare_front E rt u q (now + ge_request_limit E) body = Some x"
        "\<And>Q. x = Inr Q \<Longrightarrow> cost_ok (fq_cost Q)" by blast
      have f: "gt_fronts s1 = gt_fronts s" by (simp add: s1_def)
      show ?thesis
      proof (cases x)
        case q: (Inr Q)
        from gateway_front_new_inv [OF s1 x(2) [OF q]] x(1) q ReadBody Inr f show ?thesis by (simp add: def)
      qed (use x(1) ReadBody Inr ans in \<open>simp add: def\<close>)
    qed (use ReadBody ans in \<open>simp add: def\<close>)
  qed (use ans stop in \<open>simp_all add: def\<close>)
qed

lemma worker_new_good: "front_phase_ok E (FSpawn R k) \<Longrightarrow> worker_good E (R, k) \<and> (\<forall>b. share b k = 0)"
proof -
  assume a: "front_phase_ok E (FSpawn R k)"
  have "share b (worker_new R) = 0" for b
    by (cases b) (simp_all add: worker_new_def at_work_def guard_new_def)
  with a show ?thesis using traced_new [of R]
    by (auto simp: worker_good_def worker_inv_def worker_new_def guard_new_def)
qed

lemma sum_update: "j < length xs \<Longrightarrow> sum_list (map g (xs[j := y])) = sum_list (map g xs) - g (xs ! j) + g y" for g :: "'a \<Rightarrow> 64 word"
  by (induction xs arbitrary: j) (auto simp: nth_Cons algebra_simps split: nat.splits)

lemma neutral_map: "neutral f \<Longrightarrow> neutral (\<lambda>w. map_option (\<lambda>(x, w'). (g x, w')) (f w))"
  by (auto simp: neutral_def)

lemma neutral_if: "(c \<Longrightarrow> neutral f) \<Longrightarrow> (\<not> c \<Longrightarrow> neutral g) \<Longrightarrow> neutral (\<lambda>w. if c then f w else g w)"
  by (cases c) simp_all

lemma neutral_front_do [simp]: "neutral (do_request E Q)" "neutral (do_lookup clk p)" "neutral (do_turn clk p)" "neutral (do_replay_drop a)"
  by (simp_all add: do_request_def do_lookup_def do_turn_def do_replay_drop_def)

lemma neutral_front_drop:
  assumes "front_phase_ok E ph"
  shows "neutral (front_phase_drop r ph)"
proof (cases ph)
  case (FSpawn R k)
  then have "wk_phase k = Unstarted" using assms by (simp add: worker_new_def)
  from neutral_map [OF unstarted_drop_neutral [OF this], of "\<lambda>_. ()"] FSpawn show ?thesis by simp
qed simp_all

lemma neutral_leave:
  assumes "front_phase_ok E (ft_phase f)"
  shows "neutral (front_leave r x f)"
  unfolding front_leave_def [abs_def]
  by (intro neutral_bind neutral_front_drop [OF assms]) (simp_all add: neutral_bind)

lemma neutral_hit:
  assumes "front_phase_ok E (ft_phase f)"
  shows "neutral (front_hit r a f)"
  unfolding front_hit_def [abs_def] by (intro neutral_bind neutral_leave [OF assms]) simp

lemma neutral_lookup [simp]: "neutral (front_lookup clk f)"
proof (cases "ft_cache f")
  case (Some p)
  have "neutral (\<lambda>w. Option.bind (do_lookup clk p w) (\<lambda>(x, w1). Some ((fst x, f\<lparr>ft_cache := Some (snd x)\<rparr>), w1)))"
    by (rule neutral_bind) simp_all
  then show ?thesis by (simp add: front_lookup_def [abs_def] Some split_def)
qed (simp add: front_lookup_def [abs_def])

lemma lookup_phase: "front_lookup clk f w = Some (x, w') \<Longrightarrow> ft_phase (snd x) = ft_phase f"
  by (auto simp: front_lookup_def Option.bind_eq_Some_conv split: option.splits)

lemma neutral_bind_if:
  assumes "neutral f" "\<And>w x w1. f w = Some (x, w1) \<Longrightarrow> neutral (g x)"
  shows "neutral (\<lambda>w. Option.bind (f w) (\<lambda>(x, w1). g x w1))"
  unfolding neutral_def
proof (intro allI impI)
  fix w y w'
  assume "Option.bind (f w) (\<lambda>(x, w1). g x w1) = Some (y, w')"
  then obtain x w1 where s: "f w = Some (x, w1)" "g x w1 = Some (y, w')" by (auto simp: Option.bind_eq_Some_conv)
  from neutralD [OF assms(1) s(1)] neutralD [OF assms(2) [OF s(1)] s(2)]
  show "same_books (wd_metrics w) (wd_metrics w')" by (simp add: same_books_def)
qed

lemma front_step_neutral:
  assumes inv: "front_inv E f"
  shows "neutral (front_step E next r clk ev f)"
proof -
  have p: "front_phase_ok E (ft_phase f)" using inv by (simp add: front_inv_def)
  have leave: "neutral (\<lambda>w. map_option (\<lambda>(f', w'). ((f', None :: (forward_request \<times> worker) option), w')) (front_leave r x f w))" for x
    using neutral_map [OF neutral_leave [OF p], of "\<lambda>f. (f, None :: (forward_request \<times> worker) option)"] by simp
  have plain: "neutral (front_leave r' x (f\<lparr>ft_phase := FLeaving\<rparr>))" for r' x by (rule neutral_leave [where E = E]) simp
  have hit: "neutral (front_hit r' a f')" if "ft_phase f' = ft_phase f" for r' a f' by (rule neutral_hit [where E = E]) (simp add: p that)
  have signal: "neutral (front_signal r ev f)"
    by (cases ev) (simp_all add: front_signal_def [abs_def] neutral_leave [OF p])
  have cache: "neutral (front_cache E r clk f)"
    unfolding front_cache_def [abs_def]
    apply (rule neutral_bind, rule neutral_if, simp, simp)
    apply (rule neutral_bind_if, simp)
    subgoal for c w x w1 using lookup_phase [of clk "f\<lparr>ft_cache := c\<rparr>" w x w1] hit
      by (cases "fst x") (simp_all add: split_def)
    done
  have circuit: "neutral (front_circuit r again g f)" for again g
    unfolding front_circuit_def [abs_def] apply (rule neutral_bind, simp) subgoal for x by (cases x) (simp_all add: plain) done
  have turn: "neutral (front_turn r clk f)"
  proof (cases "ft_cache f")
    case (Some p)
    show ?thesis unfolding front_turn_def [abs_def] Some option.case Let_def
      apply (rule neutral_bind, simp) subgoal for x using hit by (cases "fst x") (simp_all add: split_def) done
  qed (simp add: front_turn_def [abs_def])
  have acquire: "neutral (front_acquire r q f)" for q
    unfolding front_acquire_def [abs_def] apply (rule neutral_bind, simp)
    subgoal for x by (cases x, case_tac a) (simp_all add: plain) done
  have look: "neutral (front_look E r clk h f)" for h
    unfolding front_look_def [abs_def]
    apply (rule neutral_bind_if, simp)
    subgoal for w x w1 using lookup_phase [of clk f w x w1] hit by (cases "fst x") (simp_all add: split_def Let_def)
    done
  have stay: "neutral g \<Longrightarrow> neutral (\<lambda>w. map_option (\<lambda>(f', w'). ((f', None :: (forward_request \<times> worker) option), w')) (g w))" for g :: "front_task action"
    using neutral_map [of g "\<lambda>f. (f, None :: (forward_request \<times> worker) option)"] by simp
  note all = stay [OF signal] stay [OF cache] stay [OF circuit] stay [OF turn] stay [OF acquire] stay [OF look] leave
  show ?thesis unfolding front_step_def [abs_def] Let_def
    using all by (cases "ft_phase f"; cases ev) simp_all
qed

lemma run_front_inv:
  assumes inv: "gateway_inv E n s" and i: "i < length (gt_fronts s)" and n: "3 * Suc n \<le> u64_max"
  shows "\<exists>s'. run_front E i r clk ev s = Some s' \<and> gateway_inv E (Suc n) s'"
proof -
  let ?f = "gt_fronts s ! i" and ?W = "\<Sum>\<^sub># (image_mset (\<lambda>(R, k). worker_claims R k) (mset (gt_workers s)))"
  let ?F = "add_mset (CSize (configured E)) (\<Sum>\<^sub># (image_mset front_claims (mset (remove_at i (gt_fronts s)))))"
  have w: "world_ok (3 * n) (front_claims ?f + (?F + ?W)) (gt_world s)"
    using inv claims_at(1) [OF i, of front_claims] by (simp add: gateway_inv_def all_claims_def add.assoc)
  have fi: "front_inv E ?f" using inv i by (simp add: gateway_inv_def list_all_length)
  have n': "3 * n + 3 \<le> u64_max" using n by simp
  obtain x w' M where x: "front_step E (length (gt_workers s)) r clk ev ?f (gt_world s) = Some (x, w')"
    and M: "front_result E x M" "world_ok (3 * n + 3) (M + (?F + ?W)) w'"
    using gw.triple_apply [OF front_step_keeps [OF fi] w n'] by blast
  obtain f sp where fs: "x = (f, sp)" by (cases x)
  let ?s = "s\<lparr>gt_world := w', gt_fronts := (gt_fronts s)[i := f], gt_workers := gt_workers s @ (case sp of None \<Rightarrow> [] | Some x \<Rightarrow> [x])\<rparr>"
  have sb: "same_books (wd_metrics (gt_world s)) (wd_metrics w')" by (rule neutralD [OF front_step_neutral [OF fi] x])
  have sp: "case sp of None \<Rightarrow> True | Some x \<Rightarrow> worker_good E x \<and> (\<forall>b. share b (snd x) = 0)"
    using M(1) worker_new_good fs by (auto simp: front_result_def spawned_ok_def split: option.splits prod.splits)
  have c: "add_mset (CSize (configured E)) (all_claims ?s) = M + (?F + ?W)"
    using M(1) claims_at(2) [OF i, of front_claims f] unfolding fs front_result_def
    by (auto simp: all_claims_def spawned_claims_def ac_simps split: option.splits)
  have "gateway_inv E (Suc n) ?s"
    unfolding gateway_inv_def c using M(2) inv sb sp M(1) fs
    by (auto simp: gateway_inv_def front_result_def list_all_update books_kept_def same_books_def ac_simps split: option.splits)
  then show ?thesis using x fs by (simp add: run_front_def)
qed

lemma forward_env_perm:
  assumes "env_ok E"
  shows "\<And>xs. mset (fe_scope_order (forward_env_of E) xs) = mset xs" "\<And>xs. mset (fe_map_order (forward_env_of E) xs) = mset xs"
  using assms by (simp_all add: env_ok_def forward_env_of_def)

lemma run_worker_inv:
  assumes E: "env_ok E" and inv: "gateway_inv E n s" and j: "j < length (gt_workers s)" and n: "3 * Suc n \<le> u64_max"
  shows "\<exists>s'. run_worker E j r ev s = Some s' \<and> gateway_inv E (Suc n) s'"
proof -
  obtain R k where k: "gt_workers s ! j = (R, k)" by (cases "gt_workers s ! j")
  let ?c = "\<lambda>(R, k). worker_claims R k"
  let ?W = "\<Sum>\<^sub># (image_mset ?c (mset (remove_at j (gt_workers s))))"
  let ?F = "add_mset (CSize (configured E)) (\<Sum>\<^sub># (image_mset front_claims (mset (gt_fronts s))))"
  have w: "world_ok (3 * n) (worker_claims R k + (?F + ?W)) (gt_world s)"
    using inv claims_at(1) [OF j, of ?c] k by (simp add: gateway_inv_def all_claims_def ac_simps)
  have good: "worker_good E (R, k)" using inv j k by (metis gateway_inv_def list_all_length)
  then have wi: "worker_inv k" "traced R k" by (simp_all add: worker_good_def)
  have n': "3 * n + 3 \<le> u64_max" using n by simp
  obtain k' w' M where x: "forward_step (forward_env_of E) R r ev k (gt_world s) = Some (k', w')"
    and M: "keeps R k' M" "world_ok (3 * n + 3) (M + (?F + ?W)) w'"
    using gw.triple_apply [OF forward_step_keeps [OF wi(1) forward_env_perm [OF E]] w n'] by blast
  let ?s = "s\<lparr>gt_world := w', gt_workers := (gt_workers s)[j := (R, k')]\<rparr>"
  have bk: "booked (k, wd_metrics (gt_world s)) (k', wd_metrics w')"
    using forward_step_settles [OF wi(2)] x unfolding settles_def by blast
  have g: "worker_good E (R, k')"
    using good M(1) forward_step_traced [OF x wi(2)] by (simp add: worker_good_def keeps_def)
  have c: "add_mset (CSize (configured E)) (all_claims ?s) = M + (?F + ?W)"
    using M(1) claims_at(2) [OF j, of ?c "(R, k')"] by (simp add: all_claims_def keeps_def ac_simps)
  have "counter b (wd_metrics w') = sum_list (map (\<lambda>x. share b (snd x)) ((gt_workers s)[j := (R, k')]))" if b: "b \<in> exact_books" for b
  proof -
    have "counter b (wd_metrics w') = counter b (wd_metrics (gt_world s)) - share b k + share b k'"
      using bk b by (simp add: booked_def algebra_simps)
    then show ?thesis
      using inv b sum_update [OF j, of "\<lambda>x. share b (snd x)" "(R, k')"] k by (simp add: gateway_inv_def books_kept_def)
  qed
  moreover have "balanced (wd_metrics w')" using inv bk by (simp add: gateway_inv_def books_kept_def booked_def)
  ultimately have "books_kept ?s" by (simp add: books_kept_def)
  then have "gateway_inv E (Suc n) ?s"
    unfolding gateway_inv_def c using M(2) inv g by (simp add: gateway_inv_def list_all_update ac_simps)
  then show ?thesis using x k by (simp add: run_worker_def)
qed

lemma gateway_exec_inv:
  assumes E: "env_ok E" and inv: "gateway_inv E n s" and n: "3 * Suc n \<le> u64_max"
  shows "\<exists>s'. gateway_exec E x s = Some s' \<and> gateway_inv E (Suc n) s'"
proof (cases x)
  case (GHead i r)
  with run_front_inv [OF inv _ n] gateway_inv_mono [OF inv] show ?thesis by (auto simp: Let_def split: front_phase.split)
qed (use run_front_inv [OF inv _ n] run_worker_inv [OF E inv _ n] gateway_inv_mono [OF inv] gateway_stop_inv [OF inv] gateway_request_inv [OF inv] in auto)

lemma gateway_run_inv:
  assumes E: "env_ok E" and a: "admission_new (ge_config E) t = Some a" and r: "gateway_run E a n s" and n: "3 * n \<le> u64_max"
  shows "gateway_inv E n s"
  using r n
proof (induction rule: gateway_run.induct)
  case gateway_initial
  show ?case by (rule gateway_new_inv [OF E a])
next
  case (gateway_step n s x s')
  then have "gateway_inv E n s" "3 * Suc n \<le> u64_max" by simp_all
  from gateway_exec_inv [OF E this, of x] gateway_step.hyps(2) show ?case by auto
qed

section \<open>What the invariant says\<close>

lemma reserved_bound:
  assumes "gateway_inv E n s"
  shows "size (part hold_claim (all_claims s)) \<le> cfg_concurrency (ge_config E)"
    "\<forall>h\<in>#part hold_claim (all_claims s). h_id h \<in> set (active_ids (q_ledger (wd_queue (gt_world s))))"
    "active_count (q_ledger (wd_queue (gt_world s))) \<le> cfg_concurrency (ge_config E)"
proof -
  let ?q = "wd_queue (gt_world s)"
  obtain ts hs where h: "mset hs = part hold_claim (all_claims s)" "sys_inv \<lparr>s_queue = ?q, s_tickets = ts, s_holds = hs\<rparr>"
    and fx: "fixed ?q = configured E"
    using assms by (auto simp: gateway_inv_def world_ok_def queue_ok_def)
  have own: "owned (ticket_keys ts) (hold_keys hs) ?q" and inv: "queue_inv ?q" using h(2) by (simp_all add: sys_inv_def)
  have k: "map fst (hold_keys hs) = map h_id hs" by (simp add: hold_keys_def)
  note ids = owned_ids [OF own, unfolded k]
  have "length hs \<le> length (active_ids (q_ledger ?q))" using arg_cong [OF ids, of size] by simp
  moreover show c: "active_count (q_ledger ?q) \<le> cfg_concurrency (ge_config E)"
    using queue_inv_ledgerD [OF inv] fx by (simp add: ledger_inv_def fixed_def configured_def)
  moreover have "size (part hold_claim (all_claims s)) = length hs" using h(1) by (metis size_mset)
  ultimately show "size (part hold_claim (all_claims s)) \<le> cfg_concurrency (ge_config E)" by (simp add: length_active_ids)
  have "h_id x \<in> set (active_ids (q_ledger ?q))" if "x \<in> set hs" for x
  proof -
    have "h_id x \<in># mset (active_ids (q_ledger ?q))" using that unfolding ids by simp
    then show ?thesis by simp
  qed
  then show "\<forall>h\<in>#part hold_claim (all_claims s). h_id h \<in> set (active_ids (q_ledger ?q))"
    unfolding h(1) [symmetric] by simp
qed

definition wired :: "forward_request \<times> worker \<Rightarrow> bool" where
  "wired x = on_wire (wk_phase (snd x))"

lemma wired_claims:
  assumes "list_all (worker_good E) ws"
  shows "length (filter wired ws) \<le> size (part hold_claim (\<Sum>\<^sub># (image_mset (\<lambda>(R, k). worker_claims R k) (mset ws))))"
  using assms
proof (induction ws)
  case (Cons x ws)
  obtain R k where x: "x = (R, k)" by (cases x)
  have "wired x \<Longrightarrow> 1 \<le> size (part hold_claim (worker_claims R k))"
    using Cons.prems by (auto simp: x wired_def worker_good_def worker_inv_def worker_claims_def)
  with Cons show ?case by (auto simp: x)
qed simp

lemma worker_hold_claim:
  assumes "(R, k) \<in> set (gt_workers s)" "gd_hold (wk_guard k) = Some h"
  shows "h \<in># part hold_claim (all_claims s)"
proof -
  obtain N where "mset (gt_workers s) = add_mset (R, k) N" using assms(1) by (metis multi_member_split set_mset_mset)
  with assms(2) show ?thesis by (simp add: all_claims_def worker_claims_def)
qed

lemma sum_of_bool: "sum_list (map (\<lambda>x. of_bool (P x)) xs) = (of_nat (length (filter P xs)) :: 64 word)"
  by (induction xs) simp_all

lemma sum_of_nat: "sum_list (map (\<lambda>x. of_nat (f x)) xs) = (of_nat (sum_list (map f xs)) :: 64 word)"
  by (induction xs) simp_all

lemma share_functions:
  "share BActive = (\<lambda>k. of_bool (at_work (wk_phase k)))"
  "share BDraining = (\<lambda>k. of_bool (wk_phase k \<noteq> Ended \<and> gd_draining (wk_guard k)))"
  "share BAttempts = (\<lambda>k. of_nat (length (wk_wires k)))"
  "share BKnown = (\<lambda>k. of_bool (wk_phase k = Ended \<and> gd_usage (wk_guard k) \<noteq> None))"
  "share (BReason reason) = (\<lambda>k. of_bool (wk_phase k = Ended \<and> gd_reason (wk_guard k) = reason))"
  by (rule ext, simp)+

section \<open>The promises\<close>

text \<open>
  C1: the gateway never panics.  With a validated configuration, whatever requests arrive, whatever
  the upstream answers and in whatever order connections, workers, timers and signals get their
  turn, no step of a connection or a worker fails an assertion, an unwrap, an index or a checked
  operation, for as many steps as the 64-bit counters of the cache can count.
\<close>

theorem gateway_never_panics:
  assumes "env_ok E" "admission_new (ge_config E) t = Some a" "gateway_run E a n s" "3 * Suc n \<le> u64_max"
  shows "gateway_exec E x s \<noteq> None"
proof -
  have "3 * n \<le> u64_max" using assms(4) by simp
  from gateway_exec_inv [OF assms(1) gateway_run_inv [OF assms(1-3) this] assms(4), of x] show ?thesis by auto
qed


text \<open>
  C3: nothing leaks.  When every connection is answered and every worker has ended, no reservation
  is active and nobody waits in the admission queue, the circuit breaker counts no attempt in
  flight and no waiter, no cache key is claimed and no call waits for one, and the gauges of active
  and draining workers are zero, whatever was cancelled, refused or aborted on the way.
\<close>

theorem gateway_drained_holds_nothing:
  assumes "env_ok E" "admission_new (ge_config E) t = Some a" "gateway_run E a n s" "3 * n \<le> u64_max"
    and "list_all (\<lambda>f. ft_phase f = FDone) (gt_fronts s)" "list_all (\<lambda>x. wk_phase (snd x) = Ended) (gt_workers s)"
  shows "active_count (q_ledger (wd_queue (gt_world s))) = 0 \<and> concat (q_roots (wd_queue (gt_world s))) = []
    \<and> (\<forall>(key, e)\<in>set (c_entries (wd_circuit (gt_world s))). ce_in_flight e = 0)
    \<and> cc_waiters (c_counts (wd_circuit (gt_world s))) = 0
    \<and> x_flights (xc_state (wd_cache (gt_world s))) = [] \<and> x_waiters (xc_state (wd_cache (gt_world s))) = 0
    \<and> m_active (wd_metrics (gt_world s)) = 0 \<and> m_draining (wd_metrics (gt_world s)) = 0"
proof -
  have inv: "gateway_inv E n s" by (rule gateway_run_inv [OF assms(1-4)])
  have f: "front_claims f = {#}" if "f \<in> set (gt_fronts s)" for f 
    using assms(5) inv that by (simp add: list_all_iff front_claims_def gateway_inv_def front_inv_def)
  have w: "worker_claims R k = {#}" if "(R, k) \<in> set (gt_workers s)" for R k
  proof -
    have "worker_inv k" "wk_phase k = Ended" using inv assms(6) that by (auto simp: gateway_inv_def list_all_iff worker_good_def)
    then show ?thesis by (auto simp: worker_inv_def worker_claims_def)
  qed
  have "\<Sum>\<^sub># (image_mset front_claims (mset (gt_fronts s))) = {#}" using f by (simp add: sum_mset_0_iff)
  moreover have "\<Sum>\<^sub># (image_mset (\<lambda>(R, k). worker_claims R k) (mset (gt_workers s))) = {#}" using w by (auto simp: sum_mset_0_iff)
  ultimately have c: "all_claims s = {#}" by (simp add: all_claims_def)
  then have ok: "queue_ok (configured E) {#} {#} (wd_queue (gt_world s))" "breaker_ok {#} {#} (wd_circuit (gt_world s))"
    "store_books (3 * n) {#} {#} {#} (wd_cache (gt_world s))"
    using inv by (auto simp: gateway_inv_def world_ok_def queue_ok_def)
  from ok(1) have own: "owned [] [] (wd_queue (gt_world s))" and qi: "queue_inv (wd_queue (gt_world s))"
    by (auto simp: queue_ok_def sys_inv_def ticket_keys_def hold_keys_def)
  have "active_count (q_ledger (wd_queue (gt_world s))) = 0"
    using owned_ids [OF own] by (simp add: length_active_ids [symmetric] granted_ids_def)
  moreover have "concat (q_roots (wd_queue (gt_world s))) = []"
  proof -
    have "q_roots (wd_queue (gt_world s)) ! r = []" if "r < length (q_roots (wd_queue (gt_world s)))" for r
      using own that by (cases "q_roots (wd_queue (gt_world s)) ! r") (fastforce simp: owned_def)+
    then show ?thesis by (auto simp: concat_eq_Nil_conv in_set_conv_nth)
  qed
  moreover have "ce_in_flight e = 0" if "(key, e) \<in> set (c_entries (wd_circuit (gt_world s)))" for key e
    using ok(2) that by (auto simp: breaker_ok_def circuit_inv_def entries_ok_def entry_ok_def)
  moreover have "cc_waiters (c_counts (wd_circuit (gt_world s))) = 0" using ok(2) by (auto simp: breaker_ok_def circuit_inv_def waiters_ok_def)
  moreover have "x_flights (xc_state (wd_cache (gt_world s))) = []" "x_waiters (xc_state (wd_cache (gt_world s))) = 0"
    using ok(3) by (auto simp: store_books_def cache_inv_def books_def flight_ok_def all_pendings_def)
  moreover have "m_active (wd_metrics (gt_world s)) = 0" "m_draining (wd_metrics (gt_world s)) = 0"
  proof -
    have z: "share b (snd x) = 0" if "b = BActive \<or> b = BDraining" "x \<in> set (gt_workers s)" for b x
      using that assms(6) by (auto simp: list_all_iff at_work_def)
    have "counter b (wd_metrics (gt_world s)) = 0" if "b = BActive \<or> b = BDraining" for b
    proof -
      have "b \<in> exact_books" using that by (auto simp: exact_books_def)
      then have "counter b (wd_metrics (gt_world s)) = sum_list (map (\<lambda>x. share b (snd x)) (gt_workers s))"
        using inv by (simp add: gateway_inv_def books_kept_def)
      also have "\<dots> = sum_list (map (\<lambda>x. 0) (gt_workers s))" using z [OF that] by (metis (mono_tags, lifting) map_cong)
      also have "\<dots> = 0" by simp
      finally show ?thesis .
    qed
    from this [of BActive] this [of BDraining] show "m_active (wd_metrics (gt_world s)) = 0" "m_draining (wd_metrics (gt_world s)) = 0" by simp_all
  qed
  ultimately show ?thesis by blast
qed


text \<open>
  C4: a request is sent at most twice.  A worker sends only the prepared request of its client, at
  most once, or twice when the configuration allows the retry of a recognised rejection; what it has
  passed on of a response is always a prefix of what it received.
\<close>

theorem sent_at_most_twice:
  assumes "env_ok E" "admission_new (ge_config E) t = Some a" "gateway_run E a n s" "3 * n \<le> u64_max" "(R, k) \<in> set (gt_workers s)"
  shows "set (wk_wires k) \<subseteq> {rq_wire R} \<and> length (wk_wires k) \<le> (if cfg_retry_transient_429 (ge_config E) then 2 else 1)
    \<and> prefix (wk_offered k) (wk_received k)"
proof -
  have "worker_good E (R, k)" using gateway_run_inv [OF assms(1-4)] assms(5) by (auto simp: gateway_inv_def list_all_iff)
  then have g: "traced R k" "rq_retry_transient_429 R \<longrightarrow> cfg_retry_transient_429 (ge_config E)" by (simp_all add: worker_good_def)
  have "length (wk_wires k) \<le> 2 \<and> (length (wk_wires k) = 2 \<longrightarrow> rq_retry_transient_429 R) \<and> prefix (wk_offered k) (wk_received k)"
  proof (cases "wk_phase k = Ended")
    case True
    with g(1) show ?thesis by (auto simp: traced_def ended_ok_def Let_def)
  next
    case False
    with g(1) have "live_ok R k" by (simp add: traced_def)
    with live_wires [OF this] show ?thesis by (simp add: live_ok_def Let_def)
  qed
  moreover have "set (wk_wires k) \<subseteq> {rq_wire R}" using g(1) by (simp add: traced_def)
  ultimately show ?thesis using g(2) by auto
qed


section \<open>Witnesses\<close>

text \<open>Code equations for the evaluation of a run: nothing is unfolded under a bound variable.\<close>

lemma bind_as_case [code_unfold]: "Option.bind m f = (case m of None \<Rightarrow> None | Some x \<Rightarrow> f x)" by (cases m) simp_all
lemma map_option_as_case [code_unfold]: "map_option f m = (case m of None \<Rightarrow> None | Some x \<Rightarrow> Some (f x))" by (cases m) simp_all
fun name_frames :: "header_map \<Rightarrow> string list \<Rightarrow> string list" where
  "name_frames h [] = []"
| "name_frames h (n # ns) = n # be64 (length (h n)) # h n @ name_frames h ns"
lemma scope_frames_code [code]:
  "scope_frames root url model headers a =
    be64 root # url # be64 (case model of None \<Rightarrow> u64_max | Some i \<Rightarrow> i) # name_frames headers (scope_names a)"
proof -
  have "concat (map (\<lambda>name. name # be64 (length (headers name)) # headers name) ns) = name_frames headers ns" for ns by (induction ns) simp_all
  then show ?thesis by (simp add: scope_frames_def)
qed
lemma be_bytes_small: "n < 256 \<Longrightarrow> be_bytes (Suc k) n = replicate k (char_of (0::nat)) @ [char_of n]"
proof (induction k)
  case (Suc k)
  have "be_bytes k 0 = replicate k (char_of (0::nat))" for k by (induction k) (simp_all add: replicate_append_same)
  from this [of "Suc k"] Suc.prems show ?case by (simp only: be_bytes.simps(2) [of "Suc k"] div_less mod_less)
qed simp
lemma be64_code [code]: "be64 n = (if n < 256 then replicate 7 (char_of (0::nat)) @ [char_of n] else be_bytes 8 n)"
  using be_bytes_small [of n 7] by (simp add: be64_def del: be_bytes.simps)

text \<open>A request that is admitted, sent, answered with two chunks and delivered.\<close>

definition demo_gateway_env :: gateway_env where
  "demo_gateway_env =
     \<lparr>ge_front = demo_front_libs, ge_config_libs = demo_config_libs, ge_walk = demo_walk, ge_cache_sha = id, ge_scope_sha = id,
      ge_scope_order = id, ge_map_order = id, ge_config = demo_config, ge_control_token = ''t'', ge_nonce = None,
      ge_upstream_token = None, ge_request_limit = from_secs 600, ge_capacity_wait = from_secs 120, ge_gated = False\<rparr>"

definition demo_front_op :: "front_event \<Rightarrow> gateway_op" where
  "demo_front_op = GFront 0 (\<lambda>_. from_secs 1) (\<lambda>_. 0)"

definition demo_worker_op :: "fwd_event \<Rightarrow> gateway_op" where
  "demo_worker_op = GWorker 0 (\<lambda>_. from_secs 1)"

definition demo_to_wire :: "gateway_op list" where
  "demo_to_wire =
     GRequest demo_head ''{}'' (BodyRead ''x'') 0 # map demo_front_op [FrRun, FrPoll, FrPoll, FrPoll, FrRun, FrSpawned]
     @ map demo_worker_op [EvBegin, EvRun, EvRun]"

definition demo_to_end :: "gateway_op list" where
  "demo_to_end =
     demo_to_wire
     @ map demo_worker_op [EvResponse \<lparr>ur_status = 200, ur_headers = [(''content-type'', [''text/plain''])], ur_content_length = None\<rparr>,
         EvRun, EvRun, EvChunk ''ok'', EvDelivered, EvChunk ''!'', EvDelivered, EvEof False False]
     @ [GHead 0 (\<lambda>_. from_secs 1)]"

fun run_gateway :: "gateway_env \<Rightarrow> gateway_op list \<Rightarrow> gateway \<Rightarrow> gateway option" where
  "run_gateway E [] s = Some s"
| "run_gateway E (x # xs) s = do { s1 \<leftarrow> gateway_exec E x s; run_gateway E xs s1 }"

lemma run_gateway_run: "gateway_run E a n s \<Longrightarrow> run_gateway E xs s = Some s' \<Longrightarrow> gateway_run E a (n + length xs) s'"
proof (induction xs arbitrary: n s)
  case (Cons x xs)
  then obtain s1 where s1: "gateway_exec E x s = Some s1" "run_gateway E xs s1 = Some s'" by (auto simp: Option.bind_eq_Some_conv)
  from Cons.IH [OF gateway_step [OF Cons.prems(1) s1(1)] s1(2)] show ?case by simp
qed simp

definition demo_state :: "gateway_op list \<Rightarrow> gateway" where
  "demo_state xs = the (run_gateway demo_gateway_env xs (gateway_new demo_gateway_env demo_gateway))"

lemma demo_reached:
  assumes "run_gateway demo_gateway_env xs (gateway_new demo_gateway_env demo_gateway) \<noteq> None"
  shows "gateway_run demo_gateway_env demo_gateway (length xs) (demo_state xs)"
  using run_gateway_run [OF gateway_initial, where E = demo_gateway_env and a = demo_gateway and xs = xs and s' = "demo_state xs"] assms
  by (auto simp: demo_state_def)

lemma demo_env_ok: "env_ok demo_gateway_env" "admission_new (ge_config demo_gateway_env) 0 = Some demo_gateway"
  using demo_config_ok demo_gateway by (simp_all add: env_ok_def demo_gateway_env_def)

definition demo_runs :: "gateway_op list \<Rightarrow> (gateway \<Rightarrow> bool) \<Rightarrow> bool" where
  "demo_runs xs P = (case run_gateway demo_gateway_env xs (gateway_new demo_gateway_env demo_gateway) of None \<Rightarrow> False | Some s \<Rightarrow> P s)"

lemma demo_runs_reached:
  assumes "demo_runs xs P"
  shows "gateway_run demo_gateway_env demo_gateway (length xs) (demo_state xs)" "P (demo_state xs)"
  using assms demo_reached [of xs] by (auto simp: demo_runs_def demo_state_def split: option.splits)

definition demo_one_wired :: "gateway \<Rightarrow> bool" where
  "demo_one_wired s = (length (filter wired (gt_workers s)) = 1)"

lemma demo_on_wire:
  "gateway_run demo_gateway_env demo_gateway 10 (demo_state demo_to_wire)" "length (filter wired (gt_workers (demo_state demo_to_wire))) = 1"
proof -
  have "demo_runs demo_to_wire demo_one_wired" by code_simp
  moreover have "length demo_to_wire = 10" by code_simp
  ultimately show "gateway_run demo_gateway_env demo_gateway 10 (demo_state demo_to_wire)" "length (filter wired (gt_workers (demo_state demo_to_wire))) = 1"
    using demo_runs_reached [of demo_to_wire demo_one_wired] by (simp_all add: demo_one_wired_def)
qed

definition demo_delivered :: "gateway \<Rightarrow> bool" where
  "demo_delivered s =
     (list_all (\<lambda>f. ft_phase f = FDone) (gt_fronts s) \<and> length (gt_workers s) = 1
      \<and> (let R = fst (hd (gt_workers s)); k = snd (hd (gt_workers s))
         in wk_phase k = Ended \<and> wk_wires k = [rq_wire R] \<and> wk_offered k = ''ok!'' \<and> wk_terminal k = Some BodyEnd))"

lemma demo_at_end:
  "gateway_run demo_gateway_env demo_gateway 19 (demo_state demo_to_end)"
  "list_all (\<lambda>f. ft_phase f = FDone) (gt_fronts (demo_state demo_to_end))"
  "list_all (\<lambda>x. wk_phase (snd x) = Ended) (gt_workers (demo_state demo_to_end))"
  "\<exists>R k. gt_workers (demo_state demo_to_end) = [(R, k)] \<and> wk_wires k = [rq_wire R] \<and> wk_offered k = ''ok!'' \<and> wk_terminal k = Some BodyEnd"
proof -
  have "demo_runs demo_to_end demo_delivered" by code_simp
  note e = demo_runs_reached [OF this]
  have "length demo_to_end = 19" by code_simp
  with e(1) show "gateway_run demo_gateway_env demo_gateway 19 (demo_state demo_to_end)" by simp
  obtain R k where k: "gt_workers (demo_state demo_to_end) = [(R, k)]"
    using e(2) by (cases "gt_workers (demo_state demo_to_end)") (auto simp: demo_delivered_def)
  show "list_all (\<lambda>f. ft_phase f = FDone) (gt_fronts (demo_state demo_to_end))"
    "list_all (\<lambda>x. wk_phase (snd x) = Ended) (gt_workers (demo_state demo_to_end))"
    "\<exists>R k. gt_workers (demo_state demo_to_end) = [(R, k)] \<and> wk_wires k = [rq_wire R] \<and> wk_offered k = ''ok!'' \<and> wk_terminal k = Some BodyEnd"
    using e(2) by (simp_all add: demo_delivered_def k)
qed

lemma demo_steps: "3 * Suc 10 \<le> u64_max" "3 * 10 \<le> u64_max" "3 * 19 \<le> u64_max"
  by (simp_all add: u64_max_def)

theorem gateway_never_panics_witness: "\<forall>x. gateway_exec demo_gateway_env x (demo_state demo_to_wire) \<noteq> None"
  by (rule allI, rule gateway_never_panics [OF demo_env_ok demo_on_wire(1) demo_steps(1)])


theorem gateway_drained_holds_nothing_witness:
  "length (gt_workers (demo_state demo_to_end)) = 1
   \<and> active_count (q_ledger (wd_queue (gt_world (demo_state demo_to_end)))) = 0
   \<and> x_flights (xc_state (wd_cache (gt_world (demo_state demo_to_end)))) = []"
  using gateway_drained_holds_nothing [OF demo_env_ok demo_at_end(1) demo_steps(3) demo_at_end(2,3)] demo_at_end(4) by auto


theorem sent_at_most_twice_witness:
  "\<exists>R k. (R, k) \<in> set (gt_workers (demo_state demo_to_end)) \<and> wk_wires k = [rq_wire R] \<and> prefix ''ok!'' (wk_received k)"
proof -
  obtain R k where k: "gt_workers (demo_state demo_to_end) = [(R, k)]" "wk_wires k = [rq_wire R]" "wk_offered k = ''ok!''"
    using demo_at_end(4) by blast
  then have m: "(R, k) \<in> set (gt_workers (demo_state demo_to_end))" by simp
  from sent_at_most_twice [OF demo_env_ok demo_at_end(1) demo_steps(3) m] k(2,3) m show ?thesis by auto
qed


end
