(* ===== verification/Response_Delivery.thy ===== *)
theory Response_Delivery
  imports Forward_Worker
begin

text \<open>
  The way of response bytes from a worker to the body its client reads (\<^verbatim>\<open>deliver\<close>, \<^verbatim>\<open>queued_bytes\<close>
  and \<^verbatim>\<open>downstream_body\<close> in \<^verbatim>\<open>transport/stream.rs\<close>): a channel of \<open>DELIVERY_ITEMS\<close> items, a semaphore of
  \<open>DELIVERY_BYTES\<close> permits held by the bytes until the reader drops them, and a one-shot message that
  says how the body ended.  All responses share the counter of queued bytes, so the model runs
  any number of them together.
\<close>

definition DELIVERY_ITEMS :: nat where "DELIVERY_ITEMS = 8"
definition DELIVERY_BYTES :: nat where "DELIVERY_BYTES = 64 * 1024"
definition DELIVERY_CHUNK_BYTES :: nat where "DELIVERY_CHUNK_BYTES = 16 * 1024"

text \<open>\<^verbatim>\<open>slice::chunks\<close>, which panics for a size of zero.\<close>

function chunks :: "nat \<Rightarrow> 'a list \<Rightarrow> 'a list list" where
  "chunks n xs = (if xs = [] \<or> n = 0 then [] else take n xs # chunks n (drop n xs))"
  by pat_completeness auto
termination by (relation "measure (length \<circ> snd)") auto

declare chunks.simps [simp del]

section \<open>Data\<close>

datatype delivery_result = Delivered | DeliveryClosed | DeliveryDeadline

text \<open>Where a call of \<^verbatim>\<open>deliver\<close> is suspended: waiting for permits, or for room in the channel.\<close>

datatype deliver_call = CallIdle | CallPermit "string list" | CallSend string "string list" | CallDone delivery_result

datatype body_end = CleanEnd | ErrorEnd string

record delivery =
  dv_budget :: nat
  dv_queue :: "string list"
  dv_held :: "string list"
  dv_receiver :: bool
  dv_sender :: bool
  dv_terminal :: "body_terminal option"
  dv_call :: deliver_call
  dv_offered :: string
  dv_read :: string
  dv_end :: "body_end option"

definition delivery_new :: delivery where
  "delivery_new = \<lparr>dv_budget = DELIVERY_BYTES, dv_queue = [], dv_held = [], dv_receiver = True, dv_sender = True,
     dv_terminal = None, dv_call = CallIdle, dv_offered = [], dv_read = [], dv_end = None\<rparr>"

section \<open>The worker's side\<close>

text \<open>Dropping queued bytes returns their permits and takes them off the counter.\<close>

definition release_bytes :: "string \<Rightarrow> delivery \<times> metrics \<Rightarrow> delivery \<times> metrics" where
  "release_bytes x s = ((fst s)\<lparr>dv_budget := dv_budget (fst s) + length x\<rparr>, queued_bytes_removed (length x) (snd s))"

fun drop_call :: "deliver_call \<Rightarrow> delivery \<times> metrics \<Rightarrow> delivery \<times> metrics" where
  "drop_call (CallSend x _) s = release_bytes x s"
| "drop_call _ s = s"

definition end_call :: "deliver_call \<Rightarrow> delivery \<times> metrics \<Rightarrow> delivery \<times> metrics" where
  "end_call c s = (let (d, m) = drop_call (dv_call (fst s)) s in (d\<lparr>dv_call := c\<rparr>, m))"

datatype delivery_op =
    DvCall string
  | DvPermit
  | DvSend
  | DvDeadline
  | DvClosed
  | DvSignal body_terminal
  | DvReturn
  | DvRecv
  | DvRelease nat
  | DvTerminal
  | DvClose

text \<open>The call starts: the source is cut into slices.\<close>

definition deliver_start :: "string \<Rightarrow> delivery \<Rightarrow> delivery" where
  "deliver_start source d =
     d\<lparr>dv_call := CallPermit (chunks DELIVERY_CHUNK_BYTES source), dv_offered := dv_offered d @ source\<rparr>"

text \<open>The permits for the next slice are there, or there is no next slice; \<open>None\<close> is a panic.\<close>

definition deliver_permit :: "delivery \<times> metrics \<Rightarrow> (delivery \<times> metrics) option" where
  "deliver_permit s =
     (case dv_call (fst s) of
        CallPermit [] \<Rightarrow> Some ((fst s)\<lparr>dv_call := CallDone Delivered\<rparr>, snd s)
      | CallPermit (x # rest) \<Rightarrow>
          if u32_max < length x then None
          else if length x \<le> dv_budget (fst s)
          then map_option (\<lambda>m. ((fst s)\<lparr>dv_budget := dv_budget (fst s) - length x, dv_call := CallSend x rest\<rparr>, m))
                 (queued_bytes_added (length x) (snd s))
          else Some s
      | _ \<Rightarrow> Some s)"

definition deliver_send :: "delivery \<times> metrics \<Rightarrow> delivery \<times> metrics" where
  "deliver_send s =
     (case dv_call (fst s) of
        CallSend x rest \<Rightarrow>
          if \<not> dv_receiver (fst s) then end_call (CallDone DeliveryClosed) s
          else if length (dv_queue (fst s)) < DELIVERY_ITEMS
          then ((fst s)\<lparr>dv_queue := dv_queue (fst s) @ [x], dv_call := CallPermit rest\<rparr>, snd s)
          else s
      | _ \<Rightarrow> s)"

definition deliver_signal :: "body_terminal \<Rightarrow> delivery \<Rightarrow> delivery" where
  "deliver_signal t d = (if dv_terminal d = None then d\<lparr>dv_terminal := Some t\<rparr> else d)"

text \<open>
  When the worker calls: it delivers again only after a complete delivery and before it has
  signalled the end, and after a deadline it never signals a clean end.
\<close>

definition may_deliver :: "delivery \<Rightarrow> bool" where
  "may_deliver d = (dv_sender d \<and> dv_terminal d = None \<and> (dv_call d = CallIdle \<or> dv_call d = CallDone Delivered))"

definition may_signal :: "body_terminal \<Rightarrow> delivery \<Rightarrow> bool" where
  "may_signal t d =
     (dv_sender d \<and> (case dv_call d of CallIdle \<Rightarrow> True | CallDone x \<Rightarrow> x \<noteq> DeliveryDeadline \<or> t \<noteq> BodyEnd | _ \<Rightarrow> False))"

section \<open>The reader's side\<close>

text \<open>What the body yields once the channel is empty and the worker gone.\<close>

fun body_end_of :: "body_terminal option \<Rightarrow> body_end" where
  "body_end_of (Some BodyEnd) = CleanEnd"
| "body_end_of (Some (BodyFailure reason)) = ErrorEnd reason"
| "body_end_of None = ErrorEnd ''upstream worker ended before body EOF''"

definition body_recv :: "delivery \<Rightarrow> delivery" where
  "body_recv d =
     (case dv_queue d of
        [] \<Rightarrow> d
      | x # xs \<Rightarrow> if dv_receiver d then d\<lparr>dv_queue := xs, dv_held := dv_held d @ [x], dv_read := dv_read d @ x\<rparr> else d)"

definition body_terminate :: "delivery \<Rightarrow> delivery" where
  "body_terminate d =
     (if dv_receiver d \<and> dv_queue d = [] \<and> \<not> dv_sender d \<and> dv_end d = None
      then d\<lparr>dv_end := Some (body_end_of (dv_terminal d))\<rparr> else d)"

definition body_close :: "delivery \<times> metrics \<Rightarrow> delivery \<times> metrics" where
  "body_close s = fold release_bytes (dv_queue (fst s)) ((fst s)\<lparr>dv_receiver := False, dv_queue := []\<rparr>, snd s)"

fun delivery_exec :: "delivery_op \<Rightarrow> delivery \<times> metrics \<Rightarrow> (delivery \<times> metrics) option" where
  "delivery_exec (DvCall source) s = Some (if may_deliver (fst s) then (deliver_start source (fst s), snd s) else s)"
| "delivery_exec DvPermit s = deliver_permit s"
| "delivery_exec DvSend s = Some (deliver_send s)"
| "delivery_exec DvDeadline s =
     Some (case dv_call (fst s) of
             CallPermit _ \<Rightarrow> end_call (CallDone DeliveryDeadline) s
           | CallSend _ _ \<Rightarrow> end_call (CallDone DeliveryDeadline) s
           | _ \<Rightarrow> s)"
| "delivery_exec DvClosed s =
     Some (case dv_call (fst s) of
             CallPermit (_ # _) \<Rightarrow> if dv_receiver (fst s) then s else end_call (CallDone DeliveryClosed) s
           | _ \<Rightarrow> s)"
| "delivery_exec (DvSignal t) s =
     Some (if may_signal t (fst s) then (deliver_signal t (fst s), snd s) else s)"
| "delivery_exec DvReturn s =
     Some (let (d, m) = end_call CallIdle s in (d\<lparr>dv_sender := False\<rparr>, m))"
| "delivery_exec DvRecv s = Some (body_recv (fst s), snd s)"
| "delivery_exec (DvRelease i) s =
     Some (if i < length (dv_held (fst s))
           then release_bytes (dv_held (fst s) ! i) ((fst s)\<lparr>dv_held := remove_at i (dv_held (fst s))\<rparr>, snd s)
           else s)"
| "delivery_exec DvTerminal s = Some (body_terminate (fst s), snd s)"
| "delivery_exec DvClose s = Some (body_close s)"

section \<open>All responses together\<close>

record deliveries =
  ds_streams :: "delivery list"
  ds_metrics :: metrics

datatype deliveries_op = DsOpen | DsRun nat delivery_op

fun deliveries_exec :: "deliveries_op \<Rightarrow> deliveries \<Rightarrow> deliveries option" where
  "deliveries_exec DsOpen s = Some (s\<lparr>ds_streams := ds_streams s @ [delivery_new]\<rparr>)"
| "deliveries_exec (DsRun i x) s =
     (if i < length (ds_streams s)
      then map_option (\<lambda>(d, m). s\<lparr>ds_streams := (ds_streams s)[i := d], ds_metrics := m\<rparr>)
             (delivery_exec x (ds_streams s ! i, ds_metrics s))
      else Some s)"

inductive deliveries_run :: "nat \<Rightarrow> deliveries \<Rightarrow> bool" where
  deliveries_initial: "deliveries_run 0 \<lparr>ds_streams = [], ds_metrics = metrics_new\<rparr>"
| deliveries_step: "deliveries_run n s \<Longrightarrow> deliveries_exec x s = Some s' \<Longrightarrow> deliveries_run (Suc n) s'"

end
