(* ===== verification/Response_Delivery_Facts.thy ===== *)
theory Response_Delivery_Facts
  imports Response_Delivery
begin

text \<open>
  What the delivery of a response promises: bounded memory, bytes in order, a clean end only after
  everything was read, and a call that ends.
\<close>

section \<open>Slices\<close>

lemma chunks_concat: "0 < n \<Longrightarrow> concat (chunks n xs) = xs"
  by (induction n xs rule: chunks.induct) (subst chunks.simps, simp)

lemma chunks_bounds: "x \<in> set (chunks n xs) \<Longrightarrow> x \<noteq> [] \<and> length x \<le> n"
  by (induction n xs rule: chunks.induct) (subst (asm) (2) chunks.simps, auto split: if_splits)

lemma chunks_count: "0 < n \<Longrightarrow> n * length (chunks n xs) < length xs + n"
proof (induction n xs rule: chunks.induct)
  case (1 n xs)
  show ?case
  proof (cases "xs = []")
    case False
    with 1 have h: "n * length (chunks n (drop n xs)) < length (drop n xs) + n" "chunks n xs = take n xs # chunks n (drop n xs)"
      by (simp, subst chunks.simps, simp)
    show ?thesis
    proof (cases "n \<le> length xs")
      case True
      with h show ?thesis by simp
    next
      case small: False
      then have "chunks n (drop n xs) = []" by (subst chunks.simps) simp
      with h(2) False show ?thesis by simp
    qed
  qed (use 1 in \<open>subst chunks.simps, simp\<close>)
qed

section \<open>The invariant of one response\<close>

fun slices :: "deliver_call \<Rightarrow> string list" where
  "slices (CallPermit xs) = xs"
| "slices (CallSend x xs) = x # xs"
| "slices _ = []"

fun call_bytes :: "deliver_call \<Rightarrow> nat" where
  "call_bytes (CallSend x _) = length x"
| "call_bytes _ = 0"

fun in_call :: "deliver_call \<Rightarrow> bool" where
  "in_call (CallPermit _) = True"
| "in_call (CallSend _ _) = True"
| "in_call _ = False"

text \<open>Bytes that hold permits: queued, read but not dropped, or about to be queued.\<close>

definition outstanding :: "delivery \<Rightarrow> nat" where
  "outstanding d = sum_list (map length (dv_queue d)) + sum_list (map length (dv_held d)) + call_bytes (dv_call d)"

definition sent_bytes :: "delivery \<Rightarrow> string" where
  "sent_bytes d = dv_read d @ concat (dv_queue d) @ concat (slices (dv_call d))"

definition delivery_inv :: "delivery \<Rightarrow> bool" where
  "delivery_inv d =
     (dv_budget d + outstanding d = DELIVERY_BYTES \<and> length (dv_queue d) \<le> DELIVERY_ITEMS
      \<and> (\<forall>x\<in>set (slices (dv_call d)). x \<noteq> [] \<and> length x \<le> DELIVERY_CHUNK_BYTES)
      \<and> prefix (dv_read d @ concat (dv_queue d)) (dv_offered d)
      \<and> (dv_receiver d \<and> dv_sender d \<and> dv_call d \<noteq> CallDone DeliveryDeadline \<longrightarrow> sent_bytes d = dv_offered d)
      \<and> (dv_receiver d \<and> dv_terminal d = Some BodyEnd \<longrightarrow> sent_bytes d = dv_offered d)
      \<and> (dv_end d = Some CleanEnd \<longrightarrow> dv_terminal d = Some BodyEnd \<and> dv_read d = dv_offered d \<and> dv_queue d = [] \<and> \<not> dv_sender d)
      \<and> (\<not> dv_sender d \<longrightarrow> dv_call d = CallIdle) \<and> (dv_call d = CallDone DeliveryClosed \<longrightarrow> \<not> dv_receiver d)
      \<and> (dv_terminal d \<noteq> None \<longrightarrow> \<not> in_call (dv_call d)) \<and> (\<not> dv_receiver d \<longrightarrow> dv_queue d = []))"

lemma delivery_new_inv: "delivery_inv delivery_new" "outstanding delivery_new = 0"
  by (simp_all add: delivery_inv_def delivery_new_def outstanding_def sent_bytes_def)

abbreviation (input) gauge :: "metrics \<Rightarrow> 64 word" where
  "gauge \<equiv> m_queued_response_bytes"

lemma release_fold:
  "fold release_bytes xs (d, m) =
     (d\<lparr>dv_budget := dv_budget d + sum_list (map length xs)\<rparr>, fold (\<lambda>x. queued_bytes_removed (length x)) xs m)"
  by (induction xs arbitrary: d m) (simp_all add: release_bytes_def ac_simps)

lemma removed_fold: "gauge (fold (\<lambda>x. queued_bytes_removed (length x)) xs m) = gauge m - of_nat (sum_list (map length xs))"
  "m_max_queued_response_bytes (fold (\<lambda>x. queued_bytes_removed (length x)) xs m) = m_max_queued_response_bytes m"
  by (induction xs arbitrary: m) (simp_all add: queued_bytes_removed_def)

text \<open>An operation that does not queue bytes never panics, and the counter follows what is outstanding.\<close>

definition follows :: "delivery \<times> metrics \<Rightarrow> delivery \<times> metrics \<Rightarrow> bool" where
  "follows s s' =
     (delivery_inv (fst s') \<and> gauge (snd s') + of_nat (outstanding (fst s)) = gauge (snd s) + of_nat (outstanding (fst s'))
      \<and> m_max_queued_response_bytes (snd s') = m_max_queued_response_bytes (snd s))"

lemma end_call_simps:
  "end_call c (d, m) = (case dv_call d of CallSend x _ \<Rightarrow> (d\<lparr>dv_budget := dv_budget d + length x, dv_call := c\<rparr>, queued_bytes_removed (length x) m)
     | _ \<Rightarrow> (d\<lparr>dv_call := c\<rparr>, m))"
  by (cases "dv_call d") (simp_all add: end_call_def release_bytes_def)

lemma end_call_follows:
  assumes inv: "delivery_inv d" and c: "\<not> in_call c" "c = CallDone DeliveryClosed \<longrightarrow> \<not> dv_receiver d" "c \<noteq> CallDone Delivered"
    and b: "c = CallIdle \<longrightarrow> \<not> b" "\<not> b \<longrightarrow> c = CallIdle" "b \<longrightarrow> dv_sender d" "in_call (dv_call d) \<or> \<not> b"
  shows "follows (d, m) ((fst (end_call c (d, m)))\<lparr>dv_sender := b\<rparr>, snd (end_call c (d, m)))"
proof -
  have cs: "c = CallIdle \<or> c = CallDone DeliveryClosed \<or> c = CallDone DeliveryDeadline"
  proof (cases c)
    case (CallDone x)
    with c(3) show ?thesis by (cases x) simp_all
  qed (use c(1) in simp_all)
  show ?thesis
proof (cases "dv_call d")
  case CallIdle
  with assms show ?thesis by (auto simp: end_call_simps follows_def delivery_inv_def outstanding_def sent_bytes_def)
next
  case (CallPermit xs)
  have "call_bytes c = 0" "slices c = []" using c(1) by (cases c; simp)+
  with CallPermit assms cs show ?thesis
    by (auto simp: end_call_simps follows_def delivery_inv_def outstanding_def sent_bytes_def)
next
  case (CallSend x xs)
  have "call_bytes c = 0" "slices c = []" using c(1) by (cases c; simp)+
  with CallSend assms cs show ?thesis
    by (auto simp: end_call_simps follows_def delivery_inv_def outstanding_def sent_bytes_def queued_bytes_removed_def)
next
  case (CallDone x)
  have "call_bytes c = 0" "slices c = []" using c(1) by (cases c; simp)+
  with CallDone assms cs show ?thesis
    by (auto simp: end_call_simps follows_def delivery_inv_def outstanding_def sent_bytes_def)
qed
qed

lemma sender_same: "dv_sender d \<Longrightarrow> (fst (end_call c (d, m)))\<lparr>dv_sender := True\<rparr> = fst (end_call c (d, m))"
  by (cases "dv_call d") (simp_all add: end_call_simps)

lemma in_call_sender: "delivery_inv d \<Longrightarrow> in_call (dv_call d) \<Longrightarrow> dv_sender d"
  unfolding delivery_inv_def by (metis in_call.simps(3))

lemma follows_refl: "delivery_inv (fst s) \<Longrightarrow> follows s s"
  by (simp add: follows_def)

lemma deliver_start_follows:
  assumes "delivery_inv d" "may_deliver d"
  shows "follows (d, m) (deliver_start x d, m)"
proof -
  have "0 < DELIVERY_CHUNK_BYTES" by (simp add: DELIVERY_CHUNK_BYTES_def)
  then have c: "concat (chunks DELIVERY_CHUNK_BYTES x) = x" by (rule chunks_concat)
  have b: "\<forall>y\<in>set (chunks DELIVERY_CHUNK_BYTES x). y \<noteq> [] \<and> length y \<le> DELIVERY_CHUNK_BYTES" using chunks_bounds by blast
  have "call_bytes (dv_call d) = 0" "slices (dv_call d) = []" using assms(2) by (auto simp: may_deliver_def)
  with assms b show ?thesis
    by (simp add: may_deliver_def deliver_start_def follows_def delivery_inv_def outstanding_def sent_bytes_def c prefix_append) auto
qed

lemma deliver_send_follows:
  assumes inv: "delivery_inv d"
  shows "follows (d, m) (deliver_send (d, m))"
proof (cases "dv_call d")
  case (CallSend x xs)
  show ?thesis
  proof (cases "dv_receiver d")
    case True
    with CallSend inv have "prefix (dv_read d @ concat (dv_queue d) @ x) (dv_offered d)"
      by (auto simp: delivery_inv_def sent_bytes_def intro: prefixI [of _ _ "concat xs"])
    with True CallSend inv show ?thesis
      by (auto simp: deliver_send_def follows_def delivery_inv_def outstanding_def sent_bytes_def)
  next
    case False
    have s: "dv_sender d" using inv CallSend by (auto simp: delivery_inv_def)
    from end_call_follows [OF inv, of "CallDone DeliveryClosed" True m, unfolded sender_same [OF s]] False s CallSend show ?thesis
      by (simp add: deliver_send_def)
  qed
qed (use inv follows_refl [of "(d, m)"] in \<open>simp_all add: deliver_send_def\<close>)

lemma body_recv_follows:
  assumes inv: "delivery_inv d"
  shows "follows (d, m) (body_recv d, m)"
proof (cases "dv_queue d")
  case (Cons x xs)
  with inv show ?thesis by (auto simp: body_recv_def follows_def delivery_inv_def outstanding_def sent_bytes_def)
qed (use inv follows_refl [of "(d, m)"] in \<open>simp add: body_recv_def\<close>)

lemma body_close_follows:
  assumes inv: "delivery_inv d"
  shows "follows (d, m) (body_close (d, m))"
proof -
  have "prefix (dv_read d) (dv_offered d)" using inv by (auto simp: delivery_inv_def intro: append_prefixD)
  with inv show ?thesis
    by (auto simp: body_close_def release_fold removed_fold follows_def delivery_inv_def outstanding_def sent_bytes_def)
qed

lemma release_follows:
  assumes inv: "delivery_inv d" and i: "i < length (dv_held d)"
  shows "follows (d, m) (release_bytes (dv_held d ! i) (d\<lparr>dv_held := remove_at i (dv_held d)\<rparr>, m))"
proof -
  obtain X Y where "dv_held d = X @ dv_held d ! i # Y" "remove_at i (dv_held d) = X @ Y" using nth_decomp [OF i] by metis
  then have "sum_list (map length (dv_held d)) = length (dv_held d ! i) + sum_list (map length (remove_at i (dv_held d)))"
    by (metis (no_types, lifting) add.left_commute list.simps(9) map_append sum_list.Cons sum_list.append)
  with inv show ?thesis
    by (auto simp: release_bytes_def follows_def delivery_inv_def outstanding_def sent_bytes_def queued_bytes_removed_def)
qed

lemma delivery_exec_follows:
  assumes inv: "delivery_inv d" and x: "x \<noteq> DvPermit"
  shows "\<exists>s'. delivery_exec x (d, m) = Some s' \<and> follows (d, m) s'"
proof (cases x)
  case DvDeadline
  show ?thesis
  proof (cases "in_call (dv_call d)")
    case True
    have s: "dv_sender d" using in_call_sender [OF inv] True by blast
    from end_call_follows [OF inv, of "CallDone DeliveryDeadline" True m, unfolded sender_same [OF s]] s True DvDeadline show ?thesis
      by (cases "dv_call d") simp_all
  next
    case False
    with DvDeadline follows_refl [of "(d, m)"] inv show ?thesis by (cases "dv_call d") simp_all
  qed
next
  case DvClosed
  show ?thesis
  proof (cases "in_call (dv_call d) \<and> \<not> dv_receiver d")
    case True
    have s: "dv_sender d" using in_call_sender [OF inv] True by blast
    from end_call_follows [OF inv, of "CallDone DeliveryClosed" True m, unfolded sender_same [OF s]] s True DvClosed follows_refl [of "(d, m)"] inv show ?thesis
      by (cases "dv_call d") (auto split: list.split)
  next
    case False
    with DvClosed follows_refl [of "(d, m)"] inv show ?thesis by (cases "dv_call d") (auto split: list.split)
  qed
next
  case DvReturn
  from end_call_follows [OF inv, of CallIdle False m] DvReturn show ?thesis by (simp add: split_def Let_def)
next
  case (DvSignal t)
  with inv show ?thesis
    by (cases "dv_call d") (auto simp: may_signal_def deliver_signal_def follows_def delivery_inv_def outstanding_def sent_bytes_def)
next
  case DvTerminal
  have "body_end_of t = CleanEnd \<Longrightarrow> t = Some BodyEnd" for t by (cases t rule: body_end_of.cases) simp_all
  with DvTerminal inv show ?thesis
    by (auto simp: body_terminate_def follows_def delivery_inv_def outstanding_def sent_bytes_def)
qed (use x inv follows_refl [of "(d, m)"] deliver_start_follows [OF inv] deliver_send_follows [OF inv] body_recv_follows [OF inv]
    release_follows [OF inv] body_close_follows [OF inv] in auto)

lemma deliver_permit_inv:
  assumes inv: "delivery_inv d"
  shows "deliver_permit (d, m) = None \<longleftrightarrow>
      (\<exists>x xs. dv_call d = CallPermit (x # xs) \<and> length x \<le> dv_budget d \<and> u64_max < unat (gauge m) + length x)"
    "deliver_permit (d, m) = Some (d', m') \<Longrightarrow> delivery_inv d'
       \<and> gauge m' + of_nat (outstanding d) = gauge m + of_nat (outstanding d')
       \<and> (m_max_queued_response_bytes m' = m_max_queued_response_bytes m \<and> outstanding d' = outstanding d
          \<or> m_max_queued_response_bytes m' = max (m_max_queued_response_bytes m) (gauge m'))"
proof -
  have le: "length x \<le> u32_max" if "dv_call d = CallPermit (x # xs)" for x xs
    using inv that by (auto simp: delivery_inv_def DELIVERY_CHUNK_BYTES_def u32_max_def)
  show "deliver_permit (d, m) = None \<longleftrightarrow>
      (\<exists>x xs. dv_call d = CallPermit (x # xs) \<and> length x \<le> dv_budget d \<and> u64_max < unat (gauge m) + length x)"
    using le by (auto simp: deliver_permit_def queued_bytes_added_def Let_def checked_add_def not_le not_less split: deliver_call.splits list.splits if_splits)
  assume s: "deliver_permit (d, m) = Some (d', m')"
  show "delivery_inv d' \<and> gauge m' + of_nat (outstanding d) = gauge m + of_nat (outstanding d')
       \<and> (m_max_queued_response_bytes m' = m_max_queued_response_bytes m \<and> outstanding d' = outstanding d
          \<or> m_max_queued_response_bytes m' = max (m_max_queued_response_bytes m) (gauge m'))"
  proof (cases "\<exists>x xs. dv_call d = CallPermit (x # xs) \<and> length x \<le> dv_budget d")
    case True
    then obtain x xs where x: "dv_call d = CallPermit (x # xs)" "length x \<le> dv_budget d" by blast
    with s le [OF x(1)] have d': "d' = d\<lparr>dv_budget := dv_budget d - length x, dv_call := CallSend x xs\<rparr>"
      and m': "queued_bytes_added (length x) m = Some m'" by (auto simp: deliver_permit_def)
    have g: "gauge m' = gauge m + of_nat (length x)" "m_max_queued_response_bytes m' = max (m_max_queued_response_bytes m) (gauge m')"
      using m' by (auto simp: queued_bytes_added_def Let_def checked_add_def split: if_splits)
    have "delivery_inv d'" "outstanding d' = outstanding d + length x"
      using inv x by (auto simp: d' delivery_inv_def outstanding_def sent_bytes_def)
    with g show ?thesis by simp
  next
    case False
    with s inv le show ?thesis
      by (auto simp: deliver_permit_def delivery_inv_def outstanding_def sent_bytes_def split: deliver_call.splits list.splits if_splits)
  qed
qed

section \<open>All responses together\<close>

definition queued_total :: "delivery list \<Rightarrow> nat" where
  "queued_total ds = sum_list (map outstanding ds)"

definition deliveries_inv :: "deliveries \<Rightarrow> bool" where
  "deliveries_inv s =
     (list_all delivery_inv (ds_streams s) \<and> gauge (ds_metrics s) = of_nat (queued_total (ds_streams s))
      \<and> unat (m_max_queued_response_bytes (ds_metrics s)) \<le> length (ds_streams s) * DELIVERY_BYTES)"

lemma outstanding_le: "delivery_inv d \<Longrightarrow> outstanding d \<le> DELIVERY_BYTES"
  unfolding delivery_inv_def by linarith

lemma queued_total_le: "list_all delivery_inv ds \<Longrightarrow> queued_total ds \<le> length ds * DELIVERY_BYTES"
  by (induction ds) (use outstanding_le in \<open>fastforce simp: queued_total_def\<close>)+

lemma queued_total_update:
  "i < length ds \<Longrightarrow> queued_total (ds[i := d]) + outstanding (ds ! i) = queued_total ds + outstanding d"
  by (induction ds arbitrary: i) (auto simp: queued_total_def nth_Cons split: nat.splits)

lemma unat_gauge:
  assumes "deliveries_inv s" "length (ds_streams s) * DELIVERY_BYTES \<le> u64_max"
  shows "unat (gauge (ds_metrics s)) = queued_total (ds_streams s)"
proof -
  have "queued_total (ds_streams s) \<le> u64_max" using assms queued_total_le [of "ds_streams s"] by (simp add: deliveries_inv_def)
  then show ?thesis using assms(1) by (simp add: deliveries_inv_def unat_of_nat u64_max_def)
qed

lemma deliveries_exec_inv:
  assumes inv: "deliveries_inv s" and n: "length (ds_streams s) * DELIVERY_BYTES \<le> u64_max"
  shows "\<exists>s'. deliveries_exec x s = Some s' \<and> deliveries_inv s'"
proof (cases x)
  case DsOpen
  with inv delivery_new_inv show ?thesis by (simp add: deliveries_inv_def queued_total_def)
next
  case (DsRun i y)
  show ?thesis
  proof (cases "i < length (ds_streams s)")
    case True
    let ?ds = "ds_streams s" and ?m = "ds_metrics s"
    let ?d = "?ds ! i"
    have d: "delivery_inv ?d" using inv True by (simp add: deliveries_inv_def list_all_length)
    have upd: "gauge m' = of_nat (queued_total (?ds[i := d']))"
      if "gauge m' + of_nat (outstanding ?d) = gauge ?m + of_nat (outstanding d')" for d' m'
    proof -
      have "of_nat (queued_total (?ds[i := d']) + outstanding ?d) = (of_nat (queued_total ?ds + outstanding d') :: 64 word)"
        using queued_total_update [OF True, of d'] by simp
      with that inv show ?thesis by (simp add: deliveries_inv_def) (metis add_right_cancel)
    qed
    have all: "list_all delivery_inv (?ds[i := d'])" if "delivery_inv d'" for d'
      using inv that by (auto simp: deliveries_inv_def list_all_iff dest!: set_update_subset_insert [THEN subsetD])
    show ?thesis
    proof (cases "y = DvPermit")
      case y: True
      have "outstanding ?d + length x \<le> DELIVERY_BYTES \<and> queued_total ?ds + length x \<le> length ?ds * DELIVERY_BYTES"
        if "length x \<le> dv_budget ?d" for x :: string
      proof -
        have o: "outstanding ?d + length x \<le> DELIVERY_BYTES" using d that unfolding delivery_inv_def by linarith
        obtain X Y where ds: "?ds = X @ ?d # Y" using nth_decomp [OF True] by metis
        have "list_all delivery_inv (X @ ?d # Y)" using inv unfolding ds [symmetric] by (simp add: deliveries_inv_def)
        then have "queued_total X \<le> length X * DELIVERY_BYTES" "queued_total Y \<le> length Y * DELIVERY_BYTES"
          by (simp_all add: queued_total_le)
        moreover have "queued_total ?ds = queued_total X + outstanding ?d + queued_total Y" "length ?ds = Suc (length X + length Y)"
          by (subst ds, simp add: queued_total_def)+
        ultimately show ?thesis using o by (simp add: algebra_simps)
      qed
      note room = this
      have "deliver_permit (?d, ?m) \<noteq> None"
        unfolding deliver_permit_inv(1) [OF d] unat_gauge [OF inv n] using room n by fastforce
      then obtain d' m' where p: "deliver_permit (?d, ?m) = Some (d', m')" by auto
      note q = deliver_permit_inv(2) [OF d p]
      have inv': "list_all delivery_inv (?ds[i := d'])" "gauge m' = of_nat (queued_total (?ds[i := d']))" using q upd all by blast+
      have le: "queued_total (?ds[i := d']) \<le> length ?ds * DELIVERY_BYTES" using queued_total_le [OF inv'(1)] by simp
      have "unat (gauge m') \<le> queued_total (?ds[i := d'])" unfolding inv'(2) by (simp add: unat_of_nat)
      then have "unat (m_max_queued_response_bytes m') \<le> length ?ds * DELIVERY_BYTES"
        using q inv le by (auto simp: deliveries_inv_def max_def)
      with p inv' y True DsRun show ?thesis by (simp add: deliveries_inv_def)
    next
      case y: False
      obtain d' m' where f: "delivery_exec y (?d, ?m) = Some (d', m')" "follows (?d, ?m) (d', m')"
        using delivery_exec_follows [OF d y, of ?m] by (metis surj_pair)
      with upd all inv True DsRun show ?thesis by (simp add: follows_def deliveries_inv_def)
    qed
  qed (use DsRun inv in simp)
qed

lemma deliveries_streams: "deliveries_run n s \<Longrightarrow> length (ds_streams s) \<le> n"
proof (induction rule: deliveries_run.induct)
  case (deliveries_step n s x s')
  then show ?case by (cases x) (auto split: if_splits)
qed simp

lemma deliveries_run_inv:
  assumes "deliveries_run n s" "n * DELIVERY_BYTES \<le> u64_max"
  shows "deliveries_inv s"
  using assms
proof (induction rule: deliveries_run.induct)
  case deliveries_initial
  show ?case by (simp add: deliveries_inv_def queued_total_def metrics_new_def)
next
  case (deliveries_step n s x s')
  then have i: "deliveries_inv s" by simp
  have "length (ds_streams s) * DELIVERY_BYTES \<le> Suc n * DELIVERY_BYTES"
    using deliveries_streams [OF deliveries_step.hyps(1)] by (intro mult_le_mono1) simp
  also note deliveries_step.prems
  finally have "length (ds_streams s) * DELIVERY_BYTES \<le> u64_max" .
  from deliveries_exec_inv [OF i this, of x] deliveries_step.hyps(2) show ?case by auto
qed

section \<open>A call with a reader ends\<close>

text \<open>One slice, with a reader that takes and drops it at once.\<close>

definition eager_round :: "delivery \<times> metrics \<Rightarrow> (delivery \<times> metrics) option" where
  "eager_round s = do { s1 \<leftarrow> delivery_exec DvPermit s; s2 \<leftarrow> delivery_exec DvSend s1; s3 \<leftarrow> delivery_exec DvRecv s2; delivery_exec (DvRelease 0) s3 }"

fun eager :: "nat \<Rightarrow> delivery \<times> metrics \<Rightarrow> (delivery \<times> metrics) option" where
  "eager 0 s = delivery_exec DvPermit s"
| "eager (Suc n) s = do { s1 \<leftarrow> eager_round s; eager n s1 }"

lemma eager_slices:
  assumes "delivery_inv d" "dv_receiver d" "dv_queue d = []" "dv_held d = []" "dv_call d = CallPermit xs"
    "unat (gauge m) + DELIVERY_CHUNK_BYTES \<le> u64_max"
  shows "\<exists>m'. eager (length xs) (d, m) = Some (d\<lparr>dv_call := CallDone Delivered, dv_read := dv_read d @ concat xs\<rparr>, m') \<and> gauge m' = gauge m"
  using assms
proof (induction xs arbitrary: d m)
  case Nil
  then show ?case by (simp add: deliver_permit_def)
next
  case (Cons x xs)
  have b: "dv_budget d = DELIVERY_BYTES" "length x \<le> DELIVERY_CHUNK_BYTES"
    using Cons.prems by (auto simp: delivery_inv_def outstanding_def)
  have c: "length x \<le> u32_max" "length x \<le> DELIVERY_BYTES" "unat (gauge m) + length x \<le> u64_max"
    using b(2) Cons.prems(6) by (simp_all add: DELIVERY_CHUNK_BYTES_def DELIVERY_BYTES_def u32_max_def)
  let ?m1 = "m\<lparr>m_queued_response_bytes := gauge m + of_nat (length x)\<rparr>"
  let ?m2 = "?m1\<lparr>m_max_queued_response_bytes := max (m_max_queued_response_bytes m) (of_nat (unat (gauge m) + length x))\<rparr>"
  let ?d = "d\<lparr>dv_call := CallPermit xs, dv_read := dv_read d @ x\<rparr>"
  let ?m = "queued_bytes_removed (length x) ?m2"
  have r: "eager_round (d, m) = Some (?d, ?m)"
    using b c Cons.prems
    by (simp add: eager_round_def deliver_permit_def deliver_send_def body_recv_def release_bytes_def queued_bytes_added_def
        Let_def checked_add_def DELIVERY_ITEMS_def remove_at_def)
  have "delivery_inv ?d"
    using Cons.prems by (auto simp: delivery_inv_def outstanding_def sent_bytes_def intro: prefixI [of _ _ "concat xs"])
  moreover have g: "gauge ?m = gauge m" by (simp add: queued_bytes_removed_def)
  ultimately obtain m' where m': "eager (length xs) (?d, ?m) = Some (?d\<lparr>dv_call := CallDone Delivered, dv_read := dv_read ?d @ concat xs\<rparr>, m')"
    "gauge m' = gauge ?m" using Cons.IH [of ?d ?m] Cons.prems by auto
  show ?case by (rule exI [of _ m']) (use r m' g in simp)
qed

section \<open>The promises\<close>


text \<open>
  C8: the client reads exactly what the worker passed on.  At any moment the bytes a reader got are
  a prefix of the bytes offered to it; the body ends without an error only after the worker said
  that the response was complete, and then the reader got every byte.
\<close>

theorem delivery_in_order:
  assumes "deliveries_run n s" "n * DELIVERY_BYTES \<le> u64_max" "d \<in> set (ds_streams s)"
  shows "prefix (dv_read d) (dv_offered d)
    \<and> (dv_end d = Some CleanEnd \<longrightarrow> dv_terminal d = Some BodyEnd \<and> dv_read d = dv_offered d)"
proof -
  have "delivery_inv d" using deliveries_run_inv [OF assms(1,2)] assms(3) by (simp add: deliveries_inv_def list_all_iff)
  then show ?thesis by (auto simp: delivery_inv_def intro: append_prefixD)
qed


section \<open>Witnesses\<close>

definition demo_delivery_ops :: "deliveries_op list" where
  "demo_delivery_ops =
     [DsOpen, DsRun 0 (DvCall ''abc''), DsRun 0 DvPermit, DsRun 0 DvSend, DsOpen, DsRun 1 (DvCall ''de''), DsRun 1 DvPermit,
      DsRun 0 DvPermit, DsRun 0 (DvSignal BodyEnd), DsRun 0 DvReturn, DsRun 0 DvRecv, DsRun 0 DvTerminal]"

fun run_deliveries :: "deliveries_op list \<Rightarrow> deliveries \<Rightarrow> deliveries option" where
  "run_deliveries [] s = Some s"
| "run_deliveries (x # xs) s = do { s1 \<leftarrow> deliveries_exec x s; run_deliveries xs s1 }"

lemma run_deliveries_run: "deliveries_run n s \<Longrightarrow> run_deliveries xs s = Some s' \<Longrightarrow> deliveries_run (n + length xs) s'"
proof (induction xs arbitrary: n s)
  case (Cons x xs)
  then obtain s1 where s1: "deliveries_exec x s = Some s1" "run_deliveries xs s1 = Some s'" by (auto simp: Option.bind_eq_Some_conv)
  from Cons.IH [OF deliveries_step [OF Cons.prems(1) s1(1)] s1(2)] show ?case by simp
qed simp

definition demo_deliveries :: deliveries where
  "demo_deliveries = the (run_deliveries demo_delivery_ops \<lparr>ds_streams = [], ds_metrics = metrics_new\<rparr>)"

lemma demo_deliveries_run: "deliveries_run 12 demo_deliveries"
proof -
  have "run_deliveries demo_delivery_ops \<lparr>ds_streams = [], ds_metrics = metrics_new\<rparr> \<noteq> None" by code_simp
  then have "run_deliveries demo_delivery_ops \<lparr>ds_streams = [], ds_metrics = metrics_new\<rparr> = Some demo_deliveries"
    by (auto simp: demo_deliveries_def)
  from run_deliveries_run [OF deliveries_initial this] show ?thesis by (simp add: demo_delivery_ops_def eval_nat_numeral)
qed


theorem delivery_in_order_witness:
  "map dv_end (ds_streams demo_deliveries) = [Some CleanEnd, None] \<and> dv_read (ds_streams demo_deliveries ! 0) = ''abc''
   \<and> dv_offered (ds_streams demo_deliveries ! 0) = ''abc''"
proof -
  have "12 * DELIVERY_BYTES \<le> u64_max" by code_simp
  moreover have "0 < length (ds_streams demo_deliveries)" by code_simp
  then have "ds_streams demo_deliveries ! 0 \<in> set (ds_streams demo_deliveries)" by (rule nth_mem)
  ultimately have o: "dv_end (ds_streams demo_deliveries ! 0) = Some CleanEnd \<longrightarrow>
      dv_read (ds_streams demo_deliveries ! 0) = dv_offered (ds_streams demo_deliveries ! 0)"
    using delivery_in_order [OF demo_deliveries_run] by blast
  have "map dv_end (ds_streams demo_deliveries) = [Some CleanEnd, None]" "dv_end (ds_streams demo_deliveries ! 0) = Some CleanEnd"
    "dv_read (ds_streams demo_deliveries ! 0) = ''abc''" by code_simp+
  with o show ?thesis by simp
qed


end
