(* ===== verification/Spec2Isabelle.thy ===== *)
theory Spec2Isabelle
  imports Ledger_Window Stream_Grammar Protocol_Usage_Facts Admission_Contract Sse_Reference Circuit_Contract Exact_Cache_Contract
    Request_Contract Front_Contract Gateway_Contract Response_Delivery_Facts
begin

text \<open>
  A verification development of the quota gateway under \<^verbatim>\<open>src/product/src\<close>: a local proxy that
  admits the requests of several clients (\<^emph>\<open>roots\<close>) to one upstream model service within request, token
  and concurrency limits, protects the upstream with a circuit breaker, replays exact repetitions
  from a cache, and accounts for what the responses report as used.

  \<^bold>\<open>The way of a request.\<close>  The head of a request is checked and routed (\<^verbatim>\<open>server.rs\<close>, \<^verbatim>\<open>protocol/mod.rs\<close>,
  \<^verbatim>\<open>transport/headers.rs\<close>), its body is read against a byte budget (\<^verbatim>\<open>transport/body_budget.rs\<close>) and inspected
  for its model and cost (\<^verbatim>\<open>protocol/request.rs\<close>), the headers are prepared for the upstream, the cache
  is asked (\<^verbatim>\<open>cache.rs\<close>), the circuit breaker and the admission queue are waited for (\<^verbatim>\<open>circuit.rs\<close>,
  \<^verbatim>\<open>admission/\<close>), and the response is observed while it is delivered (\<^verbatim>\<open>transport/stream.rs\<close>,
  \<^verbatim>\<open>protocol/\<close>): its usage settles the reservation, its errors move the circuit breaker, its complete
  bytes fill the cache.

  \<^bold>\<open>Conventions.\<close>  A struct is a record, an enum a datatype, a method a function from the old to the new
  state.  Machine integers are natural numbers with their bounds written out: checked, saturating
  and wrapping operations are those of \<open>Rust_Prelude\<close>, and a result \<open>None\<close> of a state-changing
  operation is a panic, so that the theorems named \<open>never_panics\<close> say that every assertion, index,
  subtraction and checked addition succeeds; the atomic counters of the metrics are 64-bit words that
  wrap.  A reading of the clock is an argument, time a number of
  nanoseconds.  Code of other crates is a parameter (\<open>http_libs\<close>, \<open>header_libs\<close>, \<open>url_libs\<close>,
  \<open>config_libs\<close>, SHA-256, the iteration order of hash maps), with what is relied on as named
  hypotheses.  Shared state behind a mutex is a system: a record of the state and of the objects
  that use it, one operation per critical section, executed in any order; the reachable states
  cover every interleaving of the tasks, their cancellation included.

  \<^bold>\<open>Theories.\<close>
  \<^item> \<open>Rust_Prelude\<close>: arithmetic, durations, lists, strings and UTF-8 of the standard library; the
    locales \<open>guarded_system\<close> (operations that keep an invariant, interpreted by every system
    below) and \<open>checked_owner\<close> (a resource that is checked before it is taken, between the queue and the
    ledger).
  \<^item> \<open>Gateway_Config\<close>: \<^verbatim>\<open>config.rs\<close>, \<^verbatim>\<open>config/validate.rs\<close>, \<^verbatim>\<open>input_estimate.rs\<close>; validation is sound.
  \<^item> \<open>Ledger\<close>, \<open>Ledger_Window\<close>: \<^verbatim>\<open>admission/quota.rs\<close>; bounds, settlement, wake-up times, and the sliding
    window over arbitrary histories.
  \<^item> \<open>Fair_Queue\<close>, \<open>Fair_Queue_Drive\<close>, \<open>Fair_Queue_Contract\<close>: \<^verbatim>\<open>admission/queue.rs\<close>; order, protection of
    old heads, work conservation, exact wake-up, recovery and back-off.
  \<^item> \<open>Json_Value\<close>, \<open>Http_Headers\<close>: JSON documents; \<^verbatim>\<open>admission/retry.rs\<close> and \<^verbatim>\<open>admission/feedback.rs\<close>.
  \<^item> \<open>Admission\<close>, \<open>Reservation_Ownership\<close>, \<open>Admission_System\<close>, \<open>Admission_Contract\<close>: \<^verbatim>\<open>admission/mod.rs\<close>;
    every reservation has one owner, no panic, no lost waiter, no stranded probe.
  \<^item> \<open>Response_Shape\<close>, \<open>Stream_Grammar\<close>: which requests may be cached and which streams are complete
    (\<^verbatim>\<open>cache.rs\<close> from line 576); the automaton accepts exactly the documented grammar.
  \<^item> \<open>Protocol_Usage\<close>, \<open>Protocol_Usage_Facts\<close>: the observers under \<^verbatim>\<open>protocol/\<close>; streamed and complete
    responses report the same usage, errors are final.
  \<^item> \<open>Sse_Decoder\<close>, \<open>Sse_Reference\<close>: the event decoder of \<^verbatim>\<open>transport/stream.rs\<close> refines splitting the whole
    stream, whatever the chunks, within fixed memory.
  \<^item> \<open>Key_Frames\<close>, \<open>Circuit\<close>, \<open>Circuit_Contract\<close>: \<^verbatim>\<open>circuit.rs\<close>; exact counts, no panic, every half-open gate is
    decided.
  \<^item> \<open>Shared_Permits\<close>: semaphore permits owned by reference-counted values, with the locale
    \<open>permit_owner\<close> as its interface; \<open>Body_Budget\<close>: \<^verbatim>\<open>transport/body_budget.rs\<close>.
  \<^item> \<open>Transport_Headers\<close>: \<^verbatim>\<open>transport/headers.rs\<close>; what reaches the upstream.
  \<^item> \<open>Exact_Cache\<close>, \<open>Exact_Cache_Facts\<close>, \<open>Exact_Cache_Contract\<close>: \<^verbatim>\<open>cache.rs\<close> up to line 574; memory, single
    flight, exact replay, keys.
  \<^item> \<open>Request_Inspection\<close>, \<open>Request_Contract\<close>: \<^verbatim>\<open>protocol/request.rs\<close>; the single pass agrees with a
    reference, accepted costs fit the ledger.
  \<^item> \<open>Request_Routing\<close>, \<open>Front_Contract\<close>: routing and URLs of \<^verbatim>\<open>protocol/mod.rs\<close>, \<^verbatim>\<open>control.rs\<close>, and the start
    of \<^verbatim>\<open>handle_request\<close> with secrets and start-up checks of \<^verbatim>\<open>server.rs\<close>.
  \<^item> \<open>Metrics\<close>: \<^verbatim>\<open>metrics.rs\<close>, with the text of the status document.
  \<^item> \<open>Gateway_World\<close>, \<open>Gateway_World_Facts\<close>: the state all tasks share (\<^verbatim>\<open>AppState\<close>) and every locked call
    into it, with what a task owns (tickets, reservations, attempts, cache entries) as claims.  The
    locale \<open>framed\<close> gives the rules of total-correctness triples with a frame, and is interpreted
    on the invariants of the components.
  \<^item> \<open>Forward_Worker\<close>: the worker of a request, \<^verbatim>\<open>forward\<close> in \<^verbatim>\<open>transport/stream.rs\<close>, as a state machine over its
    suspension points.  \<open>Forward_Facts\<close>: no step panics or loses a claim; \<open>Forward_Trace\<close>: what was
    sent, received and passed on; \<open>Forward_Books\<close>: its share of the counters.
  \<^item> \<open>Request_Pipeline\<close>, \<open>Request_Pipeline_Facts\<close>: \<^verbatim>\<open>handle_request\<close> from the body on: cache, circuit,
    queue, worker, reply.
  \<^item> \<open>Gateway_System\<close>, \<open>Gateway_Contract\<close>: any number of connections and workers in any order; no
    panic, the concurrency limit on the wire, nothing left behind, exact counters.
  \<^item> \<open>Response_Delivery\<close>, \<open>Response_Delivery_Facts\<close>: \<^verbatim>\<open>deliver\<close>, \<^verbatim>\<open>queued_bytes\<close> and \<^verbatim>\<open>downstream_body\<close>; memory,
    order and end of what a client reads.

  \<^bold>\<open>Fuel and bounds.\<close>  The loop of \<^verbatim>\<open>Queue::drive\<close> and the loop that makes room in the cache carry fuel, one
  more than the number of waiting requests and of stored entries; the theorems on them show that the
  fuel suffices.  The cache theorems hold for fewer than \<open>2^64 - 1\<close> operations, the range of the
  unchecked counters of the source; a step of the whole gateway makes at most three of them, so its
  theorems hold for \<open>n\<close> steps with \<open>3 * n \<le> 2^64 - 1\<close>.  The counter of queued bytes is exact while the
  number of responses times 64 KiB fits in 64 bits.

  \<^bold>\<open>Not modelled.\<close>  Console and files (\<^verbatim>\<open>cli.rs\<close>, \<^verbatim>\<open>setup/\<close>, \<^verbatim>\<open>clients/\<close>, \<^verbatim>\<open>config_patch/\<close>, \<^verbatim>\<open>file_replace.rs\<close>),
  services and processes of the operating system (\<^verbatim>\<open>autostart/\<close>, \<^verbatim>\<open>lifecycle/\<close>), the HTTP client and the
  sockets (\<^verbatim>\<open>transport/upstream.rs\<close>, \<^verbatim>\<open>transport/windows_disconnect.rs\<close>, the serving part of \<^verbatim>\<open>server.rs\<close>).
  Timers and sockets are events: that a deadline is noticed in time is the business of the runtime.
\<close>

end
